(* ===== verification/Kprelude.thy ===== *)
theory Kprelude
  imports Main "HOL-Library.Word"
begin

text \<open>
  Shared vocabulary of the development.

  \<^item> C types: \<open>uint\<close>, \<open>ushort\<close>, \<open>uchar\<close> (src/types.h) are words of their width; a C
    \<open>int\<close> is an \<open>int\<close> and \<open>i32\<close> writes out the two's-complement wrap-around of i386 where
    the source can overflow.
  \<^item> Kernel code: an operation is a function from a state to an \<open>outcome\<close>: it returns
    (\<open>Ok\<close>), stops the machine (\<open>Panic\<close>, the kernel's \<open>panic()\<close>), or gives up the CPU in the
    middle (\<open>Blocked\<close>, a \<open>swtch\<close> into the scheduler). \<open>bnd\<close> and \<open>sqn\<close> sequence operations.
  \<^item> \<open>keeps I m\<close>: the operation \<open>m\<close> keeps the invariant \<open>I\<close>, with introduction rules for every
    combinator collected in \<open>keeps_intros\<close>.
  \<^item> Byte stores: little-endian 16 and 32 bit fields of a block of bytes, as the casts of
    \<open>src/fs.c\<close>, \<open>src/log.c\<close> and \<open>src/vm.c\<close> use them.
\<close>

unbundle bit_operations_syntax

named_theorems keeps_intros
named_theorems run_simps

type_synonym uint = "32 word"
type_synonym ushort = "16 word"
type_synonym uchar = "8 word"

section \<open>C integers\<close>

definition i32 :: "int \<Rightarrow> int" where
  "i32 x = (x + 2147483648) mod 4294967296 - 2147483648"

definition INT_MAX :: int where
  "INT_MAX = 2147483647"

lemma i32_id: "- 2147483648 \<le> x \<Longrightarrow> x \<le> 2147483647 \<Longrightarrow> i32 x = x"
  by (simp add: i32_def)

lemma i32_nonneg_id: "0 \<le> x \<Longrightarrow> x \<le> INT_MAX \<Longrightarrow> i32 x = x"
  by (simp add: i32_id INT_MAX_def)

lemma i32_range: "- 2147483648 \<le> i32 x \<and> i32 x \<le> 2147483647"
  unfolding i32_def
  using pos_mod_bound[of 4294967296 "x + 2147483648"] pos_mod_sign[of 4294967296 "x + 2147483648"]
  by linarith

lemma i32_plus_left: "i32 (i32 x + y) = i32 (x + y)"
proof -
  have 1: "i32 x + y + 2147483648 = (x + 2147483648) mod 4294967296 + y"
    by (simp add: i32_def)
  have 2: "((x + 2147483648) mod 4294967296 + y) mod 4294967296 = (x + 2147483648 + y) mod 4294967296"
    by (rule mod_add_left_eq)
  have 3: "x + 2147483648 + y = x + y + 2147483648"
    by simp
  show ?thesis
    by (simp only: i32_def [of "i32 x + y"] i32_def [of "x + y"] 1 2 3)
qed

text \<open>Unsigned 32-bit arithmetic as arithmetic on naturals.\<close>

lemma u32_bound: "unat (a :: uint) < 4294967296"
  using unsigned_less [where w = a and ?'a = nat] by simp

lemma u32_add: "unat (a + b :: uint) = (unat a + unat b) mod 4294967296"
  by (simp add: unat_word_ariths)

lemma u32_mult: "unat (a * b :: uint) = (unat a * unat b) mod 4294967296"
  by (simp add: unat_word_ariths)

lemma u32_sub: "unat (a - b :: uint) = (unat a + (4294967296 - unat b)) mod 4294967296"
proof (cases "b \<le> a")
  case True
  then have le: "unat b \<le> unat a" and "unat (a - b) = unat a - unat b"
    by (simp_all add: word_le_nat_alt unat_sub)
  moreover have "unat a + (4294967296 - unat b) = (unat a - unat b) + 4294967296"
    using le u32_bound [of b] by simp
  ultimately show ?thesis
    using u32_bound [of a] mod_add_self2 [of "unat a - unat b" "4294967296 :: nat"]
    by (metis less_imp_diff_less mod_less)
next
  case False
  then have lt: "unat a < unat b" by (simp add: word_le_nat_alt)
  have "unat (a - b) = unat a + 4294967296 - unat b"
    using lt by (simp add: unat_sub_if' word_le_nat_alt)
  with lt u32_bound [of b] show ?thesis by simp
qed

lemma u32_of_nat: "unat (of_nat n :: uint) = n mod 4294967296"
  by (simp add: unat_of_nat)

lemma u32_mod: "unat (a mod b :: uint) = unat a mod unat b"
  by (rule unat_mod)

lemma u32_eq: "a = b \<longleftrightarrow> unat (a :: uint) = unat b"
  by (simp add: word_unat_eq_iff)

lemmas u32_arith = u32_add u32_sub u32_mult u32_of_nat u32_mod word_le_nat_alt word_less_nat_alt

section \<open>Outcomes of kernel code\<close>

datatype ('a, 's) outcome = Ok 'a 's | Panic string | Blocked 's

type_synonym ('s, 'a) kmon = "'s \<Rightarrow> ('a, 's) outcome"

definition ret :: "'a \<Rightarrow> ('s, 'a) kmon" where
  "ret x s = Ok x s"

definition bnd :: "('s, 'a) kmon \<Rightarrow> ('a \<Rightarrow> ('s, 'b) kmon) \<Rightarrow> ('s, 'b) kmon" where
  "bnd m k s = (case m s of Ok x s' \<Rightarrow> k x s' | Panic e \<Rightarrow> Panic e | Blocked s' \<Rightarrow> Blocked s')"

definition sqn :: "('s, 'a) kmon \<Rightarrow> ('s, 'b) kmon \<Rightarrow> ('s, 'b) kmon" where
  "sqn m n = bnd m (\<lambda>_. n)"

definition gets :: "('s \<Rightarrow> 'a) \<Rightarrow> ('s, 'a) kmon" where
  "gets f s = Ok (f s) s"

definition modify :: "('s \<Rightarrow> 's) \<Rightarrow> ('s, unit) kmon" where
  "modify f s = Ok () (f s)"

definition panic :: "string \<Rightarrow> ('s, 'a) kmon" where
  "panic msg s = Panic msg"

definition block :: "('s, 'a) kmon" where
  "block s = Blocked s"

definition whenM :: "bool \<Rightarrow> ('s, unit) kmon \<Rightarrow> ('s, unit) kmon" where
  "whenM b m = (if b then m else ret ())"

text \<open>A brace-enclosed list of statements, and a counted loop.\<close>

primrec stmts :: "('s, unit) kmon list \<Rightarrow> ('s, unit) kmon" where
  "stmts [] = ret ()"
| "stmts (m # ms) = sqn m (stmts ms)"

primrec forM :: "'i list \<Rightarrow> ('i \<Rightarrow> ('s, unit) kmon) \<Rightarrow> ('s, unit) kmon" where
  "forM [] f = ret ()"
| "forM (i # is) f = sqn (f i) (forM is f)"

lemmas mon_defs = ret_def bnd_def sqn_def gets_def modify_def panic_def block_def whenM_def

lemma ret_run [simp]: "ret x s = Ok x s" by (simp add: ret_def)
lemma gets_run [simp]: "gets f s = Ok (f s) s" by (simp add: gets_def)
lemma modify_run [simp]: "modify f s = Ok () (f s)" by (simp add: modify_def)
lemma panic_run [simp]: "panic e s = Panic e" by (simp add: panic_def)
lemma block_run [simp]: "block s = Blocked s" by (simp add: block_def)

lemma bnd_run: "bnd m k s = (case m s of Ok x s' \<Rightarrow> k x s' | Panic e \<Rightarrow> Panic e | Blocked s' \<Rightarrow> Blocked s')"
  by (simp add: bnd_def)

lemma bnd_Ok [simp]: "m s = Ok x s' \<Longrightarrow> bnd m k s = k x s'"
  by (simp add: bnd_def)
lemma bnd_Panic [simp]: "m s = Panic e \<Longrightarrow> bnd m k s = Panic e"
  by (simp add: bnd_def)
lemma bnd_Blocked [simp]: "m s = Blocked s' \<Longrightarrow> bnd m k s = Blocked s'"
  by (simp add: bnd_def)

lemma sqn_Ok [simp]: "m s = Ok x s' \<Longrightarrow> sqn m n s = n s'"
  by (simp add: sqn_def)
lemma sqn_Panic [simp]: "m s = Panic e \<Longrightarrow> sqn m n s = Panic e"
  by (simp add: sqn_def)
lemma sqn_Blocked [simp]: "m s = Blocked s' \<Longrightarrow> sqn m n s = Blocked s'"
  by (simp add: sqn_def)

lemma bnd_Ok_iff: "bnd m k s = Ok y t \<longleftrightarrow> (\<exists>x s'. m s = Ok x s' \<and> k x s' = Ok y t)"
  by (simp add: bnd_def split: outcome.split)
lemma sqn_Ok_iff: "sqn m n s = Ok y t \<longleftrightarrow> (\<exists>x s'. m s = Ok x s' \<and> n s' = Ok y t)"
  by (simp add: sqn_def bnd_Ok_iff)
lemma whenM_run [simp]: "whenM b m s = (if b then m s else Ok () s)"
  by (simp add: whenM_def)

text \<open>The states in which an operation leaves the CPU, by returning or by going to sleep.\<close>

definition reaches :: "('s, 'a) kmon \<Rightarrow> 's \<Rightarrow> 's \<Rightarrow> bool" where
  "reaches m s s' \<longleftrightarrow> (\<exists>x. m s = Ok x s') \<or> m s = Blocked s'"

text \<open>Running a block from its first statement: the bundle that steps through an operation.\<close>

lemma bnd_steps [simp]:
  "bnd (ret x) k s = k x s"
  "bnd (gets f) k s = k (f s) s"
  "bnd (modify g) k' s = k' () (g s)"
  "bnd (panic e) k s = Panic e"
  "bnd (bnd j h) k s = bnd j (\<lambda>x. bnd (h x) k) s"
  "bnd (sqn j m) k s = sqn j (bnd m k) s"
  "bnd (if b then m else n) k s = (if b then bnd m k s else bnd n k s)"
  "bnd (whenM b u) k' s = (if b then bnd u k' s else k' () s)"
  by (simp_all add: bnd_def sqn_def split: outcome.split)

lemma sqn_steps [simp]:
  "sqn (ret x) n s = n s"
  "sqn (modify g) n s = n (g s)"
  "sqn (panic e) n s = Panic e"
  "sqn (bnd m h) n s = bnd m (\<lambda>x. sqn (h x) n) s"
  "sqn (sqn m h') n s = sqn m (sqn h' n) s"
  "sqn (if b then m else m') n s = (if b then sqn m n s else sqn m' n s)"
  "sqn (whenM b u) n s = (if b then sqn u n s else n s)"
  by (simp_all add: bnd_def sqn_def split: outcome.split)

lemma bnd_case_option [simp]:
  "bnd (case z of None \<Rightarrow> m | Some y \<Rightarrow> h y) k s = (case z of None \<Rightarrow> bnd m k s | Some y \<Rightarrow> bnd (h y) k s)"
  by (simp split: option.split)

lemma sqn_case_option [simp]:
  "sqn (case z of None \<Rightarrow> m | Some y \<Rightarrow> h y) n s = (case z of None \<Rightarrow> sqn m n s | Some y \<Rightarrow> sqn (h y) n s)"
  by (simp split: option.split)

lemma sqn_ret_unit [simp]: "sqn m (ret ()) s = m s" for m :: "('s, unit) kmon"
  by (simp add: bnd_def sqn_def split: outcome.split)

section \<open>Keeping an invariant\<close>

definition keeps :: "('s \<Rightarrow> bool) \<Rightarrow> ('s, 'a) kmon \<Rightarrow> bool" where
  "keeps I m \<longleftrightarrow> (\<forall>s. I s \<longrightarrow> (case m s of Ok _ s' \<Rightarrow> I s' | Panic _ \<Rightarrow> True | Blocked s' \<Rightarrow> I s'))"

lemma keepsI:
  assumes "\<And>s x s'. I s \<Longrightarrow> m s = Ok x s' \<Longrightarrow> I s'"
    and "\<And>s s'. I s \<Longrightarrow> m s = Blocked s' \<Longrightarrow> I s'"
  shows "keeps I m"
  unfolding keeps_def
proof (intro allI impI)
  fix s
  assume I: "I s"
  show "case m s of Ok _ s' \<Rightarrow> I s' | Panic _ \<Rightarrow> True | Blocked s' \<Rightarrow> I s'"
  proof (cases "m s")
    case (Ok x s')
    from assms(1) [OF I Ok] Ok show ?thesis by simp
  next
    case (Blocked s')
    from assms(2) [OF I Blocked] Blocked show ?thesis by simp
  qed simp
qed

lemma keeps_Ok: "keeps I m \<Longrightarrow> I s \<Longrightarrow> m s = Ok x s' \<Longrightarrow> I s'"
  unfolding keeps_def by (drule spec [of _ s]) simp

lemma keeps_Blocked: "keeps I m \<Longrightarrow> I s \<Longrightarrow> m s = Blocked s' \<Longrightarrow> I s'"
  unfolding keeps_def by (drule spec [of _ s]) simp

lemma keeps_ret [keeps_intros]: "keeps I (ret x)"
  by (simp add: keeps_def)

lemma keeps_gets [keeps_intros]: "keeps I (gets f)"
  by (simp add: keeps_def)

lemma keeps_panic [keeps_intros]: "keeps I (panic e)"
  by (simp add: keeps_def)

lemma keeps_block [keeps_intros]: "keeps I block"
  by (simp add: keeps_def)

lemma keeps_modify: "(\<And>s. I s \<Longrightarrow> I (f s)) \<Longrightarrow> keeps I (modify f)"
  by (simp add: keeps_def)

lemma keeps_bnd [keeps_intros]:
  assumes "keeps I m" and "\<And>x. keeps I (k x)"
  shows "keeps I (bnd m k)"
proof (rule keepsI)
  fix s x s'
  assume "I s" and "bnd m k s = Ok x s'"
  then obtain y t where "m s = Ok y t" and "k y t = Ok x s'"
    by (auto simp: bnd_Ok_iff)
  then show "I s'"
    using keeps_Ok [OF assms(1) \<open>I s\<close>] keeps_Ok [OF assms(2)] by blast
next
  fix s s'
  assume "I s" and "bnd m k s = Blocked s'"
  then consider "m s = Blocked s'" | y t where "m s = Ok y t" "k y t = Blocked s'"
    by (auto simp: bnd_def split: outcome.splits)
  then show "I s'"
  proof cases
    case 1
    then show ?thesis by (rule keeps_Blocked [OF assms(1) \<open>I s\<close>])
  next
    case (2 y t)
    then show ?thesis
      using keeps_Ok [OF assms(1) \<open>I s\<close>] keeps_Blocked [OF assms(2)] by blast
  qed
qed

lemma keeps_sqn [keeps_intros]: "keeps I m \<Longrightarrow> keeps I n \<Longrightarrow> keeps I (sqn m n)"
  unfolding sqn_def by (rule keeps_bnd)

lemma keeps_if [keeps_intros]: "(b \<Longrightarrow> keeps I m) \<Longrightarrow> (\<not> b \<Longrightarrow> keeps I n) \<Longrightarrow> keeps I (if b then m else n)"
  by simp

lemma keeps_whenM [keeps_intros]: "(b \<Longrightarrow> keeps I m) \<Longrightarrow> keeps I (whenM b m)"
  by (simp add: whenM_def keeps_ret)

lemma keeps_option [keeps_intros]:
  "(x = None \<Longrightarrow> keeps I m) \<Longrightarrow> (\<And>y. x = Some y \<Longrightarrow> keeps I (n y))
    \<Longrightarrow> keeps I (case x of None \<Rightarrow> m | Some y \<Rightarrow> n y)"
  by (cases x) simp_all

lemma keeps_stmts_Nil [keeps_intros]: "keeps I (stmts [])"
  by (simp add: keeps_ret)

lemma keeps_stmts_Cons [keeps_intros]: "keeps I m \<Longrightarrow> keeps I (stmts ms) \<Longrightarrow> keeps I (stmts (m # ms))"
  by (simp add: keeps_sqn)

lemma keeps_let [keeps_intros]: "(\<And>x. keeps I (f x)) \<Longrightarrow> keeps I (Let x f)"
  by simp

lemma keeps_prod [keeps_intros]: "(\<And>a b. keeps I (f a b)) \<Longrightarrow> keeps I (case p of (a, b) \<Rightarrow> f a b)"
  by (cases p) simp

lemma keeps_list [keeps_intros]:
  "keeps I m \<Longrightarrow> (\<And>y ys. keeps I (n y ys)) \<Longrightarrow> keeps I (case xs of [] \<Rightarrow> m | y # ys \<Rightarrow> n y ys)"
  by (cases xs) simp_all

lemma keeps_forM [keeps_intros]: "(\<And>i. i \<in> set is \<Longrightarrow> keeps I (f i)) \<Longrightarrow> keeps I (forM is f)"
  by (induction "is") (auto intro: keeps_ret keeps_sqn)

lemma forM_append: "forM (is @ js) f s = sqn (forM is f) (forM js f) s"
  by (induction "is" arbitrary: s) (simp_all add: sqn_def bnd_def split: outcome.split)

section \<open>Tables searched in order\<close>

text \<open>
  The kernel's tables are arrays scanned from the first slot; \<open>first_idx\<close> is the index such a
  scan stops at.
\<close>

fun first_idx :: "('a \<Rightarrow> bool) \<Rightarrow> 'a list \<Rightarrow> nat option" where
  "first_idx P [] = None"
| "first_idx P (x # xs) = (if P x then Some 0 else map_option Suc (first_idx P xs))"

lemma first_idx_None_iff: "first_idx P xs = None \<longleftrightarrow> (\<forall>x \<in> set xs. \<not> P x)"
  by (induction xs) auto

lemma first_idx_SomeD:
  "first_idx P xs = Some i \<Longrightarrow> i < length xs \<and> P (xs ! i) \<and> (\<forall>j < i. \<not> P (xs ! j))"
proof (induction xs arbitrary: i)
  case Nil
  then show ?case by simp
next
  case (Cons x xs)
  show ?case
  proof (cases "P x")
    case True
    with Cons.prems show ?thesis by simp
  next
    case False
    with Cons.prems obtain k where k: "first_idx P xs = Some k" "i = Suc k" by auto
    with Cons.IH[OF k(1)] False show ?thesis by (auto simp: nth_Cons split: nat.splits)
  qed
qed

lemma first_idx_exists: "x \<in> set xs \<Longrightarrow> P x \<Longrightarrow> \<exists>i. first_idx P xs = Some i"
  by (metis first_idx_None_iff not_None_eq)

lemma first_idx_SomeI:
  assumes "i < length xs" and "P (xs ! i)" and "\<And>j. j < i \<Longrightarrow> \<not> P (xs ! j)"
  shows "first_idx P xs = Some i"
proof -
  obtain k where k: "first_idx P xs = Some k"
    using assms first_idx_exists by (metis nth_mem)
  with first_idx_SomeD[OF k] assms have "k = i"
    by (metis linorder_neqE_nat)
  with k show ?thesis by simp
qed

section \<open>Byte stores\<close>

type_synonym bytes = "nat \<Rightarrow> uchar"

definition get16 :: "bytes \<Rightarrow> nat \<Rightarrow> ushort" where
  "get16 b k = ucast (b k) OR push_bit 8 (ucast (b (k + 1)))"

definition put16 :: "bytes \<Rightarrow> nat \<Rightarrow> ushort \<Rightarrow> bytes" where
  "put16 b k v = b(k := ucast v, k + 1 := ucast (drop_bit 8 v))"

definition get32 :: "bytes \<Rightarrow> nat \<Rightarrow> uint" where
  "get32 b k = ucast (b k) OR push_bit 8 (ucast (b (k + 1)))
     OR push_bit 16 (ucast (b (k + 2))) OR push_bit 24 (ucast (b (k + 3)))"

definition put32 :: "bytes \<Rightarrow> nat \<Rightarrow> uint \<Rightarrow> bytes" where
  "put32 b k v = b(k := ucast v, k + 1 := ucast (drop_bit 8 v),
     k + 2 := ucast (drop_bit 16 v), k + 3 := ucast (drop_bit 24 v))"

lemma get16_put16 [simp]: "get16 (put16 b k v) k = v"
  by (rule bit_word_eqI) (auto simp: get16_def put16_def bit_simps)

lemma get32_put32 [simp]: "get32 (put32 b k v) k = v"
proof (rule bit_word_eqI)
  fix n
  assume "n < LENGTH(32)"
  then consider "n < 8" | "8 \<le> n" "n < 16" | "16 \<le> n" "n < 24" | "24 \<le> n" "n < 32"
    by force
  then show "bit (get32 (put32 b k v) k) n = bit v n"
    by cases (auto simp: get32_def put32_def bit_simps)
qed

lemma get16_put16_other: "k + 2 \<le> j \<or> j + 2 \<le> k \<Longrightarrow> get16 (put16 b k v) j = get16 b j"
  by (auto simp: get16_def put16_def)

lemma get16_put32_other: "k + 4 \<le> j \<or> j + 2 \<le> k \<Longrightarrow> get16 (put32 b k v) j = get16 b j"
  by (auto simp: get16_def put32_def)

lemma get32_put16_other: "k + 2 \<le> j \<or> j + 4 \<le> k \<Longrightarrow> get32 (put16 b k v) j = get32 b j"
  by (auto simp: get32_def put16_def)

lemma get32_put32_other: "k + 4 \<le> j \<or> j + 4 \<le> k \<Longrightarrow> get32 (put32 b k v) j = get32 b j"
  by (auto simp: get32_def put32_def)

lemmas get_put_other = get16_put16_other get16_put32_other get32_put16_other get32_put32_other

end
