(* ===== verification/Cstring.thy ===== *)
theory Cstring
  imports Kprelude
begin

text \<open>
  Byte strings: src/string.c (the kernel's) and the string routines of src/ulib.c (user space).

  A block of memory is a function from addresses to bytes (\<open>bytes\<close>). \<open>memmove\<close> works inside one
  block, so that overlapping ranges are covered; the routines that read one string and write
  another take the two blocks separately. A loop that counts \<open>n\<close> down is recursion on \<open>n\<close>;
  a loop that only stops at a NUL is \<open>partial_function (option)\<close>, \<open>None\<close> being a run past the
  end of memory. The string a pointer denotes is the list \<open>cstr\<close>.
\<close>

section \<open>Kernel routines (string.c)\<close>

text \<open>
  \<open>memset\<close> has a fast path that stores four copies of the byte at a time when the address and
  the count are multiples of four, and a byte path otherwise.
\<close>

fun stosb :: "bytes \<Rightarrow> nat \<Rightarrow> uchar \<Rightarrow> nat \<Rightarrow> bytes" where
  "stosb m a c 0 = m"
| "stosb m a c (Suc n) = stosb (m(a := c)) (a + 1) c n"

fun stosl :: "bytes \<Rightarrow> nat \<Rightarrow> uint \<Rightarrow> nat \<Rightarrow> bytes" where
  "stosl m a v 0 = m"
| "stosl m a v (Suc n) = stosl (put32 m a v) (a + 4) v n"

definition memset :: "bytes \<Rightarrow> nat \<Rightarrow> int \<Rightarrow> nat \<Rightarrow> bytes" where
  "memset m dst c n =
     (if dst mod 4 = 0 \<and> n mod 4 = 0 then
        let b = (word_of_int c :: uint) AND 0xFF
        in stosl m dst (push_bit 24 b OR push_bit 16 b OR push_bit 8 b OR b) (n div 4)
      else stosb m dst (word_of_int c) n)"

fun memcmp :: "bytes \<Rightarrow> nat \<Rightarrow> nat \<Rightarrow> nat \<Rightarrow> int" where
  "memcmp m s1 s2 0 = 0"
| "memcmp m s1 s2 (Suc n) =
     (if m s1 \<noteq> m s2 then uint (m s1) - uint (m s2) else memcmp m (s1 + 1) (s2 + 1) n)"

fun copy_up :: "bytes \<Rightarrow> nat \<Rightarrow> nat \<Rightarrow> nat \<Rightarrow> bytes" where
  "copy_up m d s 0 = m"
| "copy_up m d s (Suc n) = copy_up (m(d := m s)) (d + 1) (s + 1) n"

fun copy_down :: "bytes \<Rightarrow> nat \<Rightarrow> nat \<Rightarrow> nat \<Rightarrow> bytes" where
  "copy_down m d s 0 = m"
| "copy_down m d s (Suc n) = copy_down (m(d - 1 := m (s - 1))) (d - 1) (s - 1) n"

definition memmove :: "bytes \<Rightarrow> nat \<Rightarrow> nat \<Rightarrow> nat \<Rightarrow> bytes" where
  "memmove m dst src n =
     (if src < dst \<and> src + n > dst then copy_down m (dst + n) (src + n) n
      else copy_up m dst src n)"

text \<open>The same loop where the two ranges lie in different objects, each a byte store of its own.\<close>

fun memmove_from :: "bytes \<Rightarrow> nat \<Rightarrow> bytes \<Rightarrow> nat \<Rightarrow> nat \<Rightarrow> bytes" where
  "memmove_from d i s j 0 = d"
| "memmove_from d i s j (Suc n) = memmove_from (d(i := s j)) (i + 1) s (j + 1) n"

fun strncmp :: "bytes \<Rightarrow> nat \<Rightarrow> bytes \<Rightarrow> nat \<Rightarrow> nat \<Rightarrow> int" where
  "strncmp mp p mq q 0 = 0"
| "strncmp mp p mq q (Suc n) =
     (if mp p \<noteq> 0 \<and> mp p = mq q then strncmp mp (p + 1) mq (q + 1) n
      else uint (mp p) - uint (mq q))"

fun strncpy_pad :: "bytes \<Rightarrow> nat \<Rightarrow> nat \<Rightarrow> bytes" where
  "strncpy_pad d s 0 = d"
| "strncpy_pad d s (Suc n) = strncpy_pad (d(s := 0)) (s + 1) n"

fun strncpy_copy :: "bytes \<Rightarrow> nat \<Rightarrow> bytes \<Rightarrow> nat \<Rightarrow> nat \<Rightarrow> bytes" where
  "strncpy_copy d s src t 0 = d"
| "strncpy_copy d s src t (Suc n) =
     (if src t \<noteq> 0 then strncpy_copy (d(s := src t)) (s + 1) src (t + 1) n
      else strncpy_pad (d(s := src t)) (s + 1) n)"

definition strncpy :: "bytes \<Rightarrow> nat \<Rightarrow> bytes \<Rightarrow> nat \<Rightarrow> int \<Rightarrow> bytes" where
  "strncpy d s src t n = strncpy_copy d s src t (nat n)"

fun safestrcpy_loop :: "bytes \<Rightarrow> nat \<Rightarrow> bytes \<Rightarrow> nat \<Rightarrow> nat \<Rightarrow> bytes" where
  "safestrcpy_loop d s src t 0 = d(s := 0)"
| "safestrcpy_loop d s src t (Suc n) =
     (if src t \<noteq> 0 then safestrcpy_loop (d(s := src t)) (s + 1) src (t + 1) n
      else (d(s := src t))(s + 1 := 0))"

definition safestrcpy :: "bytes \<Rightarrow> nat \<Rightarrow> bytes \<Rightarrow> nat \<Rightarrow> int \<Rightarrow> bytes" where
  "safestrcpy d s src t n = (if n \<le> 0 then d else safestrcpy_loop d s src t (nat n - 1))"

partial_function (option) strlen_from :: "bytes \<Rightarrow> nat \<Rightarrow> nat \<Rightarrow> nat option" where
  "strlen_from m s n = (if m (s + n) = 0 then Some n else strlen_from m s (n + 1))"

definition strlen :: "bytes \<Rightarrow> nat \<Rightarrow> nat option" where
  "strlen m s = strlen_from m s 0"

section \<open>User-space routines (ulib.c)\<close>

partial_function (option) strcpy :: "bytes \<Rightarrow> nat \<Rightarrow> bytes \<Rightarrow> nat \<Rightarrow> bytes option" where
  "strcpy d s src t =
     (if src t \<noteq> 0 then strcpy (d(s := src t)) (s + 1) src (t + 1) else Some (d(s := src t)))"

partial_function (option) strcmp :: "bytes \<Rightarrow> nat \<Rightarrow> bytes \<Rightarrow> nat \<Rightarrow> int option" where
  "strcmp mp p mq q =
     (if mp p \<noteq> 0 \<and> mp p = mq q then strcmp mp (p + 1) mq (q + 1)
      else Some (uint (mp p) - uint (mq q)))"

partial_function (option) strchr :: "bytes \<Rightarrow> nat \<Rightarrow> uchar \<Rightarrow> nat option option" where
  "strchr m s c =
     (if m s \<noteq> 0 then (if m s = c then Some (Some s) else strchr m (s + 1) c) else Some None)"

definition ulib_memset :: "bytes \<Rightarrow> nat \<Rightarrow> int \<Rightarrow> nat \<Rightarrow> bytes" where
  "ulib_memset m dst c n = stosb m dst (word_of_int c) n"

definition ulib_memmove :: "bytes \<Rightarrow> nat \<Rightarrow> nat \<Rightarrow> int \<Rightarrow> bytes" where
  "ulib_memmove m vdst vsrc n = copy_up m vdst vsrc (nat n)"

text \<open>\<open>char\<close> is signed on i386, but the digits are below 128.\<close>

partial_function (option) atoi_loop :: "bytes \<Rightarrow> nat \<Rightarrow> int \<Rightarrow> int option" where
  "atoi_loop m s n =
     (if 48 \<le> sint (m s) \<and> sint (m s) \<le> 57
      then atoi_loop m (s + 1) (i32 (i32 (i32 (n * 10) + sint (m s)) - 48))
      else Some n)"

definition atoi :: "bytes \<Rightarrow> nat \<Rightarrow> int option" where
  "atoi m s = atoi_loop m s 0"

section \<open>The string behind a pointer\<close>

text \<open>The first \<open>n\<close> bytes at \<open>p\<close>, and the characters among them before the first NUL.\<close>

definition span :: "bytes \<Rightarrow> nat \<Rightarrow> nat \<Rightarrow> uchar list" where
  "span m p n = map m [p..<p + n]"

definition cstr :: "bytes \<Rightarrow> nat \<Rightarrow> nat \<Rightarrow> uchar list" where
  "cstr m p n = takeWhile (\<lambda>c. c \<noteq> 0) (span m p n)"

lemma span_0 [simp]: "span m p 0 = []"
  by (simp add: span_def)

lemma span_Suc: "span m p (Suc n) = m p # span m (p + 1) n"
proof -
  have "[p..<p + Suc n] = p # [p + 1..<p + 1 + n]"
    by (simp add: upt_conv_Cons)
  then show ?thesis by (simp add: span_def)
qed

lemma length_span [simp]: "length (span m p n) = n"
  by (simp add: span_def)

lemma span_const: "(\<And>x. p \<le> x \<Longrightarrow> x < p + n \<Longrightarrow> m x = c) \<Longrightarrow> span m p n = replicate n c"
  by (induction n arbitrary: p) (simp_all add: span_Suc)

lemma cstr_0 [simp]: "cstr m p 0 = []"
  by (simp add: cstr_def)

lemma cstr_Suc: "cstr m p (Suc n) = (if m p = 0 then [] else m p # cstr m (p + 1) n)"
  by (simp add: cstr_def span_Suc)

lemma cstr_length_le: "length (cstr m p n) \<le> n"
  by (metis cstr_def length_span length_takeWhile_le)

section \<open>Filling\<close>

lemma stosb_apply: "stosb m a c n = (\<lambda>x. if a \<le> x \<and> x < a + n then c else m x)"
proof (induction n arbitrary: m a)
  case 0
  then show ?case by (auto simp: fun_eq_iff)
next
  case (Suc n)
  show ?case by (rule ext) (auto simp: Suc.IH)
qed

lemma put32_splat:
  fixes b :: uchar
  defines "w \<equiv> ucast b :: uint"
  shows "put32 m a (push_bit 24 w OR push_bit 16 w OR push_bit 8 w OR w)
           = (\<lambda>x. if a \<le> x \<and> x < a + 4 then b else m x)"
proof -
  let ?v = "push_bit 24 w OR push_bit 16 w OR push_bit 8 w OR w"
  have byte: "(ucast (drop_bit k ?v) :: uchar) = b" if "k \<in> {0, 8, 16, 24}" for k
    using that unfolding w_def by (intro bit_word_eqI) (auto simp: bit_simps dest: bit_imp_le_length)
  from byte[of 0] byte[of 8] byte[of 16] byte[of 24] show ?thesis
    by (auto simp: put32_def fun_eq_iff)
qed

lemma stosl_splat:
  fixes b :: uchar
  defines "w \<equiv> ucast b :: uint"
  shows "stosl m a (push_bit 24 w OR push_bit 16 w OR push_bit 8 w OR w) n
           = (\<lambda>x. if a \<le> x \<and> x < a + 4 * n then b else m x)"
proof (induction n arbitrary: m a)
  case 0
  then show ?case by (auto simp: fun_eq_iff)
next
  case (Suc n)
  show ?case
    by (rule ext) (auto simp: Suc.IH put32_splat [of m a b, folded w_def])
qed

section \<open>Copying\<close>

lemma copy_up_apply:
  "d \<le> s \<or> s + n \<le> d \<Longrightarrow>
     copy_up m d s n = (\<lambda>x. if d \<le> x \<and> x < d + n then m (s + (x - d)) else m x)"
proof (induction n arbitrary: m d s)
  case 0
  then show ?case by (auto simp: fun_eq_iff)
next
  case (Suc n)
  then have "Suc d \<le> Suc s \<or> Suc s + n \<le> Suc d" by auto
  note IH = Suc.IH [OF this, of "m(d := m s)"]
  show ?case
    using Suc.prems by (intro ext) (auto simp: IH Suc_diff_Suc)
qed

lemma copy_down_apply:
  "s < d \<Longrightarrow>
     copy_down m (d + n) (s + n) n = (\<lambda>x. if d \<le> x \<and> x < d + n then m (s + (x - d)) else m x)"
proof (induction n arbitrary: m)
  case 0
  then show ?case by (auto simp: fun_eq_iff)
next
  case (Suc n)
  note IH = Suc.IH [OF Suc.prems, of "m(d + n := m (s + n))"]
  show ?case
    using Suc.prems by (intro ext) (auto simp: IH)
qed

lemma memmove_apply:
  "memmove m dst src n = (\<lambda>x. if dst \<le> x \<and> x < dst + n then m (src + (x - dst)) else m x)"
  unfolding memmove_def by (auto simp: copy_down_apply copy_up_apply)

section \<open>Comparing\<close>

lemma uint_byte_eq_iff: "uint (a :: uchar) = uint b \<longleftrightarrow> a = b"
  by (simp add: word_uint_eq_iff)

lemmas byte_eq = uint_byte_eq_iff uint_0_iff

lemma strncmp_cstr: "strncmp mp p mq q n = 0 \<longleftrightarrow> cstr mp p n = cstr mq q n"
  by (induction mp p mq q n rule: strncmp.induct) (auto simp: cstr_Suc byte_eq)

lemma memcmp_span: "memcmp m p q n = 0 \<longleftrightarrow> span m p n = span m q n"
  by (induction m p q n rule: memcmp.induct) (auto simp: span_Suc byte_eq)

section \<open>Copying strings\<close>

lemma strncpy_pad_apply:
  "strncpy_pad d s n = (\<lambda>x. if s \<le> x \<and> x < s + n then 0 else d x)"
proof (induction n arbitrary: d s)
  case 0
  then show ?case by (auto simp: fun_eq_iff)
next
  case (Suc n)
  show ?case by (rule ext) (auto simp: Suc.IH)
qed

lemma strncpy_copy_outside: "x < s \<or> s + n \<le> x \<Longrightarrow> strncpy_copy d s src t n x = d x"
  by (induction d s src t n rule: strncpy_copy.induct) (auto simp: strncpy_pad_apply)

lemma span_strncpy_copy:
  "span (strncpy_copy d s src t n) s n
     = cstr src t n @ replicate (n - length (cstr src t n)) 0"
proof (induction d s src t n rule: strncpy_copy.induct)
  case (1 d s src t)
  then show ?case by simp
next
  case (2 d s src t n)
  show ?case
  proof (cases "src t = 0")
    case True
    have "span (strncpy_pad (d(s := 0)) (s + 1) n) (s + 1) n = replicate n 0"
      by (rule span_const) (simp add: strncpy_pad_apply)
    with True show ?thesis
      by (simp add: span_Suc cstr_Suc strncpy_pad_apply)
  next
    case False
    then show ?thesis
      using 2 by (simp add: span_Suc cstr_Suc strncpy_copy_outside fun_upd_def)
  qed
qed

lemma safestrcpy_loop_outside:
  "x < s \<or> s + n < x \<Longrightarrow> safestrcpy_loop d s src t n x = d x"
  by (induction d s src t n rule: safestrcpy_loop.induct) auto

lemma cstr_safestrcpy_loop:
  "cstr (safestrcpy_loop d s src t n) s (Suc n) = cstr src t n"
proof (induction d s src t n rule: safestrcpy_loop.induct)
  case (1 d s src t)
  then show ?case by (simp add: cstr_Suc)
next
  case (2 d s src t n)
  then show ?case
    by (auto simp: cstr_Suc [of _ s] cstr_Suc [of src t] safestrcpy_loop_outside fun_upd_def)
qed

lemma safestrcpy_loop_nul: "\<exists>k \<le> n. safestrcpy_loop d s src t n (s + k) = 0"
proof (induction d s src t n rule: safestrcpy_loop.induct)
  case (1 d s src t)
  then show ?case by simp
next
  case (2 d s src t n)
  show ?case
  proof (cases "src t = 0")
    case True
    then show ?thesis by (intro exI [of _ 0]) simp
  next
    case False
    with 2 obtain k where "k \<le> n" "safestrcpy_loop (d(s := src t)) (s + 1) src (t + 1) n (s + 1 + k) = 0"
      by (auto simp: fun_upd_def)
    with False show ?thesis by (intro exI [of _ "Suc k"]) simp
  qed
qed

lemma strlen_from_finds:
  "m (s + k) = 0 \<Longrightarrow> (\<And>j. n \<le> j \<Longrightarrow> j < k \<Longrightarrow> m (s + j) \<noteq> 0) \<Longrightarrow> n \<le> k
     \<Longrightarrow> strlen_from m s n = Some k"
proof (induction "k - n" arbitrary: n)
  case 0
  then show ?case by (simp add: strlen_from.simps)
next
  case (Suc d)
  then have "m (s + n) \<noteq> 0" by simp
  moreover have "strlen_from m s (n + 1) = Some k"
    using Suc.hyps(2) Suc.prems by (intro Suc.hyps(1)) auto
  ultimately show ?case by (simp add: strlen_from.simps [of m s n])
qed

lemma memset_apply:
  "memset m dst c n = (\<lambda>x. if dst \<le> x \<and> x < dst + n then word_of_int c else m x)"
proof (cases "dst mod 4 = 0 \<and> n mod 4 = 0")
  case True
  have low: "(word_of_int c :: uint) AND 0xFF = ucast (word_of_int c :: uchar)"
  proof -
    have ff: "(0xFF :: uint) = mask 8" by (simp add: mask_eq_exp_minus_1)
    show ?thesis unfolding ff by (rule bit_word_eqI) (auto simp: bit_simps)
  qed
  from True have "4 * (n div 4) = n" by auto
  with True show ?thesis
    by (simp add: memset_def low stosl_splat Let_def)
next
  case False
  then show ?thesis by (auto simp: memset_def stosb_apply)
qed

lemma memmove_from_apply:
  "memmove_from d i s j n = (\<lambda>x. if i \<le> x \<and> x < i + n then s (j + (x - i)) else d x)"
  by (induction n arbitrary: d i j) (auto simp: fun_eq_iff Suc_diff_le intro!: arg_cong [of _ _ s])

section \<open>What the routines promise\<close>

text \<open>
  \<open>memmove\<close> of string.c moves the old contents of the source range to the destination
  range and changes nothing else, also when the ranges overlap in either direction.
\<close>
theorem memmove_moves_range:
  "memmove m dst src n = (\<lambda>x. if dst \<le> x \<and> x < dst + n then m (src + (x - dst)) else m x)"
  by (rule memmove_apply)

text \<open>
  Both paths of \<open>memset\<close> in string.c, the one that stores 32-bit words and the one that
  stores bytes, write the low byte of \<open>c\<close> into exactly the bytes of the range.
\<close>
theorem memset_fills_range:
  "memset m dst c n = (\<lambda>x. if dst \<le> x \<and> x < dst + n then word_of_int c else m x)"
  by (rule memset_apply)

text \<open>
  \<open>safestrcpy\<close> with a buffer of \<open>n + 1\<close> bytes leaves in it the source string cut after \<open>n\<close>
  characters, always with a NUL inside the buffer, and writes no byte outside the buffer.
\<close>
theorem safestrcpy_terminates_string:
  "cstr (safestrcpy d s src t (int (Suc n))) s (Suc n) = cstr src t n
   \<and> 0 \<in> set (span (safestrcpy d s src t (int (Suc n))) s (Suc n))
   \<and> {x. safestrcpy d s src t (int (Suc n)) x \<noteq> d x} \<subseteq> {s..s + n}"
proof (intro conjI)
  have eq: "safestrcpy d s src t (int (Suc n)) = safestrcpy_loop d s src t n"
    by (simp add: safestrcpy_def nat_add_distrib)
  show "cstr (safestrcpy d s src t (int (Suc n))) s (Suc n) = cstr src t n"
    unfolding eq by (rule cstr_safestrcpy_loop)
  show "0 \<in> set (span (safestrcpy d s src t (int (Suc n))) s (Suc n))"
  proof -
    obtain k where "k \<le> n" and "safestrcpy_loop d s src t n (s + k) = 0"
      using safestrcpy_loop_nul by blast
    then have "s + k \<in> set [s..<s + Suc n]" and "0 = safestrcpy_loop d s src t n (s + k)"
      by auto
    then show ?thesis
      unfolding eq span_def set_map by (rule rev_image_eqI)
  qed
  show "{x. safestrcpy d s src t (int (Suc n)) x \<noteq> d x} \<subseteq> {s..s + n}"
    unfolding eq using safestrcpy_loop_outside [of _ s n d src t]
    by (auto simp flip: not_less)
qed

text \<open>
  \<open>memmove\<close> of ulib.c always copies upwards: it agrees with the kernel's whenever the
  destination does not start inside the source range, and on the overlap it excludes it is wrong:
  moving two bytes up by one writes the first byte twice.
\<close>
theorem ulib_memmove_overlap:
  "(dst \<le> src \<or> src + n \<le> dst \<longrightarrow> ulib_memmove m dst src (int n) = memmove m dst src n)
   \<and> ulib_memmove ((\<lambda>_. 0)(0 := 1, 1 := 2)) 1 0 2 2 = 1
   \<and> memmove ((\<lambda>_. 0)(0 := 1, 1 := 2)) 1 0 2 2 = 2"
proof (intro conjI impI)
  assume "dst \<le> src \<or> src + n \<le> dst"
  then show "ulib_memmove m dst src (int n) = memmove m dst src n"
    by (simp add: ulib_memmove_def memmove_apply copy_up_apply)
next
  show "ulib_memmove ((\<lambda>_. 0)(0 := 1, 1 := 2)) 1 0 2 2 = 1"
    by (simp add: ulib_memmove_def numeral_2_eq_2)
next
  show "memmove ((\<lambda>_. 0)(0 := 1, 1 := 2)) 1 0 2 2 = 2"
    by (simp add: memmove_apply)
qed

theorem ulib_memmove_overlap_witness:
  "ulib_memmove (\<lambda>x. word_of_nat x) 3 5 4 4 = 6"
proof -
  have "ulib_memmove (\<lambda>x. word_of_nat x) 3 5 (int 4) = memmove (\<lambda>x. word_of_nat x) 3 5 4"
    using ulib_memmove_overlap [of 3 5 4 "\<lambda>x. word_of_nat x"] by simp
  then show ?thesis by (simp add: memmove_apply)
qed

end
