(* ===== verification/Ptable.thy ===== *)
theory Ptable
  imports Cstring
begin

text \<open>
  The process table and the CPU (src/proc.c, src/proc.h, src/param.h, src/pstat.h).

  \<open>kbase\<close> is the state every kernel component extends: the spinlocks the running CPU holds,
  the process it runs, the process table, the allocator of pids, the random seed of the lottery
  scheduler and the clock. A pointer into \<open>ptable.proc\<close> is an index, a null pointer is
  \<open>None\<close>. A wait channel is an address in the source; \<open>chan\<close> names the addresses it uses.
  \<open>acquire\<close> and \<open>release\<close> are the view the running CPU has of a spinlock: the theory Spinlock
  derives it from the lock words of all CPUs. A process that sleeps leaves through \<open>sched\<close>,
  whose outcome is \<open>Blocked\<close>; what follows the call in the source is the operation with the
  suffix \<open>_resume\<close>. Following a null pointer is the outcome \<open>Panic ''null pointer''\<close>.
\<close>

section \<open>Constants (param.h)\<close>

definition NPROC :: nat where "NPROC = 64"
definition NOFILE :: nat where "NOFILE = 16"
definition KSTACKSIZE :: uint where "KSTACKSIZE = 4096"
definition KERNBASE :: uint where "KERNBASE = 0x80000000"

section \<open>Names of locks and wait channels\<close>

datatype sleepid = SL_buf nat | SL_inode nat

datatype lockid =
    L_ptable | L_kmem | L_bcache | L_log | L_icache | L_ftable | L_ticks | L_cons | L_ide
  | L_pipe uint | L_sleep sleepid

datatype chan =
    C_proc nat | C_log | C_sleeplock sleepid | C_pipe_nread uint | C_pipe_nwrite uint
  | C_ticks | C_input | C_buf nat

section \<open>Processes (proc.h)\<close>

datatype procstate = UNUSED | EMBRYO | SLEEPING | RUNNABLE | RUNNING | ZOMBIE

record trapframe =
  tf_edi :: uint
  tf_esi :: uint
  tf_ebp :: uint
  tf_oesp :: uint
  tf_ebx :: uint
  tf_edx :: uint
  tf_ecx :: uint
  tf_eax :: uint
  tf_gs :: ushort
  tf_fs :: ushort
  tf_es :: ushort
  tf_ds :: ushort
  tf_trapno :: uint
  tf_err :: uint
  tf_eip :: uint
  tf_cs :: ushort
  tf_eflags :: uint
  tf_esp :: uint
  tf_ss :: ushort

record kcontext =
  cx_edi :: uint
  cx_esi :: uint
  cx_ebx :: uint
  cx_ebp :: uint
  cx_eip :: uint

record proc =
  p_sz :: uint
  p_pgdir :: uint
  p_kstack :: uint
  p_state :: procstate
  p_pid :: int
  p_parent :: "nat option"
  p_tfaddr :: uint
  p_tf :: trapframe
  p_contextaddr :: uint
  p_context :: kcontext
  p_chan :: "chan option"
  p_killed :: bool
  p_ofile :: "nat option list"
  p_cwd :: "nat option"
  p_name :: bytes
  p_tickets :: int
  p_ticks :: int

record kbase =
  held :: "lockid list"
  cur :: "nat option"
  ptable :: "proc list"
  initproc :: "nat option"
  nextpid :: int
  rseed :: int
  ticks :: uint
  kpgdir :: uint
  cr3 :: uint
  ts_esp0 :: uint

definition zero_tf :: trapframe where
  "zero_tf = \<lparr>tf_edi = 0, tf_esi = 0, tf_ebp = 0, tf_oesp = 0, tf_ebx = 0, tf_edx = 0,
     tf_ecx = 0, tf_eax = 0, tf_gs = 0, tf_fs = 0, tf_es = 0, tf_ds = 0, tf_trapno = 0,
     tf_err = 0, tf_eip = 0, tf_cs = 0, tf_eflags = 0, tf_esp = 0, tf_ss = 0\<rparr>"

definition zero_context :: kcontext where
  "zero_context = \<lparr>cx_edi = 0, cx_esi = 0, cx_ebx = 0, cx_ebp = 0, cx_eip = 0\<rparr>"

definition zero_proc :: proc where
  "zero_proc = \<lparr>p_sz = 0, p_pgdir = 0, p_kstack = 0, p_state = UNUSED, p_pid = 0,
     p_parent = None, p_tfaddr = 0, p_tf = zero_tf, p_contextaddr = 0,
     p_context = zero_context, p_chan = None, p_killed = False,
     p_ofile = replicate NOFILE None, p_cwd = None, p_name = (\<lambda>_. 0),
     p_tickets = 0, p_ticks = 0\<rparr>"

text \<open>The table as the loader leaves it in .bss, with the initialisers of proc.c.\<close>

definition boot_kbase :: kbase where
  "boot_kbase = \<lparr>held = [], cur = None, ptable = replicate NPROC zero_proc, initproc = None,
     nextpid = 1, rseed = 1898888478, ticks = 0, kpgdir = 0, cr3 = 0, ts_esp0 = 0\<rparr>"

definition the_proc :: "'z kbase_scheme \<Rightarrow> nat \<Rightarrow> proc" where
  "the_proc s i = ptable s ! i"

definition upd_proc :: "nat \<Rightarrow> (proc \<Rightarrow> proc) \<Rightarrow> ('z kbase_scheme, unit) kmon" where
  "upd_proc i f = modify (\<lambda>s. s\<lparr>ptable := (ptable s)[i := f (ptable s ! i)]\<rparr>)"

section \<open>Spinlocks as the running CPU sees them\<close>

definition acquire :: "lockid \<Rightarrow> ('z kbase_scheme, unit) kmon" where
  "acquire lk s = (if lk \<in> set (held s) then Panic ''acquire'' else Ok () (s\<lparr>held := lk # held s\<rparr>))"

definition release :: "lockid \<Rightarrow> ('z kbase_scheme, unit) kmon" where
  "release lk s = (if lk \<in> set (held s) then Ok () (s\<lparr>held := remove1 lk (held s)\<rparr>) else Panic ''release'')"

definition ncli :: "'z kbase_scheme \<Rightarrow> nat" where
  "ncli s = length (held s)"

definition interruptible :: "'z kbase_scheme \<Rightarrow> bool" where
  "interruptible s \<longleftrightarrow> ncli s = 0"

section \<open>The random numbers and the lottery\<close>

definition RAND_MAX :: int where "RAND_MAX = 2 ^ 31 - 1"

definition random_next :: "int \<Rightarrow> int" where
  "random_next seed = i32 (i32 (seed * 1103515245) + 12345) AND RAND_MAX"

definition random :: "('z kbase_scheme, int) kmon" where
  "random s = (let r = random_next (rseed s) in Ok r (s\<lparr>rseed := r\<rparr>))"

fun total_tickets :: "proc list \<Rightarrow> int \<Rightarrow> int" where
  "total_tickets [] tot = tot"
| "total_tickets (p # ps) tot =
     (if p_state p \<noteq> RUNNABLE then total_tickets ps tot
      else total_tickets ps (i32 (tot + p_tickets p)))"

fun lottery_pick :: "proc list \<Rightarrow> nat \<Rightarrow> int \<Rightarrow> int \<Rightarrow> nat option" where
  "lottery_pick [] i new_total winner = None"
| "lottery_pick (p # ps) i new_total winner =
     (if p_state p \<noteq> RUNNABLE then lottery_pick ps (Suc i) new_total winner
      else let new_total' = i32 (new_total + p_tickets p)
           in if new_total' > winner then Some i else lottery_pick ps (Suc i) new_total' winner)"

definition scheduler_select :: "('z kbase_scheme, nat option) kmon" where
  "scheduler_select =
     bnd (gets (\<lambda>s. total_tickets (ptable s) 0)) (\<lambda>tot.
       if tot > 0 then
         bnd random (\<lambda>r. gets (\<lambda>s. lottery_pick (ptable s) 0 0 (r mod tot)))
       else ret None)"

text \<open>\<open>V2P\<close> of memlayout.h; \<open>switchkvm\<close> and \<open>switchuvm\<close> of vm.c.\<close>

definition V2P :: "uint \<Rightarrow> uint" where "V2P a = a - KERNBASE"

definition switchkvm :: "('z kbase_scheme, unit) kmon" where
  "switchkvm = modify (\<lambda>s. s\<lparr>cr3 := V2P (kpgdir s)\<rparr>)"

definition switchuvm :: "nat option \<Rightarrow> ('z kbase_scheme, unit) kmon" where
  "switchuvm w = (case w of
     None \<Rightarrow> panic ''switchuvm: no process''
   | Some i \<Rightarrow> bnd (gets (\<lambda>s. the_proc s i)) (\<lambda>p.
       if p_kstack p = 0 then panic ''switchuvm: no kstack''
       else if p_pgdir p = 0 then panic ''switchuvm: no pgdir''
       else modify (\<lambda>s. s\<lparr>ts_esp0 := p_kstack p + KSTACKSIZE, cr3 := V2P (p_pgdir p)\<rparr>)))"

text \<open>
  One round of \<open>scheduler()\<close>, cut at the \<open>swtch\<close>: \<open>scheduler_enter\<close> runs up to it and gives the
  process the CPU switches to, \<open>scheduler_return\<close> is the rest of the round once that process
  has switched back.
\<close>

definition scheduler_enter :: "('z kbase_scheme, nat option) kmon" where
  "scheduler_enter =
     sqn (acquire L_ptable)
      (bnd scheduler_select (\<lambda>w. case w of
         None \<Rightarrow> sqn (release L_ptable) (ret None)
       | Some i \<Rightarrow> sqn (stmts [
             modify (\<lambda>s. s\<lparr>cur := Some i\<rparr>),
             switchuvm (Some i),
             upd_proc i (\<lambda>p. p\<lparr>p_state := RUNNING\<rparr>)])
           (ret (Some i))))"

definition scheduler_return :: "nat \<Rightarrow> ('z kbase_scheme, unit) kmon" where
  "scheduler_return i = stmts [
     switchkvm,
     modify (\<lambda>s. s\<lparr>cur := None\<rparr>),
     upd_proc i (\<lambda>p. p\<lparr>p_ticks := i32 (p_ticks p + 1)\<rparr>),
     release L_ptable]"

section \<open>Giving up the CPU\<close>

definition myproc :: "('z kbase_scheme, nat option) kmon" where
  "myproc = gets cur"

definition sched :: "('z kbase_scheme, unit) kmon" where
  "sched s =
     (if L_ptable \<notin> set (held s) then Panic ''sched ptable.lock''
      else if ncli s \<noteq> 1 then Panic ''sched locks''
      else case cur s of
        None \<Rightarrow> Panic ''null pointer''
      | Some i \<Rightarrow>
          if p_state (the_proc s i) = RUNNING then Panic ''sched running''
          else if interruptible s then Panic ''sched interruptible''
          else Blocked s)"

definition yield :: "('z kbase_scheme, unit) kmon" where
  "yield = sqn (acquire L_ptable)
     (bnd myproc (\<lambda>me. case me of
        None \<Rightarrow> panic ''null pointer''
      | Some i \<Rightarrow> sqn (upd_proc i (\<lambda>p. p\<lparr>p_state := RUNNABLE\<rparr>)) sched))"

definition yield_resume :: "('z kbase_scheme, unit) kmon" where
  "yield_resume = release L_ptable"

definition sleep :: "chan \<Rightarrow> lockid \<Rightarrow> ('z kbase_scheme, unit) kmon" where
  "sleep c lk =
     bnd myproc (\<lambda>me. case me of
       None \<Rightarrow> panic ''sleep''
     | Some i \<Rightarrow> stmts [
         whenM (lk \<noteq> L_ptable) (stmts [acquire L_ptable, release lk]),
         upd_proc i (\<lambda>p. p\<lparr>p_chan := Some c, p_state := SLEEPING\<rparr>),
         sched])"

definition sleep_resume :: "lockid \<Rightarrow> ('z kbase_scheme, unit) kmon" where
  "sleep_resume lk =
     bnd myproc (\<lambda>me. case me of
       None \<Rightarrow> panic ''sleep''
     | Some i \<Rightarrow> stmts [
         upd_proc i (\<lambda>p. p\<lparr>p_chan := None\<rparr>),
         whenM (lk \<noteq> L_ptable) (stmts [release L_ptable, acquire lk])])"

text \<open>A call of \<open>sleep\<close> at the end of a loop body: the caller's \<open>_resume\<close> goes on with the loop.\<close>

definition sleep_wait :: "chan \<Rightarrow> lockid \<Rightarrow> ('z kbase_scheme, 'a) kmon" where
  "sleep_wait c lk = sqn (sleep c lk) block"

definition myproc_killed :: "('z kbase_scheme, bool) kmon" where
  "myproc_killed = bnd myproc (\<lambda>me. case me of
       None \<Rightarrow> panic ''null pointer''
     | Some i \<Rightarrow> gets (\<lambda>s. p_killed (the_proc s i)))"

section \<open>Waking up and killing\<close>

definition wake_proc :: "chan option \<Rightarrow> proc \<Rightarrow> proc" where
  "wake_proc c p = (if p_state p = SLEEPING \<and> p_chan p = c then p\<lparr>p_state := RUNNABLE\<rparr> else p)"

definition wakeup1 :: "chan option \<Rightarrow> ('z kbase_scheme, unit) kmon" where
  "wakeup1 c = modify (\<lambda>s. s\<lparr>ptable := map (wake_proc c) (ptable s)\<rparr>)"

definition wakeup :: "chan \<Rightarrow> ('z kbase_scheme, unit) kmon" where
  "wakeup c = stmts [acquire L_ptable, wakeup1 (Some c), release L_ptable]"

definition kill_proc :: "proc \<Rightarrow> proc" where
  "kill_proc p = p\<lparr>p_killed := True,
     p_state := (if p_state p = SLEEPING then RUNNABLE else p_state p)\<rparr>"

definition kill :: "int \<Rightarrow> ('z kbase_scheme, int) kmon" where
  "kill pid = sqn (acquire L_ptable)
     (bnd (gets (\<lambda>s. first_idx (\<lambda>p. p_pid p = pid) (ptable s))) (\<lambda>w. case w of
        Some i \<Rightarrow> sqn (upd_proc i kill_proc) (sqn (release L_ptable) (ret 0))
      | None \<Rightarrow> sqn (release L_ptable) (ret (- 1))))"

section \<open>Tickets and process statistics (the lab's additions)\<close>

definition settickets :: "int \<Rightarrow> ('z kbase_scheme, int) kmon" where
  "settickets number = bnd myproc (\<lambda>me. case me of
       None \<Rightarrow> ret (- 1)
     | Some i \<Rightarrow> sqn (acquire L_ptable)
         (sqn (upd_proc i (\<lambda>p. p\<lparr>p_tickets := number\<rparr>))
         (sqn (release L_ptable) (ret 0))))"

record pstat =
  ps_inuse :: int
  ps_tickets :: int
  ps_pid :: int
  ps_ticks :: int
  ps_name :: bytes
  ps_state :: uchar

definition state_char :: "procstate \<Rightarrow> uchar \<Rightarrow> uchar" where
  "state_char st old = (case st of
      EMBRYO \<Rightarrow> of_char (CHR ''E'') | RUNNING \<Rightarrow> of_char (CHR ''R'')
    | RUNNABLE \<Rightarrow> of_char (CHR ''A'') | SLEEPING \<Rightarrow> of_char (CHR ''S'')
    | ZOMBIE \<Rightarrow> of_char (CHR ''Z'') | UNUSED \<Rightarrow> old)"

definition fill_entry :: "proc \<Rightarrow> pstat \<Rightarrow> pstat" where
  "fill_entry p e = \<lparr>ps_inuse = 1, ps_tickets = p_tickets p, ps_pid = p_pid p,
     ps_ticks = p_ticks p, ps_name = safestrcpy (ps_name e) 0 (p_name p) 0 16,
     ps_state = state_char (p_state p) (ps_state e)\<rparr>"

fun fill_loop :: "proc list \<Rightarrow> pstat list \<Rightarrow> pstat list" where
  "fill_loop (p # ps) (e # es) = fill_entry p e # fill_loop ps es"
| "fill_loop ps es = es"

definition fillpstat :: "pstat list \<Rightarrow> ('z kbase_scheme, pstat list) kmon" where
  "fillpstat t = sqn (acquire L_ptable)
     (bnd (gets (\<lambda>s. fill_loop (ptable s) t)) (\<lambda>t'. sqn (release L_ptable) (ret t')))"

section \<open>Stepping through the operations\<close>

lemma lock_steps [run_simps]:
  "sqn (acquire lk) n s = (if lk \<in> set (held s) then Panic ''acquire'' else n (s\<lparr>held := lk # held s\<rparr>))"
  "sqn (release lk) n s =
     (if lk \<in> set (held s) then n (s\<lparr>held := remove1 lk (held s)\<rparr>) else Panic ''release'')"
  by (simp_all add: acquire_def release_def)

declare acquire_def [run_simps] release_def [run_simps] upd_proc_def [run_simps] myproc_def [run_simps]

lemma wakeup_run:
  "L_ptable \<notin> set (held s) \<Longrightarrow> wakeup c s = Ok () (s\<lparr>ptable := map (wake_proc (Some c)) (ptable s)\<rparr>)"
  by (simp add: wakeup_def wakeup1_def run_simps)

text \<open>\<open>sched\<close>, and so \<open>sleep\<close>, never comes back by itself.\<close>

lemma sched_not_Ok: "sched s \<noteq> Ok x s'"
  by (simp add: sched_def split: option.split)

lemma sleep_run:
  assumes "held s = [lk]" and "lk \<noteq> L_ptable" and "cur s = Some i" and "i < length (ptable s)"
  shows "sleep c lk s = Blocked (s\<lparr>held := [L_ptable],
    ptable := (ptable s)[i := (ptable s ! i)\<lparr>p_chan := Some c, p_state := SLEEPING\<rparr>]\<rparr>)"
  using assms by (simp add: sleep_def run_simps sched_def ncli_def the_proc_def interruptible_def)

lemma sleep_wait_run: "sleep_wait c lk s = (case sleep c lk s of Panic e \<Rightarrow> Panic e | Blocked t \<Rightarrow> Blocked t | Ok _ t \<Rightarrow> Blocked t)"
  by (simp add: sleep_wait_def sqn_def bnd_def split: outcome.split)

definition sleeps_on :: "chan \<Rightarrow> proc \<Rightarrow> bool" where
  "sleeps_on c p \<longleftrightarrow> p_state p = SLEEPING \<and> p_chan p = Some c"

definition no_sleeper :: "chan \<Rightarrow> 'z kbase_scheme \<Rightarrow> bool" where
  "no_sleeper c s \<longleftrightarrow> (\<forall>p \<in> set (ptable s). \<not> sleeps_on c p)"

lemma wake_proc_sleeps_on: "sleeps_on d (wake_proc (Some c) p) \<longleftrightarrow> sleeps_on d p \<and> d \<noteq> c"
  by (auto simp: sleeps_on_def wake_proc_def)

lemma wakeup_no_sleeper:
  assumes "wakeup c s = Ok () s'"
  shows "no_sleeper c s' \<and> (\<forall>d. no_sleeper d s \<longrightarrow> no_sleeper d s')"
proof -
  from assms have "ptable s' = map (wake_proc (Some c)) (ptable s)"
    by (auto simp: wakeup_def wakeup1_def run_simps split: if_splits)
  then show ?thesis by (auto simp: no_sleeper_def wake_proc_sleeps_on)
qed

end
