(* ===== verification/Lottery.thy ===== *)
theory Lottery
  imports Ptable
begin

text \<open>
  The lottery scheduler of src/proc.c: what \<open>random()\<close> returns, which process a winning ticket
  selects, and how many tickets select each process.
\<close>

section \<open>The tickets of a table\<close>

text \<open>The abstract lottery: the tickets of the runnable processes laid end to end.\<close>

definition runnable :: "proc \<Rightarrow> bool" where
  "runnable p \<longleftrightarrow> p_state p = RUNNABLE"

fun tsum :: "proc list \<Rightarrow> int" where
  "tsum [] = 0"
| "tsum (p # ps) = (if runnable p then p_tickets p else 0) + tsum ps"

definition tickets_ok :: "proc list \<Rightarrow> bool" where
  "tickets_ok ps \<longleftrightarrow> (\<forall>p \<in> set ps. runnable p \<longrightarrow> 0 \<le> p_tickets p) \<and> tsum ps \<le> INT_MAX"

lemma tsum_append [simp]: "tsum (xs @ ys) = tsum xs + tsum ys"
  by (induction xs) auto

lemma tsum_nonneg: "(\<And>p. p \<in> set ps \<Longrightarrow> runnable p \<Longrightarrow> 0 \<le> p_tickets p) \<Longrightarrow> 0 \<le> tsum ps"
  by (induction ps) auto

lemma tsum_take_Suc:
  "i < length ps \<Longrightarrow> tsum (take (Suc i) ps)
     = tsum (take i ps) + (if runnable (ps ! i) then p_tickets (ps ! i) else 0)"
  by (simp add: take_Suc_conv_app_nth)

lemma tsum_take_le:
  assumes "\<And>p. p \<in> set ps \<Longrightarrow> runnable p \<Longrightarrow> 0 \<le> p_tickets p"
  shows "tsum (take i ps) \<le> tsum ps"
proof -
  have "0 \<le> tsum (drop i ps)"
    using assms by (intro tsum_nonneg) (auto dest: in_set_dropD)
  then show ?thesis
    by (metis append_take_drop_id le_add_same_cancel1 tsum_append)
qed

section \<open>The two loops of the scheduler\<close>

lemma total_tickets_tsum:
  "(\<And>p. p \<in> set ps \<Longrightarrow> runnable p \<Longrightarrow> 0 \<le> p_tickets p) \<Longrightarrow> 0 \<le> acc \<Longrightarrow> acc + tsum ps \<le> INT_MAX
     \<Longrightarrow> total_tickets ps acc = acc + tsum ps"
proof (induction ps arbitrary: acc)
  case Nil
  then show ?case by simp
next
  case (Cons p ps)
  have rest: "0 \<le> tsum ps" by (rule tsum_nonneg) (simp add: Cons.prems(1))
  show ?case
  proof (cases "runnable p")
    case True
    then have "0 \<le> p_tickets p" by (simp add: Cons.prems(1))
    with True rest Cons.prems have "i32 (acc + p_tickets p) = acc + p_tickets p"
      by (intro i32_nonneg_id) auto
    with True Cons.prems \<open>0 \<le> p_tickets p\<close> show ?thesis
      using Cons.IH [of "acc + p_tickets p"] by (simp add: runnable_def)
  next
    case False
    with Cons show ?thesis by (simp add: runnable_def)
  qed
qed

lemma lottery_pick_iff:
  "(\<And>p. p \<in> set ps \<Longrightarrow> runnable p \<Longrightarrow> 0 \<le> p_tickets p) \<Longrightarrow> 0 \<le> acc \<Longrightarrow> acc \<le> w
     \<Longrightarrow> acc + tsum ps \<le> INT_MAX \<Longrightarrow>
     lottery_pick ps k acc w = Some j \<longleftrightarrow>
       (\<exists>i. j = k + i \<and> i < length ps \<and> runnable (ps ! i)
          \<and> acc + tsum (take i ps) \<le> w \<and> w < acc + tsum (take (Suc i) ps))"
proof (induction ps arbitrary: k acc)
  case Nil
  then show ?case by simp
next
  case (Cons p ps)
  have nonneg: "\<And>q. q \<in> set ps \<Longrightarrow> runnable q \<Longrightarrow> 0 \<le> p_tickets q"
    by (simp add: Cons.prems(1))
  have rest: "0 \<le> tsum ps" by (rule tsum_nonneg) (rule nonneg)
  let ?t = "if runnable p then p_tickets p else 0"
  have t: "0 \<le> ?t" by (simp add: Cons.prems(1))
  have shift: "(\<exists>i. j = k + i \<and> i < length (p # ps) \<and> runnable ((p # ps) ! i)
          \<and> acc + tsum (take i (p # ps)) \<le> w \<and> w < acc + tsum (take (Suc i) (p # ps)))
      \<longleftrightarrow> (j = k \<and> runnable p \<and> w < acc + ?t)
        \<or> (\<exists>i. j = Suc k + i \<and> i < length ps \<and> runnable (ps ! i)
            \<and> acc + ?t + tsum (take i ps) \<le> w \<and> w < acc + ?t + tsum (take (Suc i) ps))"
    (is "(\<exists>i. ?R i) \<longleftrightarrow> ?A \<or> (\<exists>i. ?S i)")
  proof
    assume "\<exists>i. ?R i"
    then obtain i where i: "?R i" by blast
    show "?A \<or> (\<exists>i. ?S i)"
    proof (cases i)
      case 0
      with i show ?thesis by auto
    next
      case (Suc n)
      with i have "?S n" by (simp add: add.assoc)
      then show ?thesis by blast
    qed
  next
    assume "?A \<or> (\<exists>i. ?S i)"
    then show "\<exists>i. ?R i"
    proof
      assume ?A
      then have "?R 0" using Cons.prems(3) by auto
      then show ?thesis by blast
    next
      assume "\<exists>i. ?S i"
      then obtain i where "?S i" by blast
      then have "?R (Suc i)" by (simp add: add.assoc)
      then show ?thesis by blast
    qed
  qed
  show ?case
  proof (cases "runnable p")
    case False
    with Cons.prems nonneg show ?thesis
      unfolding shift using Cons.IH [of acc "Suc k"] by (simp add: runnable_def)
  next
    case True
    have id: "i32 (acc + p_tickets p) = acc + p_tickets p"
      using Cons.prems(2,4) rest t True by (intro i32_nonneg_id) auto
    show ?thesis
    proof (cases "w < acc + p_tickets p")
      case win: True
      have "\<not> acc + p_tickets p + tsum (take i ps) \<le> w" for i
      proof -
        have "0 \<le> tsum (take i ps)"
          by (rule tsum_nonneg) (auto dest: in_set_takeD intro: nonneg)
        with win show ?thesis by linarith
      qed
      with win True id show ?thesis
        unfolding shift by (auto simp: runnable_def)
    next
      case lose: False
      with True Cons.prems t nonneg id show ?thesis
        unfolding shift using Cons.IH [of "acc + p_tickets p" "Suc k"] by (simp add: runnable_def)
    qed
  qed
qed

lemma lottery_pick_from_0:
  "tickets_ok ps \<Longrightarrow> 0 \<le> w \<Longrightarrow>
     lottery_pick ps 0 0 w = Some i \<longleftrightarrow>
       i < length ps \<and> runnable (ps ! i) \<and> tsum (take i ps) \<le> w \<and> w < tsum (take (Suc i) ps)"
  using lottery_pick_iff [of ps 0 w 0 i] by (simp add: tickets_ok_def)

lemma lottery_pick_total:
  "tickets_ok ps \<Longrightarrow> 0 \<le> w \<Longrightarrow> w < tsum ps \<Longrightarrow> \<exists>i. lottery_pick ps 0 0 w = Some i"
proof -
  assume ok: "tickets_ok ps" and w: "0 \<le> w" "w < tsum ps"
  define n where "n = (LEAST n. w < tsum (take n ps))"
  have ex: "w < tsum (take (length ps) ps)" using w by simp
  have n: "w < tsum (take n ps)" unfolding n_def by (rule LeastI [of _ "length ps"]) (rule ex)
  have least: "tsum (take k ps) \<le> w" if "k < n" for k
    using not_less_Least [of k "\<lambda>n. w < tsum (take n ps)"] that by (simp add: n_def)
  have "n \<le> length ps" unfolding n_def by (rule Least_le) (rule ex)
  obtain i where i: "n = Suc i" using n w by (cases n) auto
  with \<open>n \<le> length ps\<close> have "i < length ps" by simp
  with n least [of i] i have "runnable (ps ! i)"
    by (auto simp: tsum_take_Suc split: if_splits)
  with ok w n i least [of i] \<open>i < length ps\<close> show ?thesis
    by (auto simp: lottery_pick_from_0)
qed

section \<open>The generator\<close>

lemma RAND_MAX_mask: "RAND_MAX = mask 31"
  by (simp add: RAND_MAX_def mask_eq_exp_minus_1)

lemma random_next_range: "0 \<le> random_next seed \<and> random_next seed \<le> RAND_MAX"
proof -
  have "random_next seed = take_bit 31 (i32 (i32 (seed * 1103515245) + 12345))"
    by (simp add: random_next_def RAND_MAX_mask take_bit_eq_mask and.commute)
  then show ?thesis
    using take_bit_int_less_exp [of 31 "i32 (i32 (seed * 1103515245) + 12345)"]
    by (simp add: RAND_MAX_def)
qed

section \<open>What the scheduler promises\<close>

lemma total_tickets_ok: "tickets_ok ps \<Longrightarrow> total_tickets ps 0 = tsum ps"
  using total_tickets_tsum [of ps 0] by (simp add: tickets_ok_def)

lemma scheduler_select_run:
  assumes "tickets_ok (ptable s)" and "0 < tsum (ptable s)"
  shows "\<exists>i. scheduler_select s = Ok (Some i) (s\<lparr>rseed := random_next (rseed s)\<rparr>)
           \<and> lottery_pick (ptable s) 0 0 (random_next (rseed s) mod tsum (ptable s)) = Some i"
proof -
  let ?w = "random_next (rseed s) mod tsum (ptable s)"
  have w: "0 \<le> ?w" "?w < tsum (ptable s)" using assms(2) by simp_all
  with assms(1) obtain i where i: "lottery_pick (ptable s) 0 0 ?w = Some i"
    using lottery_pick_total by blast
  with assms show ?thesis
    by (auto simp: scheduler_select_def total_tickets_ok random_def Let_def)
qed

text \<open>
  C20: The lottery is fair: of the tickets that \<open>scheduler()\<close> can draw, exactly \<open>p->tickets\<close> select the
  runnable process \<open>p\<close>, as long as the tickets of the runnable processes fit in an \<open>int\<close>.
\<close>
theorem lottery_share:
  assumes "tickets_ok ps" and "i < length ps" and "p_state (ps ! i) = RUNNABLE"
  shows "card {w. 0 \<le> w \<and> w < total_tickets ps 0 \<and> lottery_pick ps 0 0 w = Some i}
           = nat (p_tickets (ps ! i))"
proof -
  have nonneg: "\<And>p. p \<in> set ps \<Longrightarrow> runnable p \<Longrightarrow> 0 \<le> p_tickets p"
    using assms(1) by (simp add: tickets_ok_def)
  have run: "runnable (ps ! i)" using assms(3) by (simp add: runnable_def)
  have lo: "0 \<le> tsum (take i ps)"
    by (rule tsum_nonneg) (auto dest: in_set_takeD intro: nonneg)
  have hi: "tsum (take (Suc i) ps) \<le> tsum ps"
    by (rule tsum_take_le) (rule nonneg)
  have "{w. 0 \<le> w \<and> w < total_tickets ps 0 \<and> lottery_pick ps 0 0 w = Some i}
      = {tsum (take i ps)..<tsum (take (Suc i) ps)}"
    using assms(1,2) lo hi run by (auto simp: total_tickets_ok lottery_pick_from_0)
  then show ?thesis
    using assms(2) run by (simp add: tsum_take_Suc)
qed

definition demo_procs :: "proc list" where
  "demo_procs = [zero_proc\<lparr>p_state := RUNNABLE, p_tickets := 10\<rparr>, zero_proc,
     zero_proc\<lparr>p_state := RUNNABLE, p_tickets := 30\<rparr>]"

lemma length_demo_procs: "length demo_procs = 3"
  by (simp add: demo_procs_def)

lemma demo_procs_ok: "tickets_ok demo_procs"
  by (simp add: tickets_ok_def demo_procs_def runnable_def zero_proc_def INT_MAX_def)

theorem lottery_share_witness:
  "card {w. 0 \<le> w \<and> w < total_tickets demo_procs 0 \<and> lottery_pick demo_procs 0 0 w = Some 2} = 30"
proof -
  have "2 < length demo_procs" and "p_state (demo_procs ! 2) = RUNNABLE"
    and "p_tickets (demo_procs ! 2) = 30"
    by (simp_all add: demo_procs_def)
  with lottery_share [OF demo_procs_ok, of 2] show ?thesis by simp
qed




text \<open>
  \<open>random()\<close> returns a number between 0 and \<open>RAND_MAX\<close>, stores it as the next seed, and changes
  nothing else; so the \<open>%\<close> in the scheduler is never applied to a negative number.
\<close>
theorem random_in_range:
  "\<exists>r. random s = Ok r (s\<lparr>rseed := r\<rparr>) \<and> 0 \<le> r \<and> r \<le> RAND_MAX"
  using random_next_range [of "rseed s"] by (simp add: random_def Let_def)

end
