(* ===== verification/Spinlock.thy ===== *)
theory Spinlock
  imports Ptable
begin

text \<open>
  Spinlocks on several CPUs (src/spinlock.c, src/spinlock.h, and the fields \<open>ncli\<close>, \<open>intena\<close> of
  \<open>struct cpu\<close>).

  \<open>machine\<close> holds the lock words, every CPU's interrupt state and how far each CPU is in
  \<open>acquire\<close> or \<open>release\<close>: the atomic \<open>xchg\<close>, the store of \<open>lk->cpu\<close> and the store that clears
  \<open>lk->locked\<close> are separate steps, which the steps of other CPUs may interleave. \<open>m_held\<close> is
  a ghost variable, the locks a CPU has acquired and not released, last first: it is what the
  single-CPU view \<open>Ptable.acquire\<close> and \<open>Ptable.release\<close> work on, and the last section derives
  that view. The debugging fields (\<open>name\<close> apart) and \<open>getcallerpcs\<close> are not modelled.
\<close>

record spinlock =
  lk_name :: string
  lk_locked :: bool
  lk_cpu :: "nat option"

record mcpu =
  c_ncli :: int
  c_intena :: bool
  c_if :: bool

text \<open>Where a CPU is: elsewhere, spinning on the \<open>xchg\<close>, past the \<open>xchg\<close> it won, or past the
  store to \<open>lk->cpu\<close> in \<open>release\<close>.\<close>

datatype lpc = Run | Spin lockid | Won lockid | Freed lockid

record machine =
  m_lock :: "lockid \<Rightarrow> spinlock"
  m_cpu :: "nat \<Rightarrow> mcpu"
  m_pc :: "nat \<Rightarrow> lpc"
  m_held :: "nat \<Rightarrow> lockid list"

definition upd_lock :: "lockid \<Rightarrow> (spinlock \<Rightarrow> spinlock) \<Rightarrow> machine \<Rightarrow> machine" where
  "upd_lock lk f m = m\<lparr>m_lock := (m_lock m)(lk := f (m_lock m lk))\<rparr>"

definition upd_cpu :: "nat \<Rightarrow> (mcpu \<Rightarrow> mcpu) \<Rightarrow> machine \<Rightarrow> machine" where
  "upd_cpu c f m = m\<lparr>m_cpu := (m_cpu m)(c := f (m_cpu m c))\<rparr>"

definition set_pc :: "nat \<Rightarrow> lpc \<Rightarrow> machine \<Rightarrow> machine" where
  "set_pc c x m = m\<lparr>m_pc := (m_pc m)(c := x)\<rparr>"

definition initlock :: "lockid \<Rightarrow> string \<Rightarrow> (machine, unit) kmon" where
  "initlock lk nm = modify (upd_lock lk (\<lambda>_. \<lparr>lk_name = nm, lk_locked = False, lk_cpu = None\<rparr>))"

definition pushcli :: "nat \<Rightarrow> (machine, unit) kmon" where
  "pushcli c = modify (upd_cpu c (\<lambda>u. u\<lparr>
     c_intena := (if c_ncli u = 0 then c_if u else c_intena u),
     c_if := False,
     c_ncli := c_ncli u + 1\<rparr>))"

definition popcli :: "nat \<Rightarrow> (machine, unit) kmon" where
  "popcli c m = (let u = m_cpu m c in
     if c_if u then Panic ''popcli - interruptible''
     else if c_ncli u - 1 < 0 then Panic ''popcli''
     else Ok () (upd_cpu c (\<lambda>u. u\<lparr>
       c_ncli := c_ncli u - 1,
       c_if := (c_ncli u - 1 = 0 \<and> c_intena u)\<rparr>) m))"

definition holding :: "nat \<Rightarrow> lockid \<Rightarrow> (machine, bool) kmon" where
  "holding c lk = sqn (pushcli c)
     (bnd (gets (\<lambda>m. lk_locked (m_lock m lk) \<and> lk_cpu (m_lock m lk) = Some c)) (\<lambda>r.
        sqn (popcli c) (ret r)))"

definition acquire_begin :: "nat \<Rightarrow> lockid \<Rightarrow> (machine, unit) kmon" where
  "acquire_begin c lk = sqn (pushcli c)
     (bnd (holding c lk) (\<lambda>r. if r then panic ''acquire'' else modify (set_pc c (Spin lk))))"

definition acquire_xchg :: "nat \<Rightarrow> lockid \<Rightarrow> (machine, unit) kmon" where
  "acquire_xchg c lk = bnd (gets (\<lambda>m. lk_locked (m_lock m lk))) (\<lambda>old.
     sqn (modify (upd_lock lk (\<lambda>l. l\<lparr>lk_locked := True\<rparr>)))
       (whenM (\<not> old) (modify (set_pc c (Won lk)))))"

definition acquire_record :: "nat \<Rightarrow> lockid \<Rightarrow> (machine, unit) kmon" where
  "acquire_record c lk = stmts [
     modify (upd_lock lk (\<lambda>l. l\<lparr>lk_cpu := Some c\<rparr>)),
     modify (\<lambda>m. m\<lparr>m_held := (m_held m)(c := lk # m_held m c)\<rparr>),
     modify (set_pc c Run)]"

definition release_begin :: "nat \<Rightarrow> lockid \<Rightarrow> (machine, unit) kmon" where
  "release_begin c lk = bnd (holding c lk) (\<lambda>r. if \<not> r then panic ''release'' else stmts [
     modify (upd_lock lk (\<lambda>l. l\<lparr>lk_cpu := None\<rparr>)),
     modify (\<lambda>m. m\<lparr>m_held := (m_held m)(c := remove1 lk (m_held m c))\<rparr>),
     modify (set_pc c (Freed lk))])"

definition release_end :: "nat \<Rightarrow> lockid \<Rightarrow> (machine, unit) kmon" where
  "release_end c lk = stmts [
     modify (upd_lock lk (\<lambda>l. l\<lparr>lk_locked := False\<rparr>)),
     modify (set_pc c Run),
     popcli c]"

section \<open>Interleavings\<close>

text \<open>
  A step is one CPU's: the pieces of \<open>acquire\<close> and \<open>release\<close>, the matched \<open>pushcli\<close>/\<open>popcli\<close> of
  \<open>myproc()\<close>, and the \<open>sti()\<close> of the scheduler, which it runs with no lock held.
\<close>

inductive mstep :: "machine \<Rightarrow> machine \<Rightarrow> bool" where
  begin_acquire: "m_pc m c = Run \<Longrightarrow> acquire_begin c lk m = Ok () m' \<Longrightarrow> mstep m m'"
| try_xchg: "m_pc m c = Spin lk \<Longrightarrow> acquire_xchg c lk m = Ok () m' \<Longrightarrow> mstep m m'"
| record_cpu: "m_pc m c = Won lk \<Longrightarrow> acquire_record c lk m = Ok () m' \<Longrightarrow> mstep m m'"
| begin_release: "m_pc m c = Run \<Longrightarrow> release_begin c lk m = Ok () m' \<Longrightarrow> mstep m m'"
| end_release: "m_pc m c = Freed lk \<Longrightarrow> release_end c lk m = Ok () m' \<Longrightarrow> mstep m m'"
| read_proc: "m_pc m c = Run \<Longrightarrow> sqn (pushcli c) (popcli c) m = Ok () m' \<Longrightarrow> mstep m m'"
| enable: "m_pc m c = Run \<Longrightarrow> m_held m c = [] \<Longrightarrow> mstep m (upd_cpu c (\<lambda>u. u\<lparr>c_if := True\<rparr>) m)"

definition boot_machine :: machine where
  "boot_machine = \<lparr>m_lock = (\<lambda>_. \<lparr>lk_name = [], lk_locked = False, lk_cpu = None\<rparr>),
     m_cpu = (\<lambda>_. \<lparr>c_ncli = 0, c_intena = False, c_if = False\<rparr>),
     m_pc = (\<lambda>_. Run), m_held = (\<lambda>_. [])\<rparr>"

inductive mreach :: "machine \<Rightarrow> bool" where
  boot: "mreach boot_machine"
| step: "mreach m \<Longrightarrow> mstep m m' \<Longrightarrow> mreach m'"

text \<open>A CPU owns a lock from the \<open>xchg\<close> it wins to the store that clears \<open>locked\<close>.\<close>

definition in_flight :: "lpc \<Rightarrow> int" where
  "in_flight x = (case x of Run \<Rightarrow> 0 | _ \<Rightarrow> 1)"

definition owns :: "machine \<Rightarrow> nat \<Rightarrow> lockid \<Rightarrow> bool" where
  "owns m c lk \<longleftrightarrow> lk \<in> set (m_held m c) \<or> m_pc m c = Won lk \<or> m_pc m c = Freed lk"

definition lock_inv :: "machine \<Rightarrow> bool" where
  "lock_inv m \<longleftrightarrow>
     (\<forall>c. distinct (m_held m c))
   \<and> (\<forall>c lk. lk \<in> set (m_held m c) \<longleftrightarrow> lk_cpu (m_lock m lk) = Some c)
   \<and> (\<forall>c lk. owns m c lk \<longrightarrow> lk_locked (m_lock m lk))
   \<and> (\<forall>c lk. m_pc m c = Won lk \<or> m_pc m c = Freed lk \<longrightarrow> lk_cpu (m_lock m lk) = None)
   \<and> (\<forall>c d lk. owns m c lk \<and> owns m d lk \<longrightarrow> c = d)"

definition cli_inv :: "machine \<Rightarrow> bool" where
  "cli_inv m \<longleftrightarrow> (\<forall>c. c_ncli (m_cpu m c) = int (length (m_held m c)) + in_flight (m_pc m c)
     \<and> (0 < c_ncli (m_cpu m c) \<longrightarrow> \<not> c_if (m_cpu m c)))"

section \<open>Running the pieces\<close>

lemma in_flight_simps [simp]:
  "in_flight Run = 0" "in_flight (Spin lk) = 1" "in_flight (Won lk) = 1" "in_flight (Freed lk) = 1"
  by (simp_all add: in_flight_def)

lemmas machine_upds = upd_lock_def upd_cpu_def set_pc_def

text \<open>With interrupts already off, asking whether a lock is held changes nothing.\<close>

lemma holding_nested:
  assumes "0 < c_ncli (m_cpu m c)" and "\<not> c_if (m_cpu m c)"
  shows "holding c lk m = Ok (lk_locked (m_lock m lk) \<and> lk_cpu (m_lock m lk) = Some c) m"
proof -
  have "(m_cpu m)(c := m_cpu m c\<lparr>c_if := False\<rparr>) = m_cpu m"
    using assms(2) by (intro ext) (simp add: fun_upd_def)
  with assms show ?thesis
    by (simp add: holding_def pushcli_def popcli_def machine_upds Let_def)
qed

lemma acquire_begin_run:
  assumes "0 \<le> c_ncli (m_cpu m c)"
  shows "acquire_begin c lk m =
    (if lk_locked (m_lock m lk) \<and> lk_cpu (m_lock m lk) = Some c then Panic ''acquire''
     else Ok () (set_pc c (Spin lk) (upd_cpu c (\<lambda>u. u\<lparr>
       c_intena := (if c_ncli u = 0 then c_if u else c_intena u),
       c_if := False, c_ncli := c_ncli u + 1\<rparr>) m)))"
proof -
  let ?m = "upd_cpu c (\<lambda>u. u\<lparr>
       c_intena := (if c_ncli u = 0 then c_if u else c_intena u),
       c_if := False, c_ncli := c_ncli u + 1\<rparr>) m"
  have push: "pushcli c m = Ok () ?m"
    by (simp add: pushcli_def)
  have "holding c lk ?m = Ok (lk_locked (m_lock ?m lk) \<and> lk_cpu (m_lock ?m lk) = Some c) ?m"
    by (rule holding_nested) (use assms in \<open>simp_all add: upd_cpu_def\<close>)
  then show ?thesis
    by (simp add: acquire_begin_def push) (simp add: upd_cpu_def)
qed

lemma cli_inv_ncli: "cli_inv m \<Longrightarrow> c_ncli (m_cpu m c) = int (length (m_held m c)) + in_flight (m_pc m c)"
  by (simp add: cli_inv_def)

lemma cli_inv_if: "cli_inv m \<Longrightarrow> 0 < c_ncli (m_cpu m c) \<Longrightarrow> \<not> c_if (m_cpu m c)"
  by (simp add: cli_inv_def)

lemma in_flight_nonneg: "0 \<le> in_flight x"
  by (simp add: in_flight_def split: lpc.split)

lemma ncli_nonneg: "cli_inv m \<Longrightarrow> 0 \<le> c_ncli (m_cpu m c)"
  using in_flight_nonneg [of "m_pc m c"] by (simp add: cli_inv_ncli)

text \<open>The words of a lock tell the CPU whether it holds the lock.\<close>

lemma lock_inv_held:
  "lock_inv m \<Longrightarrow> lk_locked (m_lock m lk) \<and> lk_cpu (m_lock m lk) = Some c \<longleftrightarrow> lk \<in> set (m_held m c)"
  by (auto simp: lock_inv_def owns_def)

lemma acquire_begin_cases:
  assumes "lock_inv m" and "cli_inv m"
  shows "acquire_begin c lk m =
    (if lk \<in> set (m_held m c) then Panic ''acquire''
     else Ok () (set_pc c (Spin lk) (upd_cpu c (\<lambda>u. u\<lparr>
       c_intena := (if c_ncli u = 0 then c_if u else c_intena u),
       c_if := False, c_ncli := c_ncli u + 1\<rparr>) m)))"
  by (simp add: acquire_begin_run ncli_nonneg assms(2) lock_inv_held [OF assms(1)])

lemma release_begin_cases:
  assumes "lock_inv m" and "cli_inv m" and "m_pc m c = Run"
  shows "release_begin c lk m =
    (if lk \<in> set (m_held m c) then
       Ok () (set_pc c (Freed lk) ((upd_lock lk (\<lambda>l. l\<lparr>lk_cpu := None\<rparr>) m)
         \<lparr>m_held := (m_held m)(c := remove1 lk (m_held m c))\<rparr>))
     else Panic ''release'')"
proof (cases "0 < c_ncli (m_cpu m c)")
  case True
  then have "holding c lk m = Ok (lk \<in> set (m_held m c)) m"
    using lock_inv_held [OF assms(1)] cli_inv_if [OF assms(2)] by (simp add: holding_nested)
  then show ?thesis
    by (simp add: release_begin_def machine_upds)
next
  case False
  then have n0: "c_ncli (m_cpu m c) = 0" and out: "lk \<notin> set (m_held m c)"
    using cli_inv_ncli [OF assms(2), of c] assms(3) by auto
  have "\<not> (lk_locked (m_lock m lk) \<and> lk_cpu (m_lock m lk) = Some c)"
    using out lock_inv_held [OF assms(1)] by blast
  then have "\<exists>m'. holding c lk m = Ok False m'"
    using n0 by (auto simp: holding_def pushcli_def popcli_def machine_upds Let_def)
  then obtain m' where "holding c lk m = Ok False m'" by blast
  with out show ?thesis by (simp add: release_begin_def)
qed

lemma release_end_run:
  assumes "cli_inv m" and "m_pc m c = Freed lk"
  shows "release_end c lk m = Ok () (upd_cpu c (\<lambda>u. u\<lparr>c_ncli := c_ncli u - 1,
       c_if := (c_ncli u - 1 = 0 \<and> c_intena u)\<rparr>)
     (set_pc c Run (upd_lock lk (\<lambda>l. l\<lparr>lk_locked := False\<rparr>) m)))"
proof -
  have n: "c_ncli (m_cpu m c) = int (length (m_held m c)) + 1"
    using cli_inv_ncli [OF assms(1), of c] assms(2) by simp
  then have "\<not> c_if (m_cpu m c)"
    using cli_inv_if [OF assms(1), of c] by simp
  with n show ?thesis
    by (simp add: release_end_def popcli_def machine_upds Let_def)
qed

section \<open>The invariant\<close>

lemma length_remove1_int:
  "x \<in> set xs \<Longrightarrow> int (length (remove1 x xs)) = int (length xs) - 1"
  by (induction xs) auto

lemma lock_invI:
  assumes "\<And>c. distinct (m_held m c)"
    and "\<And>c lk. lk \<in> set (m_held m c) \<longleftrightarrow> lk_cpu (m_lock m lk) = Some c"
    and "\<And>c lk. owns m c lk \<Longrightarrow> lk_locked (m_lock m lk)"
    and "\<And>c lk. m_pc m c = Won lk \<or> m_pc m c = Freed lk \<Longrightarrow> lk_cpu (m_lock m lk) = None"
    and "\<And>c d lk. owns m c lk \<Longrightarrow> owns m d lk \<Longrightarrow> c = d"
  shows "lock_inv m"
  using assms unfolding lock_inv_def by blast

lemma lock_invD:
  assumes "lock_inv m"
  shows lock_inv_distinct: "distinct (m_held m c)"
    and lock_inv_mem: "lk \<in> set (m_held m c) \<longleftrightarrow> lk_cpu (m_lock m lk) = Some c"
    and lock_inv_locked: "owns m c lk \<Longrightarrow> lk_locked (m_lock m lk)"
    and lock_inv_none: "m_pc m c = Won lk \<or> m_pc m c = Freed lk \<Longrightarrow> lk_cpu (m_lock m lk) = None"
    and lock_inv_unique: "owns m c lk \<Longrightarrow> owns m d lk \<Longrightarrow> c = d"
  using assms unfolding lock_inv_def by blast+

lemma lock_inv_set_pc_Spin:
  assumes "lock_inv m" and "m_pc m c = Run"
  shows "lock_inv (set_pc c (Spin lk) (upd_cpu c f m))" (is "lock_inv ?m")
proof -
  have own: "owns ?m d l \<longleftrightarrow> owns m d l" for d l
    using assms(2) by (auto simp: owns_def machine_upds)
  show ?thesis
  proof (rule lock_invI)
    show "d = e" if "owns ?m d l" "owns ?m e l" for d e l
      using that lock_inv_unique [OF assms(1)] unfolding own by blast
    show "lk_locked (m_lock ?m l)" if "owns ?m d l" for d l
      using lock_inv_locked [OF assms(1) that [unfolded own]] by (simp add: machine_upds)
  qed (use lock_inv_distinct [OF assms(1)] lock_inv_mem [OF assms(1)] lock_inv_none [OF assms(1)] in
      \<open>auto simp: machine_upds split: if_splits\<close>)
qed

lemma lock_inv_xchg:
  assumes "lock_inv m" and "m_pc m c = Spin lk" and "acquire_xchg c lk m = Ok () m'"
  shows "lock_inv m'"
proof (cases "lk_locked (m_lock m lk)")
  case True
  then have "m' = m"
    using assms(3) by (simp add: acquire_xchg_def machine_upds fun_upd_idem)
  with assms show ?thesis by simp
next
  case False
  then have free: "\<not> owns m d lk" for d
    using lock_inv_locked [OF assms(1)] by blast
  have none: "lk_cpu (m_lock m lk) = None"
    using free lock_inv_mem [OF assms(1)] by (cases "lk_cpu (m_lock m lk)") (auto simp: owns_def)
  from False assms(3) have m': "m' = m\<lparr>m_lock := (m_lock m)(lk := m_lock m lk\<lparr>lk_locked := True\<rparr>),
      m_pc := (m_pc m)(c := Won lk)\<rparr>"
    by (simp add: acquire_xchg_def machine_upds)
  have own: "owns m' d l \<longleftrightarrow> owns m d l \<or> d = c \<and> l = lk" for d l
    using assms(2) by (auto simp: owns_def m')
  show ?thesis
  proof (rule lock_invI)
    show "d = e" if "owns m' d l" "owns m' e l" for d e l
      using that free lock_inv_unique [OF assms(1)] unfolding own by blast
    show "lk_locked (m_lock m' l)" if "owns m' d l" for d l
      using that [unfolded own] lock_inv_locked [OF assms(1), of d l] by (auto simp: m')
  qed (use none lock_inv_distinct [OF assms(1)] lock_inv_mem [OF assms(1)] lock_inv_none [OF assms(1)] in
      \<open>auto simp: m' split: if_splits\<close>)
qed

lemma lock_inv_record:
  assumes "lock_inv m" and "m_pc m c = Won lk" and "acquire_record c lk m = Ok () m'"
  shows "lock_inv m'"
proof -
  have out: "lk \<notin> set (m_held m d)" for d
    using lock_inv_none [OF assms(1), of c lk] assms(2) by (simp add: lock_inv_mem [OF assms(1)])
  have only: "d = c" if "owns m d lk" for d
    using that assms(2) lock_inv_unique [OF assms(1)] by (auto simp: owns_def)
  from assms(3) have m': "m' = m\<lparr>m_lock := (m_lock m)(lk := m_lock m lk\<lparr>lk_cpu := Some c\<rparr>),
      m_held := (m_held m)(c := lk # m_held m c), m_pc := (m_pc m)(c := Run)\<rparr>"
    by (simp add: acquire_record_def machine_upds)
  have own: "owns m' d l \<longleftrightarrow> owns m d l" for d l
    using assms(2) by (auto simp: owns_def m')
  show ?thesis
  proof (rule lock_invI)
    show "d = e" if "owns m' d l" "owns m' e l" for d e l
      using that lock_inv_unique [OF assms(1)] unfolding own by blast
    show "lk_locked (m_lock m' l)" if "owns m' d l" for d l
      using lock_inv_locked [OF assms(1) that [unfolded own]] by (auto simp: m')
    show "distinct (m_held m' d)" for d
      using out lock_inv_distinct [OF assms(1)] by (simp add: m')
    show "l \<in> set (m_held m' d) \<longleftrightarrow> lk_cpu (m_lock m' l) = Some d" for d l
      using out lock_inv_mem [OF assms(1)] by (auto simp: m')
    show "lk_cpu (m_lock m' l) = None" if "m_pc m' d = Won l \<or> m_pc m' d = Freed l" for d l
      using that only [of d] lock_inv_none [OF assms(1), of d l]
      by (auto simp: m' owns_def split: if_splits)
  qed
qed

lemma lock_inv_release:
  assumes "lock_inv m" and "m_pc m c = Run" and "lk \<in> set (m_held m c)"
  shows "lock_inv (set_pc c (Freed lk) ((upd_lock lk (\<lambda>l. l\<lparr>lk_cpu := None\<rparr>) m)
         \<lparr>m_held := (m_held m)(c := remove1 lk (m_held m c))\<rparr>))" (is "lock_inv ?m")
proof -
  note dist = lock_inv_distinct [OF assms(1), of c]
  have only: "d = c" if "owns m d lk" for d
    using that assms(3) lock_inv_unique [OF assms(1)] by (auto simp: owns_def)
  have own: "owns ?m d l \<longleftrightarrow> owns m d l" for d l
    using assms(2,3) dist by (auto simp: owns_def machine_upds)
  show ?thesis
  proof (rule lock_invI)
    show "d = e" if "owns ?m d l" "owns ?m e l" for d e l
      using that lock_inv_unique [OF assms(1)] unfolding own by blast
    show "lk_locked (m_lock ?m l)" if "owns ?m d l" for d l
      using lock_inv_locked [OF assms(1) that [unfolded own]] by (auto simp: machine_upds)
    show "distinct (m_held ?m d)" for d
      using lock_inv_distinct [OF assms(1)] by (simp add: machine_upds)
    show "l \<in> set (m_held ?m d) \<longleftrightarrow> lk_cpu (m_lock ?m l) = Some d" for d l
    proof (cases "l = lk")
      case True
      have "lk \<notin> set (m_held m d)" if "d \<noteq> c"
        using that only unfolding owns_def by blast
      with True dist show ?thesis by (simp add: machine_upds)
    next
      case False
      then show ?thesis using lock_inv_mem [OF assms(1), of l d] by (auto simp: machine_upds)
    qed
    show "lk_cpu (m_lock ?m l) = None" if "m_pc ?m d = Won l \<or> m_pc ?m d = Freed l" for d l
      using that lock_inv_none [OF assms(1), of d l] by (auto simp: machine_upds split: if_splits)
  qed
qed

lemma lock_inv_clear:
  assumes "lock_inv m" and "m_pc m c = Freed lk"
  shows "lock_inv (upd_cpu c f (set_pc c Run (upd_lock lk (\<lambda>l. l\<lparr>lk_locked := False\<rparr>) m)))"
    (is "lock_inv ?m")
proof -
  have out: "lk \<notin> set (m_held m d)" for d
    using lock_inv_none [OF assms(1), of c lk] assms(2) by (simp add: lock_inv_mem [OF assms(1)])
  have only: "d = c" if "owns m d lk" for d
    using that assms(2) lock_inv_unique [OF assms(1)] by (auto simp: owns_def)
  have own: "owns ?m d l \<longleftrightarrow> owns m d l \<and> \<not> (d = c \<and> l = lk)" for d l
    using assms(2) out by (auto simp: owns_def machine_upds)
  show ?thesis
  proof (rule lock_invI)
    show "d = e" if "owns ?m d l" "owns ?m e l" for d e l
      using that lock_inv_unique [OF assms(1)] unfolding own by blast
    show "lk_locked (m_lock ?m l)" if "owns ?m d l" for d l
      using that [unfolded own] only [of d] lock_inv_locked [OF assms(1), of d l]
      by (auto simp: machine_upds)
    show "lk_cpu (m_lock ?m l) = None" if "m_pc ?m d = Won l \<or> m_pc ?m d = Freed l" for d l
      using that lock_inv_none [OF assms(1), of d l] by (auto simp: machine_upds split: if_splits)
  qed (use lock_inv_distinct [OF assms(1)] lock_inv_mem [OF assms(1)] in
      \<open>auto simp: machine_upds\<close>)
qed

lemma lock_inv_upd_cpu [simp]: "lock_inv (upd_cpu c f m) = lock_inv m"
  by (simp add: lock_inv_def owns_def upd_cpu_def)

lemma mstep_inv:
  "mstep m m' \<Longrightarrow> lock_inv m \<Longrightarrow> cli_inv m \<Longrightarrow> lock_inv m' \<and> cli_inv m'"
proof (induction rule: mstep.induct)
  case (begin_acquire m c lk m')
  then have "cli_inv m'"
    by (auto simp: acquire_begin_cases cli_inv_def machine_upds split: if_splits)
  with begin_acquire show ?case
    by (auto simp: acquire_begin_cases intro: lock_inv_set_pc_Spin split: if_splits)
next
  case (try_xchg m c lk m')
  then have "cli_inv m'"
    by (auto simp: acquire_xchg_def machine_upds cli_inv_def split: if_splits)
  with try_xchg show ?case by (blast intro: lock_inv_xchg)
next
  case (record_cpu m c lk m')
  then have "cli_inv m'"
    by (auto simp: acquire_record_def machine_upds cli_inv_def)
  with record_cpu show ?case by (blast intro: lock_inv_record)
next
  case (begin_release m c lk m')
  then have "cli_inv m'"
    by (auto simp: release_begin_cases cli_inv_def machine_upds length_remove1_int
        split: if_splits)
  with begin_release show ?case
    by (auto simp: release_begin_cases intro: lock_inv_release split: if_splits)
next
  case (end_release m c lk m')
  then have "cli_inv m'"
    by (auto simp: release_end_run cli_inv_def machine_upds split: if_splits)
  with end_release show ?case
    by (auto simp: release_end_run intro: lock_inv_clear)
next
  case (read_proc m c m')
  then have "lock_inv m'"
    by (auto simp: pushcli_def popcli_def Let_def split: if_splits)
  moreover from read_proc have "cli_inv m'"
    by (auto simp: pushcli_def popcli_def upd_cpu_def Let_def cli_inv_def split: if_splits)
  ultimately show ?case ..
next
  case (enable m c)
  then show ?case
    by (auto simp: upd_cpu_def [of _ _ m] cli_inv_def) (simp add: upd_cpu_def [symmetric])
qed

lemma mreach_inv: "mreach m \<Longrightarrow> lock_inv m \<and> cli_inv m"
proof (induction rule: mreach.induct)
  case boot
  show ?case
    by (simp add: boot_machine_def lock_inv_def owns_def cli_inv_def)
next
  case (step m m')
  then show ?case using mstep_inv by blast
qed

section \<open>What the locks promise\<close>

text \<open>
  C2: Mutual exclusion: in every state the CPUs can reach by interleaving the steps of \<open>acquire\<close> and
  \<open>release\<close>, at most one CPU is between winning the \<open>xchg\<close> on a lock and clearing \<open>lk->locked\<close>,
  and while a CPU holds any lock or is acquiring one its interrupts are off.
\<close>
theorem spinlock_mutual_exclusion:
  assumes "mreach m"
  shows "(owns m c lk \<and> owns m d lk \<longrightarrow> c = d)
    \<and> (m_held m c \<noteq> [] \<or> m_pc m c \<noteq> Run \<longrightarrow> \<not> c_if (m_cpu m c))"
proof -
  from assms have inv: "lock_inv m" "cli_inv m" using mreach_inv by blast+
  have "0 < c_ncli (m_cpu m c)" if "m_held m c \<noteq> [] \<or> m_pc m c \<noteq> Run"
    using that cli_inv_ncli [OF inv(2), of c] by (cases "m_pc m c") auto
  with inv show ?thesis using lock_inv_unique cli_inv_if by blast
qed

text \<open>A reachable state in which CPU 0 holds \<open>ptable.lock\<close> and CPU 1 spins on it.\<close>

definition demo_machine :: machine where
  "demo_machine = boot_machine\<lparr>
     m_lock := (m_lock boot_machine)(L_ptable := \<lparr>lk_name = [], lk_locked = True, lk_cpu = Some 0\<rparr>),
     m_cpu := (m_cpu boot_machine)(0 := \<lparr>c_ncli = 1, c_intena = False, c_if = False\<rparr>,
                                    1 := \<lparr>c_ncli = 1, c_intena = False, c_if = False\<rparr>),
     m_pc := (m_pc boot_machine)(1 := Spin L_ptable),
     m_held := (m_held boot_machine)(0 := [L_ptable])\<rparr>"

lemma demo_machine_reach: "mreach demo_machine"
proof -
  let ?cpu1 = "\<lparr>c_ncli = 1, c_intena = False, c_if = False\<rparr>"
  let ?m1 = "boot_machine\<lparr>m_cpu := (m_cpu boot_machine)(0 := ?cpu1),
      m_pc := (m_pc boot_machine)(0 := Spin L_ptable)\<rparr>"
  let ?lk2 = "(m_lock boot_machine)(L_ptable := \<lparr>lk_name = [], lk_locked = True, lk_cpu = None\<rparr>)"
  let ?m2 = "?m1\<lparr>m_lock := ?lk2, m_pc := (m_pc boot_machine)(0 := Won L_ptable)\<rparr>"
  let ?m3 = "demo_machine\<lparr>m_pc := m_pc boot_machine,
      m_cpu := (m_cpu boot_machine)(0 := ?cpu1)\<rparr>"
  note eval = acquire_begin_run acquire_xchg_def acquire_record_def machine_upds
    boot_machine_def demo_machine_def bnd_def sqn_def
  have 1: "mstep boot_machine ?m1"
    by (rule mstep.begin_acquire [of _ 0 L_ptable]) (simp_all add: eval)
  have 2: "mstep ?m1 ?m2"
    by (rule mstep.try_xchg [of _ 0 L_ptable]) (simp_all add: eval)
  have 3: "mstep ?m2 ?m3"
    by (rule mstep.record_cpu [of _ 0 L_ptable]) (simp_all add: eval fun_eq_iff)
  have 4: "mstep ?m3 demo_machine"
    by (rule mstep.begin_acquire [of _ 1 L_ptable]) (simp_all add: eval fun_eq_iff)
  show ?thesis
    using mreach.boot 1 2 3 4 mreach.step by blast
qed

theorem spinlock_mutual_exclusion_witness:
  "owns demo_machine 0 L_ptable \<and> \<not> c_if (m_cpu demo_machine 0) \<and> \<not> owns demo_machine 1 L_ptable"
proof -
  have "owns demo_machine 0 L_ptable" and "m_held demo_machine 0 \<noteq> []"
    by (simp_all add: demo_machine_def owns_def)
  with spinlock_mutual_exclusion [OF demo_machine_reach, of 0 L_ptable 1] show ?thesis by auto
qed

text \<open>
  C28: The view the rest of the kernel model has of a lock is the one its words implement: on a
  reachable machine, starting to acquire a lock panics exactly when \<open>Ptable.acquire\<close> does on the
  CPU's list of held locks, the completed acquisition of a free lock leaves the list that
  \<open>Ptable.acquire\<close> gives, and releasing succeeds or panics, and changes the list, as
  \<open>Ptable.release\<close> does.
\<close>
theorem spinlock_refines_held:
  assumes "mreach m" and "m_pc m c = Run" and "\<not> lk_locked (m_lock m lk)" and "held s = m_held m c"
  shows "(acquire_begin c l m = Panic ''acquire'' \<longleftrightarrow> acquire l s = Panic ''acquire'')
    \<and> (\<exists>m' s'. sqn (acquire_begin c lk) (sqn (acquire_xchg c lk) (acquire_record c lk)) m = Ok () m'
          \<and> acquire lk s = Ok () s' \<and> held s' = m_held m' c)
    \<and> (case release l s of
         Ok _ s' \<Rightarrow> (\<exists>m'. sqn (release_begin c l) (release_end c l) m = Ok () m' \<and> held s' = m_held m' c)
       | _ \<Rightarrow> release_begin c l m = Panic ''release'')"
proof (intro conjI)
  from assms(1) have inv: "lock_inv m" "cli_inv m" using mreach_inv by blast+
  have out: "lk \<notin> set (m_held m c)"
    using lock_inv_locked [OF inv(1), of c lk] assms(3) by (auto simp: owns_def)
  show "acquire_begin c l m = Panic ''acquire'' \<longleftrightarrow> acquire l s = Panic ''acquire''"
    using assms(4) by (simp add: acquire_begin_cases inv acquire_def)
  show "\<exists>m' s'. sqn (acquire_begin c lk) (sqn (acquire_xchg c lk) (acquire_record c lk)) m = Ok () m'
          \<and> acquire lk s = Ok () s' \<and> held s' = m_held m' c"
    using assms(3,4) out
    by (simp add: acquire_begin_cases inv acquire_def acquire_xchg_def acquire_record_def machine_upds)
  show "case release l s of
         Ok _ s' \<Rightarrow> (\<exists>m'. sqn (release_begin c l) (release_end c l) m = Ok () m' \<and> held s' = m_held m' c)
       | _ \<Rightarrow> release_begin c l m = Panic ''release''"
  proof (cases "l \<in> set (m_held m c)")
    case False
    with assms(4) show ?thesis by (simp add: release_def release_begin_cases inv assms(2))
  next
    case True
    let ?m = "set_pc c (Freed l) ((upd_lock l (\<lambda>l. l\<lparr>lk_cpu := None\<rparr>) m)
         \<lparr>m_held := (m_held m)(c := remove1 l (m_held m c))\<rparr>)"
    have begun: "release_begin c l m = Ok () ?m"
      using True by (simp add: release_begin_cases inv assms(2))
    have "mstep m ?m" using assms(2) begun by (rule mstep.begin_release)
    then have "cli_inv ?m" using mstep_inv inv by blast
    moreover have "m_pc ?m c = Freed l" by (simp add: set_pc_def)
    ultimately have "\<exists>m'. release_end c l ?m = Ok () m' \<and> m_held m' c = remove1 l (m_held m c)"
      by (simp add: release_end_run) (simp add: machine_upds)
    with begun True assms(4) show ?thesis by (auto simp: release_def)
  qed
qed

theorem spinlock_refines_held_witness:
  "acquire_begin 0 L_ptable demo_machine = Panic ''acquire''
    \<and> acquire L_ptable (boot_kbase\<lparr>held := [L_ptable]\<rparr>) = Panic ''acquire''"
proof -
  let ?s = "boot_kbase\<lparr>held := [L_ptable]\<rparr>"
  have "held ?s = m_held demo_machine 0" and "m_pc demo_machine 0 = Run"
    and "\<not> lk_locked (m_lock demo_machine L_log)"
    by (simp_all add: demo_machine_def boot_machine_def)
  then have "acquire_begin 0 L_ptable demo_machine = Panic ''acquire''
      \<longleftrightarrow> acquire L_ptable ?s = Panic ''acquire''"
    using spinlock_refines_held [OF demo_machine_reach] by blast
  moreover have "acquire L_ptable ?s = Panic ''acquire''" by (simp add: acquire_def)
  ultimately show ?thesis by blast
qed

end
