(* ===== verification/Kalloc.thy ===== *)
theory Kalloc
  imports Ptable
begin

text \<open>
  The physical page allocator (src/kalloc.c, src/memlayout.h, src/mmu.h).

  \<open>mem\<close> is the memory the kernel sees above \<open>KERNBASE\<close>, a byte store per page, indexed by the
  page's kernel virtual address. The free list is threaded through the free pages themselves:
  the first four bytes of a free page hold the address of the next one. \<open>kend\<close> and \<open>kdata\<close> are the
  linker's symbols \<open>end\<close>, the first address after the kernel, and \<open>data\<close>, the start of its writable
  part; no operation changes them.
\<close>

section \<open>Memory layout\<close>

definition PGSIZE :: uint where "PGSIZE = 4096"
definition PHYSTOP :: uint where "PHYSTOP = 0xE000000"
definition EXTMEM :: uint where "EXTMEM = 0x100000"

definition P2V :: "uint \<Rightarrow> uint" where "P2V a = a + KERNBASE"

definition PGROUNDUP :: "uint \<Rightarrow> uint" where
  "PGROUNDUP sz = (sz + PGSIZE - 1) AND NOT (PGSIZE - 1)"

definition PGROUNDDOWN :: "uint \<Rightarrow> uint" where
  "PGROUNDDOWN a = a AND NOT (PGSIZE - 1)"

record kmem = kbase +
  mem :: "uint \<Rightarrow> bytes"
  kend :: uint
  kdata :: uint
  use_lock :: bool
  freelist :: uint

definition upd_page :: "uint \<Rightarrow> (bytes \<Rightarrow> bytes) \<Rightarrow> ('z kmem_scheme, unit) kmon" where
  "upd_page p f = modify (\<lambda>s. s\<lparr>mem := (mem s)(p := f (mem s p))\<rparr>)"

section \<open>The allocator\<close>

definition kmem_lock :: "('z kmem_scheme, unit) kmon" where
  "kmem_lock = bnd (gets use_lock) (\<lambda>u. whenM u (acquire L_kmem))"

definition kmem_unlock :: "('z kmem_scheme, unit) kmon" where
  "kmem_unlock = bnd (gets use_lock) (\<lambda>u. whenM u (release L_kmem))"

definition kfree :: "uint \<Rightarrow> ('z kmem_scheme, unit) kmon" where
  "kfree v = bnd (gets kend) (\<lambda>e.
     if v mod PGSIZE \<noteq> 0 \<or> v < e \<or> V2P v \<ge> PHYSTOP then panic ''kfree''
     else stmts [
       upd_page v (\<lambda>b. memset b 0 1 4096),
       kmem_lock,
       bnd (gets freelist) (\<lambda>r. upd_page v (\<lambda>b. put32 b 0 r)),
       modify (\<lambda>s. s\<lparr>freelist := v\<rparr>),
       kmem_unlock])"

definition kalloc :: "('z kmem_scheme, uint) kmon" where
  "kalloc = sqn kmem_lock
     (bnd (gets freelist) (\<lambda>r.
        sqn (whenM (r \<noteq> 0) (modify (\<lambda>s. s\<lparr>freelist := get32 (mem s r) 0\<rparr>)))
       (sqn kmem_unlock (ret r))))"

text \<open>
  The loop of \<open>freerange\<close>. Its pointer would wrap past the top of the address space only after
  \<open>kfree\<close> of the topmost page, which panics; \<open>freerange_loop_eq\<close> below gives the loop back as the
  source has it.
\<close>

function freerange_loop :: "uint \<Rightarrow> uint \<Rightarrow> ('z kmem_scheme, unit) kmon" where
  "freerange_loop p vend =
     (if p + PGSIZE \<le> vend then
        (if p + PGSIZE < p then kfree p
         else sqn (kfree p) (freerange_loop (p + PGSIZE) vend))
      else ret ())"
  by pat_completeness auto
termination
proof (relation "measure (\<lambda>(p, vend). 2 ^ 32 - unat p)")
  fix p vend :: uint
  assume "\<not> p + PGSIZE < p"
  moreover have "p \<noteq> p + PGSIZE" by (simp add: PGSIZE_def)
  ultimately have "unat p < unat (p + PGSIZE)" by (metis linorder_neqE word_less_nat_alt)
  moreover have "unat (p + PGSIZE) < 2 ^ 32" using unsigned_less [where w = "p + PGSIZE"] by simp
  ultimately show "((p + PGSIZE, vend), (p, vend)) \<in> measure (\<lambda>(p, vend). 2 ^ 32 - unat p)"
    by (simp add: diff_less_mono2)
qed simp

declare freerange_loop.simps [simp del]

definition freerange :: "uint \<Rightarrow> uint \<Rightarrow> ('z kmem_scheme, unit) kmon" where
  "freerange vstart vend = freerange_loop (PGROUNDUP vstart) vend"

definition kinit1 :: "uint \<Rightarrow> uint \<Rightarrow> ('z kmem_scheme, unit) kmon" where
  "kinit1 vstart vend = sqn (modify (\<lambda>s. s\<lparr>use_lock := False\<rparr>)) (freerange vstart vend)"

definition kinit2 :: "uint \<Rightarrow> uint \<Rightarrow> ('z kmem_scheme, unit) kmon" where
  "kinit2 vstart vend = sqn (freerange vstart vend) (modify (\<lambda>s. s\<lparr>use_lock := True\<rparr>))"

section \<open>The free list as a list of pages\<close>

definition page_ok :: "uint \<Rightarrow> uint \<Rightarrow> bool" where
  "page_ok e v \<longleftrightarrow> v mod PGSIZE = 0 \<and> e \<le> v \<and> V2P v < PHYSTOP"

fun chain :: "(uint \<Rightarrow> bytes) \<Rightarrow> uint \<Rightarrow> uint list \<Rightarrow> bool" where
  "chain m p [] \<longleftrightarrow> p = 0"
| "chain m p (x # xs) \<longleftrightarrow> p = x \<and> p \<noteq> 0 \<and> chain m (get32 (m p) 0) xs"

definition free_rep :: "'z kmem_scheme \<Rightarrow> uint list \<Rightarrow> bool" where
  "free_rep s xs \<longleftrightarrow> chain (mem s) (freelist s) xs \<and> distinct xs \<and> (\<forall>x \<in> set xs. page_ok (kend s) x)"

definition kmem_ready :: "'z kmem_scheme \<Rightarrow> bool" where
  "kmem_ready s \<longleftrightarrow> (use_lock s \<longrightarrow> L_kmem \<notin> set (held s))"

definition junk_page :: "uint \<Rightarrow> bytes \<Rightarrow> bytes" where
  "junk_page nxt b = put32 (\<lambda>x. if x < 4096 then 1 else b x) 0 nxt"

lemma chain_cong: "(\<And>x. x \<in> set xs \<Longrightarrow> m x = m' x) \<Longrightarrow> chain m p xs = chain m' p xs"
  by (induction xs arbitrary: p) auto

lemma chain_unique: "chain m p xs \<Longrightarrow> chain m p ys \<Longrightarrow> xs = ys"
proof (induction xs arbitrary: p ys)
  case Nil
  then show ?case by (cases ys) auto
next
  case (Cons x xs)
  then show ?case by (cases ys) auto
qed

lemma page_ok_nonzero: "page_ok e v \<Longrightarrow> v \<noteq> 0"
  by (auto simp: page_ok_def V2P_def KERNBASE_def PHYSTOP_def)

lemma memset_junk: "memset b 0 1 4096 = (\<lambda>x. if x < 4096 then 1 else b x)"
  by (simp add: memset_apply fun_eq_iff)

lemma kalloc_run:
  assumes "kmem_ready s"
  shows "kalloc s = Ok (freelist s)
    (if freelist s \<noteq> 0 then s\<lparr>freelist := get32 (mem s (freelist s)) 0\<rparr> else s)"
  using assms by (simp add: kalloc_def kmem_lock_def kmem_unlock_def kmem_ready_def run_simps)

lemma kfree_run:
  assumes "kmem_ready s"
  shows "kfree v s = (if page_ok (kend s) v
     then Ok () (s\<lparr>mem := (mem s)(v := junk_page (freelist s) (mem s v)), freelist := v\<rparr>)
     else Panic ''kfree'')"
  using assms
  by (auto simp: kfree_def page_ok_def upd_page_def kmem_lock_def kmem_unlock_def kmem_ready_def
      run_simps junk_page_def memset_junk not_le not_less)

lemma free_rep_alloc:
  assumes "kmem_ready s" and "free_rep s xs"
  shows "\<exists>s'. kalloc s = Ok (case xs of [] \<Rightarrow> 0 | x # _ \<Rightarrow> x) s' \<and> free_rep s' (tl xs)
    \<and> kmem_ready s' \<and> kend s' = kend s \<and> mem s' = mem s"
  using assms by (cases xs) (auto simp: kalloc_run free_rep_def kmem_ready_def)

lemma free_rep_free:
  assumes "kmem_ready s" and "free_rep s xs" and "page_ok (kend s) v" and "v \<notin> set xs"
  shows "\<exists>s'. kfree v s = Ok () s' \<and> free_rep s' (v # xs) \<and> kmem_ready s' \<and> kend s' = kend s
    \<and> mem s' = (mem s)(v := junk_page (freelist s) (mem s v))"
proof -
  have "chain ((mem s)(v := b)) (freelist s) xs" for b
  proof -
    have "chain ((mem s)(v := b)) (freelist s) xs = chain (mem s) (freelist s) xs"
      by (rule chain_cong) (use assms(4) in auto)
    with assms(2) show ?thesis by (simp add: free_rep_def)
  qed
  then show ?thesis
    using assms page_ok_nonzero [OF assms(3)]
    by (simp add: kfree_run free_rep_def kmem_ready_def junk_page_def)
qed

lemma free_rep_unique: "free_rep s xs \<Longrightarrow> free_rep s ys \<Longrightarrow> xs = ys"
  by (auto simp: free_rep_def dest: chain_unique)

text \<open>Code that writes to pages it has allocated does not disturb the free list.\<close>

lemma free_rep_frame:
  assumes "free_rep s xs" and "\<And>x. x \<in> set xs \<Longrightarrow> mem t x = mem s x"
    and "freelist t = freelist s" and "kend t = kend s"
  shows "free_rep t xs"
  using assms chain_cong [of xs "mem t" "mem s" "freelist s"] by (simp add: free_rep_def)

section \<open>The interface of a page allocator\<close>

text \<open>A call made a given number of times.\<close>

primrec timesM :: "nat \<Rightarrow> ('s, 'a) kmon \<Rightarrow> ('s, 'a list) kmon" where
  "timesM 0 m = ret []"
| "timesM (Suc n) m = bnd m (\<lambda>x. bnd (timesM n m) (\<lambda>xs. ret (x # xs)))"

locale page_allocator =
  fixes alloc :: "('s, uint) kmon"
    and free :: "uint \<Rightarrow> ('s, unit) kmon"
    and rep :: "'s \<Rightarrow> uint list \<Rightarrow> bool"
    and ready :: "'s \<Rightarrow> bool"
    and valid :: "'s \<Rightarrow> uint \<Rightarrow> bool"
  assumes alloc_law: "ready s \<Longrightarrow> rep s xs \<Longrightarrow>
      \<exists>s'. alloc s = Ok (case xs of [] \<Rightarrow> 0 | x # _ \<Rightarrow> x) s' \<and> rep s' (tl xs) \<and> ready s' \<and> valid s' = valid s"
    and free_law: "ready s \<Longrightarrow> rep s xs \<Longrightarrow> valid s v \<Longrightarrow> v \<notin> set xs \<Longrightarrow>
      \<exists>s'. free v s = Ok () s' \<and> rep s' (v # xs) \<and> ready s' \<and> valid s' = valid s"
    and rep_distinct: "rep s xs \<Longrightarrow> distinct xs"
    and rep_valid: "rep s xs \<Longrightarrow> x \<in> set xs \<Longrightarrow> valid s x"
    and valid_nonzero: "valid s x \<Longrightarrow> x \<noteq> 0"
begin

lemma alloc_times:
  "ready s \<Longrightarrow> rep s xs \<Longrightarrow> n \<le> length xs \<Longrightarrow>
     \<exists>s'. timesM n alloc s = Ok (take n xs) s' \<and> rep s' (drop n xs) \<and> ready s' \<and> valid s' = valid s"
proof (induction n arbitrary: s xs)
  case 0
  then show ?case by simp
next
  case (Suc n)
  then obtain x ys where xs: "xs = x # ys" by (cases xs) auto
  with Suc.prems alloc_law [of s xs] obtain s1 where
    1: "alloc s = Ok x s1" "rep s1 ys" "ready s1" "valid s1 = valid s" by auto
  moreover obtain s2 where "timesM n alloc s1 = Ok (take n ys) s2" "rep s2 (drop n ys)" "ready s2"
      "valid s2 = valid s1"
    using Suc.IH [OF 1(3,2)] Suc.prems(3) xs by auto
  ultimately show ?case by (simp add: xs)
qed

lemma alloc_times_fresh:
  assumes "ready s" and "rep s xs" and "timesM n alloc s = Ok ps s'" and "n \<le> length xs"
  shows "length ps = n \<and> distinct ps \<and> 0 \<notin> set ps \<and> (\<exists>ys. rep s' ys \<and> set ps \<inter> set ys = {})"
proof -
  from alloc_times [OF assms(1,2,4)] assms(3)
  have ps: "ps = take n xs" and rep': "rep s' (drop n xs)" by auto
  have "set (take n xs) \<inter> set (drop n xs) = {}"
    using rep_distinct [OF assms(2)] by (simp add: set_take_disj_set_drop_if_distinct)
  moreover have "0 \<notin> set ps"
    using rep_valid [OF assms(2)] valid_nonzero ps by (metis in_set_takeD)
  ultimately show ?thesis
    using rep' rep_distinct [OF assms(2)] assms(4) by (auto simp: ps)
qed

lemma alloc_free:
  assumes "ready s" and "rep s (x # xs)"
  shows "\<exists>s1 s2. alloc s = Ok x s1 \<and> free x s1 = Ok () s2 \<and> rep s2 (x # xs)"
proof -
  from alloc_law [OF assms] obtain s1 where
    1: "alloc s = Ok x s1" "rep s1 xs" "ready s1" "valid s1 = valid s" by auto
  with free_law [OF 1(3,2)] rep_valid [OF assms(2)] rep_distinct [OF assms(2)] show ?thesis by auto
qed

end

interpretation ka: page_allocator kalloc kfree free_rep kmem_ready "\<lambda>s. page_ok (kend s)"
proof
  fix s :: "'a kmem_scheme" and xs
  assume "kmem_ready s" "free_rep s xs"
  from free_rep_alloc [OF this] show "\<exists>s'. kalloc s = Ok (case xs of [] \<Rightarrow> 0 | x # _ \<Rightarrow> x) s'
      \<and> free_rep s' (tl xs) \<and> kmem_ready s' \<and> page_ok (kend s') = page_ok (kend s)"
    by auto
next
  fix s :: "'a kmem_scheme" and xs v
  assume "kmem_ready s" "free_rep s xs" "page_ok (kend s) v" "v \<notin> set xs"
  from free_rep_free [OF this] show "\<exists>s'. kfree v s = Ok () s' \<and> free_rep s' (v # xs)
      \<and> kmem_ready s' \<and> page_ok (kend s') = page_ok (kend s)"
    by auto
qed (auto simp: free_rep_def page_ok_nonzero)

section \<open>Filling the free list at boot\<close>

lemma mod_PGSIZE: "v mod PGSIZE = 0 \<longleftrightarrow> 4096 dvd unat v"
  by (simp add: PGSIZE_def u32_eq u32_mod dvd_eq_mod_eq_0)

lemma V2P_less_PHYSTOP: "V2P v < PHYSTOP \<longleftrightarrow> 2147483648 \<le> unat v \<and> unat v < 2382364672"
proof (cases "KERNBASE \<le> v")
  case True
  then have "unat (V2P v) = unat v - 2147483648"
    by (simp add: V2P_def unat_sub) (simp add: KERNBASE_def)
  with True show ?thesis by (auto simp: KERNBASE_def PHYSTOP_def u32_arith)
next
  case False
  then have v: "unat v < 2147483648" by (simp add: KERNBASE_def u32_arith)
  then have "unat (V2P v) = unat v + 2147483648" by (simp add: V2P_def KERNBASE_def u32_sub)
  with v show ?thesis by (simp add: PHYSTOP_def word_less_nat_alt)
qed

lemma page_ok_unat:
  "page_ok e v \<longleftrightarrow> 4096 dvd unat v \<and> unat e \<le> unat v \<and> 2147483648 \<le> unat v \<and> unat v < 2382364672"
  by (auto simp: page_ok_def mod_PGSIZE V2P_less_PHYSTOP word_le_nat_alt)

lemma freerange_loop_eq:
  "freerange_loop p vend s =
     (if p + PGSIZE \<le> vend then sqn (kfree p) (freerange_loop (p + PGSIZE) vend) s else Ok () s)"
proof (cases "p + PGSIZE < p")
  case True
  then have wrap: "(unat p + 4096) mod 4294967296 < unat p" by (simp add: PGSIZE_def u32_arith)
  have "4294963200 \<le> unat p"
  proof (rule ccontr)
    assume "\<not> ?thesis"
    then have "(unat p + 4096) mod 4294967296 = unat p + 4096" by simp
    with wrap show False by simp
  qed
  then have "\<not> V2P p < PHYSTOP" by (simp add: V2P_less_PHYSTOP)
  then have "kfree p s = Panic ''kfree''" by (simp add: kfree_def not_less)
  with True show ?thesis by (simp add: freerange_loop.simps [of p vend])
qed (simp add: freerange_loop.simps [of p vend])

definition page_range :: "uint \<Rightarrow> nat \<Rightarrow> uint list" where
  "page_range p n = map (\<lambda>i. p + of_nat (4096 * i)) [0..<n]"

lemma page_range_0 [simp]: "page_range p 0 = []"
  by (simp add: page_range_def)

lemma page_range_Suc: "page_range p (Suc n) = p # page_range (p + PGSIZE) n"
proof -
  have "[0..<Suc n] = 0 # map Suc [0..<n]" by (simp add: map_Suc_upt upt_conv_Cons)
  then show ?thesis by (simp add: page_range_def PGSIZE_def o_def algebra_simps del: upt_Suc)
qed

lemma unat_page_add:
  "unat (p :: uint) + 4096 * i < 2 ^ 32 \<Longrightarrow> unat (p + of_nat (4096 * i)) = unat p + 4096 * i"
  by (simp only: u32_add u32_of_nat) simp

lemma set_page_range:
  assumes "unat p + 4096 * n < 2 ^ 32" and "4096 dvd unat p"
  shows "set (page_range p n) = {v. 4096 dvd unat v \<and> unat p \<le> unat v \<and> unat v < unat p + 4096 * n}"
proof (intro set_eqI iffI)
  fix v :: uint assume "v \<in> set (page_range p n)"
  then obtain i where i: "i < n" "v = p + of_nat (4096 * i)" by (auto simp: page_range_def)
  then have "unat v = unat p + 4096 * i" using assms(1) unat_page_add [of p i] by simp
  with i(1) assms(2) show "v \<in> {v. 4096 dvd unat v \<and> unat p \<le> unat v \<and> unat v < unat p + 4096 * n}"
    by simp
next
  fix v :: uint assume "v \<in> {v. 4096 dvd unat v \<and> unat p \<le> unat v \<and> unat v < unat p + 4096 * n}"
  then have v: "4096 dvd unat v" "unat p \<le> unat v" "unat v < unat p + 4096 * n" by auto
  with assms(2) have "4096 dvd unat v - unat p" by (simp add: dvd_diff_nat)
  then obtain i where "unat v - unat p = 4096 * i" ..
  with v have i: "unat v = unat p + 4096 * i" "i < n" by auto
  then have "unat (p + of_nat (4096 * i)) = unat v"
    using assms(1) by (subst unat_page_add) auto
  then have "v = p + of_nat (4096 * i)" by (simp only: word_unat_eq_iff)
  with i(2) show "v \<in> set (page_range p n)" unfolding page_range_def by auto
qed


lemma distinct_page_range:
  "unat p + 4096 * n < 2 ^ 32 \<Longrightarrow> distinct (page_range p n)"
proof (induction n arbitrary: p)
  case (Suc n)
  have "unat (p + PGSIZE) = unat p + 4096"
    using Suc.prems by (simp add: PGSIZE_def u32_add)
  with Suc have "distinct (page_range (p + PGSIZE) n)" by simp
  moreover have "p \<noteq> (p + PGSIZE) + of_nat (4096 * i)" if "i < n" for i
    using unat_page_add [of p "Suc i"] Suc.prems that by (auto simp: PGSIZE_def algebra_simps)
  then have "p \<notin> set (page_range (p + PGSIZE) n)" by (auto simp: page_range_def)
  ultimately show ?case by (simp add: page_range_Suc)
qed simp

lemma freerange_loop_run:
  assumes "kmem_ready s" and "free_rep s xs"
    and "unat p + 4096 * n \<le> unat vend" and "unat vend < unat p + 4096 * n + 4096"
    and "unat vend + 4096 < 2 ^ 32"
    and "set (page_range p n) \<subseteq> {v. page_ok (kend s) v}" and "set (page_range p n) \<inter> set xs = {}"
  shows "\<exists>s'. freerange_loop p vend s = Ok () s' \<and> free_rep s' (rev (page_range p n) @ xs)
    \<and> kmem_ready s' \<and> kend s' = kend s \<and> held s' = held s \<and> use_lock s' = use_lock s"
  using assms
proof (induction n arbitrary: p s xs)
  case 0
  then have "\<not> p + PGSIZE \<le> vend" by (simp add: PGSIZE_def u32_arith)
  with 0 show ?case by (simp add: freerange_loop_eq [of p])
next
  case (Suc n)
  have p1: "unat (p + PGSIZE) = unat p + 4096" using Suc.prems(3,5) by (simp add: PGSIZE_def u32_add)
  then have le: "p + PGSIZE \<le> vend" using Suc.prems(3) by (simp add: word_le_nat_alt)
  obtain s1 where s1: "kfree p s = Ok () s1" "free_rep s1 (p # xs)" "kmem_ready s1" "kend s1 = kend s"
      "held s1 = held s" "use_lock s1 = use_lock s"
    using free_rep_free [OF Suc.prems(1,2), of p] Suc.prems(6,7) kfree_run [OF Suc.prems(1), of p]
    by (auto simp: page_range_Suc)
  have "distinct (page_range p (Suc n))"
    using Suc.prems(3,5) by (intro distinct_page_range) simp
  then have "set (page_range (p + PGSIZE) n) \<inter> set (p # xs) = {}"
    using Suc.prems(7) by (auto simp: page_range_Suc)
  with Suc.IH [OF s1(3,2), of "p + PGSIZE"] Suc.prems(3-6) p1 s1 le show ?case
    by (auto simp: freerange_loop_eq [of p] page_range_Suc)
qed

lemma PGROUNDDOWN_unat: "unat (PGROUNDDOWN a) = unat a div 4096 * 4096"
proof -
  have m: "(4095 :: uint) = mask 12" by (simp add: mask_eq_exp_minus_1)
  have "PGROUNDDOWN a = push_bit 12 (drop_bit 12 a)"
    unfolding PGROUNDDOWN_def PGSIZE_def by (simp add: m) (rule bit_word_eqI, auto simp: bit_simps)
  also have "unat \<dots> = unat a div 4096 * 4096"
  proof -
    have "unat a div 4096 * 4096 < 4294967296"
      using u32_bound [of a] div_times_less_eq_dividend [of "unat a" 4096] by (rule order.strict_trans1 [rotated])
    then show ?thesis by (simp add: push_bit_eq_mult drop_bit_eq_div u32_mult unat_div)
  qed
  finally show ?thesis .
qed

lemma PGROUNDUP_down: "PGROUNDUP a = PGROUNDDOWN (a + 4095)"
  by (simp add: PGROUNDUP_def PGROUNDDOWN_def PGSIZE_def add.commute)


lemma PGROUNDUP_unat: "unat a + 4095 < 4294967296 \<Longrightarrow> unat (PGROUNDUP a) = (unat a + 4095) div 4096 * 4096"
  by (simp add: PGROUNDUP_down PGROUNDDOWN_unat u32_add)

text \<open>
  C27: The two boot phases hand all memory to the allocator: after \<open>kinit1\<close> and then \<open>kinit2\<close> with the
  arguments of \<open>main()\<close>, and no allocation in between, the free list is well formed and holds
  exactly the pages between the end of the kernel and \<open>PHYSTOP\<close>, each once, and later calls take
  the lock.
\<close>
theorem kinit_frees_all_memory:
  assumes "freelist s = 0" and "held s = []"
    and "KERNBASE \<le> kend s" and "kend s \<le> P2V 0x400000"
  shows "\<exists>s' xs. sqn (kinit1 (kend s) (P2V 0x400000)) (kinit2 (P2V 0x400000) (P2V PHYSTOP)) s = Ok () s'
    \<and> free_rep s' xs \<and> set xs = {v. page_ok (kend s) v} \<and> use_lock s'"
proof -
  let ?p = "PGROUNDUP (kend s)" and ?s = "s\<lparr>use_lock := False\<rparr>" and ?q = "P2V 0x400000"
  have e: "2147483648 \<le> unat (kend s)" "unat (kend s) \<le> 2151677952"
    using assms(3,4) by (simp_all add: KERNBASE_def P2V_def word_le_nat_alt)
  define k where "k = (unat (kend s) + 4095) div 4096"
  have up: "unat ?p = k * 4096" using e by (simp add: PGROUNDUP_unat k_def)
  have k: "unat (kend s) \<le> k * 4096" "k * 4096 < unat (kend s) + 4096" "k \<le> 525312"
    using e by (auto simp: k_def)
  define n where "n = 525312 - k"
  have kn: "k * 4096 + 4096 * n = 2151677952" using k(3) by (simp add: n_def)
  have q: "unat ?q = 2151677952" by (simp add: P2V_def KERNBASE_def)
  have stop: "unat (P2V PHYSTOP) = 2382364672" by (simp add: P2V_def PHYSTOP_def KERNBASE_def)
  have up2: "PGROUNDUP ?q = ?q" by (simp add: PGROUNDUP_unat u32_eq q)
  have r1: "set (page_range ?p n) = {v. 4096 dvd unat v \<and> k * 4096 \<le> unat v \<and> unat v < 2151677952}"
    using kn by (subst set_page_range) (simp_all add: up)
  have r2: "set (page_range ?q 56320) = {v. 4096 dvd unat v \<and> 2151677952 \<le> unat v \<and> unat v < 2382364672}"
    by (subst set_page_range) (simp_all add: q)
  have sub: "set (page_range ?p n) \<subseteq> {v. page_ok (kend s) v}"
    using k e by (auto simp: r1 page_ok_unat)
  have "kmem_ready ?s" "free_rep ?s []" using assms(1,2) by (simp_all add: kmem_ready_def free_rep_def)
  from freerange_loop_run [OF this, of ?p n ?q] obtain s1 where
    s1: "freerange_loop ?p ?q ?s = Ok () s1" "free_rep s1 (rev (page_range ?p n))" "kmem_ready s1"
      "kend s1 = kend s" "use_lock s1 = False"
    using sub kn by (auto simp: up q)
  have "set (page_range ?q 56320) \<subseteq> {v. page_ok (kend s1) v}"
    using r2 e s1(4) by (auto simp: page_ok_unat)
  moreover have "set (page_range ?q 56320) \<inter> set (rev (page_range ?p n)) = {}"
    using r1 r2 by auto
  ultimately obtain s2 where s2: "freerange_loop ?q (P2V PHYSTOP) s1 = Ok () s2"
      "free_rep s2 (rev (page_range ?q 56320) @ rev (page_range ?p n))"
    using freerange_loop_run [OF s1(3,2), of ?q 56320 "P2V PHYSTOP"] by (auto simp: q stop)
  have "free_rep (s2\<lparr>use_lock := True\<rparr>) (rev (page_range ?q 56320) @ rev (page_range ?p n))"
    using s2(2) by (simp add: free_rep_def)
  moreover have "{v. page_ok (kend s) v} = set (page_range ?p n) \<union> set (page_range ?q 56320)"
  proof -
    have "k * 4096 \<le> unat v \<longleftrightarrow> unat (kend s) \<le> unat v" if "4096 dvd unat v" for v :: uint
      using that k(1,2) by (auto elim!: dvdE)
    then show ?thesis using e by (auto simp: r1 r2 page_ok_unat)
  qed
  ultimately show ?thesis
    using s1(1) s2(1) by (auto simp: kinit1_def kinit2_def freerange_def up2)
qed


definition demo_kmem :: kmem where
  "demo_kmem = kbase.extend boot_kbase \<lparr>mem = (\<lambda>_ _. 0), kend = 0x80115000, kdata = 0x80108000, use_lock = False, freelist = 0\<rparr>"

theorem kinit_frees_all_memory_witness:
  "\<exists>s' xs. sqn (kinit1 0x80115000 (P2V 0x400000)) (kinit2 (P2V 0x400000) (P2V PHYSTOP)) demo_kmem = Ok () s'
    \<and> free_rep s' xs \<and> 0x80115000 \<in> set xs \<and> 0x80114000 \<notin> set xs"
proof -
  have e: "kend demo_kmem = 0x80115000" and "freelist demo_kmem = 0" and "held demo_kmem = []"
    by (simp_all add: demo_kmem_def boot_kbase_def kbase.defs)
  then have "\<exists>s' xs. sqn (kinit1 0x80115000 (P2V 0x400000)) (kinit2 (P2V 0x400000) (P2V PHYSTOP)) demo_kmem = Ok () s'
    \<and> free_rep s' xs \<and> set xs = {v. page_ok 0x80115000 v} \<and> use_lock s'"
    using kinit_frees_all_memory [of demo_kmem] by (simp add: KERNBASE_def P2V_def)
  moreover have "page_ok 0x80115000 0x80115000" "\<not> page_ok 0x80115000 0x80114000"
    by (simp_all add: page_ok_unat)
  ultimately show ?thesis by auto
qed



text \<open>
  \<open>kfree\<close> panics on an address that is not a page of memory above the kernel; otherwise it fills
  the page with ones, stores the old head of the list in its first word, makes it the new head, and
  leaves every other page as it was.
\<close>
theorem kfree_links_page:
  assumes "kmem_ready s"
  shows "kfree v s = (if page_ok (kend s) v
     then Ok () (s\<lparr>mem := (mem s)(v := put32 (\<lambda>x. if x < 4096 then 1 else mem s v x) 0 (freelist s)),
                   freelist := v\<rparr>)
     else Panic ''kfree'')"
  using kfree_run [OF assms] by (simp add: junk_page_def)

theorem kfree_links_page_witness: "kfree 0x80117001 demo_kmem = Panic ''kfree''"
proof -
  have "kmem_ready demo_kmem" by (simp add: kmem_ready_def demo_kmem_def kbase.defs)
  from kfree_links_page [OF this, of "0x80117001"] show ?thesis
    by (simp add: page_ok_unat demo_kmem_def kbase.defs)
qed

end
