(* ===== verification/Pipe.thy ===== *)
theory Pipe
  imports Kalloc
begin

text \<open>
  Pipes (src/pipe.c): a ring of 512 bytes between the processes that write to a pipe and those
  that read from it, with sleeping when the ring is full or empty. \<open>pipealloc\<close> is with the file
  table it allocates from (theory File).

  A \<open>struct pipe\<close> is the record \<open>pipe\<close>, kept under the address of the page that \<open>kalloc\<close> gave for it.
  A process that sleeps in \<open>pipewrite\<close> or \<open>piperead\<close> goes on with \<open>pipewrite_resume\<close> or
  \<open>piperead_resume\<close>; the buffer in the process's memory is the argument \<open>addr\<close>.
\<close>

definition PIPESIZE :: uint where "PIPESIZE = 512"

record pipe =
  pi_data :: bytes
  pi_nread :: uint
  pi_nwrite :: uint
  pi_readopen :: bool
  pi_writeopen :: bool

record kpipe = kmem +
  pipes :: "uint \<Rightarrow> pipe"

definition upd_pipe :: "uint \<Rightarrow> (pipe \<Rightarrow> pipe) \<Rightarrow> ('z kpipe_scheme, unit) kmon" where
  "upd_pipe p f = modify (\<lambda>s. s\<lparr>pipes := (pipes s)(p := f (pipes s p))\<rparr>)"

definition pipe_full :: "pipe \<Rightarrow> bool" where
  "pipe_full q \<longleftrightarrow> pi_nwrite q = pi_nread q + PIPESIZE"

definition pipe_empty :: "pipe \<Rightarrow> bool" where
  "pipe_empty q \<longleftrightarrow> pi_nread q = pi_nwrite q"

definition pipe_put :: "uchar \<Rightarrow> pipe \<Rightarrow> pipe" where
  "pipe_put c q = q\<lparr>pi_data := (pi_data q)(unat (pi_nwrite q mod PIPESIZE) := c),
     pi_nwrite := pi_nwrite q + 1\<rparr>"

definition pipe_head :: "pipe \<Rightarrow> uchar" where
  "pipe_head q = pi_data q (unat (pi_nread q mod PIPESIZE))"

definition pipe_drop :: "pipe \<Rightarrow> pipe" where
  "pipe_drop q = q\<lparr>pi_nread := pi_nread q + 1\<rparr>"

definition pipeclose :: "uint \<Rightarrow> bool \<Rightarrow> ('z kpipe_scheme, unit) kmon" where
  "pipeclose p writable = sqn (acquire (L_pipe p))
     (sqn (if writable then
             stmts [upd_pipe p (\<lambda>q. q\<lparr>pi_writeopen := False\<rparr>), wakeup (C_pipe_nread p)]
           else
             stmts [upd_pipe p (\<lambda>q. q\<lparr>pi_readopen := False\<rparr>), wakeup (C_pipe_nwrite p)])
     (bnd (gets (\<lambda>s. pipes s p)) (\<lambda>q.
        if \<not> pi_readopen q \<and> \<not> pi_writeopen q then stmts [release (L_pipe p), kfree p]
        else release (L_pipe p))))"

text \<open>The loop of \<open>pipewrite\<close> from the byte with index \<open>i\<close> on, the pipe's lock held.\<close>

function pipewrite_loop :: "uint \<Rightarrow> bytes \<Rightarrow> int \<Rightarrow> int \<Rightarrow> ('z kpipe_scheme, int) kmon" where
  "pipewrite_loop p addr n i =
     (if i < n then
        bnd (gets (\<lambda>s. pipes s p)) (\<lambda>q.
          if pipe_full q then
            bnd myproc_killed (\<lambda>killed.
              if \<not> pi_readopen q \<or> killed then sqn (release (L_pipe p)) (ret (- 1))
              else sqn (wakeup (C_pipe_nread p)) (sleep_wait (C_pipe_nwrite p) (L_pipe p)))
          else
            sqn (upd_pipe p (pipe_put (addr (nat i)))) (pipewrite_loop p addr n (i + 1)))
      else sqn (wakeup (C_pipe_nread p)) (sqn (release (L_pipe p)) (ret n)))"
  by pat_completeness auto
termination by (relation "measure (\<lambda>(p, addr, n, i). nat (n - i))") auto

declare pipewrite_loop.simps [simp del]

definition pipewrite :: "uint \<Rightarrow> bytes \<Rightarrow> int \<Rightarrow> ('z kpipe_scheme, int) kmon" where
  "pipewrite p addr n = sqn (acquire (L_pipe p)) (pipewrite_loop p addr n 0)"

definition pipewrite_resume :: "uint \<Rightarrow> bytes \<Rightarrow> int \<Rightarrow> int \<Rightarrow> ('z kpipe_scheme, int) kmon" where
  "pipewrite_resume p addr n i = sqn (sleep_resume (L_pipe p)) (pipewrite_loop p addr n i)"

text \<open>The copying loop of \<open>piperead\<close>; it returns the count and the reader's buffer.\<close>

function piperead_copy :: "uint \<Rightarrow> bytes \<Rightarrow> int \<Rightarrow> int \<Rightarrow> ('z kpipe_scheme, int \<times> bytes) kmon" where
  "piperead_copy p addr n i =
     (if i < n then
        bnd (gets (\<lambda>s. pipes s p)) (\<lambda>q.
          if pipe_empty q then ret (i, addr)
          else sqn (upd_pipe p pipe_drop) (piperead_copy p (addr(nat i := pipe_head q)) n (i + 1)))
      else ret (i, addr))"
  by pat_completeness auto
termination by (relation "measure (\<lambda>(p, addr, n, i). nat (n - i))") auto

declare piperead_copy.simps [simp del]

definition piperead_loop :: "uint \<Rightarrow> bytes \<Rightarrow> int \<Rightarrow> ('z kpipe_scheme, int \<times> bytes) kmon" where
  "piperead_loop p addr n =
     bnd (gets (\<lambda>s. pipes s p)) (\<lambda>q.
       if pipe_empty q \<and> pi_writeopen q then
         bnd myproc_killed (\<lambda>killed.
           if killed then sqn (release (L_pipe p)) (ret (- 1, addr))
           else sleep_wait (C_pipe_nread p) (L_pipe p))
       else
         bnd (piperead_copy p addr n 0) (\<lambda>r.
           sqn (wakeup (C_pipe_nwrite p)) (sqn (release (L_pipe p)) (ret r))))"

definition piperead :: "uint \<Rightarrow> bytes \<Rightarrow> int \<Rightarrow> ('z kpipe_scheme, int \<times> bytes) kmon" where
  "piperead p addr n = sqn (acquire (L_pipe p)) (piperead_loop p addr n)"

definition piperead_resume :: "uint \<Rightarrow> bytes \<Rightarrow> int \<Rightarrow> ('z kpipe_scheme, int \<times> bytes) kmon" where
  "piperead_resume p addr n = sqn (sleep_resume (L_pipe p)) (piperead_loop p addr n)"

section \<open>The ring as a queue\<close>

definition pipe_ok :: "pipe \<Rightarrow> bool" where
  "pipe_ok q \<longleftrightarrow> unat (pi_nwrite q - pi_nread q) \<le> 512"

definition pipe_queue :: "pipe \<Rightarrow> uchar list" where
  "pipe_queue q = map (\<lambda>k. pi_data q ((unat (pi_nread q) + k) mod 512)) [0..<unat (pi_nwrite q - pi_nread q)]"

text \<open>The interface of a bounded queue of bytes.\<close>

locale bounded_queue =
  fixes put :: "'c \<Rightarrow> 'q \<Rightarrow> 'q" and head :: "'q \<Rightarrow> 'c" and drp :: "'q \<Rightarrow> 'q"
    and is_full :: "'q \<Rightarrow> bool" and is_empty :: "'q \<Rightarrow> bool"
    and content :: "'q \<Rightarrow> 'c list" and inv :: "'q \<Rightarrow> bool" and cap :: nat
  assumes put_law: "inv q \<Longrightarrow> \<not> is_full q \<Longrightarrow> inv (put c q) \<and> content (put c q) = content q @ [c]"
    and drop_law: "inv q \<Longrightarrow> \<not> is_empty q \<Longrightarrow> inv (drp q) \<and> content q = head q # content (drp q)"
    and full_law: "inv q \<Longrightarrow> is_full q \<longleftrightarrow> length (content q) = cap"
    and empty_law: "inv q \<Longrightarrow> is_empty q \<longleftrightarrow> content q = []"
    and cap_law: "inv q \<Longrightarrow> length (content q) \<le> cap" "0 < cap"
begin

text \<open>Bytes put while there is room come out in the same order.\<close>

lemma put_many:
  "inv q \<Longrightarrow> length (content q) + length cs \<le> cap \<Longrightarrow>
     inv (fold put cs q) \<and> content (fold put cs q) = content q @ cs"
proof (induction cs arbitrary: q)
  case (Cons c cs)
  then have "\<not> is_full q" by (simp add: full_law)
  with Cons put_law [of q c] show ?case by simp
qed simp

lemma full_not_empty: "inv q \<Longrightarrow> is_full q \<Longrightarrow> \<not> is_empty q"
  using cap_law(2) by (auto simp: full_law empty_law)

end

text \<open>The counters wrap at \<open>2 ^ 32\<close>, a multiple of the ring's size, so the ring is unaffected.\<close>

lemma mod_512_wrap: "(x mod 4294967296 + k) mod 512 = (x + k) mod (512 :: nat)"
proof -
  have "x mod 4294967296 mod 512 = x mod 512" by (rule mod_mod_cancel) simp
  then show ?thesis by (metis mod_add_left_eq)
qed

lemma nwrite_ring: "unat (pi_nwrite q mod PIPESIZE) = (unat (pi_nread q) + unat (pi_nwrite q - pi_nread q)) mod 512"
proof -
  have "pi_nwrite q = pi_nread q + (pi_nwrite q - pi_nread q)" by simp
  then have "unat (pi_nwrite q) = (unat (pi_nread q) + unat (pi_nwrite q - pi_nread q)) mod 4294967296"
    by (metis u32_add)
  then show ?thesis
    using mod_512_wrap [of _ 0] by (simp add: PIPESIZE_def u32_mod)
qed

lemma pipe_full_iff: "pipe_full q \<longleftrightarrow> unat (pi_nwrite q - pi_nread q) = 512"
proof -
  have "pipe_full q \<longleftrightarrow> pi_nwrite q - pi_nread q = 512"
    by (auto simp: pipe_full_def PIPESIZE_def algebra_simps)
  then show ?thesis by (simp add: u32_eq)
qed

lemma pipe_empty_iff: "pipe_empty q \<longleftrightarrow> unat (pi_nwrite q - pi_nread q) = 0"
  by (auto simp: pipe_empty_def unat_eq_0)

lemma ring_distinct: "k < d \<Longrightarrow> d < 512 \<Longrightarrow> (r + k) mod 512 \<noteq> (r + d) mod (512 :: nat)"
  using mod_eq_dvd_iff_nat [of "r + k" "r + d" 512] by (auto dest: dvd_imp_le)

lemma pipe_put_queue:
  assumes "pipe_ok q" and "\<not> pipe_full q"
  shows "pipe_ok (pipe_put c q) \<and> pipe_queue (pipe_put c q) = pipe_queue q @ [c]"
proof -
  let ?d = "unat (pi_nwrite q - pi_nread q)" and ?r = "unat (pi_nread q)"
  have d: "?d < 512" using assms by (simp add: pipe_ok_def pipe_full_iff)
  have d1: "unat (pi_nwrite q + 1 - pi_nread q) = Suc ?d"
  proof -
    have "pi_nwrite q + 1 - pi_nread q = (pi_nwrite q - pi_nread q) + 1" by simp
    with d show ?thesis by (simp only: u32_add) simp
  qed
  have "((pi_data q)((?r + ?d) mod 512 := c)) ((?r + k) mod 512) = pi_data q ((?r + k) mod 512)"
    if "k < ?d" for k using ring_distinct [OF that d, of ?r] by simp
  then have "pipe_queue (pipe_put c q) = pipe_queue q @ [c]"
    by (simp add: pipe_queue_def pipe_put_def d1 nwrite_ring)
  moreover have "pipe_ok (pipe_put c q)" using d by (simp add: pipe_ok_def pipe_put_def d1)
  ultimately show ?thesis by simp
qed

lemma pipe_drop_queue:
  assumes "pipe_ok q" and "\<not> pipe_empty q"
  shows "pipe_ok (pipe_drop q) \<and> pipe_queue q = pipe_head q # pipe_queue (pipe_drop q)"
proof -
  let ?d = "unat (pi_nwrite q - pi_nread q)" and ?r = "unat (pi_nread q)"
  from assms obtain e where e: "?d = Suc e" "e < 512"
    by (cases ?d) (auto simp: pipe_empty_iff pipe_ok_def)
  have d1: "unat (pi_nwrite q - (pi_nread q + 1)) = e"
  proof -
    have "pi_nwrite q - (pi_nread q + 1) = (pi_nwrite q - pi_nread q) - 1" by simp
    with e show ?thesis by (simp only: u32_sub) simp
  qed
  have "[0..<Suc e] = 0 # map Suc [0..<e]" by (simp add: map_Suc_upt upt_conv_Cons del: upt_Suc)
  moreover have "(?r + Suc k) mod 512 = (unat (pi_nread q + 1) + k) mod 512" for k
    using mod_512_wrap [of "?r + 1" k] by (simp add: u32_add)
  ultimately have "pipe_queue q = pipe_head q # pipe_queue (pipe_drop q)"
    by (simp add: pipe_queue_def pipe_drop_def d1 e(1) pipe_head_def PIPESIZE_def u32_mod o_def
        del: upt_Suc add_Suc_right)
  moreover have "pipe_ok (pipe_drop q)" using e by (simp add: pipe_ok_def pipe_drop_def d1)
  ultimately show ?thesis by simp
qed

interpretation pq: bounded_queue pipe_put pipe_head pipe_drop pipe_full pipe_empty pipe_queue pipe_ok 512
proof
  fix q assume "pipe_ok q"
  show "pipe_full q \<longleftrightarrow> length (pipe_queue q) = 512" by (simp add: pipe_full_iff pipe_queue_def)
  show "pipe_empty q \<longleftrightarrow> pipe_queue q = []" by (simp add: pipe_empty_iff pipe_queue_def)
  show "length (pipe_queue q) \<le> 512" using \<open>pipe_ok q\<close> by (simp add: pipe_ok_def pipe_queue_def)
qed (use pipe_put_queue pipe_drop_queue in auto)

section \<open>Running the loops\<close>

text \<open>A process is inside \<open>pipewrite\<close> or \<open>piperead\<close>: it holds the pipe's lock and no other.\<close>

definition in_pipe :: "uint \<Rightarrow> nat \<Rightarrow> 'z kpipe_scheme \<Rightarrow> bool" where
  "in_pipe p me s \<longleftrightarrow> held s = [L_pipe p] \<and> cur s = Some me \<and> me < length (ptable s) \<and> pipe_ok (pipes s p)"

definition set_pipe :: "uint \<Rightarrow> pipe \<Rightarrow> 'z kpipe_scheme \<Rightarrow> 'z kpipe_scheme" where
  "set_pipe p q s = s\<lparr>pipes := (pipes s)(p := q)\<rparr>"

definition to_sleep :: "nat \<Rightarrow> chan \<Rightarrow> proc list \<Rightarrow> proc list" where
  "to_sleep i c ps = ps[i := (ps ! i)\<lparr>p_chan := Some c, p_state := SLEEPING\<rparr>]"

definition room :: "pipe \<Rightarrow> nat" where
  "room q = 512 - length (pipe_queue q)"

lemma set_pipe_simps [simp]:
  "held (set_pipe p q s) = held s" "cur (set_pipe p q s) = cur s" "ptable (set_pipe p q s) = ptable s"
  "pipes (set_pipe p q s) p = q" "set_pipe p q' (set_pipe p q s) = set_pipe p q' s"
  "set_pipe p (pipes s p) s = s" "set_pipe p q (s\<lparr>held := hs\<rparr>) = (set_pipe p q s)\<lparr>held := hs\<rparr>"
  by (simp_all add: set_pipe_def)

lemma fold_put_flags [simp]:
  "pi_readopen (fold pipe_put cs q) = pi_readopen q" "pi_writeopen (fold pipe_put cs q) = pi_writeopen q"
  "pi_nread (fold pipe_put cs q) = pi_nread q"
  by (induction cs arbitrary: q) (simp_all add: pipe_put_def)

lemma fold_put_nwrite: "pi_nwrite (fold pipe_put cs q) = pi_nwrite q + of_nat (length cs)"
  by (induction cs arbitrary: q) (simp_all add: pipe_put_def)

lemma room_put: "pipe_ok q \<Longrightarrow> \<not> pipe_full q \<Longrightarrow> room q = Suc (room (pipe_put c q))"
  using pipe_put_queue [of q c] pq.full_law [of q] pq.cap_law(1) [of q] by (auto simp: room_def)

lemma room_full: "pipe_ok q \<Longrightarrow> pipe_full q \<longleftrightarrow> room q = 0"
  using pq.full_law [of q] pq.cap_law(1) [of q] by (auto simp: room_def)

lemma in_pipe_put: "in_pipe p me s \<Longrightarrow> pipe_ok q \<Longrightarrow> in_pipe p me (set_pipe p q s)"
  by (simp add: in_pipe_def)

text \<open>What \<open>pipewrite\<close> does with the bytes \<open>cs\<close> left to write, on each of its three ways out.\<close>

definition pipewrite_result :: "uint \<Rightarrow> nat \<Rightarrow> int \<Rightarrow> uchar list \<Rightarrow> 'z kpipe_scheme \<Rightarrow> (int, 'z kpipe_scheme) outcome" where
  "pipewrite_result p me n cs s =
    (let q = pipes s p; s' = set_pipe p (fold pipe_put (take (room q) cs) q) s;
         woken = map (wake_proc (Some (C_pipe_nread p))) (ptable s)
     in if length cs \<le> room q then Ok n (s'\<lparr>ptable := woken, held := []\<rparr>)
        else if \<not> pi_readopen q \<or> p_killed (ptable s ! me) then Ok (- 1) (s'\<lparr>held := []\<rparr>)
        else Blocked (s'\<lparr>ptable := to_sleep me (C_pipe_nwrite p) woken, held := [L_ptable]\<rparr>))"

lemma pipewrite_result_full:
  assumes "in_pipe p me s" and "pipe_full (pipes s p)" and "i < n"
  shows "pipewrite_loop p addr n i s = pipewrite_result p me n (c # cs) s"
proof -
  let ?w = "map (wake_proc (Some (C_pipe_nread p))) (ptable s)"
  from assms(1) have ctx: "held s = [L_pipe p]" "cur s = Some me" "me < length (ptable s)"
    and ok: "pipe_ok (pipes s p)" by (auto simp: in_pipe_def)
  have "sleep (C_pipe_nwrite p) (L_pipe p) (s\<lparr>ptable := ?w\<rparr>)
      = Blocked (s\<lparr>ptable := to_sleep me (C_pipe_nwrite p) ?w, held := [L_ptable]\<rparr>)"
    using ctx by (subst sleep_run [of _ _ me]) (simp_all add: to_sleep_def)
  with assms ctx room_full [OF ok] show ?thesis
    by (simp add: pipewrite_loop.simps [of p addr n i] pipewrite_result_def Let_def myproc_killed_def
        the_proc_def wakeup_run sleep_wait_run run_simps)
qed

lemma pipewrite_result_put:
  assumes "pipe_ok (pipes s p)" and "\<not> pipe_full (pipes s p)"
  shows "pipewrite_result p me n (c # cs) s
    = pipewrite_result p me n cs (set_pipe p (pipe_put c (pipes s p)) s)"
proof -
  have "pi_readopen (pipe_put c (pipes s p)) = pi_readopen (pipes s p)" by (simp add: pipe_put_def)
  then show ?thesis
    using room_put [OF assms, of c] by (simp add: pipewrite_result_def Let_def)
qed

lemma pipewrite_loop_run:
  "in_pipe p me s \<Longrightarrow> 0 \<le> i \<Longrightarrow> n - i = int k \<Longrightarrow>
     pipewrite_loop p addr n i s = pipewrite_result p me n (span addr (nat i) k) s"
proof (induction k arbitrary: i s)
  case 0
  then have "n = i" by simp
  with 0 show ?case
    by (simp add: pipewrite_loop.simps [of p addr i i] in_pipe_def wakeup_run run_simps
        pipewrite_result_def Let_def)
next
  case (Suc k)
  let ?q = "pipes s p"
  from Suc.prems have i: "i < n" and ok: "pipe_ok ?q" by (auto simp: in_pipe_def)
  show ?case
  proof (cases "pipe_full ?q")
    case True
    with Suc.prems i show ?thesis by (simp add: span_Suc pipewrite_result_full)
  next
    case False
    let ?s = "set_pipe p (pipe_put (addr (nat i)) ?q) s"
    have "in_pipe p me ?s"
      using Suc.prems(1) pipe_put_queue [OF ok False] by (intro in_pipe_put) auto
    with Suc.IH [of ?s "i + 1"] Suc.prems(2,3)
    have "pipewrite_loop p addr n (i + 1) ?s = pipewrite_result p me n (span addr (nat i + 1) k) ?s"
      by (simp add: nat_add_distrib)
    moreover have "pipewrite_loop p addr n i s = pipewrite_loop p addr n (i + 1) ?s"
      using i False by (simp add: pipewrite_loop.simps [of p addr n i] upd_pipe_def set_pipe_def)
    ultimately show ?thesis
      by (simp add: span_Suc pipewrite_result_put [OF ok False])
  qed
qed

text \<open>What \<open>piperead\<close> takes out.\<close>

definition put_bytes :: "bytes \<Rightarrow> nat \<Rightarrow> uchar list \<Rightarrow> bytes" where
  "put_bytes b k cs = (\<lambda>x. if k \<le> x \<and> x < k + length cs then cs ! (x - k) else b x)"

lemma put_bytes_Nil [simp]: "put_bytes b k [] = b"
  by (auto simp: put_bytes_def fun_eq_iff)

lemma put_bytes_Cons: "put_bytes b k (c # cs) = put_bytes (b(k := c)) (Suc k) cs"
  by (auto simp: put_bytes_def fun_eq_iff nth_Cons' Suc_diff_le)

lemma span_put_bytes: "span (put_bytes b k cs) k (length cs) = cs"
  by (rule nth_equalityI) (simp_all add: span_def put_bytes_def)

lemma piperead_copy_run:
  "pipe_ok (pipes s p) \<Longrightarrow> 0 \<le> i \<Longrightarrow> n - i = int k \<Longrightarrow>
     piperead_copy p addr n i s =
       (let cs = take k (pipe_queue (pipes s p))
        in Ok (i + int (length cs), put_bytes addr (nat i) cs)
              (set_pipe p ((pipe_drop ^^ length cs) (pipes s p)) s))"
proof (induction k arbitrary: addr i s)
  case 0
  then show ?case by (simp add: piperead_copy.simps [of p addr _ i])
next
  case (Suc k)
  let ?q = "pipes s p"
  show ?case
  proof (cases "pipe_empty ?q")
    case True
    with Suc.prems show ?thesis
      by (simp add: piperead_copy.simps [of p addr n i] pq.empty_law Let_def)
  next
    case False
    let ?s = "set_pipe p (pipe_drop ?q) s"
    note deq = pipe_drop_queue [OF Suc.prems(1) False]
    have "piperead_copy p addr n i s = piperead_copy p (addr(nat i := pipe_head ?q)) n (i + 1) ?s"
      using Suc.prems False by (simp add: piperead_copy.simps [of p addr n i] upd_pipe_def set_pipe_def)
    with Suc.IH [of ?s "i + 1"] Suc.prems deq show ?thesis
      by (simp add: Let_def put_bytes_Cons nat_add_distrib funpow_swap1)
  qed
qed

lemma drop_many:
  "pipe_ok q \<Longrightarrow> k \<le> length (pipe_queue q) \<Longrightarrow>
     pipe_ok ((pipe_drop ^^ k) q) \<and> pipe_queue ((pipe_drop ^^ k) q) = drop k (pipe_queue q)"
proof (induction k arbitrary: q)
  case (Suc k)
  then have "\<not> pipe_empty q" by (auto simp: pq.empty_law)
  from pipe_drop_queue [OF Suc.prems(1) this] Suc.IH [of "pipe_drop q"] Suc.prems(2)
  show ?case by (simp add: funpow_swap1)
qed simp

definition piperead_result :: "uint \<Rightarrow> nat \<Rightarrow> bytes \<Rightarrow> int \<Rightarrow> 'z kpipe_scheme \<Rightarrow> (int \<times> bytes, 'z kpipe_scheme) outcome" where
  "piperead_result p me addr n s =
    (let q = pipes s p; cs = take (nat n) (pipe_queue q)
     in if pipe_queue q = [] \<and> pi_writeopen q then
          (if p_killed (ptable s ! me) then Ok (- 1, addr) (s\<lparr>held := []\<rparr>)
           else Blocked (s\<lparr>ptable := to_sleep me (C_pipe_nread p) (ptable s), held := [L_ptable]\<rparr>))
        else Ok (int (length cs), put_bytes addr 0 cs)
               (set_pipe p ((pipe_drop ^^ length cs) q) s
                 \<lparr>ptable := map (wake_proc (Some (C_pipe_nwrite p))) (ptable s), held := []\<rparr>))"

lemma piperead_loop_run:
  assumes "in_pipe p me s" and "0 \<le> n"
  shows "piperead_loop p addr n s = piperead_result p me addr n s"
proof -
  from assms(1) have ctx: "held s = [L_pipe p]" "cur s = Some me" "me < length (ptable s)"
    and ok: "pipe_ok (pipes s p)" by (auto simp: in_pipe_def)
  show ?thesis
  proof (cases "pipe_empty (pipes s p) \<and> pi_writeopen (pipes s p)")
    case True
    have "sleep (C_pipe_nread p) (L_pipe p) s
        = Blocked (s\<lparr>ptable := to_sleep me (C_pipe_nread p) (ptable s), held := [L_ptable]\<rparr>)"
      using ctx by (subst sleep_run [of _ _ me]) (simp_all add: to_sleep_def)
    with True ctx ok show ?thesis
      by (simp add: piperead_loop_def piperead_result_def Let_def pq.empty_law myproc_killed_def
          the_proc_def sleep_wait_run run_simps)
  next
    case False
    with ok have "\<not> (pipe_queue (pipes s p) = [] \<and> pi_writeopen (pipes s p))" by (simp add: pq.empty_law)
    with False ctx ok assms(2) show ?thesis
      by (auto simp: piperead_loop_def piperead_result_def piperead_copy_run [where k = "nat n"] Let_def
          wakeup_run run_simps)
  qed
qed

section \<open>Readers and writers interleaved\<close>

text \<open>
  \<open>pipe_run p w r s\<close>: in state \<open>s\<close> the writers of pipe \<open>p\<close> have stored the bytes \<open>w\<close> and its readers have
  been given the bytes \<open>r\<close>, in this order. A writer may be anywhere in its buffer when it gets the
  lock, and other code may run in between as long as it leaves the pipe alone.
\<close>

inductive pipe_run :: "uint \<Rightarrow> uchar list \<Rightarrow> uchar list \<Rightarrow> 'z kpipe_scheme \<Rightarrow> bool" for p where
  created: "pi_nread (pipes s p) = 0 \<Longrightarrow> pi_nwrite (pipes s p) = 0 \<Longrightarrow> pipe_run p [] [] s"
| writes: "pipe_run p w r s \<Longrightarrow> in_pipe p me s \<Longrightarrow> 0 \<le> i \<Longrightarrow> i \<le> n \<Longrightarrow>
    reaches (pipewrite_loop p addr n i) s s' \<Longrightarrow>
    k = unat (pi_nwrite (pipes s' p) - pi_nwrite (pipes s p)) \<Longrightarrow>
    pipe_run p (w @ span addr (nat i) k) r s'"
| reads: "pipe_run p w r s \<Longrightarrow> in_pipe p me s \<Longrightarrow> 0 \<le> n \<Longrightarrow>
    piperead_loop p addr n s = Ok (k, addr') s' \<Longrightarrow>
    pipe_run p w (r @ span addr' 0 (nat k)) s'"
| read_sleep: "pipe_run p w r s \<Longrightarrow> in_pipe p me s \<Longrightarrow> 0 \<le> n \<Longrightarrow>
    piperead_loop p addr n s = Blocked s' \<Longrightarrow> pipe_run p w r s'"
| other: "pipe_run p w r s \<Longrightarrow> pipes s' p = pipes s p \<Longrightarrow> pipe_run p w r s'"

lemma pipewrite_result_pipe:
  assumes "pipe_ok (pipes s p)" and "pipewrite_result p me n cs s = Ok x s' \<or> pipewrite_result p me n cs s = Blocked s'"
  defines "k \<equiv> min (room (pipes s p)) (length cs)"
  shows "pipe_ok (pipes s' p) \<and> pipe_queue (pipes s' p) = pipe_queue (pipes s p) @ take k cs
    \<and> unat (pi_nwrite (pipes s' p) - pi_nwrite (pipes s p)) = k"
proof -
  let ?q = "pipes s p"
  have q': "pipes s' p = fold pipe_put (take (room ?q) cs) ?q"
    using assms(2) by (auto simp: pipewrite_result_def Let_def set_pipe_def split: if_splits)
  have len: "length (pipe_queue ?q) + length (take (room ?q) cs) \<le> 512"
    using pq.cap_law(1) [OF assms(1)] by (auto simp: room_def)
  have "length (take (room ?q) cs) = k" "take k cs = take (room ?q) cs"
    by (auto simp: k_def min_def)
  moreover from len have "k \<le> 512" by (auto simp: k_def)
  ultimately show ?thesis
    using pq.put_many [OF assms(1) len] by (simp add: q' fold_put_nwrite u32_of_nat)
qed

lemma take_span: "take k (span b i n) = span b i (min k n)"
  by (simp add: span_def take_map min_def)

lemma pipe_run_queue: "pipe_run p w r s \<Longrightarrow> pipe_ok (pipes s p) \<and> w = r @ pipe_queue (pipes s p)"
proof (induction rule: pipe_run.induct)
  case (created s)
  then show ?case by (simp add: pipe_ok_def pipe_queue_def)
next
  case (writes w r s me i n addr s' k)
  let ?cs = "span addr (nat i) (nat (n - i))"
  have "pipewrite_loop p addr n i s = pipewrite_result p me n ?cs s"
    using writes.hyps by (intro pipewrite_loop_run) auto
  with writes.hyps have "\<exists>x. pipewrite_result p me n ?cs s = Ok x s' \<or> pipewrite_result p me n ?cs s = Blocked s'"
    by (auto simp: reaches_def)
  with pipewrite_result_pipe [of s p me n ?cs] writes.IH writes.hyps(6) show ?case
    by (auto simp: take_span min.absorb1)
next
  case (reads w r s me n addr k addr' s')
  let ?q = "pipes s p"
  from reads.IH have ok: "pipe_ok ?q" and w: "w = r @ pipe_queue ?q" by auto
  from reads.hyps(4) consider "k = - 1" "pipes s' p = ?q"
    | "k = int (length (take (nat n) (pipe_queue ?q)))" "addr' = put_bytes addr 0 (take (nat n) (pipe_queue ?q))"
      "pipes s' p = (pipe_drop ^^ length (take (nat n) (pipe_queue ?q))) ?q"
    by (auto simp: piperead_loop_run [OF reads.hyps(2,3)] piperead_result_def Let_def set_pipe_def
        split: if_splits)
  then show ?case
  proof cases
    case 1
    with ok w show ?thesis by simp
  next
    case 2
    let ?cs = "take (nat n) (pipe_queue ?q)"
    have "length ?cs \<le> length (pipe_queue ?q)" and "?cs @ drop (length ?cs) (pipe_queue ?q) = pipe_queue ?q"
      by (auto simp: min_def)
    moreover have "span addr' 0 (nat k) = ?cs"
      unfolding 2 using span_put_bytes [of addr 0 ?cs] by simp
    ultimately show ?thesis
      using drop_many [OF ok, of "length ?cs"] w by (simp add: 2(3))
  qed
next
  case (read_sleep w r s me n addr s')
  then have "pipes s' p = pipes s p"
    by (auto simp: piperead_loop_run piperead_result_def Let_def split: if_splits)
  with read_sleep show ?case by simp
qed simp

section \<open>Sleeping and waking\<close>

text \<open>
  No wakeup is lost: whoever sleeps for bytes to read sleeps on an empty pipe with an open write
  end, whoever sleeps for room sleeps on a full pipe with an open read end.
\<close>

definition pipe_wait_inv :: "uint \<Rightarrow> 'z kpipe_scheme \<Rightarrow> bool" where
  "pipe_wait_inv p s \<longleftrightarrow>
     (no_sleeper (C_pipe_nread p) s \<or> pipe_empty (pipes s p) \<and> pi_writeopen (pipes s p))
   \<and> (no_sleeper (C_pipe_nwrite p) s \<or> pipe_full (pipes s p) \<and> pi_readopen (pipes s p))"

lemma no_sleeper_wake [simp]:
  "no_sleeper d (s\<lparr>ptable := map (wake_proc (Some c)) ps\<rparr>) \<longleftrightarrow> d = c \<or> no_sleeper d (s\<lparr>ptable := ps\<rparr>)"
  by (auto simp: no_sleeper_def wake_proc_sleeps_on)

lemma no_sleeper_to_sleep:
  "d \<noteq> c \<Longrightarrow> no_sleeper d (s\<lparr>ptable := ps\<rparr>) \<Longrightarrow> no_sleeper d (s\<lparr>ptable := to_sleep i c ps\<rparr>)"
  by (auto simp: no_sleeper_def to_sleep_def sleeps_on_def dest!: subsetD [OF set_update_subset_insert])

lemma no_sleeper_held [simp]: "no_sleeper d (s\<lparr>held := hs\<rparr>) = no_sleeper d s"
  by (simp add: no_sleeper_def)

lemma no_sleeper_set_pipe [simp]:
  "no_sleeper d (set_pipe p q s) = no_sleeper d s"
  "no_sleeper d (set_pipe p q s\<lparr>ptable := ps\<rparr>) = no_sleeper d (s\<lparr>ptable := ps\<rparr>)"
  by (simp_all add: no_sleeper_def)

lemma no_sleeper_same [simp]: "no_sleeper d (s\<lparr>ptable := ptable s\<rparr>) = no_sleeper d s"
  by (simp add: no_sleeper_def)

lemma full_after_write:
  assumes "pipe_ok q" and "room q < length cs"
  shows "pipe_full (fold pipe_put (take (room q) cs) q)"
proof -
  have "length (pipe_queue q) + length (take (room q) cs) = 512"
    using assms pq.cap_law(1) [OF assms(1)] by (simp add: room_def)
  with pq.put_many [OF assms(1), of "take (room q) cs"] show ?thesis
    by (simp add: pq.full_law)
qed

lemma pipewrite_wait_inv:
  assumes "pipe_ok (pipes s p)" and "pipe_wait_inv p s"
    and "pipewrite_result p me n cs s = Ok x s' \<and> x \<noteq> - 1 \<or> pipewrite_result p me n cs s = Blocked s'"
  shows "pipe_wait_inv p s'"
proof (cases "length cs \<le> room (pipes s p)")
  case True
  then have s': "s' = set_pipe p (fold pipe_put cs (pipes s p)) s
      \<lparr>ptable := map (wake_proc (Some (C_pipe_nread p))) (ptable s), held := []\<rparr>"
    using assms(3) by (auto simp: pipewrite_result_def Let_def)
  have "cs = []" if "pipe_full (pipes s p)" using True room_full [OF assms(1)] that by simp
  with assms(2) show ?thesis by (auto simp: pipe_wait_inv_def s')
next
  case False
  with assms(3) have open_: "pi_readopen (pipes s p)"
    and s': "s' = set_pipe p (fold pipe_put (take (room (pipes s p)) cs) (pipes s p)) s
      \<lparr>ptable := to_sleep me (C_pipe_nwrite p) (map (wake_proc (Some (C_pipe_nread p))) (ptable s)), held := [L_ptable]\<rparr>"
    by (auto simp: pipewrite_result_def Let_def split: if_splits)
  have "pipe_full (fold pipe_put (take (room (pipes s p)) cs) (pipes s p))"
    using False by (intro full_after_write assms(1)) simp
  with open_ show ?thesis by (simp add: pipe_wait_inv_def s' no_sleeper_to_sleep)
qed

lemma piperead_wait_inv:
  assumes "pipe_ok (pipes s p)" and "pipe_wait_inv p s"
    and "piperead_result p me addr n s = Ok x s' \<or> piperead_result p me addr n s = Blocked s'"
  shows "pipe_wait_inv p s'"
proof (cases "pipe_queue (pipes s p) = [] \<and> pi_writeopen (pipes s p)")
  case True
  with assms have "\<not> pipe_full (pipes s p)" by (simp add: pq.full_law)
  with True assms show ?thesis
    by (auto simp: piperead_result_def Let_def pipe_wait_inv_def pq.empty_law no_sleeper_to_sleep
        split: if_splits)
next
  case False
  with assms(3) have "s' = set_pipe p ((pipe_drop ^^ length (take (nat n) (pipe_queue (pipes s p)))) (pipes s p)) s
      \<lparr>ptable := map (wake_proc (Some (C_pipe_nwrite p))) (ptable s), held := []\<rparr>"
    by (auto simp: piperead_result_def Let_def)
  with False assms(1,2) show ?thesis by (auto simp: pipe_wait_inv_def pq.empty_law)
qed

lemma pipeclose_wait_inv:
  assumes "pipe_wait_inv p s" and "L_ptable \<notin> set (held s)" and "pipeclose p writable s = Ok () s'"
  shows "pipe_wait_inv p s' \<and> (if writable then no_sleeper (C_pipe_nread p) s' else no_sleeper (C_pipe_nwrite p) s')"
proof -
  let ?c = "if writable then C_pipe_nread p else C_pipe_nwrite p"
  from assms(2,3) have s': "ptable s' = map (wake_proc (Some ?c)) (ptable s)"
      "pipes s' p = (if writable then pipes s p\<lparr>pi_writeopen := False\<rparr> else pipes s p\<lparr>pi_readopen := False\<rparr>)"
    by (auto simp: pipeclose_def upd_pipe_def wakeup_run run_simps kfree_def upd_page_def kmem_lock_def
        kmem_unlock_def split: if_splits)
  have "no_sleeper d s' \<longleftrightarrow> d = ?c \<or> no_sleeper d s" for d
    by (auto simp: no_sleeper_def s'(1) wake_proc_sleeps_on)
  with assms(1) s'(2) show ?thesis
    by (auto simp: pipe_wait_inv_def pipe_full_def pipe_empty_def)
qed

section \<open>What pipes promise\<close>

definition demo_proc :: "procstate \<Rightarrow> chan option \<Rightarrow> bool \<Rightarrow> proc" where
  "demo_proc st c k = zero_proc\<lparr>p_state := st, p_chan := c, p_killed := k, p_kstack := 0x80200000,
     p_pgdir := 0x80201000, p_pid := 3, p_tickets := 10\<rparr>"

text \<open>A writer (the running process) and a reader asleep on an empty pipe at \<open>0x80300000\<close>.\<close>

definition demo_kpipe :: "bool \<Rightarrow> kpipe" where
  "demo_kpipe k = kmem.extend (demo_kmem\<lparr>held := [L_pipe 0x80300000], cur := Some 0,
       ptable := [demo_proc RUNNING None k, demo_proc SLEEPING (Some (C_pipe_nread 0x80300000)) False]\<rparr>)
     \<lparr>pipes = (\<lambda>_. \<lparr>pi_data = (\<lambda>_. 0), pi_nread = 0, pi_nwrite = 0, pi_readopen = True, pi_writeopen = True\<rparr>)\<rparr>"

lemma demo_kpipe_simps [simp]:
  "held (demo_kpipe k) = [L_pipe 0x80300000]" "cur (demo_kpipe k) = Some 0"
  "ptable (demo_kpipe k) = [demo_proc RUNNING None k, demo_proc SLEEPING (Some (C_pipe_nread 0x80300000)) False]"
  "pipes (demo_kpipe k) a = \<lparr>pi_data = (\<lambda>_. 0), pi_nread = 0, pi_nwrite = 0, pi_readopen = True, pi_writeopen = True\<rparr>"
  by (simp_all add: demo_kpipe_def kmem.defs demo_kmem_def kbase.defs)

lemma demo_kpipe_in_pipe: "in_pipe 0x80300000 0 (demo_kpipe k)"
  by (simp add: in_pipe_def pipe_ok_def)

lemma demo_kpipe_room: "room (pipes (demo_kpipe k) a) = 512"
  by (simp add: room_def pipe_queue_def)

text \<open>
  C19: A pipe is a FIFO queue of at most 512 bytes: however the runs of \<open>pipewrite\<close> and \<open>piperead\<close> by any
  number of processes interleave, the bytes the writers stored are those the readers were given,
  in order, followed by the bytes still in the ring. The counters may wrap.
\<close>
theorem pipe_is_fifo:
  assumes "pipe_run p w r s"
  shows "w = r @ pipe_queue (pipes s p) \<and> length (pipe_queue (pipes s p)) \<le> 512"
  using pipe_run_queue [OF assms] pq.cap_law(1) by blast

theorem pipe_is_fifo_witness:
  "\<exists>s :: kpipe. pipe_run 0x80300000 [104, 105] [] s \<and> pipe_queue (pipes s 0x80300000) = [104, 105]"
proof -
  let ?p = "0x80300000 :: uint" and ?s = "demo_kpipe False"
  let ?addr = "(\<lambda>_. 0)(0 := 104, 1 := 105) :: bytes"
  have start: "pipe_run ?p [] [] ?s" by (rule pipe_run.created) simp_all
  have bytes: "span ?addr 0 2 = [104, 105]" by (simp add: span_def numeral_2_eq_2)
  have run: "pipewrite_loop ?p ?addr 2 0 ?s = pipewrite_result ?p 0 2 [104, 105] ?s"
    using pipewrite_loop_run [OF demo_kpipe_in_pipe, of 0 2 2 ?addr] bytes by simp
  then obtain s' where s': "pipewrite_loop ?p ?addr 2 0 ?s = Ok 2 s'"
      "unat (pi_nwrite (pipes s' ?p) - pi_nwrite (pipes ?s ?p)) = 2"
    using pipewrite_result_pipe [of ?s ?p 0 2 "[104, 105]" 2] demo_kpipe_room
    by (fastforce simp: pipewrite_result_def Let_def pipe_ok_def fold_put_nwrite)
  have "pipe_run ?p ([] @ span ?addr (nat 0) 2) [] s'"
    by (rule pipe_run.writes [OF start demo_kpipe_in_pipe, of 0 2]) (use s' in \<open>auto simp: reaches_def\<close>)
  then have "pipe_run ?p [104, 105] [] s'" using bytes by simp
  with pipe_is_fifo [OF this] show ?thesis by auto
qed

text \<open>
  A write of \<open>n\<close> bytes appends to the queue as many of them as fit. If all fit it returns \<open>n\<close>; if
  not, it returns -1 when no reader is left or the writer has been killed, and otherwise leaves the
  full pipe and sleeps until a reader makes room. It never panics.
\<close>
theorem pipewrite_outcomes:
  assumes "in_pipe p me s"
  defines "q \<equiv> pipes s p"
  shows "case pipewrite_loop p addr (int n) 0 s of
      Ok r s' \<Rightarrow> pipe_queue (pipes s' p) = pipe_queue q @ span addr 0 (min (room q) n) \<and> held s' = []
        \<and> r = (if n \<le> room q then int n else - 1)
        \<and> (n \<le> room q \<or> \<not> pi_readopen q \<or> p_killed (ptable s ! me))
    | Blocked s' \<Rightarrow> pipe_queue (pipes s' p) = pipe_queue q @ span addr 0 (room q) \<and> room q < n
        \<and> pipe_full (pipes s' p) \<and> pi_readopen q \<and> \<not> p_killed (ptable s ! me)
        \<and> sleeps_on (C_pipe_nwrite p) (ptable s' ! me)
    | Panic e \<Rightarrow> False"
proof -
  let ?cs = "span addr 0 n"
  from assms(1) have ok: "pipe_ok q" and me: "me < length (ptable s)" by (simp_all add: in_pipe_def q_def)
  have run: "pipewrite_loop p addr (int n) 0 s = pipewrite_result p me (int n) ?cs s"
    using pipewrite_loop_run [OF assms(1), of 0 "int n" n addr] by simp
  note pipe = pipewrite_result_pipe [OF ok [unfolded q_def], of me "int n" ?cs, folded q_def]
  have full: "pipe_full (fold pipe_put (take (room q) ?cs) q)" if "room q < n"
    using that by (intro full_after_write ok) simp
  show ?thesis
  proof (cases "pipewrite_result p me (int n) ?cs s")
    case (Ok r s')
    then have "held s' = []" and "r = (if n \<le> room q then int n else - 1)"
      and "n \<le> room q \<or> \<not> pi_readopen q \<or> p_killed (ptable s ! me)"
      by (auto simp: pipewrite_result_def Let_def q_def split: if_splits)
    with Ok pipe [of r s'] show ?thesis by (auto simp: run take_span)
  next
    case (Blocked s')
    then have "room q < n" and "pi_readopen q" and "\<not> p_killed (ptable s ! me)"
      and "sleeps_on (C_pipe_nwrite p) (ptable s' ! me)"
      and "pipes s' p = fold pipe_put (take (room q) ?cs) q"
      using me by (auto simp: pipewrite_result_def Let_def q_def sleeps_on_def to_sleep_def
          set_pipe_def split: if_splits)
    with Blocked pipe [of 0 s'] full show ?thesis by (auto simp: run take_span)
  next
    case (Panic e)
    then show ?thesis by (auto simp: pipewrite_result_def Let_def split: if_splits)
  qed
qed

theorem pipewrite_outcomes_witness:
  "\<exists>s'. pipewrite_loop 0x80300000 (\<lambda>_. 7) 3 0 (demo_kpipe False) = Ok 3 s'
     \<and> pipe_queue (pipes s' 0x80300000) = [7, 7, 7]"
proof -
  let ?s = "demo_kpipe False"
  have "pipe_queue (pipes ?s 0x80300000) = []" by (simp add: pipe_queue_def)
  moreover have "span (\<lambda>_. 7) 0 3 = [7, 7, 7 :: uchar]" by (simp add: span_def numeral_3_eq_3)
  ultimately show ?thesis
    using pipewrite_outcomes [OF demo_kpipe_in_pipe [of False], of "\<lambda>_. 7" 3] demo_kpipe_room [of False]
    by (auto split: outcome.splits)
qed




end
