(* ===== verification/Sleeplock.thy ===== *)
theory Sleeplock
  imports Pipe
begin

text \<open>
  Sleep locks (src/sleeplock.c, src/sleeplock.h): long-term locks for buffers and inodes. A lock's
  state is kept in \<open>slocks\<close> under its owner's name; the spinlock inside it is \<open>L_sleep\<close> and its
  address, the channel to sleep on, \<open>C_sleeplock\<close>. A process that sleeps in \<open>acquiresleep\<close> goes on
  with \<open>acquiresleep_resume\<close>.
\<close>

record sleeplock =
  sl_locked :: bool
  sl_pid :: int

record ksleep = kpipe +
  slocks :: "sleepid \<Rightarrow> sleeplock"

definition set_slock :: "sleepid \<Rightarrow> sleeplock \<Rightarrow> ('z ksleep_scheme, unit) kmon" where
  "set_slock lk v = modify (\<lambda>s. s\<lparr>slocks := (slocks s)(lk := v)\<rparr>)"

definition myproc_pid :: "('z kbase_scheme, int) kmon" where
  "myproc_pid = bnd myproc (\<lambda>me. case me of
       None \<Rightarrow> panic ''null pointer''
     | Some i \<Rightarrow> gets (\<lambda>s. p_pid (the_proc s i)))"

definition initsleeplock :: "sleepid \<Rightarrow> ('z ksleep_scheme, unit) kmon" where
  "initsleeplock lk = set_slock lk \<lparr>sl_locked = False, sl_pid = 0\<rparr>"

definition acquiresleep_loop :: "sleepid \<Rightarrow> ('z ksleep_scheme, unit) kmon" where
  "acquiresleep_loop lk =
     bnd (gets (\<lambda>s. sl_locked (slocks s lk))) (\<lambda>locked.
       if locked then sleep_wait (C_sleeplock lk) (L_sleep lk)
       else bnd myproc_pid (\<lambda>pid. stmts [
         set_slock lk \<lparr>sl_locked = True, sl_pid = pid\<rparr>,
         release (L_sleep lk)]))"

definition acquiresleep :: "sleepid \<Rightarrow> ('z ksleep_scheme, unit) kmon" where
  "acquiresleep lk = sqn (acquire (L_sleep lk)) (acquiresleep_loop lk)"

definition acquiresleep_resume :: "sleepid \<Rightarrow> ('z ksleep_scheme, unit) kmon" where
  "acquiresleep_resume lk = sqn (sleep_resume (L_sleep lk)) (acquiresleep_loop lk)"

definition releasesleep :: "sleepid \<Rightarrow> ('z ksleep_scheme, unit) kmon" where
  "releasesleep lk = stmts [
     acquire (L_sleep lk),
     set_slock lk \<lparr>sl_locked = False, sl_pid = 0\<rparr>,
     wakeup (C_sleeplock lk),
     release (L_sleep lk)]"

definition holdingsleep :: "sleepid \<Rightarrow> ('z ksleep_scheme, bool) kmon" where
  "holdingsleep lk = sqn (acquire (L_sleep lk))
     (bnd myproc_pid (\<lambda>pid. bnd (gets (\<lambda>s. sl_locked (slocks s lk) \<and> sl_pid (slocks s lk) = pid)) (\<lambda>r.
       sqn (release (L_sleep lk)) (ret r))))"

section \<open>Running the operations\<close>

lemma myproc_pid_run: "cur s = Some i \<Longrightarrow> myproc_pid s = Ok (p_pid (ptable s ! i)) s"
  by (simp add: myproc_pid_def myproc_def the_proc_def)

lemma acquiresleep_free:
  assumes "L_sleep lk \<notin> set (held s)" and "cur s = Some i" and "\<not> sl_locked (slocks s lk)"
  shows "acquiresleep lk s = Ok () (s\<lparr>slocks := (slocks s)(lk := \<lparr>sl_locked = True, sl_pid = p_pid (ptable s ! i)\<rparr>)\<rparr>)"
  using assms by (simp add: acquiresleep_def acquiresleep_loop_def myproc_pid_run set_slock_def run_simps)

lemma acquiresleep_taken:
  assumes "held s = []" and "cur s = Some i" and "i < length (ptable s)" and "sl_locked (slocks s lk)"
  shows "acquiresleep lk s = Blocked (s\<lparr>held := [L_ptable], ptable := to_sleep i (C_sleeplock lk) (ptable s)\<rparr>)"
  using assms
  by (simp add: acquiresleep_def acquiresleep_loop_def sleep_wait_run run_simps)
    (subst sleep_run [of _ _ i], simp_all add: to_sleep_def)

lemma releasesleep_run:
  assumes "L_sleep lk \<notin> set (held s)" and "L_ptable \<notin> set (held s)"
  shows "releasesleep lk s = Ok () (s\<lparr>slocks := (slocks s)(lk := \<lparr>sl_locked = False, sl_pid = 0\<rparr>),
    ptable := map (wake_proc (Some (C_sleeplock lk))) (ptable s)\<rparr>)"
  using assms by (simp add: releasesleep_def set_slock_def wakeup_run run_simps)

lemma holdingsleep_run:
  assumes "L_sleep lk \<notin> set (held s)" and "cur s = Some i"
  shows "holdingsleep lk s = Ok (sl_locked (slocks s lk) \<and> sl_pid (slocks s lk) = p_pid (ptable s ! i)) s"
  using assms by (simp add: holdingsleep_def myproc_pid_run run_simps)

text \<open>What an acquisition, from its start or resumed, can have done.\<close>

lemma acquiresleep_loop_Ok:
  assumes "acquiresleep_loop lk s = Ok () s'"
  shows "\<exists>i. cur s = Some i \<and> \<not> sl_locked (slocks s lk) \<and> cur s' = cur s \<and> ptable s' = ptable s
    \<and> slocks s' = (slocks s)(lk := \<lparr>sl_locked = True, sl_pid = p_pid (ptable s ! i)\<rparr>)"
  using assms
  by (auto simp: acquiresleep_loop_def sleep_wait_run myproc_pid_def set_slock_def the_proc_def run_simps
      split: if_splits outcome.splits option.splits)

lemma acquiresleep_loop_Blocked:
  assumes "acquiresleep_loop lk s = Blocked s'"
  shows "sl_locked (slocks s lk) \<and> slocks s' = slocks s"
  using assms
  by (auto simp: acquiresleep_loop_def sleep_wait_run myproc_pid_def set_slock_def the_proc_def
      sleep_def sched_def run_simps split: if_splits outcome.splits option.splits)

section \<open>Processes that share a sleep lock\<close>

text \<open>
  \<open>slock_run lk own s\<close>: the processes in \<open>own\<close> have acquired the lock and not released it. Other code
  runs in between; it leaves the lock alone and puts nobody to sleep on it.
\<close>

inductive slock_run :: "sleepid \<Rightarrow> nat set \<Rightarrow> 'z ksleep_scheme \<Rightarrow> bool" for lk where
  init: "initsleeplock lk s = Ok () s' \<Longrightarrow> no_sleeper (C_sleeplock lk) s \<Longrightarrow> slock_run lk {} s'"
| got: "slock_run lk own s \<Longrightarrow> acquiresleep_loop lk s = Ok () s' \<Longrightarrow> cur s = Some i \<Longrightarrow>
    slock_run lk (insert i own) s'"
| waits: "slock_run lk own s \<Longrightarrow> acquiresleep_loop lk s = Blocked s' \<Longrightarrow> slock_run lk own s'"
| freed: "slock_run lk own s \<Longrightarrow> cur s = Some i \<Longrightarrow> i \<in> own \<Longrightarrow> releasesleep lk s = Ok () s' \<Longrightarrow>
    slock_run lk (own - {i}) s'"
| other: "slock_run lk own s \<Longrightarrow> slocks s' lk = slocks s lk \<Longrightarrow>
    (no_sleeper (C_sleeplock lk) s \<Longrightarrow> no_sleeper (C_sleeplock lk) s') \<Longrightarrow> slock_run lk own s'"

lemma releasesleep_Ok:
  assumes "releasesleep lk s = Ok () s'"
  shows "slocks s' = (slocks s)(lk := \<lparr>sl_locked = False, sl_pid = 0\<rparr>) \<and> no_sleeper (C_sleeplock lk) s'"
proof -
  from assms have "L_sleep lk \<notin> set (held s)" "L_ptable \<notin> set (held s)"
    by (auto simp: releasesleep_def set_slock_def run_simps wakeup_def split: if_splits)
  with assms show ?thesis
    by (auto simp: releasesleep_run no_sleeper_def wake_proc_sleeps_on)
qed

lemma slock_run_inv:
  "slock_run lk own s \<Longrightarrow>
     (if sl_locked (slocks s lk) then \<exists>i. own = {i} else own = {} \<and> no_sleeper (C_sleeplock lk) s)"
proof (induction rule: slock_run.induct)
  case (init s s')
  then show ?case by (auto simp: initsleeplock_def set_slock_def no_sleeper_def)
next
  case (got own s s' i)
  with acquiresleep_loop_Ok [OF got.hyps(2)] show ?case by auto
next
  case (waits own s s')
  with acquiresleep_loop_Blocked [OF waits.hyps(2)] show ?case by simp
next
  case (freed own s i s')
  with releasesleep_Ok [OF freed.hyps(4)] show ?case by (auto split: if_splits)
next
  case (other own s s')
  then show ?case by (auto split: if_splits)
qed

text \<open>
  C24: A sleep lock has at most one owner however the processes that use it interleave; it is marked
  locked exactly while it has one; and a process sleeps for it only while it is locked, so that no
  wakeup is lost.
\<close>
theorem sleeplock_exclusive:
  assumes "slock_run lk own s"
  shows "(i \<in> own \<and> j \<in> own \<longrightarrow> i = j) \<and> (own \<noteq> {} \<longleftrightarrow> sl_locked (slocks s lk))
    \<and> (sl_locked (slocks s lk) \<or> no_sleeper (C_sleeplock lk) s)"
  using slock_run_inv [OF assms] by (auto split: if_splits)

definition demo_ksleep :: ksleep where
  "demo_ksleep = kpipe.extend (demo_kpipe False\<lparr>held := []\<rparr>) \<lparr>slocks = (\<lambda>_. \<lparr>sl_locked = False, sl_pid = 0\<rparr>)\<rparr>"

lemma demo_ksleep_simps [simp]:
  "held demo_ksleep = []" "cur demo_ksleep = Some 0"
  "ptable demo_ksleep = [demo_proc RUNNING None False, demo_proc SLEEPING (Some (C_pipe_nread 0x80300000)) False]"
  "slocks demo_ksleep lk = \<lparr>sl_locked = False, sl_pid = 0\<rparr>"
  by (simp_all add: demo_ksleep_def kpipe.defs)

theorem sleeplock_exclusive_witness:
  "\<exists>s :: ksleep. slock_run (SL_buf 0) {0} s \<and> sl_locked (slocks s (SL_buf 0))"
proof -
  let ?lk = "SL_buf 0"
  have 1: "slock_run ?lk {} (demo_ksleep\<lparr>slocks := (slocks demo_ksleep)(?lk := \<lparr>sl_locked = False, sl_pid = 0\<rparr>)\<rparr>)"
    by (rule slock_run.init [of ?lk demo_ksleep])
      (simp_all add: initsleeplock_def set_slock_def no_sleeper_def sleeps_on_def demo_proc_def)
  let ?s = "demo_ksleep\<lparr>slocks := (slocks demo_ksleep)(?lk := \<lparr>sl_locked = False, sl_pid = 0\<rparr>)\<rparr>"
  have 2: "slock_run ?lk {} (?s\<lparr>held := [L_sleep ?lk]\<rparr>)"
    by (rule slock_run.other [OF 1]) simp_all
  have "\<exists>s'. acquiresleep_loop ?lk (?s\<lparr>held := [L_sleep ?lk]\<rparr>) = Ok () s'"
    by (simp add: acquiresleep_loop_def myproc_pid_run set_slock_def run_simps)
  then obtain s' where s': "acquiresleep_loop ?lk (?s\<lparr>held := [L_sleep ?lk]\<rparr>) = Ok () s'" ..
  have "slock_run ?lk (insert 0 {}) s'" using slock_run.got [OF 2 s'] by simp
  with sleeplock_exclusive [OF this] show ?thesis by blast
qed

end
