(* ===== verification/Bio.thy ===== *)
theory Bio
  imports Sleeplock
begin

text \<open>
  The buffer cache and the disk below it (src/bio.c, src/buf.h, src/memide.c).

  \<open>bufs\<close> is \<open>bcache.buf\<close> with \<open>bcache.head\<close> at index \<open>HEAD\<close>; \<open>b_next\<close> and \<open>b_prev\<close> are the links of the
  most-recently-used list as indices. The flag bits \<open>B_VALID\<close> and \<open>B_DIRTY\<close> are two booleans, and a
  buffer's sleep lock is \<open>SL_buf i\<close>. The disk is the memory disk of memide.c, a byte store per
  block; a copy of a whole block of \<open>BSIZE\<close> bytes assigns the store (\<open>copy_block\<close>). \<open>dwrites\<close> is a
  ghost variable, the blocks written to the disk in the order of the writes, so that the state of
  the disk after a crash between any two writes can be spoken of.
\<close>

definition NBUF :: nat where "NBUF = 30"
definition HEAD :: nat where "HEAD = NBUF"
definition BSIZE :: nat where "BSIZE = 512"

record buf =
  b_valid :: bool
  b_dirty :: bool
  b_dev :: uint
  b_blockno :: uint
  b_refcnt :: uint
  b_prev :: nat
  b_next :: nat
  b_data :: bytes

record kbio = ksleep +
  bufs :: "nat \<Rightarrow> buf"
  memdisk :: "uint \<Rightarrow> bytes"
  disksize :: uint
  dwrites :: "(uint \<times> bytes) list"

definition upd_buf :: "nat \<Rightarrow> (buf \<Rightarrow> buf) \<Rightarrow> ('z kbio_scheme, unit) kmon" where
  "upd_buf i f = modify (\<lambda>s. s\<lparr>bufs := (bufs s)(i := f (bufs s i))\<rparr>)"

definition the_buf :: "nat \<Rightarrow> ('z kbio_scheme, buf) kmon" where
  "the_buf i = gets (\<lambda>s. bufs s i)"

definition copy_block :: "bytes \<Rightarrow> bytes \<Rightarrow> bytes" where
  "copy_block dst src = src"

section \<open>The cache\<close>

definition link_front :: "nat \<Rightarrow> ('z kbio_scheme, unit) kmon" where
  "link_front b = bnd (gets (\<lambda>s. b_next (bufs s HEAD))) (\<lambda>first. stmts [
     upd_buf b (\<lambda>x. x\<lparr>b_next := first\<rparr>),
     upd_buf b (\<lambda>x. x\<lparr>b_prev := HEAD\<rparr>),
     bnd (gets (\<lambda>s. b_next (bufs s HEAD))) (\<lambda>f. upd_buf f (\<lambda>x. x\<lparr>b_prev := b\<rparr>)),
     upd_buf HEAD (\<lambda>x. x\<lparr>b_next := b\<rparr>)])"

definition binit :: "('z kbio_scheme, unit) kmon" where
  "binit = stmts [
     upd_buf HEAD (\<lambda>x. x\<lparr>b_prev := HEAD\<rparr>),
     upd_buf HEAD (\<lambda>x. x\<lparr>b_next := HEAD\<rparr>),
     forM [0..<NBUF] (\<lambda>b. sqn (initsleeplock (SL_buf b)) (link_front b))]"

text \<open>The two loops of \<open>bget\<close> over the list, with a bound on their length that \<open>scan_next_list\<close> shows to
  be enough.\<close>

fun scan_next :: "nat \<Rightarrow> (nat \<Rightarrow> buf) \<Rightarrow> (buf \<Rightarrow> bool) \<Rightarrow> nat \<Rightarrow> nat option" where
  "scan_next 0 bs P b = None"
| "scan_next (Suc k) bs P b =
     (if b = HEAD then None else if P (bs b) then Some b else scan_next k bs P (b_next (bs b)))"

fun scan_prev :: "nat \<Rightarrow> (nat \<Rightarrow> buf) \<Rightarrow> (buf \<Rightarrow> bool) \<Rightarrow> nat \<Rightarrow> nat option" where
  "scan_prev 0 bs P b = None"
| "scan_prev (Suc k) bs P b =
     (if b = HEAD then None else if P (bs b) then Some b else scan_prev k bs P (b_prev (bs b)))"

definition bget :: "uint \<Rightarrow> uint \<Rightarrow> ('z kbio_scheme, nat) kmon" where
  "bget dev blockno = sqn (acquire L_bcache)
     (bnd (gets (\<lambda>s. scan_next (NBUF + 1) (bufs s) (\<lambda>b. b_dev b = dev \<and> b_blockno b = blockno)
             (b_next (bufs s HEAD)))) (\<lambda>hit. case hit of
        Some b \<Rightarrow> sqn (stmts [
            upd_buf b (\<lambda>x. x\<lparr>b_refcnt := b_refcnt x + 1\<rparr>),
            release L_bcache,
            acquiresleep (SL_buf b)]) (ret b)
      | None \<Rightarrow>
          bnd (gets (\<lambda>s. scan_prev (NBUF + 1) (bufs s) (\<lambda>b. b_refcnt b = 0 \<and> \<not> b_dirty b)
                 (b_prev (bufs s HEAD)))) (\<lambda>free. case free of
            Some b \<Rightarrow> sqn (stmts [
                upd_buf b (\<lambda>x. x\<lparr>b_dev := dev, b_blockno := blockno, b_valid := False,
                  b_dirty := False, b_refcnt := 1\<rparr>),
                release L_bcache,
                acquiresleep (SL_buf b)]) (ret b)
          | None \<Rightarrow> panic ''bget: no buffers'')))"

text \<open>\<open>img\<close> and \<open>sz\<close> are the linked image, as blocks, and its size in bytes.\<close>

definition memide_ideinit :: "(uint \<Rightarrow> bytes) \<Rightarrow> uint \<Rightarrow> ('z kbio_scheme, unit) kmon" where
  "memide_ideinit img sz = modify (\<lambda>s. s\<lparr>memdisk := img, disksize := sz div of_nat BSIZE\<rparr>)"

definition memide_ideintr :: "('z kbio_scheme, unit) kmon" where
  "memide_ideintr = ret ()"

definition iderw :: "nat \<Rightarrow> ('z kbio_scheme, unit) kmon" where
  "iderw i = bnd (holdingsleep (SL_buf i)) (\<lambda>h.
     if \<not> h then panic ''iderw: buf not locked''
     else bnd (the_buf i) (\<lambda>b. bnd (gets disksize) (\<lambda>size.
       if b_valid b \<and> \<not> b_dirty b then panic ''iderw: nothing to do''
       else if b_dev b \<noteq> 1 then panic ''iderw: request not for disk 1''
       else if b_blockno b \<ge> size then panic ''iderw: block out of range''
       else sqn
         (if b_dirty b then stmts [
            upd_buf i (\<lambda>x. x\<lparr>b_dirty := False\<rparr>),
            modify (\<lambda>s. s\<lparr>memdisk := (memdisk s)(b_blockno b := copy_block (memdisk s (b_blockno b)) (b_data b)),
              dwrites := dwrites s @ [(b_blockno b, b_data b)]\<rparr>)]
          else bnd (gets (\<lambda>s. memdisk s (b_blockno b))) (\<lambda>p.
            upd_buf i (\<lambda>x. x\<lparr>b_data := copy_block (b_data x) p\<rparr>)))
         (upd_buf i (\<lambda>x. x\<lparr>b_valid := True\<rparr>)))))"

definition bread :: "uint \<Rightarrow> uint \<Rightarrow> ('z kbio_scheme, nat) kmon" where
  "bread dev blockno = bnd (bget dev blockno) (\<lambda>b.
     bnd (gets (\<lambda>s. b_valid (bufs s b))) (\<lambda>valid.
       sqn (whenM (\<not> valid) (iderw b)) (ret b)))"

definition bwrite :: "nat \<Rightarrow> ('z kbio_scheme, unit) kmon" where
  "bwrite b = bnd (holdingsleep (SL_buf b)) (\<lambda>h.
     if \<not> h then panic ''bwrite''
     else stmts [upd_buf b (\<lambda>x. x\<lparr>b_dirty := True\<rparr>), iderw b])"

definition brelse :: "nat \<Rightarrow> ('z kbio_scheme, unit) kmon" where
  "brelse b = bnd (holdingsleep (SL_buf b)) (\<lambda>h.
     if \<not> h then panic ''brelse''
     else stmts [
       releasesleep (SL_buf b),
       acquire L_bcache,
       upd_buf b (\<lambda>x. x\<lparr>b_refcnt := b_refcnt x - 1\<rparr>),
       bnd (gets (\<lambda>s. b_refcnt (bufs s b))) (\<lambda>n. whenM (n = 0) (stmts [
         bnd (the_buf b) (\<lambda>x. upd_buf (b_next x) (\<lambda>y. y\<lparr>b_prev := b_prev x\<rparr>)),
         bnd (the_buf b) (\<lambda>x. upd_buf (b_prev x) (\<lambda>y. y\<lparr>b_next := b_next x\<rparr>)),
         link_front b])),
       release L_bcache])"

lemma copy_block_memmove: "x < BSIZE \<Longrightarrow> memmove_from dst 0 src 0 BSIZE x = copy_block dst src x"
  by (simp add: memmove_from_apply copy_block_def)

section \<open>The list of buffers\<close>

fun path :: "(nat \<Rightarrow> nat) \<Rightarrow> nat \<Rightarrow> nat list \<Rightarrow> nat \<Rightarrow> bool" where
  "path f a [] t \<longleftrightarrow> f a = t"
| "path f a (x # xs) t \<longleftrightarrow> f a = x \<and> path f x xs t"

definition dll :: "(nat \<Rightarrow> buf) \<Rightarrow> nat list \<Rightarrow> bool" where
  "dll bs xs \<longleftrightarrow> distinct (HEAD # xs)
     \<and> path (\<lambda>i. b_next (bs i)) HEAD xs HEAD \<and> path (\<lambda>i. b_prev (bs i)) HEAD (rev xs) HEAD"

definition lru :: "(nat \<Rightarrow> buf) \<Rightarrow> nat list \<Rightarrow> bool" where
  "lru bs xs \<longleftrightarrow> dll bs xs \<and> set xs = {..<NBUF}"

lemma path_append: "path f a (xs @ y # ys) t \<longleftrightarrow> path f a xs y \<and> path f y ys t"
  by (induction xs arbitrary: a) auto

lemma path_cong: "(\<And>x. x \<in> set (a # xs) \<Longrightarrow> f x = g x) \<Longrightarrow> path f a xs t = path g a xs t"
  by (induction xs arbitrary: a) auto

lemma path_last: "path f a xs t \<Longrightarrow> f (last (a # xs)) = t"
  by (induction xs arbitrary: a) auto

lemma path_redirect:
  "path f a xs t \<Longrightarrow> distinct (a # xs) \<Longrightarrow> path (f(last (a # xs) := r)) a xs r"
proof (induction xs arbitrary: a)
  case (Cons x xs)
  then have "a \<noteq> last (x # xs)" by (metis distinct.simps(2) last_in_set list.discI)
  with Cons show ?case by auto
qed simp

lemma scan_next_list:
  "path (\<lambda>i. b_next (bs i)) a xs HEAD \<Longrightarrow> HEAD \<notin> set xs \<Longrightarrow> length xs < k \<Longrightarrow>
     scan_next k bs P (b_next (bs a)) = find (\<lambda>i. P (bs i)) xs"
proof (induction xs arbitrary: a k)
  case Nil
  then show ?case by (cases k) auto
next
  case (Cons x xs)
  then show ?case by (cases k) auto
qed

lemma scan_prev_list:
  "path (\<lambda>i. b_prev (bs i)) a xs HEAD \<Longrightarrow> HEAD \<notin> set xs \<Longrightarrow> length xs < k \<Longrightarrow>
     scan_prev k bs P (b_prev (bs a)) = find (\<lambda>i. P (bs i)) xs"
proof (induction xs arbitrary: a k)
  case Nil
  then show ?case by (cases k) auto
next
  case (Cons x xs)
  then show ?case by (cases k) auto
qed

text \<open>Taking a buffer out of the list and putting it in front.\<close>

lemma path_unlink:
  assumes "path f h (as @ b # bs) h" and "distinct (h # as @ b # bs)"
  shows "path (f(last (h # as) := f b)) h (as @ bs) h"
proof -
  from assms(1) have 1: "path f h as b" and 2: "path f b bs h" by (simp_all add: path_append)
  let ?f = "f(last (h # as) := f b)"
  have 3: "path ?f h as (f b)" using path_redirect [OF 1] assms(2) by simp
  show ?thesis
  proof (cases bs)
    case Nil
    with 2 3 show ?thesis by simp
  next
    case (Cons r cs)
    have "last (h # as) \<in> set (h # as)" by (rule last_in_set) simp
    then have "last (h # as) \<notin> set (r # cs)" using assms(2) Cons by auto
    then have "path ?f r cs h = path f r cs h" by (intro path_cong) auto
    with 2 3 Cons show ?thesis by (simp add: path_append)
  qed
qed

lemma path_back:
  assumes "path g h (rev (as @ b # bs)) h"
  shows "g b = last (h # as)"
proof -
  from assms have "path g b (rev as) h" by (simp add: path_append)
  then show ?thesis by (cases as rule: rev_cases) auto
qed

lemma path_front_next:
  "path f h xs h \<Longrightarrow> b \<notin> set xs \<Longrightarrow> b \<noteq> h \<Longrightarrow> h \<notin> set xs \<Longrightarrow> path (f(b := f h, h := b)) h (b # xs) h"
proof -
  assume *: "path f h xs h" "b \<notin> set xs" "b \<noteq> h" "h \<notin> set xs"
  let ?f = "f(b := f h, h := b)"
  have "path ?f b xs h"
  proof (cases xs)
    case (Cons x ys)
    with * have "path ?f x ys h = path f x ys h" by (intro path_cong) auto
    with * Cons show ?thesis by auto
  qed (use * in simp)
  with * show ?thesis by simp
qed

lemma path_front_prev:
  assumes "path g h (rev xs) h" and "path f h xs h" and "b \<notin> set xs" and "b \<noteq> h" and "distinct (h # xs)"
  shows "path (g(b := h, f h := b)) h (rev (b # xs)) h"
proof -
  have fh: "f h = last (h # rev xs)" using assms(2) by (cases xs) auto
  have "path (g(last (h # rev xs) := b)) h (rev xs) b"
    using assms by (intro path_redirect) auto
  moreover have "path (g(b := h, f h := b)) h (rev xs) b = path (g(last (h # rev xs) := b)) h (rev xs) b"
    unfolding fh using assms(3,4) by (intro path_cong) auto
  moreover have "f h \<noteq> b" using assms(2,3,4) by (cases xs) auto
  ultimately show ?thesis by (simp add: path_append)
qed

definition lf :: "nat \<Rightarrow> (nat \<Rightarrow> buf) \<Rightarrow> nat \<Rightarrow> buf" where
  "lf b bs = (let f = b_next (bs HEAD); bs1 = bs(b := (bs b)\<lparr>b_next := f, b_prev := HEAD\<rparr>);
     bs2 = bs1(f := (bs1 f)\<lparr>b_prev := b\<rparr>) in bs2(HEAD := (bs2 HEAD)\<lparr>b_next := b\<rparr>))"

definition ul :: "nat \<Rightarrow> (nat \<Rightarrow> buf) \<Rightarrow> nat \<Rightarrow> buf" where
  "ul b bs = (let n = b_next (bs b); p = b_prev (bs b); bs1 = bs(n := (bs n)\<lparr>b_prev := p\<rparr>);
     p1 = b_prev (bs1 b); n1 = b_next (bs1 b) in bs1(p1 := (bs1 p1)\<lparr>b_next := n1\<rparr>))"

lemma link_front_run: "b \<noteq> HEAD \<Longrightarrow> link_front b s = Ok () (s\<lparr>bufs := lf b (bufs s)\<rparr>)"
  by (simp add: link_front_def upd_buf_def lf_def Let_def)

text \<open>The fields the list does not use.\<close>

definition same_content :: "buf \<Rightarrow> buf \<Rightarrow> bool" where
  "same_content x y \<longleftrightarrow> b_valid x = b_valid y \<and> b_dirty x = b_dirty y \<and> b_dev x = b_dev y
     \<and> b_blockno x = b_blockno y \<and> b_refcnt x = b_refcnt y \<and> b_data x = b_data y"

lemma lf_content: "same_content (lf b bs i) (bs i)"
  by (simp add: lf_def Let_def same_content_def)

lemma ul_content: "same_content (ul b bs i) (bs i)"
  by (simp add: ul_def Let_def same_content_def)

lemma lf_links:
  assumes "b \<noteq> HEAD"
  shows "(\<lambda>i. b_next (lf b bs i)) = (\<lambda>i. b_next (bs i))(b := b_next (bs HEAD), HEAD := b)"
    and "(\<lambda>i. b_prev (lf b bs i)) = (\<lambda>i. b_prev (bs i))(b := HEAD, b_next (bs HEAD) := b)"
  using assms by (auto simp: lf_def Let_def fun_eq_iff)

lemma ul_links:
  assumes "b_next (bs b) \<noteq> b" and "b_prev (bs b) \<noteq> b"
  shows "(\<lambda>i. b_next (ul b bs i)) = (\<lambda>i. b_next (bs i))(b_prev (bs b) := b_next (bs b))"
    and "(\<lambda>i. b_prev (ul b bs i)) = (\<lambda>i. b_prev (bs i))(b_next (bs b) := b_prev (bs b))"
  using assms by (auto simp: ul_def Let_def fun_eq_iff)

lemma dll_front:
  assumes "dll bs xs" and "b \<notin> set xs" and "b \<noteq> HEAD"
  shows "dll (lf b bs) (b # xs)"
proof -
  from assms have n: "path (\<lambda>i. b_next (bs i)) HEAD xs HEAD" and p: "path (\<lambda>i. b_prev (bs i)) HEAD (rev xs) HEAD"
    and d: "distinct (HEAD # xs)" by (auto simp: dll_def)
  have "path (\<lambda>i. b_next (lf b bs i)) HEAD (b # xs) HEAD"
    unfolding lf_links(1) [OF assms(3)] using path_front_next [OF n assms(2,3)] d by simp
  moreover have "path (\<lambda>i. b_prev (lf b bs i)) HEAD (rev (b # xs)) HEAD"
    unfolding lf_links(2) [OF assms(3)] using path_front_prev [OF p n assms(2,3) d] .
  ultimately show ?thesis using d assms(2,3) by (simp add: dll_def)
qed

text \<open>Moving a buffer to the front is moving it to the front of the list it stands for.\<close>

lemma dll_unlink:
  assumes "dll bs (as @ b # cs)"
  shows "dll (ul b bs) (as @ cs)"
proof -
  let ?n = "\<lambda>i. b_next (bs i)" and ?p = "\<lambda>i. b_prev (bs i)"
  from assms have d: "distinct (HEAD # as @ b # cs)"
    and n: "path ?n HEAD (as @ b # cs) HEAD" and p: "path ?p HEAD (rev (as @ b # cs)) HEAD"
    by (auto simp: dll_def)
  have pb: "?p b = last (HEAD # as)" using p by (rule path_back)
  have nb: "?n b = last (HEAD # rev cs)"
    using path_back [of ?n HEAD "rev cs" b "rev as"] n by simp
  have "last (HEAD # as) \<in> set (HEAD # as)" "last (HEAD # rev cs) \<in> set (HEAD # rev cs)"
    by (rule last_in_set, simp)+
  then have "last (HEAD # as) \<noteq> b" "last (HEAD # rev cs) \<noteq> b" using d by auto
  then have ne: "?n b \<noteq> b" "?p b \<noteq> b" using pb nb by simp_all
  have n1: "path (?n(?p b := ?n b)) HEAD (as @ cs) HEAD"
    unfolding pb using path_unlink [OF n d] .
  have "path ?p HEAD (rev cs @ b # rev as) HEAD" "distinct (HEAD # rev cs @ b # rev as)"
    using p d by auto
  from path_unlink [OF this] have p1: "path (?p(?n b := ?p b)) HEAD (rev (as @ cs)) HEAD"
    by (simp only: nb rev_append)
  show ?thesis
    unfolding dll_def ul_links [of bs b, OF ne] using n1 p1 d by auto
qed

lemma lru_move_front:
  assumes "lru bs xs" and "b \<in> set xs"
  shows "lru (lf b (ul b bs)) (b # remove1 b xs)"
proof -
  from assms(2) obtain as cs where xs: "xs = as @ b # cs" "b \<notin> set as"
    by (meson split_list_first)
  then have rm: "remove1 b xs = as @ cs" by (simp add: remove1_append)
  have d: "distinct (HEAD # as @ b # cs)" using assms(1) unfolding lru_def dll_def xs by blast
  have "dll (ul b bs) (as @ cs)" using assms(1) by (intro dll_unlink) (simp add: lru_def xs)
  then have "dll (lf b (ul b bs)) (b # as @ cs)" using d by (intro dll_front) auto
  moreover have "set (b # as @ cs) = {..<NBUF}" using assms(1) by (auto simp: lru_def xs)
  ultimately show ?thesis by (simp add: lru_def rm)
qed

lemma lru_HEAD: "lru bs xs \<Longrightarrow> HEAD \<notin> set xs"
  by (simp add: lru_def HEAD_def)

text \<open>The list only matters through the links.\<close>

lemma lru_cong:
  assumes "\<And>i. b_next (bs i) = b_next (cs i) \<and> b_prev (bs i) = b_prev (cs i)"
  shows "lru bs xs = lru cs xs"
  using assms by (simp add: lru_def dll_def)

lemma lru_length: "lru bs xs \<Longrightarrow> length xs = NBUF"
  using distinct_card [of xs] by (auto simp: lru_def dll_def)

lemma lru_scan:
  assumes "lru bs xs"
  shows "scan_next (NBUF + 1) bs P (b_next (bs HEAD)) = find (\<lambda>i. P (bs i)) xs"
    and "scan_prev (NBUF + 1) bs P (b_prev (bs HEAD)) = find (\<lambda>i. P (bs i)) (rev xs)"
proof -
  from assms have n: "path (\<lambda>i. b_next (bs i)) HEAD xs HEAD" and p: "path (\<lambda>i. b_prev (bs i)) HEAD (rev xs) HEAD"
    by (auto simp: lru_def dll_def)
  show "scan_next (NBUF + 1) bs P (b_next (bs HEAD)) = find (\<lambda>i. P (bs i)) xs"
    using lru_HEAD [OF assms] lru_length [OF assms] by (intro scan_next_list [OF n]) simp_all
  show "scan_prev (NBUF + 1) bs P (b_prev (bs HEAD)) = find (\<lambda>i. P (bs i)) (rev xs)"
    using lru_HEAD [OF assms] lru_length [OF assms] by (intro scan_prev_list [OF p]) simp_all
qed

text \<open>\<open>binit\<close> builds the list with the last buffer in front.\<close>

lemma same_content_trans: "same_content x y \<Longrightarrow> same_content y z \<Longrightarrow> same_content x z"
  by (simp add: same_content_def)

lemma binit_loop:
  "j \<le> k \<Longrightarrow> k \<le> NBUF \<Longrightarrow> dll (bufs s) (rev [0..<j]) \<Longrightarrow>
     \<exists>sl bs. forM [j..<k] (\<lambda>b. sqn (initsleeplock (SL_buf b)) (link_front b)) s = Ok () (s\<lparr>slocks := sl, bufs := bs\<rparr>)
       \<and> dll bs (rev [0..<k]) \<and> (\<forall>i. same_content (bs i) (bufs s i))
       \<and> (\<forall>i. j \<le> i \<and> i < k \<longrightarrow> \<not> sl_locked (sl (SL_buf i)))
       \<and> (\<forall>i < j. sl (SL_buf i) = slocks s (SL_buf i))"
proof (induction "k - j" arbitrary: j s)
  case 0
  then show ?case by (intro exI [of _ "slocks s"] exI [of _ "bufs s"]) (auto simp: same_content_def)
next
  case (Suc d)
  then have j: "j < k" "[j..<k] = j # [Suc j..<k]" "j \<noteq> HEAD" by (auto simp: upt_conv_Cons HEAD_def)
  let ?s = "s\<lparr>slocks := (slocks s)(SL_buf j := \<lparr>sl_locked = False, sl_pid = 0\<rparr>), bufs := lf j (bufs s)\<rparr>"
  have dll: "dll (bufs ?s) (rev [0..<Suc j])"
    using dll_front [OF Suc.prems(3), of j] j(3) by simp
  have "d = k - Suc j" "Suc j \<le> k" using Suc.hyps(2) j(1) by auto
  from Suc.hyps(1) [OF this Suc.prems(2) dll] obtain sl bs where
    run: "forM [Suc j..<k] (\<lambda>b. sqn (initsleeplock (SL_buf b)) (link_front b)) ?s = Ok () (?s\<lparr>slocks := sl, bufs := bs\<rparr>)"
    and dll': "dll bs (rev [0..<k])" and same: "\<And>i. same_content (bs i) (bufs ?s i)"
    and un: "\<And>i. Suc j \<le> i \<Longrightarrow> i < k \<Longrightarrow> \<not> sl_locked (sl (SL_buf i))"
    and old: "\<And>i. i < Suc j \<Longrightarrow> sl (SL_buf i) = slocks ?s (SL_buf i)"
    by blast
  have "\<not> sl_locked (sl (SL_buf i))" if "j \<le> i" "i < k" for i
    using un [of i] old [of i] that by (cases "i = j") auto
  moreover have "sl (SL_buf i) = slocks s (SL_buf i)" if "i < j" for i using old [of i] that by auto
  moreover have "same_content (bs i) (bufs s i)" for i
    using same_content_trans [OF same] lf_content by simp
  ultimately show ?case
    using run dll' by (intro exI [of _ sl] exI [of _ bs]) (simp add: j(2,3) initsleeplock_def set_slock_def link_front_run)
qed

lemma binit_run:
  "\<exists>sl bs. binit s = Ok () (s\<lparr>slocks := sl, bufs := bs\<rparr>) \<and> lru bs (rev [0..<NBUF])
     \<and> (\<forall>i. same_content (bs i) (bufs s i)) \<and> (\<forall>i < NBUF. \<not> sl_locked (sl (SL_buf i)))"
proof -
  let ?s = "s\<lparr>bufs := (bufs s)(HEAD := (bufs s HEAD)\<lparr>b_prev := HEAD, b_next := HEAD\<rparr>)\<rparr>"
  have "dll (bufs ?s) (rev [0..<0])" by (simp add: dll_def)
  from binit_loop [OF _ _ this, of NBUF] obtain sl bs where
    *: "forM [0..<NBUF] (\<lambda>b. sqn (initsleeplock (SL_buf b)) (link_front b)) ?s = Ok () (?s\<lparr>slocks := sl, bufs := bs\<rparr>)"
      "dll bs (rev [0..<NBUF])" "\<And>i. same_content (bs i) (bufs ?s i)"
      "\<And>i. i < NBUF \<Longrightarrow> \<not> sl_locked (sl (SL_buf i))" by auto
  have "same_content (bufs ?s i) (bufs s i)" for i by (simp add: same_content_def)
  with * have "same_content (bs i) (bufs s i)" for i using same_content_trans by blast
  moreover have "binit s = Ok () (?s\<lparr>slocks := sl, bufs := bs\<rparr>)"
    using *(1) by (simp add: binit_def upd_buf_def)
  ultimately show ?thesis
    using *(2,4) by (intro exI [of _ sl] exI [of _ bs]) (simp add: lru_def atLeast0LessThan)
qed

end
