(* ===== verification/Bcache.thy ===== *)
theory Bcache
  imports Bio
begin

text \<open>
  What the buffer cache of src/bio.c promises its clients, for the theory Bio: the cache is
  transparent (a client that reads, changes and releases blocks sees one array of blocks), it
  keeps at most one copy of a block, and it recycles the least recently used free buffer.
\<close>

lemma find_SomeD: "find P xs = Some x \<Longrightarrow> x \<in> set xs \<and> P x"
  by (induction xs) (auto split: if_splits)

section \<open>What the cache stands for\<close>

text \<open>
  The blocks as the file system sees them: the cached copy where there is one, the disk otherwise.
  \<open>bufs_ok\<close> is the invariant of the cache between the operations of one process: \<open>L\<close> are the blocks
  that are pinned dirty for the log, \<open>B\<close> gives the buffer of each block the process has locked.
\<close>

definition cached :: "(nat \<Rightarrow> buf) \<Rightarrow> uint \<Rightarrow> nat \<Rightarrow> bool" where
  "cached bs n i \<longleftrightarrow> i < NBUF \<and> b_dev (bs i) = 1 \<and> b_blockno (bs i) = n"

definition view :: "(nat \<Rightarrow> buf) \<Rightarrow> (uint \<Rightarrow> bytes) \<Rightarrow> uint \<Rightarrow> bytes" where
  "view bs md n = (case find (cached bs n) [0..<NBUF] of Some i \<Rightarrow> b_data (bs i) | None \<Rightarrow> md n)"

definition bufs_ok ::
  "(nat \<Rightarrow> buf) \<Rightarrow> (sleepid \<Rightarrow> sleeplock) \<Rightarrow> int \<Rightarrow> (uint \<Rightarrow> bytes) \<Rightarrow> uint \<Rightarrow> uint set \<Rightarrow> (uint \<Rightarrow> nat option) \<Rightarrow> bool"
where
  "bufs_ok bs sl pid md sz L B \<longleftrightarrow>
     (\<exists>xs. lru bs xs)
   \<and> (\<forall>n i j. cached bs n i \<and> cached bs n j \<longrightarrow> i = j)
   \<and> (\<forall>i < NBUF. b_valid (bs i) = (b_dev (bs i) = 1))
   \<and> (\<forall>i < NBUF. b_dirty (bs i) \<longrightarrow> b_dev (bs i) = 1 \<and> b_blockno (bs i) \<in> L)
   \<and> (\<forall>n \<in> L. \<exists>i. cached bs n i \<and> b_dirty (bs i))
   \<and> (\<forall>n i. B n = Some i \<longrightarrow> cached bs n i)
   \<and> (\<forall>i < NBUF. if i \<in> ran B then b_refcnt (bs i) = 1 \<and> sl (SL_buf i) = \<lparr>sl_locked = True, sl_pid = pid\<rparr>
                  else b_refcnt (bs i) = 0 \<and> \<not> sl_locked (sl (SL_buf i)))
   \<and> (\<forall>i < NBUF. b_dev (bs i) = 1 \<and> \<not> b_dirty (bs i) \<and> i \<notin> ran B \<longrightarrow> b_data (bs i) = md (b_blockno (bs i)))
   \<and> (\<forall>n i. cached bs n i \<longrightarrow> n < sz)"

lemma bufs_okI:
  assumes "\<exists>xs. lru bs xs"
    and "\<And>n i j. cached bs n i \<Longrightarrow> cached bs n j \<Longrightarrow> i = j"
    and "\<And>i. i < NBUF \<Longrightarrow> b_valid (bs i) = (b_dev (bs i) = 1)"
    and "\<And>i. i < NBUF \<Longrightarrow> b_dirty (bs i) \<Longrightarrow> b_dev (bs i) = 1 \<and> b_blockno (bs i) \<in> L"
    and "\<And>n. n \<in> L \<Longrightarrow> \<exists>i. cached bs n i \<and> b_dirty (bs i)"
    and "\<And>n i. B n = Some i \<Longrightarrow> cached bs n i"
    and "\<And>i. i < NBUF \<Longrightarrow> i \<in> ran B \<Longrightarrow> b_refcnt (bs i) = 1 \<and> sl (SL_buf i) = \<lparr>sl_locked = True, sl_pid = pid\<rparr>"
    and "\<And>i. i < NBUF \<Longrightarrow> i \<notin> ran B \<Longrightarrow> b_refcnt (bs i) = 0 \<and> \<not> sl_locked (sl (SL_buf i))"
    and "\<And>i. i < NBUF \<Longrightarrow> b_dev (bs i) = 1 \<Longrightarrow> \<not> b_dirty (bs i) \<Longrightarrow> i \<notin> ran B \<Longrightarrow> b_data (bs i) = md (b_blockno (bs i))"
    and "\<And>n i. cached bs n i \<Longrightarrow> n < sz"
  shows "bufs_ok bs sl pid md sz L B"
  using assms unfolding bufs_ok_def by (simp (no_asm_simp)) blast

lemma bufs_okD:
  assumes "bufs_ok bs sl pid md sz L B"
  shows bufs_ok_lru: "\<exists>xs. lru bs xs"
    and bufs_ok_inj: "cached bs n i \<Longrightarrow> cached bs n j \<Longrightarrow> i = j"
    and bufs_ok_valid: "i < NBUF \<Longrightarrow> b_valid (bs i) = (b_dev (bs i) = 1)"
    and bufs_ok_dirty: "i < NBUF \<Longrightarrow> b_dirty (bs i) \<Longrightarrow> b_dev (bs i) = 1 \<and> b_blockno (bs i) \<in> L"
    and bufs_ok_pinned: "n \<in> L \<Longrightarrow> \<exists>i. cached bs n i \<and> b_dirty (bs i)"
    and bufs_ok_held: "B n = Some i \<Longrightarrow> cached bs n i"
    and bufs_ok_locked: "i < NBUF \<Longrightarrow> i \<in> ran B \<Longrightarrow> b_refcnt (bs i) = 1 \<and> sl (SL_buf i) = \<lparr>sl_locked = True, sl_pid = pid\<rparr>"
    and bufs_ok_free: "i < NBUF \<Longrightarrow> i \<notin> ran B \<Longrightarrow> b_refcnt (bs i) = 0 \<and> \<not> sl_locked (sl (SL_buf i))"
    and bufs_ok_clean: "i < NBUF \<Longrightarrow> b_dev (bs i) = 1 \<Longrightarrow> \<not> b_dirty (bs i) \<Longrightarrow> i \<notin> ran B \<Longrightarrow> b_data (bs i) = md (b_blockno (bs i))"
    and bufs_ok_size: "cached bs n i \<Longrightarrow> n < sz"
  using assms unfolding bufs_ok_def by metis+

lemma view_cached:
  assumes "bufs_ok bs sl pid md sz L B" and "cached bs n i"
  shows "view bs md n = b_data (bs i)"
proof -
  have "\<exists>j. find (cached bs n) [0..<NBUF] = Some j"
    using assms(2) by (auto simp: find_None_iff cached_def simp flip: not_None_eq)
  then obtain j where j: "find (cached bs n) [0..<NBUF] = Some j" ..
  then have "cached bs n j" by (auto simp: find_Some_iff)
  with bufs_ok_inj [OF assms(1) assms(2)] j show ?thesis by (simp add: view_def)
qed

lemma view_uncached: "(\<And>i. \<not> cached bs n i) \<Longrightarrow> view bs md n = md n"
proof -
  assume "\<And>i. \<not> cached bs n i"
  then have "find (cached bs n) [0..<NBUF] = None" by (simp add: find_None_iff)
  then show ?thesis by (simp add: view_def)
qed

text \<open>Two caches show the same block where each has it cached, or the disk has what the cache had.\<close>

lemma bufs_ok_content:
  assumes "bufs_ok bs sl pid md sz L B" and "\<And>i. same_content (cs i) (bs i)" and "\<exists>xs. lru cs xs"
  shows "bufs_ok cs sl pid md sz L B" and "view cs md = view bs md"
proof -
  have eq: "cached cs = cached bs" "\<And>i. b_data (cs i) = b_data (bs i)"
    using assms(2) by (simp_all add: fun_eq_iff cached_def same_content_def)
  show "view cs md = view bs md" by (simp add: fun_eq_iff view_def eq cong: option.case_cong)
  show "bufs_ok cs sl pid md sz L B"
    using assms by (simp add: bufs_ok_def same_content_def eq(1))
qed

lemma ran_upd: "B n = None \<Longrightarrow> ran (B(n \<mapsto> i)) = insert i (ran B)"
  by (rule ran_map_upd)

lemma ran_del:
  assumes "bufs_ok bs sl pid md sz L B" and "B n = Some i"
  shows "ran (B(n := None)) = ran B - {i}"
proof -
  have only: "m = n" if "B m = Some i" for m
    using bufs_ok_held [OF assms(1) that] bufs_ok_held [OF assms] by (simp add: cached_def)
  have "x \<in> ran (B(n := None)) \<longleftrightarrow> x \<in> ran B \<and> x \<noteq> i" for x
  proof -
    have "(B(n := None)) a = Some x \<longleftrightarrow> B a = Some x \<and> x \<noteq> i" for a
      using only [of a] assms(2) by (cases "a = n") auto
    then show ?thesis by (auto simp: ran_def)
  qed
  then show ?thesis by blast
qed

lemma held_in_ran: "B n = Some i \<Longrightarrow> i \<in> ran B"
  by (rule ranI)


text \<open>The steps of the operations on the cache.\<close>

lemma bufs_ok_take:
  assumes ok: "bufs_ok bs sl pid md sz L B" and c: "cached bs n i" and "B n = None"
  defines "cs \<equiv> bs(i := (bs i)\<lparr>b_refcnt := b_refcnt (bs i) + 1\<rparr>)"
  shows "bufs_ok cs (sl(SL_buf i := \<lparr>sl_locked = True, sl_pid = pid\<rparr>)) pid md sz L (B(n \<mapsto> i))"
    and "view cs md = view bs md"
proof -
  have ran: "ran (B(n \<mapsto> i)) = insert i (ran B)" using assms(3) by (rule ran_upd)
  have eq: "cached cs = cached bs" "\<And>j. b_data (cs j) = b_data (bs j)" "\<And>j. b_dirty (cs j) = b_dirty (bs j)"
      "\<And>j. b_valid (cs j) = b_valid (bs j)" "\<And>j. b_dev (cs j) = b_dev (bs j)" "\<And>j. b_blockno (cs j) = b_blockno (bs j)"
    by (auto simp: fun_eq_iff cached_def cs_def)
  show "view cs md = view bs md" by (simp add: fun_eq_iff view_def eq cong: option.case_cong)
  have ni: "i \<notin> ran B"
    using bufs_ok_held [OF ok] c assms(3) by (auto simp: ran_def cached_def)
  have i: "i < NBUF" using c by (simp add: cached_def)
  have lru: "\<exists>xs. lru cs xs"
    using bufs_ok_lru [OF ok] lru_cong [of cs bs] by (auto simp: cs_def)
  show "bufs_ok cs (sl(SL_buf i := \<lparr>sl_locked = True, sl_pid = pid\<rparr>)) pid md sz L (B(n \<mapsto> i))"
  proof (rule bufs_okI [OF lru], unfold eq ran)
    show "cached bs m j" if "(B(n \<mapsto> i)) m = Some j" for m j
      using that c bufs_ok_held [OF ok] by (auto split: if_splits)
    show "b_refcnt (cs j) = 1 \<and> (sl(SL_buf i := \<lparr>sl_locked = True, sl_pid = pid\<rparr>)) (SL_buf j) = \<lparr>sl_locked = True, sl_pid = pid\<rparr>"
      if "j < NBUF" "j \<in> insert i (ran B)" for j
      using that bufs_ok_locked [OF ok, of j] bufs_ok_free [OF ok i ni] by (auto simp: cs_def)
    show "b_refcnt (cs j) = 0 \<and> \<not> sl_locked ((sl(SL_buf i := \<lparr>sl_locked = True, sl_pid = pid\<rparr>)) (SL_buf j))"
      if "j < NBUF" "j \<notin> insert i (ran B)" for j
      using that bufs_ok_free [OF ok, of j] by (auto simp: cs_def)
  qed (use bufs_okD [OF ok] in blast)+
qed


lemma bufs_ok_recycle:
  assumes ok: "bufs_ok bs sl pid md sz L B" and none: "\<And>j. \<not> cached bs n j" and n: "n < sz"
    and i: "i < NBUF" and free: "b_refcnt (bs i) = 0" "\<not> b_dirty (bs i)"
  defines "cs \<equiv> bs(i := (bs i)\<lparr>b_dev := 1, b_blockno := n, b_dirty := False, b_refcnt := 1, b_data := md n, b_valid := True\<rparr>)"
  shows "bufs_ok cs (sl(SL_buf i := \<lparr>sl_locked = True, sl_pid = pid\<rparr>)) pid md sz L (B(n \<mapsto> i))"
    and "view cs md = view bs md"
proof -
  have ni: "i \<notin> ran B" using bufs_ok_locked [OF ok i] free by auto
  have Bn: "B n = None" using bufs_ok_held [OF ok] none by (cases "B n") blast+
  have ran: "ran (B(n \<mapsto> i)) = insert i (ran B)" using Bn by (rule ran_upd)
  have lru: "\<exists>xs. lru cs xs"
    using bufs_ok_lru [OF ok] lru_cong [of cs bs] by (auto simp: cs_def)
  have cached: "cached cs m j \<longleftrightarrow> (if j = i then m = n else cached bs m j)" for m j
    using i by (auto simp: cached_def cs_def)
  have other: "cs j = bs j" if "j \<noteq> i" for j using that by (simp add: cs_def)
  show ok': "bufs_ok cs (sl(SL_buf i := \<lparr>sl_locked = True, sl_pid = pid\<rparr>)) pid md sz L (B(n \<mapsto> i))"
  proof (rule bufs_okI [OF lru], unfold ran)
    show "j = k" if "cached cs m j" "cached cs m k" for m j k
      using that none bufs_ok_inj [OF ok, of m j k] by (auto simp: cached split: if_splits)
    show "b_valid (cs j) = (b_dev (cs j) = 1)" if "j < NBUF" for j
      using bufs_ok_valid [OF ok that] by (auto simp: cs_def)
    show "b_dev (cs j) = 1 \<and> b_blockno (cs j) \<in> L" if "j < NBUF" "b_dirty (cs j)" for j
      using that bufs_ok_dirty [OF ok that(1)] by (cases "j = i") (auto simp: cs_def)
    show "\<exists>j. cached cs m j \<and> b_dirty (cs j)" if m: "m \<in> L" for m
    proof -
      from bufs_ok_pinned [OF ok m] obtain j where "cached bs m j" "b_dirty (bs j)" by blast
      moreover then have "j \<noteq> i" using free(2) by auto
      ultimately show ?thesis using other [of j] cached [of m j] by auto
    qed
    show "cached cs m j" if "(B(n \<mapsto> i)) m = Some j" for m j
    proof (cases "m = n")
      case False
      with that have "B m = Some j" by simp
      with bufs_ok_held [OF ok this] ni show ?thesis by (auto simp: cached ran_def)
    qed (use that in \<open>simp add: cached\<close>)
    show "b_refcnt (cs j) = 1 \<and> (sl(SL_buf i := \<lparr>sl_locked = True, sl_pid = pid\<rparr>)) (SL_buf j) = \<lparr>sl_locked = True, sl_pid = pid\<rparr>"
      if "j < NBUF" "j \<in> insert i (ran B)" for j
      using that bufs_ok_locked [OF ok, of j] by (auto simp: cs_def)
    show "b_refcnt (cs j) = 0 \<and> \<not> sl_locked ((sl(SL_buf i := \<lparr>sl_locked = True, sl_pid = pid\<rparr>)) (SL_buf j))"
      if "j < NBUF" "j \<notin> insert i (ran B)" for j
      using that bufs_ok_free [OF ok, of j] by (auto simp: cs_def)
    show "b_data (cs j) = md (b_blockno (cs j))"
      if "j < NBUF" "b_dev (cs j) = 1" "\<not> b_dirty (cs j)" "j \<notin> insert i (ran B)" for j
      using that bufs_ok_clean [OF ok, of j] other [of j] by auto
    show "m < sz" if "cached cs m j" for m j
      using that n bufs_ok_size [OF ok, of m j] by (auto simp: cached split: if_splits)
  qed
  show "view cs md = view bs md"
  proof
    fix m
    show "view cs md m = view bs md m"
    proof (cases "\<exists>j. j \<noteq> i \<and> cached bs m j")
      case True
      then obtain j where "j \<noteq> i" "cached bs m j" by blast
      then have "cached cs m j" by (simp add: cached)
      from view_cached [OF ok' this] view_cached [OF ok \<open>cached bs m j\<close>] other [OF \<open>j \<noteq> i\<close>]
      show ?thesis by simp
    next
      case False
      then have old: "view bs md m = md m"
        using bufs_ok_clean [OF ok i _ free(2) ni] view_cached [OF ok, of m i] view_uncached [of bs m md]
        by (cases "cached bs m i") (auto simp: cached_def)
      show ?thesis
      proof (cases "m = n")
        case True
        then have "cached cs m i" by (simp add: cached)
        from view_cached [OF ok' this] True old show ?thesis by (simp add: cs_def)
      next
        case neq: False
        with False have "\<not> cached cs m j" for j by (cases "j = i") (auto simp: cached)
        with old show ?thesis by (simp add: view_uncached)
      qed
    qed
  qed
qed

text \<open>Changing the data of a locked buffer, marking it for the log, and writing it.\<close>

lemma lru_links_upd:
  assumes "\<exists>xs. lru bs xs" and "b_next x = b_next (bs i)" and "b_prev x = b_prev (bs i)"
  shows "\<exists>xs. lru (bs(i := x)) xs"
  using assms lru_cong [of "bs(i := x)" bs] by auto

lemma bufs_ok_modify:
  assumes ok: "bufs_ok bs sl pid md sz L B" and B: "B n = Some i"
    and x: "b_valid x" "b_dev x = 1" "b_blockno x = n" "b_refcnt x = 1"
      "b_next x = b_next (bs i)" "b_prev x = b_prev (bs i)"
  defines "cs \<equiv> bs(i := x)"
  shows "bufs_ok cs sl pid (md(n := d)) sz (if b_dirty x then insert n L else L - {n}) B"
    and "view cs (md(n := d)) = (view bs md)(n := b_data x)"
proof -
  have c: "cached bs n i" using bufs_ok_held [OF ok B] .
  then have i: "i < NBUF" "b_dev (bs i) = 1" "b_blockno (bs i) = n" by (auto simp: cached_def)
  have cached: "cached cs = cached bs"
    using i x by (auto simp: fun_eq_iff cached_def cs_def)
  have iB: "i \<in> ran B" using B by (rule ranI)
  have other: "cs j = bs j" if "j \<noteq> i" for j using that by (simp add: cs_def)
  have no: "b_blockno (bs j) \<noteq> n" if "j \<noteq> i" "j < NBUF" "b_dev (bs j) = 1" for j
    using bufs_ok_inj [OF ok c, of j] that by (auto simp: cached_def)
  let ?L = "if b_dirty x then insert n L else L - {n}"
  show ok': "bufs_ok cs sl pid (md(n := d)) sz ?L B"
  proof (rule bufs_okI)
    show "\<exists>xs. lru cs xs" unfolding cs_def using bufs_ok_lru [OF ok] x(5,6) by (rule lru_links_upd)
    show "b_valid (cs j) = (b_dev (cs j) = 1)" if "j < NBUF" for j
      using bufs_ok_valid [OF ok that] x by (auto simp: cs_def)
    show "b_dev (cs j) = 1 \<and> b_blockno (cs j) \<in> ?L" if "j < NBUF" "b_dirty (cs j)" for j
      using that x bufs_ok_dirty [OF ok that(1)] no [of j] by (cases "j = i") (auto simp: cs_def)
    show "\<exists>j. cached cs m j \<and> b_dirty (cs j)" if m: "m \<in> ?L" for m
    proof (cases "m = n")
      case True
      moreover have "b_dirty (cs i)" using m True by (simp add: cs_def split: if_splits)
      ultimately show ?thesis using c cached by auto
    next
      case False
      with m have "m \<in> L" by (auto split: if_splits)
      from bufs_ok_pinned [OF ok this] obtain j where j: "cached bs m j" "b_dirty (bs j)" by blast
      with False i(3) have "j \<noteq> i" by (auto simp: cached_def)
      with j other [of j] show ?thesis by (auto simp: cached)
    qed
    show "b_refcnt (cs j) = 1 \<and> sl (SL_buf j) = \<lparr>sl_locked = True, sl_pid = pid\<rparr>" if "j < NBUF" "j \<in> ran B" for j
      using bufs_ok_locked [OF ok that] x by (auto simp: cs_def)
    show "b_refcnt (cs j) = 0 \<and> \<not> sl_locked (sl (SL_buf j))" if "j < NBUF" "j \<notin> ran B" for j
      using bufs_ok_free [OF ok that] that iB by (auto simp: cs_def)
    show "b_data (cs j) = (md(n := d)) (b_blockno (cs j))"
      if "j < NBUF" "b_dev (cs j) = 1" "\<not> b_dirty (cs j)" "j \<notin> ran B" for j
      using that iB bufs_ok_clean [OF ok, of j] no [of j] by (cases "j = i") (auto simp: cs_def)
  qed (simp only: cached, use bufs_okD [OF ok] in blast)+
  show "view cs (md(n := d)) = (view bs md)(n := b_data x)"
  proof
    fix m
    show "view cs (md(n := d)) m = ((view bs md)(n := b_data x)) m"
    proof (cases "\<exists>j. cached bs m j")
      case True
      then obtain j where j: "cached bs m j" by blast
      then have "j = i \<longleftrightarrow> m = n" using c bufs_ok_inj [OF ok, of n i j] by (auto simp: cached_def)
      with j show ?thesis
        using view_cached [OF ok j] view_cached [OF ok', of m j] cached by (auto simp: cs_def)
    next
      case False
      then have "m \<noteq> n" using c by auto
      with False show ?thesis by (simp add: view_uncached cached)
    qed
  qed
qed


text \<open>Giving a buffer back.\<close>

lemma bufs_ok_release:
  assumes ok: "bufs_ok bs sl pid md sz L B" and B: "B n = Some i"
    and d: "n \<in> L \<or> b_data (bs i) = md n"
  defines "cs \<equiv> bs(i := (bs i)\<lparr>b_refcnt := 0\<rparr>)"
  shows "bufs_ok cs (sl(SL_buf i := \<lparr>sl_locked = False, sl_pid = 0\<rparr>)) pid md sz L (B(n := None))"
    and "view cs md = view bs md"
proof -
  have ran: "ran (B(n := None)) = ran B - {i}" using ran_del [OF ok B] .
  have c: "cached bs n i" using bufs_ok_held [OF ok B] .
  have eq: "cached cs = cached bs" "\<And>j. b_data (cs j) = b_data (bs j)" "\<And>j. b_dirty (cs j) = b_dirty (bs j)"
      "\<And>j. b_valid (cs j) = b_valid (bs j)" "\<And>j. b_dev (cs j) = b_dev (bs j)" "\<And>j. b_blockno (cs j) = b_blockno (bs j)"
    by (auto simp: fun_eq_iff cached_def cs_def)
  have dirty: "b_dirty (bs i)" if "n \<in> L"
    using bufs_ok_pinned [OF ok that] bufs_ok_inj [OF ok c] by blast
  show "view cs md = view bs md" by (simp add: fun_eq_iff view_def eq cong: option.case_cong)
  have lru: "\<exists>xs. lru cs xs"
    unfolding cs_def using bufs_ok_lru [OF ok] by (intro lru_links_upd) auto
  show "bufs_ok cs (sl(SL_buf i := \<lparr>sl_locked = False, sl_pid = 0\<rparr>)) pid md sz L (B(n := None))"
  proof (rule bufs_okI [OF lru], unfold eq ran)
    show "cached bs m j" if "(B(n := None)) m = Some j" for m j
      using that bufs_ok_held [OF ok] by (auto split: if_splits)
    show "b_refcnt (cs j) = 1 \<and> (sl(SL_buf i := \<lparr>sl_locked = False, sl_pid = 0\<rparr>)) (SL_buf j) = \<lparr>sl_locked = True, sl_pid = pid\<rparr>"
      if "j < NBUF" "j \<in> ran B - {i}" for j
      using that bufs_ok_locked [OF ok, of j] by (auto simp: cs_def)
    show "b_refcnt (cs j) = 0 \<and> \<not> sl_locked ((sl(SL_buf i := \<lparr>sl_locked = False, sl_pid = 0\<rparr>)) (SL_buf j))"
      if "j < NBUF" "j \<notin> ran B - {i}" for j
      using that bufs_ok_free [OF ok, of j] by (auto simp: cs_def)
    show "b_data (bs j) = md (b_blockno (bs j))"
      if "j < NBUF" "b_dev (bs j) = 1" "\<not> b_dirty (bs j)" "j \<notin> ran B - {i}" for j
      using that bufs_ok_clean [OF ok, of j] d dirty c by (cases "j = i") (auto simp: cached_def)
  qed (use bufs_okD [OF ok] in blast)+
qed

text \<open>As long as fewer blocks are pinned or locked than there are buffers, one is free.\<close>

lemma bufs_ok_avail:
  assumes ok: "bufs_ok bs sl pid md sz L B" and "card (L \<union> dom B) < NBUF"
  shows "\<exists>i < NBUF. b_refcnt (bs i) = 0 \<and> \<not> b_dirty (bs i)"
proof (rule ccontr)
  assume "\<not> ?thesis"
  then have used: "i \<in> ran B \<or> b_dirty (bs i)" if "i < NBUF" for i
    using bufs_ok_free [OF ok that] that by auto
  let ?f = "\<lambda>i. b_blockno (bs i)"
  have dev: "b_dev (bs i) = 1 \<and> ?f i \<in> L \<union> dom B" if "i < NBUF" for i
    using used [OF that] bufs_ok_dirty [OF ok that] bufs_ok_held [OF ok] by (auto simp: ran_def cached_def)
  have "inj_on ?f {..<NBUF}"
    using bufs_ok_inj [OF ok] dev by (auto simp: inj_on_def cached_def)
  then have "card {..<NBUF} = card (?f ` {..<NBUF})" by (simp add: card_image)
  also have "\<dots> \<le> card (L \<union> dom B)" using dev by (intro card_mono) auto
  finally show False using assms(2) by simp
qed


declare scan_next.simps [simp del] scan_prev.simps [simp del]

section \<open>The operations on a cache that nobody else is using\<close>

text \<open>
  \<open>bio_ok L B s\<close>: the running process holds the buffers \<open>B\<close> and no spinlock, no other process holds a
  buffer or waits for one.
\<close>

definition bio_ok :: "uint set \<Rightarrow> (uint \<Rightarrow> nat option) \<Rightarrow> 'z kbio_scheme \<Rightarrow> bool" where
  "bio_ok L B s \<longleftrightarrow> held s = [] \<and> (\<forall>i. no_sleeper (C_sleeplock (SL_buf i)) s)
     \<and> (\<exists>me. cur s = Some me
          \<and> bufs_ok (bufs s) (slocks s) (p_pid (ptable s ! me)) (memdisk s) (disksize s) L B)"

definition blk :: "'z kbio_scheme \<Rightarrow> uint \<Rightarrow> bytes" where
  "blk s = view (bufs s) (memdisk s)"

lemma bio_okE:
  assumes "bio_ok L B s"
  obtains me where "held s = []" and "cur s = Some me" and "\<And>i. no_sleeper (C_sleeplock (SL_buf i)) s"
    and "bufs_ok (bufs s) (slocks s) (p_pid (ptable s ! me)) (memdisk s) (disksize s) L B"
  using assms by (auto simp: bio_ok_def)

lemma bget_hit_run:
  assumes "held s = []" and "cur s = Some me" and "\<not> sl_locked (slocks s (SL_buf i))"
    and "scan_next (NBUF + 1) (bufs s) (\<lambda>b. b_dev b = dev \<and> b_blockno b = n) (b_next (bufs s HEAD)) = Some i"
  shows "bget dev n s = Ok i (s\<lparr>slocks := (slocks s)(SL_buf i := \<lparr>sl_locked = True, sl_pid = p_pid (ptable s ! me)\<rparr>),
     bufs := (bufs s)(i := (bufs s i)\<lparr>b_refcnt := b_refcnt (bufs s i) + 1\<rparr>)\<rparr>)"
  using assms by (simp add: bget_def upd_buf_def run_simps acquiresleep_free)

lemma bget_miss_run:
  assumes "held s = []" and "cur s = Some me" and "\<not> sl_locked (slocks s (SL_buf i))"
    and "scan_next (NBUF + 1) (bufs s) (\<lambda>b. b_dev b = dev \<and> b_blockno b = n) (b_next (bufs s HEAD)) = None"
    and "scan_prev (NBUF + 1) (bufs s) (\<lambda>b. b_refcnt b = 0 \<and> \<not> b_dirty b) (b_prev (bufs s HEAD)) = Some i"
  shows "bget dev n s = Ok i (s\<lparr>slocks := (slocks s)(SL_buf i := \<lparr>sl_locked = True, sl_pid = p_pid (ptable s ! me)\<rparr>),
     bufs := (bufs s)(i := (bufs s i)\<lparr>b_dev := dev, b_blockno := n, b_valid := False, b_dirty := False, b_refcnt := 1\<rparr>)\<rparr>)"
  using assms by (simp add: bget_def upd_buf_def run_simps acquiresleep_free)

lemma iderw_read_run:
  assumes "held s = []" and "cur s = Some me"
    and "slocks s (SL_buf i) = \<lparr>sl_locked = True, sl_pid = p_pid (ptable s ! me)\<rparr>"
    and "\<not> b_valid (bufs s i)" and "\<not> b_dirty (bufs s i)" and "b_dev (bufs s i) = 1"
    and "b_blockno (bufs s i) < disksize s"
  shows "iderw i s = Ok () (s\<lparr>bufs := (bufs s)(i := (bufs s i)\<lparr>b_data := memdisk s (b_blockno (bufs s i)), b_valid := True\<rparr>)\<rparr>)"
  using assms by (simp add: iderw_def holdingsleep_run the_buf_def upd_buf_def copy_block_def not_le)

lemma iderw_write_run:
  assumes "held s = []" and "cur s = Some me"
    and "slocks s (SL_buf i) = \<lparr>sl_locked = True, sl_pid = p_pid (ptable s ! me)\<rparr>"
    and "b_dirty (bufs s i)" and "b_dev (bufs s i) = 1" and "b_blockno (bufs s i) < disksize s"
  shows "iderw i s = Ok () (s\<lparr>bufs := (bufs s)(i := (bufs s i)\<lparr>b_dirty := False, b_valid := True\<rparr>),
     memdisk := (memdisk s)(b_blockno (bufs s i) := b_data (bufs s i)),
     dwrites := dwrites s @ [(b_blockno (bufs s i), b_data (bufs s i))]\<rparr>)"
  using assms by (simp add: iderw_def holdingsleep_run the_buf_def upd_buf_def copy_block_def not_le)

lemma bread_spec:
  assumes "bio_ok L B s" and "n < disksize s" and "B n = None" and "n \<in> L \<or> card (L \<union> dom B) < NBUF"
  shows "\<exists>i sl bs. bread 1 n s = Ok i (s\<lparr>slocks := sl, bufs := bs\<rparr>)
    \<and> bio_ok L (B(n \<mapsto> i)) (s\<lparr>slocks := sl, bufs := bs\<rparr>) \<and> view bs (memdisk s) = blk s"
proof -
  from assms(1) obtain me where me: "held s = []" "cur s = Some me" "\<And>i. no_sleeper (C_sleeplock (SL_buf i)) s"
    and ok: "bufs_ok (bufs s) (slocks s) (p_pid (ptable s ! me)) (memdisk s) (disksize s) L B"
    by (rule bio_okE) blast
  let ?sl = "\<lambda>i. (slocks s)(SL_buf i := \<lparr>sl_locked = True, sl_pid = p_pid (ptable s ! me)\<rparr>)"
  from bufs_ok_lru [OF ok] obtain xs where xs: "lru (bufs s) xs" ..
  then have mem: "j \<in> set xs \<longleftrightarrow> j < NBUF" for j by (simp add: lru_def)
  note scan = lru_scan [OF xs]
  show ?thesis
  proof (cases "find (\<lambda>i. b_dev (bufs s i) = 1 \<and> b_blockno (bufs s i) = n) xs")
    case (Some i)
    then have c: "cached (bufs s) n i" by (auto simp: find_Some_iff cached_def mem [symmetric])
    then have "i \<notin> ran B" using bufs_ok_held [OF ok] assms(3) by (auto simp: ran_def cached_def)
    then have un: "\<not> sl_locked (slocks s (SL_buf i))" using bufs_ok_free [OF ok] c by (simp add: cached_def)
    have "b_valid (bufs s i)" using bufs_ok_valid [OF ok] c by (simp add: cached_def)
    moreover note bget_hit_run [OF me(1,2) un, of 1 n] Some scan(1) [of "\<lambda>b. b_dev b = 1 \<and> b_blockno b = n"]
    moreover note bufs_ok_take [OF ok c assms(3)]
    ultimately show ?thesis
      using me by (intro exI [of _ i] exI [of _ "?sl i"]) (auto simp: bread_def bio_ok_def blk_def no_sleeper_def)
  next
    case None
    then have none: "\<not> cached (bufs s) n j" for j
      by (auto simp: find_None_iff cached_def mem [symmetric])
    then have "n \<notin> L" using bufs_ok_pinned [OF ok] by blast
    with assms(4) have "card (L \<union> dom B) < NBUF" by simp
    from bufs_ok_avail [OF ok this] obtain k where "k < NBUF" "b_refcnt (bufs s k) = 0 \<and> \<not> b_dirty (bufs s k)"
      by blast
    then obtain i where i: "find (\<lambda>i. b_refcnt (bufs s i) = 0 \<and> \<not> b_dirty (bufs s i)) (rev xs) = Some i"
      using mem [of k] by (cases "find (\<lambda>i. b_refcnt (bufs s i) = 0 \<and> \<not> b_dirty (bufs s i)) (rev xs)")
        (auto simp: find_None_iff)
    from find_SomeD [OF i] have i': "i < NBUF" "b_refcnt (bufs s i) = 0" "\<not> b_dirty (bufs s i)" using mem by auto
    then have "i \<notin> ran B" using bufs_ok_locked [OF ok, of i] by auto
    then have un: "\<not> sl_locked (slocks s (SL_buf i))" using bufs_ok_free [OF ok] i' by simp
    let ?t = "s\<lparr>slocks := ?sl i, bufs := (bufs s)(i := (bufs s i)\<lparr>b_dev := 1, b_blockno := n, b_valid := False, b_dirty := False, b_refcnt := 1\<rparr>)\<rparr>"
    have get: "bget 1 n s = Ok i ?t"
      by (rule bget_miss_run [OF me(1,2) un]) (use scan None i in auto)
    have "iderw i ?t = Ok () (?t\<lparr>bufs := (bufs ?t)(i := (bufs ?t i)\<lparr>b_data := memdisk ?t (b_blockno (bufs ?t i)), b_valid := True\<rparr>)\<rparr>)"
      by (rule iderw_read_run [of _ me]) (use me assms(2) in simp_all)
    then have read: "bread 1 n s = Ok i (s\<lparr>slocks := ?sl i, bufs := (bufs s)(i := (bufs s i)\<lparr>b_dev := 1, b_blockno := n, b_dirty := False, b_refcnt := 1, b_data := memdisk s n, b_valid := True\<rparr>)\<rparr>)"
      using get by (simp add: bread_def)
    show ?thesis
      using bufs_ok_recycle [OF ok none assms(2) i'] me read
      by (intro exI [of _ i] exI [of _ "?sl i"]) (auto simp: bio_ok_def blk_def no_sleeper_def)
  qed
qed


lemma bwrite_spec:
  assumes "bio_ok L B s" and "B n = Some i"
  shows "\<exists>bs. bwrite i s = Ok () (s\<lparr>bufs := bs, memdisk := (memdisk s)(n := blk s n), dwrites := dwrites s @ [(n, blk s n)]\<rparr>)
    \<and> bio_ok (L - {n}) B (s\<lparr>bufs := bs, memdisk := (memdisk s)(n := blk s n), dwrites := dwrites s @ [(n, blk s n)]\<rparr>)
    \<and> view bs ((memdisk s)(n := blk s n)) = blk s"
proof -
  from assms(1) obtain me where me: "held s = []" "cur s = Some me" "\<And>i. no_sleeper (C_sleeplock (SL_buf i)) s"
    and ok: "bufs_ok (bufs s) (slocks s) (p_pid (ptable s ! me)) (memdisk s) (disksize s) L B"
    by (rule bio_okE) blast
  have c: "cached (bufs s) n i" using bufs_ok_held [OF ok assms(2)] .
  then have i: "i < NBUF" "b_dev (bufs s i) = 1" "b_blockno (bufs s i) = n" by (simp_all add: cached_def)
  have n: "n < disksize s" using bufs_ok_size [OF ok c] .
  have lock: "slocks s (SL_buf i) = \<lparr>sl_locked = True, sl_pid = p_pid (ptable s ! me)\<rparr>" "b_refcnt (bufs s i) = 1"
    using bufs_ok_locked [OF ok i(1) ranI [of B, OF assms(2)]] by auto
  have v: "blk s n = b_data (bufs s i)" using view_cached [OF ok c] by (simp add: blk_def)
  let ?x = "(bufs s i)\<lparr>b_dirty := False, b_valid := True\<rparr>" and ?t = "s\<lparr>bufs := (bufs s)(i := (bufs s i)\<lparr>b_dirty := True\<rparr>)\<rparr>"
  have "iderw i ?t = Ok () (?t\<lparr>bufs := (bufs ?t)(i := (bufs ?t i)\<lparr>b_dirty := False, b_valid := True\<rparr>),
     memdisk := (memdisk ?t)(b_blockno (bufs ?t i) := b_data (bufs ?t i)),
     dwrites := dwrites ?t @ [(b_blockno (bufs ?t i), b_data (bufs ?t i))]\<rparr>)"
    by (rule iderw_write_run [of _ me]) (use me lock i n in simp_all)
  then have run: "bwrite i s = Ok () (s\<lparr>bufs := (bufs s)(i := ?x), memdisk := (memdisk s)(n := blk s n),
      dwrites := dwrites s @ [(n, blk s n)]\<rparr>)"
    using holdingsleep_run [of "SL_buf i" s me] me lock i v by (simp add: bwrite_def upd_buf_def)
  have "bufs_ok ((bufs s)(i := ?x)) (slocks s) (p_pid (ptable s ! me)) ((memdisk s)(n := blk s n)) (disksize s) (L - {n}) B"
    and "view ((bufs s)(i := ?x)) ((memdisk s)(n := blk s n)) = (blk s)(n := b_data (bufs s i))"
    using bufs_ok_modify [OF ok assms(2), of ?x "blk s n"] i lock by (simp_all add: blk_def)
  with run me v show ?thesis
    by (intro exI [of _ "(bufs s)(i := ?x)"]) (auto simp: bio_ok_def no_sleeper_def)
qed

text \<open>Changing a locked buffer's data changes that block and no other.\<close>

lemma upd_data_spec:
  assumes "bio_ok L B s" and "B n = Some i"
  shows "\<exists>bs. upd_buf i (\<lambda>x. x\<lparr>b_data := f (b_data x)\<rparr>) s = Ok () (s\<lparr>bufs := bs\<rparr>)
    \<and> bio_ok L B (s\<lparr>bufs := bs\<rparr>) \<and> view bs (memdisk s) = (blk s)(n := f (blk s n))"
proof -
  from assms(1) obtain me where me: "held s = []" "cur s = Some me" "\<And>i. no_sleeper (C_sleeplock (SL_buf i)) s"
    and ok: "bufs_ok (bufs s) (slocks s) (p_pid (ptable s ! me)) (memdisk s) (disksize s) L B"
    by (rule bio_okE) blast
  have c: "cached (bufs s) n i" using bufs_ok_held [OF ok assms(2)] .
  then have i: "i < NBUF" "b_dev (bufs s i) = 1" "b_blockno (bufs s i) = n" by (simp_all add: cached_def)
  have rc: "b_refcnt (bufs s i) = 1" using bufs_ok_locked [OF ok i(1) ranI [of B, OF assms(2)]] by auto
  have v: "blk s n = b_data (bufs s i)" using view_cached [OF ok c] by (simp add: blk_def)
  have val: "b_valid (bufs s i)" using bufs_ok_valid [OF ok i(1)] i by simp
  have L: "(if b_dirty (bufs s i) then insert n L else L - {n}) = L"
  proof (cases "b_dirty (bufs s i)")
    case True
    with bufs_ok_dirty [OF ok i(1)] i show ?thesis by auto
  next
    case False
    then have "n \<notin> L" using bufs_ok_pinned [OF ok, of n] bufs_ok_inj [OF ok c] by blast
    with False show ?thesis by simp
  qed
  let ?x = "(bufs s i)\<lparr>b_data := f (b_data (bufs s i))\<rparr>"
  have "bufs_ok ((bufs s)(i := ?x)) (slocks s) (p_pid (ptable s ! me)) (memdisk s) (disksize s) L B"
    and "view ((bufs s)(i := ?x)) (memdisk s) = (blk s)(n := f (b_data (bufs s i)))"
    using bufs_ok_modify [OF ok assms(2), of ?x "memdisk s n"] i rc val L by (simp_all add: blk_def)
  with me v show ?thesis
    by (intro exI [of _ "(bufs s)(i := ?x)"]) (auto simp: upd_buf_def bio_ok_def no_sleeper_def)
qed

lemma wake_none: "no_sleeper c s \<Longrightarrow> map (wake_proc (Some c)) (ptable s) = ptable s"
  by (auto simp: no_sleeper_def sleeps_on_def wake_proc_def intro: map_idI)

lemma brelse_run:
  assumes "held s = []" and "cur s = Some me" and "no_sleeper (C_sleeplock (SL_buf i)) s" and "i \<noteq> HEAD"
    and "slocks s (SL_buf i) = \<lparr>sl_locked = True, sl_pid = p_pid (ptable s ! me)\<rparr>" and "b_refcnt (bufs s i) = 1"
  shows "brelse i s = Ok () (s\<lparr>slocks := (slocks s)(SL_buf i := \<lparr>sl_locked = False, sl_pid = 0\<rparr>),
     bufs := lf i (ul i ((bufs s)(i := (bufs s i)\<lparr>b_refcnt := 0\<rparr>)))\<rparr>)"
  using assms by (simp add: brelse_def holdingsleep_run releasesleep_run wake_none run_simps upd_buf_def
      the_buf_def link_front_run ul_def Let_def)

lemma brelse_spec:
  assumes "bio_ok L B s" and "B n = Some i" and "n \<in> L \<or> blk s n = memdisk s n"
  shows "\<exists>sl bs. brelse i s = Ok () (s\<lparr>slocks := sl, bufs := bs\<rparr>)
    \<and> bio_ok L (B(n := None)) (s\<lparr>slocks := sl, bufs := bs\<rparr>) \<and> view bs (memdisk s) = blk s"
proof -
  from assms(1) obtain me where me: "held s = []" "cur s = Some me" "\<And>i. no_sleeper (C_sleeplock (SL_buf i)) s"
    and ok: "bufs_ok (bufs s) (slocks s) (p_pid (ptable s ! me)) (memdisk s) (disksize s) L B"
    by (rule bio_okE) blast
  have c: "cached (bufs s) n i" using bufs_ok_held [OF ok assms(2)] .
  then have i: "i < NBUF" "i \<noteq> HEAD" by (auto simp: cached_def HEAD_def)
  have lock: "slocks s (SL_buf i) = \<lparr>sl_locked = True, sl_pid = p_pid (ptable s ! me)\<rparr>" "b_refcnt (bufs s i) = 1"
    using bufs_ok_locked [OF ok i(1) ranI [of B, OF assms(2)]] by auto
  have v: "blk s n = b_data (bufs s i)" using view_cached [OF ok c] by (simp add: blk_def)
  let ?cs = "(bufs s)(i := (bufs s i)\<lparr>b_refcnt := 0\<rparr>)"
  let ?ds = "lf i (ul i ?cs)" and ?sl = "(slocks s)(SL_buf i := \<lparr>sl_locked = False, sl_pid = 0\<rparr>)"
  note rel = bufs_ok_release [OF ok assms(2), folded v, OF assms(3)]
  have same: "same_content (?ds j) (?cs j)" for j
    using lf_content ul_content by (rule same_content_trans)
  have lru: "\<exists>xs. lru ?ds xs"
  proof -
    from bufs_ok_lru [OF rel(1)] obtain xs where "lru ?cs xs" ..
    then show ?thesis using lru_move_front [of ?cs xs i] i(1) by (auto simp: lru_def)
  qed
  have "bufs_ok ?ds ?sl (p_pid (ptable s ! me)) (memdisk s) (disksize s) L (B(n := None))"
    by (rule bufs_ok_content(1) [OF rel(1) same lru])
  moreover have "view ?ds (memdisk s) = view ?cs (memdisk s)"
    by (rule bufs_ok_content(2) [OF rel(1) same lru])
  then have "view ?ds (memdisk s) = blk s" using rel(2) by (simp add: blk_def)
  moreover have "brelse i s = Ok () (s\<lparr>slocks := ?sl, bufs := ?ds\<rparr>)"
    using brelse_run [OF me(1,2) me(3) i(2) lock] .
  ultimately show ?thesis
    using me by (intro exI [of _ ?sl] exI [of _ ?ds]) (auto simp: bio_ok_def no_sleeper_def)
qed


text \<open>The cache after \<open>binit\<close>, from the zeroed memory the kernel starts with.\<close>

definition zero_bufs :: "(nat \<Rightarrow> buf) \<Rightarrow> bool" where
  "zero_bufs bs \<longleftrightarrow> (\<forall>i. \<not> b_valid (bs i) \<and> \<not> b_dirty (bs i) \<and> b_dev (bs i) = 0 \<and> b_refcnt (bs i) = 0)"

lemma binit_spec:
  assumes "zero_bufs (bufs s)" and "held s = []" and "cur s = Some me"
    and "\<And>i. no_sleeper (C_sleeplock (SL_buf i)) s"
  shows "\<exists>sl bs. binit s = Ok () (s\<lparr>slocks := sl, bufs := bs\<rparr>)
    \<and> bio_ok {} Map.empty (s\<lparr>slocks := sl, bufs := bs\<rparr>) \<and> view bs (memdisk s) = memdisk s"
proof -
  from binit_run [of s] obtain sl bs where
    run: "binit s = Ok () (s\<lparr>slocks := sl, bufs := bs\<rparr>)" and lru: "lru bs (rev [0..<NBUF])"
    and same: "\<And>i. same_content (bs i) (bufs s i)" and un: "\<And>i. i < NBUF \<Longrightarrow> \<not> sl_locked (sl (SL_buf i))"
    by blast
  have z: "\<not> b_valid (bs i)" "\<not> b_dirty (bs i)" "b_dev (bs i) = 0" "b_refcnt (bs i) = 0" for i
    using assms(1) same [of i] by (auto simp: zero_bufs_def same_content_def)
  then have none: "\<not> cached bs n i" for n i by (simp add: cached_def)
  have "bufs_ok bs sl (p_pid (ptable s ! me)) (memdisk s) (disksize s) {} Map.empty"
    using lru un by (intro bufs_okI) (auto simp: z none)
  moreover have "view bs (memdisk s) = memdisk s" using view_uncached none by blast
  ultimately show ?thesis
    using run assms by (intro exI [of _ sl] exI [of _ bs]) (auto simp: bio_ok_def no_sleeper_def)
qed

section \<open>What the cache promises\<close>

definition demo_kbio :: kbio where
  "demo_kbio = ksleep.extend demo_ksleep
     \<lparr>bufs = (\<lambda>_. \<lparr>b_valid = False, b_dirty = False, b_dev = 0, b_blockno = 0, b_refcnt = 0, b_prev = 0,
        b_next = 0, b_data = (\<lambda>_. 0)\<rparr>),
      memdisk = (\<lambda>n _. ucast n), disksize = 1000, dwrites = []\<rparr>"

lemma demo_kbio_simps [simp]:
  "held demo_kbio = []" "cur demo_kbio = Some 0" "memdisk demo_kbio = (\<lambda>n _. ucast n)" "disksize demo_kbio = 1000"
  "dwrites demo_kbio = []" "zero_bufs (bufs demo_kbio)" "no_sleeper (C_sleeplock lk) demo_kbio"
proof -
  show "held demo_kbio = []" "cur demo_kbio = Some 0" "memdisk demo_kbio = (\<lambda>n _. ucast n)"
    "disksize demo_kbio = 1000" "dwrites demo_kbio = []" "zero_bufs (bufs demo_kbio)"
    by (simp_all add: demo_kbio_def ksleep.defs zero_bufs_def demo_ksleep_def kpipe.defs)
  have "ptable demo_kbio = ptable demo_ksleep"
    by (simp add: demo_kbio_def ksleep.defs demo_ksleep_def kpipe.defs)
  then show "no_sleeper (C_sleeplock lk) demo_kbio"
    by (simp add: no_sleeper_def sleeps_on_def demo_proc_def)
qed

lemma demo_kbio_boot:
  "\<exists>sl bs. binit demo_kbio = Ok () (demo_kbio\<lparr>slocks := sl, bufs := bs\<rparr>)
     \<and> bio_ok {} Map.empty (demo_kbio\<lparr>slocks := sl, bufs := bs\<rparr>) \<and> view bs (memdisk demo_kbio) = memdisk demo_kbio"
  by (rule binit_spec) simp_all

text \<open>
  C21: \<open>bread\<close> of a block that the process has not locked yet returns a locked buffer with the block's
  current contents, whether they were cached or only on the disk, as long as fewer blocks are
  pinned or locked than there are buffers. No block's contents, no other buffer the process holds
  and nothing else of the kernel's state changes, and nothing is written to the disk.
\<close>
theorem bread_returns_current_block:
  assumes "bio_ok L B s" and "n < disksize s" and "B n = None" and "n \<in> L \<or> card (L \<union> dom B) < NBUF"
  shows "\<exists>i sl bs. bread 1 n s = Ok i (s\<lparr>slocks := sl, bufs := bs\<rparr>) \<and> b_data (bs i) = blk s n
    \<and> bio_ok L (B(n \<mapsto> i)) (s\<lparr>slocks := sl, bufs := bs\<rparr>) \<and> blk (s\<lparr>slocks := sl, bufs := bs\<rparr>) = blk s"
proof -
  from bread_spec [OF assms] obtain i sl bs where
    run: "bread 1 n s = Ok i (s\<lparr>slocks := sl, bufs := bs\<rparr>)"
    and ok: "bio_ok L (B(n \<mapsto> i)) (s\<lparr>slocks := sl, bufs := bs\<rparr>)" and v: "view bs (memdisk s) = blk s" by blast
  from ok obtain pid where b: "bufs_ok bs sl pid (memdisk s) (disksize s) L (B(n \<mapsto> i))"
    by (auto simp: bio_ok_def)
  have "cached bs n i" by (rule bufs_ok_held [OF b]) simp
  from view_cached [OF b this] v have "b_data (bs i) = blk s n" by simp
  with run ok v show ?thesis
    by (intro exI [of _ i] exI [of _ sl] exI [of _ bs]) (simp add: blk_def)
qed

theorem bread_returns_current_block_witness:
  "\<exists>s i s'. binit demo_kbio = Ok () s \<and> bread 1 7 s = Ok i s' \<and> b_data (bufs s' i) = (\<lambda>_. 7)"
proof -
  from demo_kbio_boot obtain sl bs where
    b: "binit demo_kbio = Ok () (demo_kbio\<lparr>slocks := sl, bufs := bs\<rparr>)"
      "bio_ok {} Map.empty (demo_kbio\<lparr>slocks := sl, bufs := bs\<rparr>)"
      "view bs (memdisk demo_kbio) = memdisk demo_kbio" by blast
  let ?s = "demo_kbio\<lparr>slocks := sl, bufs := bs\<rparr>"
  have "blk ?s 7 = (\<lambda>_. 7)" using b(3) by (simp add: blk_def)
  with bread_returns_current_block [OF b(2), of 7] b(1) show ?thesis by (auto simp: NBUF_def)
qed

text \<open>
  The links of the cache implement a list in order of use: \<open>brelse\<close> of the last reference moves the
  buffer to the front of the list and leaves the order of the others, and a miss in \<open>bget\<close> takes
  the buffer nearest to the end that is neither referenced nor dirty.
\<close>
theorem brelse_moves_to_front:
  assumes "lru (bufs s) xs" and "held s = []" and "cur s = Some me" and "i < NBUF"
    and "no_sleeper (C_sleeplock (SL_buf i)) s"
    and "slocks s (SL_buf i) = \<lparr>sl_locked = True, sl_pid = p_pid (ptable s ! me)\<rparr>" and "b_refcnt (bufs s i) = 1"
  shows "(\<exists>s'. brelse i s = Ok () s' \<and> lru (bufs s') (i # remove1 i xs))
    \<and> (find (\<lambda>j. b_dev (bufs s j) = dev \<and> b_blockno (bufs s j) = n) xs = None
        \<and> find (\<lambda>j. b_refcnt (bufs s j) = 0 \<and> \<not> b_dirty (bufs s j)) (rev xs) = Some k
        \<and> \<not> sl_locked (slocks s (SL_buf k))
        \<longrightarrow> (\<exists>s'. bget dev n s = Ok k s' \<and> lru (bufs s') xs))"
proof
  have i: "i \<noteq> HEAD" "i \<in> set xs" using assms(1,4) by (auto simp: HEAD_def lru_def)
  let ?cs = "(bufs s)(i := (bufs s i)\<lparr>b_refcnt := 0\<rparr>)"
  have "lru ?cs xs" using assms(1) lru_cong [of ?cs "bufs s" xs] by auto
  then have "lru (lf i (ul i ?cs)) (i # remove1 i xs)" using i(2) by (rule lru_move_front)
  then show "\<exists>s'. brelse i s = Ok () s' \<and> lru (bufs s') (i # remove1 i xs)"
    using brelse_run [OF assms(2,3,5) i(1) assms(6,7)] by auto
  show "find (\<lambda>j. b_dev (bufs s j) = dev \<and> b_blockno (bufs s j) = n) xs = None
        \<and> find (\<lambda>j. b_refcnt (bufs s j) = 0 \<and> \<not> b_dirty (bufs s j)) (rev xs) = Some k
        \<and> \<not> sl_locked (slocks s (SL_buf k))
        \<longrightarrow> (\<exists>s'. bget dev n s = Ok k s' \<and> lru (bufs s') xs)"
  proof
    assume *: "find (\<lambda>j. b_dev (bufs s j) = dev \<and> b_blockno (bufs s j) = n) xs = None
        \<and> find (\<lambda>j. b_refcnt (bufs s j) = 0 \<and> \<not> b_dirty (bufs s j)) (rev xs) = Some k
        \<and> \<not> sl_locked (slocks s (SL_buf k))"
    let ?bs = "(bufs s)(k := (bufs s k)\<lparr>b_dev := dev, b_blockno := n, b_valid := False, b_dirty := False, b_refcnt := 1\<rparr>)"
    have "lru ?bs xs" using assms(1) lru_cong [of ?bs "bufs s" xs] by auto
    with * bget_miss_run [OF assms(2,3), of k dev n] lru_scan [OF assms(1)]
    show "\<exists>s'. bget dev n s = Ok k s' \<and> lru (bufs s') xs" by auto
  qed
qed


theorem brelse_moves_to_front_witness:
  "\<exists>s :: kbio. \<exists>i s' xs. lru (bufs s) xs \<and> brelse i s = Ok () s' \<and> lru (bufs s') (i # remove1 i xs)"
proof -
  from demo_kbio_boot obtain sl bs where
    b: "bio_ok {} Map.empty (demo_kbio\<lparr>slocks := sl, bufs := bs\<rparr>)" by blast
  from bread_spec [OF b, of 7] obtain i sl' bs' where
    "bio_ok {} [7 \<mapsto> i] (demo_kbio\<lparr>slocks := sl', bufs := bs'\<rparr>)" by (auto simp: NBUF_def)
  then obtain me where me: "held (demo_kbio\<lparr>slocks := sl', bufs := bs'\<rparr>) = []"
      "cur (demo_kbio\<lparr>slocks := sl', bufs := bs'\<rparr>) = Some me"
      "\<And>j. no_sleeper (C_sleeplock (SL_buf j)) (demo_kbio\<lparr>slocks := sl', bufs := bs'\<rparr>)"
    and ok: "bufs_ok bs' sl' (p_pid (ptable demo_kbio ! me)) (memdisk demo_kbio) (disksize demo_kbio) {} [7 \<mapsto> i]"
    by (rule bio_okE) auto
  from bufs_ok_lru [OF ok] obtain xs where xs: "lru bs' xs" ..
  have i: "i < NBUF" using bufs_ok_held [OF ok, of 7 i] by (simp add: cached_def)
  have "i \<in> ran [7 \<mapsto> i]" by (simp add: ran_def)
  from bufs_ok_locked [OF ok i this] show ?thesis
    using brelse_moves_to_front [of "demo_kbio\<lparr>slocks := sl', bufs := bs'\<rparr>" xs me i] xs me i by fastforce
qed

text \<open>
  C23: What a process writes is what it and the disk have: changing a locked buffer's data and writing it
  puts exactly the changed block on the disk, leaves every other block alone, and releasing the
  buffer then keeps the cache coherent with the disk.
\<close>
theorem bwrite_is_durable:
  assumes "bio_ok {} B s" and "B n = Some i"
  shows "\<exists>s'. stmts [upd_buf i (\<lambda>x. x\<lparr>b_data := f (b_data x)\<rparr>), bwrite i, brelse i] s = Ok () s'
    \<and> bio_ok {} (B(n := None)) s' \<and> blk s' = (blk s)(n := f (blk s n))
    \<and> memdisk s' = (memdisk s)(n := f (blk s n)) \<and> dwrites s' = dwrites s @ [(n, f (blk s n))]"
proof -
  from upd_data_spec [OF assms, of f] obtain bs1 where
    1: "upd_buf i (\<lambda>x. x\<lparr>b_data := f (b_data x)\<rparr>) s = Ok () (s\<lparr>bufs := bs1\<rparr>)"
      "bio_ok {} B (s\<lparr>bufs := bs1\<rparr>)" "blk (s\<lparr>bufs := bs1\<rparr>) = (blk s)(n := f (blk s n))"
    by (auto simp: blk_def)
  let ?s1 = "s\<lparr>bufs := bs1\<rparr>"
  let ?s2 = "\<lambda>bs. ?s1\<lparr>bufs := bs, memdisk := (memdisk s)(n := f (blk s n)), dwrites := dwrites s @ [(n, f (blk s n))]\<rparr>"
  from bwrite_spec [OF 1(2) assms(2)] 1(3) obtain bs2 where
    2: "bwrite i ?s1 = Ok () (?s2 bs2)" "bio_ok {} B (?s2 bs2)" "blk (?s2 bs2) = (blk s)(n := f (blk s n))"
    by (auto simp: blk_def)
  from brelse_spec [OF 2(2) assms(2)] 2(3) obtain sl bs3 where
    "brelse i (?s2 bs2) = Ok () ((?s2 bs2)\<lparr>slocks := sl, bufs := bs3\<rparr>)"
      "bio_ok {} (B(n := None)) ((?s2 bs2)\<lparr>slocks := sl, bufs := bs3\<rparr>)"
      "blk ((?s2 bs2)\<lparr>slocks := sl, bufs := bs3\<rparr>) = (blk s)(n := f (blk s n))"
    by (auto simp: blk_def)
  with 1(1) 2(1) show ?thesis by simp
qed

theorem bwrite_is_durable_witness:
  "\<exists>s :: kbio. \<exists>i s'. stmts [upd_buf i (\<lambda>x. x\<lparr>b_data := (b_data x)(0 := 99)\<rparr>), bwrite i, brelse i] s = Ok () s'
     \<and> memdisk s' 7 = (\<lambda>_. 7)(0 := 99) \<and> memdisk s' 8 = (\<lambda>_. 8)"
proof -
  from demo_kbio_boot obtain sl bs where
    b: "bio_ok {} Map.empty (demo_kbio\<lparr>slocks := sl, bufs := bs\<rparr>)"
    and v: "blk (demo_kbio\<lparr>slocks := sl, bufs := bs\<rparr>) = memdisk demo_kbio" by (auto simp: blk_def)
  from bread_spec [OF b, of 7] v obtain i sl' bs' where
    "bio_ok {} [7 \<mapsto> i] (demo_kbio\<lparr>slocks := sl', bufs := bs'\<rparr>)"
    and "blk (demo_kbio\<lparr>slocks := sl', bufs := bs'\<rparr>) = memdisk demo_kbio"
    by (auto simp: NBUF_def blk_def)
  with bwrite_is_durable [of "[7 \<mapsto> i]" "demo_kbio\<lparr>slocks := sl', bufs := bs'\<rparr>" 7 i "\<lambda>d. d(0 := 99)"]
  obtain s' where "stmts [upd_buf i (\<lambda>x. x\<lparr>b_data := (b_data x)(0 := 99)\<rparr>), bwrite i, brelse i]
      (demo_kbio\<lparr>slocks := sl', bufs := bs'\<rparr>) = Ok () s'"
    and "memdisk s' = (memdisk demo_kbio)(7 := (\<lambda>_. 7)(0 := 99))" by auto
  moreover from this(2) have "memdisk s' 7 = (\<lambda>_. 7)(0 := 99)" "memdisk s' 8 = (\<lambda>_. 8)" by simp_all
  ultimately show ?thesis by blast
qed

end
