(* ===== verification/Log.thy ===== *)
theory Log
  imports Bcache
begin

text \<open>
  The log (src/log.c) and the reading of the superblock (\<open>readsb\<close> of src/fs.c).

  \<open>lh_n\<close> and \<open>lh_block\<close> are the in-memory header \<open>log.lh\<close>; the header on the disk is the block at
  \<open>lg_start\<close>, its words read and written at the offsets of \<open>struct logheader\<close>. A store outside the
  array \<open>block\<close> is \<open>Panic ''out of bounds''\<close>. A process that sleeps in \<open>begin_op\<close> goes on with
  \<open>begin_op_resume\<close>.
\<close>

definition MAXOPBLOCKS :: int where "MAXOPBLOCKS = 10"
definition LOGSIZE :: int where "LOGSIZE = 30"

section \<open>The superblock\<close>

record superblock =
  sb_size :: uint
  sb_nblocks :: uint
  sb_ninodes :: uint
  sb_nlog :: uint
  sb_logstart :: uint
  sb_inodestart :: uint
  sb_bmapstart :: uint

definition decode_sb :: "bytes \<Rightarrow> superblock" where
  "decode_sb d = \<lparr>sb_size = get32 d 0, sb_nblocks = get32 d 4, sb_ninodes = get32 d 8,
     sb_nlog = get32 d 12, sb_logstart = get32 d 16, sb_inodestart = get32 d 20,
     sb_bmapstart = get32 d 24\<rparr>"

definition readsb :: "uint \<Rightarrow> ('z kbio_scheme, superblock) kmon" where
  "readsb dev = bnd (bread dev 1) (\<lambda>bp.
     bnd (gets (\<lambda>s. decode_sb (b_data (bufs s bp)))) (\<lambda>sb.
       sqn (brelse bp) (ret sb)))"

section \<open>The log\<close>

record klog = kbio +
  lg_start :: int
  lg_size :: int
  lg_outstanding :: int
  lg_committing :: bool
  lg_dev :: int
  lh_n :: int
  lh_block :: "nat \<Rightarrow> int"

definition log_bread :: "int \<Rightarrow> ('z klog_scheme, nat) kmon" where
  "log_bread n = bnd (gets lg_dev) (\<lambda>dev. bread (word_of_int dev) (word_of_int n))"

definition lh_set :: "nat \<Rightarrow> int \<Rightarrow> ('z klog_scheme, unit) kmon" where
  "lh_set i v = (if int i \<ge> LOGSIZE then panic ''out of bounds''
     else modify (\<lambda>s. s\<lparr>lh_block := (lh_block s)(i := v)\<rparr>))"

definition install_step :: "nat \<Rightarrow> ('z klog_scheme, unit) kmon" where
  "install_step tail =
     bnd (gets lg_start) (\<lambda>start. bnd (log_bread (start + int tail + 1)) (\<lambda>lbuf.
     bnd (gets (\<lambda>s. lh_block s tail)) (\<lambda>home. bnd (log_bread home) (\<lambda>dbuf.
       stmts [
         bnd (gets (\<lambda>s. b_data (bufs s lbuf))) (\<lambda>d. upd_buf dbuf (\<lambda>x. x\<lparr>b_data := copy_block (b_data x) d\<rparr>)),
         bwrite dbuf,
         brelse lbuf,
         brelse dbuf]))))"

definition install_trans :: "('z klog_scheme, unit) kmon" where
  "install_trans = bnd (gets lh_n) (\<lambda>n. forM [0..<nat n] install_step)"

definition read_head :: "('z klog_scheme, unit) kmon" where
  "read_head = bnd (gets lg_start) (\<lambda>start. bnd (log_bread start) (\<lambda>buf.
     bnd (gets (\<lambda>s. b_data (bufs s buf))) (\<lambda>lh. stmts [
       modify (\<lambda>s. s\<lparr>lh_n := sint (get32 lh 0)\<rparr>),
       forM [0..<nat (sint (get32 lh 0))] (\<lambda>i. lh_set i (sint (get32 lh (4 + 4 * i)))),
       brelse buf])))"

definition write_head :: "('z klog_scheme, unit) kmon" where
  "write_head = bnd (gets lg_start) (\<lambda>start. bnd (log_bread start) (\<lambda>buf.
     bnd (gets lh_n) (\<lambda>n. bnd (gets lh_block) (\<lambda>block. stmts [
       upd_buf buf (\<lambda>x. x\<lparr>b_data := put32 (b_data x) 0 (word_of_int n)\<rparr>),
       forM [0..<nat n] (\<lambda>i. upd_buf buf (\<lambda>x. x\<lparr>b_data := put32 (b_data x) (4 + 4 * i) (word_of_int (block i))\<rparr>)),
       bwrite buf,
       brelse buf]))))"

definition recover_from_log :: "('z klog_scheme, unit) kmon" where
  "recover_from_log = stmts [
     read_head,
     install_trans,
     modify (\<lambda>s. s\<lparr>lh_n := 0\<rparr>),
     write_head]"

definition initlog :: "int \<Rightarrow> ('z klog_scheme, unit) kmon" where
  "initlog dev = bnd (readsb (word_of_int dev)) (\<lambda>sb. stmts [
     modify (\<lambda>s. s\<lparr>lg_start := sint (sb_logstart sb), lg_size := sint (sb_nlog sb), lg_dev := dev\<rparr>),
     recover_from_log])"

definition begin_op_loop :: "('z klog_scheme, unit) kmon" where
  "begin_op_loop =
     bnd (gets (\<lambda>s. s)) (\<lambda>s.
       if lg_committing s then sleep_wait C_log L_log
       else if lh_n s + (lg_outstanding s + 1) * MAXOPBLOCKS > LOGSIZE then sleep_wait C_log L_log
       else stmts [modify (\<lambda>s. s\<lparr>lg_outstanding := lg_outstanding s + 1\<rparr>), release L_log])"

definition begin_op :: "('z klog_scheme, unit) kmon" where
  "begin_op = sqn (acquire L_log) begin_op_loop"

definition begin_op_resume :: "('z klog_scheme, unit) kmon" where
  "begin_op_resume = sqn (sleep_resume L_log) begin_op_loop"

definition write_log_step :: "nat \<Rightarrow> ('z klog_scheme, unit) kmon" where
  "write_log_step tail =
     bnd (gets lg_start) (\<lambda>start. bnd (log_bread (start + int tail + 1)) (\<lambda>to.
     bnd (gets (\<lambda>s. lh_block s tail)) (\<lambda>home. bnd (log_bread home) (\<lambda>from.
       stmts [
         bnd (gets (\<lambda>s. b_data (bufs s from))) (\<lambda>d. upd_buf to (\<lambda>x. x\<lparr>b_data := copy_block (b_data x) d\<rparr>)),
         bwrite to,
         brelse from,
         brelse to]))))"

definition write_log :: "('z klog_scheme, unit) kmon" where
  "write_log = bnd (gets lh_n) (\<lambda>n. forM [0..<nat n] write_log_step)"

definition commit :: "('z klog_scheme, unit) kmon" where
  "commit = bnd (gets lh_n) (\<lambda>n. whenM (n > 0) (stmts [
     write_log,
     write_head,
     install_trans,
     modify (\<lambda>s. s\<lparr>lh_n := 0\<rparr>),
     write_head]))"

definition end_op :: "('z klog_scheme, unit) kmon" where
  "end_op = sqn (acquire L_log)
     (sqn (modify (\<lambda>s. s\<lparr>lg_outstanding := lg_outstanding s - 1\<rparr>))
     (bnd (gets (\<lambda>s. s)) (\<lambda>s.
        if lg_committing s then panic ''log.committing''
        else if lg_outstanding s = 0 then stmts [
          modify (\<lambda>s. s\<lparr>lg_committing := True\<rparr>),
          release L_log,
          commit,
          acquire L_log,
          modify (\<lambda>s. s\<lparr>lg_committing := False\<rparr>),
          wakeup C_log,
          release L_log]
        else stmts [wakeup C_log, release L_log])))"

text \<open>The entry of the header that \<open>log_write\<close> uses: the first with the block, or the next free one.\<close>

definition log_slot :: "'z klog_scheme \<Rightarrow> uint \<Rightarrow> nat" where
  "log_slot s n = (case first_idx (\<lambda>v. word_of_int v = n) (map (lh_block s) [0..<nat (lh_n s)])
     of Some i \<Rightarrow> i | None \<Rightarrow> nat (lh_n s))"

definition log_write :: "nat \<Rightarrow> ('z klog_scheme, unit) kmon" where
  "log_write b = bnd (gets (\<lambda>s. s)) (\<lambda>s.
     if lh_n s \<ge> LOGSIZE \<or> lh_n s \<ge> lg_size s - 1 then panic ''too big a transaction''
     else if lg_outstanding s < 1 then panic ''log_write outside of trans''
     else sqn (acquire L_log)
       (bnd (gets (\<lambda>s. b_blockno (bufs s b))) (\<lambda>bno. bnd (gets (\<lambda>s. log_slot s bno)) (\<lambda>i. stmts [
          lh_set i (sint bno),
          bnd (gets lh_n) (\<lambda>n. whenM (int i = n) (modify (\<lambda>s. s\<lparr>lh_n := lh_n s + 1\<rparr>))),
          upd_buf b (\<lambda>x. x\<lparr>b_dirty := True\<rparr>),
          release L_log]))))"

end
