(* ===== verification/Commit.thy ===== *)
theory Commit
  imports Log
begin

text \<open>
  Committing and recovering: what the disk holds after every write that \<open>commit\<close> of src/log.c makes,
  and what \<open>recover_from_log\<close> makes of a disk on which only some of those writes arrived.
\<close>

section \<open>Operations as the disk writes they make\<close>

definition apply_writes :: "(uint \<times> bytes) list \<Rightarrow> (uint \<Rightarrow> bytes) \<Rightarrow> uint \<Rightarrow> bytes" where
  "apply_writes tr md = fold (\<lambda>(n, d) m. m(n := d)) tr md"

definition writes :: "'z kbio_scheme \<Rightarrow> (uint \<times> bytes) list \<Rightarrow> 'z kbio_scheme \<Rightarrow> bool" where
  "writes s tr s' \<longleftrightarrow> (\<exists>sl bs. s' = s\<lparr>slocks := sl, bufs := bs,
     memdisk := apply_writes tr (memdisk s), dwrites := dwrites s @ tr\<rparr>)"

lemma apply_writes_simps [simp]:
  "apply_writes [] md = md" "apply_writes ((n, d) # tr) md = apply_writes tr (md(n := d))"
  "apply_writes (tr @ tr') md = apply_writes tr' (apply_writes tr md)"
  by (simp_all add: apply_writes_def)

lemma writesI:
  "s' = s\<lparr>slocks := sl, bufs := bs, memdisk := apply_writes tr (memdisk s), dwrites := dwrites s @ tr\<rparr> \<Longrightarrow> writes s tr s'"
  unfolding writes_def by blast

lemma writesE:
  assumes "writes s tr s'"
  obtains sl bs where
    "s' = s\<lparr>slocks := sl, bufs := bs, memdisk := apply_writes tr (memdisk s), dwrites := dwrites s @ tr\<rparr>"
  using assms unfolding writes_def by blast

lemma writes_trans:
  assumes "writes s tr s1" and "writes s1 tr' s2"
  shows "writes s (tr @ tr') s2"
proof -
  from assms(1) obtain sl bs where
    "s1 = s\<lparr>slocks := sl, bufs := bs, memdisk := apply_writes tr (memdisk s), dwrites := dwrites s @ tr\<rparr>" by (rule writesE)
  moreover from assms(2) obtain sl' bs' where
    "s2 = s1\<lparr>slocks := sl', bufs := bs', memdisk := apply_writes tr' (memdisk s1), dwrites := dwrites s1 @ tr'\<rparr>"
    by (rule writesE)
  ultimately show ?thesis by (intro writesI [where sl = sl' and bs = bs']) simp
qed

lemma writes_refl: "writes s [] s"
  by (rule writesI [where sl = "slocks s" and bs = "bufs s"]) simp

lemma writes_fields:
  assumes "writes s tr s'"
  shows "held s' = held s" "cur s' = cur s" "ptable s' = ptable s" "disksize s' = disksize s"
    "memdisk s' = apply_writes tr (memdisk s)" "dwrites s' = dwrites s @ tr"
  using assms by (auto simp: writes_def)

lemma writes_log_fields:
  assumes "writes s tr s'"
  shows "lg_start s' = lg_start s" "lg_size s' = lg_size s" "lg_dev s' = lg_dev s" "lh_n s' = lh_n s"
    "lh_block s' = lh_block s" "lg_outstanding s' = lg_outstanding s" "lg_committing s' = lg_committing s"
  using assms by (auto simp: writes_def)

lemma bread_writes:
  assumes "bio_ok L B s" and "n < disksize s" and "B n = None" and "n \<in> L \<or> card (L \<union> dom B) < NBUF"
  obtains i s' where "bread 1 n s = Ok i s'" and "writes s [] s'" and "bio_ok L (B(n \<mapsto> i)) s'"
    and "blk s' = blk s"
proof -
  from bread_spec [OF assms] obtain i sl bs where
    r: "bread 1 n s = Ok i (s\<lparr>slocks := sl, bufs := bs\<rparr>)"
    "bio_ok L (B(n \<mapsto> i)) (s\<lparr>slocks := sl, bufs := bs\<rparr>)" "view bs (memdisk s) = blk s" by blast
  show thesis
    by (rule that [OF r(1) _ r(2)]) (use r(3) in \<open>auto simp: blk_def intro: writesI [where sl = sl]\<close>)
qed

lemma brelse_writes:
  assumes "bio_ok L B s" and "B n = Some i" and "n \<in> L \<or> blk s n = memdisk s n"
  obtains s' where "brelse i s = Ok () s'" and "writes s [] s'" and "bio_ok L (B(n := None)) s'"
    and "blk s' = blk s"
proof -
  from brelse_spec [OF assms] obtain sl bs where
    r: "brelse i s = Ok () (s\<lparr>slocks := sl, bufs := bs\<rparr>)"
    "bio_ok L (B(n := None)) (s\<lparr>slocks := sl, bufs := bs\<rparr>)" "view bs (memdisk s) = blk s" by blast
  show thesis
    by (rule that [OF r(1) _ r(2)]) (use r(3) in \<open>auto simp: blk_def intro: writesI [where sl = sl]\<close>)
qed

lemma bwrite_writes:
  assumes "bio_ok L B s" and "B n = Some i"
  obtains s' where "bwrite i s = Ok () s'" and "writes s [(n, blk s n)] s'" and "bio_ok (L - {n}) B s'"
    and "blk s' = blk s"
proof -
  from bwrite_spec [OF assms] obtain bs where
    r: "bwrite i s = Ok () (s\<lparr>bufs := bs, memdisk := (memdisk s)(n := blk s n), dwrites := dwrites s @ [(n, blk s n)]\<rparr>)"
    "bio_ok (L - {n}) B (s\<lparr>bufs := bs, memdisk := (memdisk s)(n := blk s n), dwrites := dwrites s @ [(n, blk s n)]\<rparr>)"
    "view bs ((memdisk s)(n := blk s n)) = blk s" by blast
  show thesis
    by (rule that [OF r(1) _ r(2)]) (use r(3) in \<open>auto simp: blk_def intro: writesI [where sl = "slocks s"]\<close>)
qed

lemma upd_data_writes:
  assumes "bio_ok L B s" and "B n = Some i"
  obtains s' where "upd_buf i (\<lambda>x. x\<lparr>b_data := f (b_data x)\<rparr>) s = Ok () s'" and "writes s [] s'" and "bio_ok L B s'"
    and "blk s' = (blk s)(n := f (blk s n))"
proof -
  from upd_data_spec [OF assms, of f] obtain bs where
    r: "upd_buf i (\<lambda>x. x\<lparr>b_data := f (b_data x)\<rparr>) s = Ok () (s\<lparr>bufs := bs\<rparr>)"
    "bio_ok L B (s\<lparr>bufs := bs\<rparr>)" "view bs (memdisk s) = (blk s)(n := f (blk s n))" by blast
  show thesis
    by (rule that [OF r(1) _ r(2)]) (use r(3) in \<open>auto simp: blk_def intro: writesI [where sl = "slocks s"]\<close>)
qed

lemma held_data:
  assumes "bio_ok L B s" and "B n = Some i"
  shows "b_data (bufs s i) = blk s n"
proof -
  from assms(1) obtain me where
    ok: "bufs_ok (bufs s) (slocks s) (p_pid (ptable s ! me)) (memdisk s) (disksize s) L B"
    by (rule bio_okE) blast
  from view_cached [OF ok bufs_ok_held [OF ok assms(2)]] show ?thesis by (simp add: blk_def)
qed

text \<open>A block that is neither pinned nor locked is the same in the cache and on the disk.\<close>

lemma blk_clean:
  assumes "bio_ok L B s" and "n \<notin> L" and "B n = None"
  shows "blk s n = memdisk s n"
proof -
  from assms(1) obtain me where
    ok: "bufs_ok (bufs s) (slocks s) (p_pid (ptable s ! me)) (memdisk s) (disksize s) L B"
    by (rule bio_okE) blast
  show ?thesis
  proof (cases "\<exists>i. cached (bufs s) n i")
    case True
    then obtain i where c: "cached (bufs s) n i" by blast
    then have i: "i < NBUF" "b_dev (bufs s i) = 1" "b_blockno (bufs s i) = n" by (simp_all add: cached_def)
    have "\<not> b_dirty (bufs s i)" using bufs_ok_dirty [OF ok i(1)] i assms(2) by auto
    moreover have "i \<notin> ran B" using bufs_ok_held [OF ok] i assms(3) by (auto simp: ran_def cached_def)
    ultimately have "b_data (bufs s i) = memdisk s n" using bufs_ok_clean [OF ok i(1,2)] i(3) by simp
    with view_cached [OF ok c] show ?thesis by (simp add: blk_def)
  qed (use view_uncached in \<open>auto simp: blk_def\<close>)
qed


section \<open>Copying between the log and the home blocks\<close>

text \<open>Lock two blocks, copy the data of one to the other, write the other and release both.\<close>

lemma copy_two_blocks:
  assumes "bio_ok L [a \<mapsto> i, h \<mapsto> j] s" and "a \<noteq> h" and "(dst, to, src, from) \<in> {(a, i, h, j), (h, j, a, i)}"
    and "src \<in> L \<or> blk s src = memdisk s src"
  obtains s' where "stmts [bnd (gets (\<lambda>s. b_data (bufs s from))) (\<lambda>d. upd_buf to (\<lambda>x. x\<lparr>b_data := copy_block (b_data x) d\<rparr>)),
      bwrite to, brelse from, brelse to] s = Ok () s'"
    and "writes s [(dst, blk s src)] s'" and "bio_ok (L - {dst}) Map.empty s'" and "blk s' = (blk s)(dst := blk s src)"
proof -
  let ?B = "[a \<mapsto> i, h \<mapsto> j]"
  have B: "?B dst = Some to" "?B src = Some from" "dst \<noteq> src" "?B(src := None, dst := None) = Map.empty"
    using assms(2,3) by auto
  note d = held_data [OF assms(1) B(2)]
  from upd_data_writes [OF assms(1) B(1), of "\<lambda>_. blk s src"] obtain s1 where
    1: "upd_buf to (\<lambda>x. x\<lparr>b_data := blk s src\<rparr>) s = Ok () s1" "writes s [] s1" "bio_ok L ?B s1"
      "blk s1 = (blk s)(dst := blk s src)" by blast
  have "blk s1 dst = blk s src" using 1(4) by simp
  with bwrite_writes [OF 1(3) B(1)] obtain s2 where
    2: "bwrite to s1 = Ok () s2" "writes s1 [(dst, blk s src)] s2" "bio_ok (L - {dst}) ?B s2" "blk s2 = blk s1"
    by metis
  have md: "memdisk s2 = (memdisk s)(dst := blk s src)"
    using writes_fields [OF 1(2)] writes_fields [OF 2(2)] by simp
  have "src \<in> L - {dst} \<or> blk s2 src = memdisk s2 src"
    using assms(4) B(3) 2(4) 1(4) md by auto
  from brelse_writes [OF 2(3) B(2) this] obtain s3 where
    3: "brelse from s2 = Ok () s3" "writes s2 [] s3" "bio_ok (L - {dst}) (?B(src := None)) s3" "blk s3 = blk s2" by blast
  have "blk s3 dst = memdisk s3 dst"
    using 3(4) 2(4) 1(4) md writes_fields(5) [OF 3(2)] by simp
  moreover have "(?B(src := None)) dst = Some to" using B(1,3) by simp
  ultimately obtain s4 where
    4: "brelse to s3 = Ok () s4" "writes s3 [] s4" "bio_ok (L - {dst}) (?B(src := None, dst := None)) s4" "blk s4 = blk s3"
    using brelse_writes [OF 3(3), of dst to] by blast
  have "writes s ([] @ [(dst, blk s src)] @ [] @ []) s4"
    using 1(2) 2(2) 3(2) 4(2) by (blast intro: writes_trans)
  then show thesis
    using 1 2 3 4 d B(4) by (intro that [of s4]) (simp_all add: copy_block_def)
qed

lemma two_breads:
  assumes "bio_ok L Map.empty s" and "a < disksize s" and "a \<notin> L" and "card L < NBUF"
    and "h < disksize s" and "h \<in> L \<or> card (insert a L) < NBUF" and "a \<noteq> h"
  obtains i j s1 s2 where "bread 1 a s = Ok i s1" and "writes s [] s1" and "bread 1 h s1 = Ok j s2"
    and "writes s [] s2" and "bio_ok L [a \<mapsto> i, h \<mapsto> j] s2" and "blk s2 = blk s"
proof -
  from bread_writes [OF assms(1,2)] assms(4) obtain i s1 where
    1: "bread 1 a s = Ok i s1" "writes s [] s1" "bio_ok L [a \<mapsto> i] s1" "blk s1 = blk s" by auto
  have "h < disksize s1" using assms(5) writes_fields(4) [OF 1(2)] by simp
  with bread_writes [OF 1(3), of h] assms(6,7) obtain j s2 where
    2: "bread 1 h s1 = Ok j s2" "writes s1 [] s2" "bio_ok L [a \<mapsto> i, h \<mapsto> j] s2" "blk s2 = blk s1" by auto
  show thesis using that [OF 1(1,2) 2(1) _ 2(3)] writes_trans [OF 1(2) 2(2)] 1(4) 2(4) by simp
qed

lemma log_bread_run: "lg_dev s = 1 \<Longrightarrow> log_bread n s = bread 1 (word_of_int n) s"
  by (simp add: log_bread_def)

lemma write_log_step_spec:
  assumes "bio_ok L Map.empty s" and "lg_dev s = 1" and "card L < NBUF"
    and "a = word_of_int (lg_start s + int t + 1)" and "h = word_of_int (lh_block s t)"
    and "a < disksize s" and "a \<notin> L" and "h \<in> L" and "h < disksize s"
  obtains s' where "write_log_step t s = Ok () s'" and "writes s [(a, blk s h)] s'" and "bio_ok L Map.empty s'"
    and "blk s' = (blk s)(a := blk s h)"
proof -
  have ne: "a \<noteq> h" using assms(7,8) by auto
  have c: "h \<in> L \<or> card (insert a L) < NBUF" using assms(8) by simp
  from two_breads [OF assms(1,6,7,3,9) c ne] obtain i j s1 s2 where
    *: "bread 1 a s = Ok i s1" "writes s [] s1" "bread 1 h s1 = Ok j s2" "writes s [] s2"
      "bio_ok L [a \<mapsto> i, h \<mapsto> j] s2" "blk s2 = blk s" .
  have src: "h \<in> L \<or> blk s2 h = memdisk s2 h" using assms(8) by simp
  from copy_two_blocks [OF *(5) ne _ src, of a i j] obtain s3 where
    3: "stmts [bnd (gets (\<lambda>s. b_data (bufs s j))) (\<lambda>d. upd_buf i (\<lambda>x. x\<lparr>b_data := copy_block (b_data x) d\<rparr>)),
      bwrite i, brelse j, brelse i] s2 = Ok () s3"
    "writes s2 [(a, blk s2 h)] s3" "bio_ok (L - {a}) Map.empty s3" "blk s3 = (blk s2)(a := blk s2 h)" by blast
  have "log_bread (lg_start s + int t + 1) s = Ok i s1"
    unfolding log_bread_run [OF assms(2)] assms(4) [symmetric] by (rule *(1))
  moreover have "log_bread (lh_block s t) s1 = Ok j s2" and "lh_block s1 = lh_block s"
    using *(3) assms(2,5) writes_log_fields [OF *(2)] by (simp_all add: log_bread_run)
  ultimately have "write_log_step t s = Ok () s3"
    using 3(1) by (simp add: write_log_step_def)
  moreover have "writes s [(a, blk s h)] s3" using writes_trans [OF *(4) 3(2)] *(6) by simp
  moreover have "L - {a} = L" using assms(7) by simp
  ultimately show thesis using that 3(3,4) *(6) by simp
qed

lemma install_step_spec:
  assumes "bio_ok L Map.empty s" and "lg_dev s = 1" and "card L < NBUF"
    and "a = word_of_int (lg_start s + int t + 1)" and "h = word_of_int (lh_block s t)"
    and "a < disksize s" and "a \<notin> L" and "h < disksize s" and "h \<in> L \<or> card (insert a L) < NBUF" and "a \<noteq> h"
  obtains s' where "install_step t s = Ok () s'" and "writes s [(h, blk s a)] s'" and "bio_ok (L - {h}) Map.empty s'"
    and "blk s' = (blk s)(h := blk s a)"
proof -
  from two_breads [OF assms(1,6,7,3,8,9,10)] obtain i j s1 s2 where
    *: "bread 1 a s = Ok i s1" "writes s [] s1" "bread 1 h s1 = Ok j s2" "writes s [] s2"
      "bio_ok L [a \<mapsto> i, h \<mapsto> j] s2" "blk s2 = blk s" .
  have src: "a \<in> L \<or> blk s2 a = memdisk s2 a"
    using blk_clean [OF assms(1,7)] *(6) writes_fields(5) [OF *(4)] by simp
  from copy_two_blocks [OF *(5) assms(10) _ src, of h j i] obtain s3 where
    3: "stmts [bnd (gets (\<lambda>s. b_data (bufs s i))) (\<lambda>d. upd_buf j (\<lambda>x. x\<lparr>b_data := copy_block (b_data x) d\<rparr>)),
      bwrite j, brelse i, brelse j] s2 = Ok () s3"
    "writes s2 [(h, blk s2 a)] s3" "bio_ok (L - {h}) Map.empty s3" "blk s3 = (blk s2)(h := blk s2 a)" by blast
  have "log_bread (lg_start s + int t + 1) s = Ok i s1"
    unfolding log_bread_run [OF assms(2)] assms(4) [symmetric] by (rule *(1))
  moreover have "log_bread (lh_block s t) s1 = Ok j s2" and "lh_block s1 = lh_block s"
    using *(3) assms(2,5) writes_log_fields [OF *(2)] by (simp_all add: log_bread_run)
  ultimately have "install_step t s = Ok () s3"
    using 3(1) by (simp add: install_step_def)
  moreover have "writes s [(h, blk s a)] s3" using writes_trans [OF *(4) 3(2)] *(6) by simp
  ultimately show thesis using that 3(3,4) *(6) by simp
qed


section \<open>The phases of a commit\<close>

definition log_area :: "'z klog_scheme \<Rightarrow> uint set" where
  "log_area s = {n. lg_start s \<le> uint n \<and> uint n < lg_start s + lg_size s}"

definition head_blk :: "'z klog_scheme \<Rightarrow> uint" where
  "head_blk s = word_of_int (lg_start s)"

definition log_blk :: "'z klog_scheme \<Rightarrow> nat \<Rightarrow> uint" where
  "log_blk s t = word_of_int (lg_start s + int t + 1)"

text \<open>The log holds the home blocks \<open>hs\<close>, lies on the disk and is large enough for them.\<close>

definition log_geom :: "'z klog_scheme \<Rightarrow> bool" where
  "log_geom s \<longleftrightarrow> lg_dev s = 1 \<and> 0 \<le> lg_start s \<and> lg_start s + lg_size s \<le> uint (disksize s) \<and> 0 < lg_size s"

definition log_ok :: "'z klog_scheme \<Rightarrow> uint list \<Rightarrow> bool" where
  "log_ok s hs \<longleftrightarrow> log_geom s \<and> lh_n s = int (length hs)
     \<and> (\<forall>t < length hs. word_of_int (lh_block s t) = hs ! t) \<and> distinct hs
     \<and> set hs \<inter> log_area s = {} \<and> (\<forall>h \<in> set hs. h < disksize s)
     \<and> int (length hs) < lg_size s \<and> length hs < NBUF"

lemma uint_word_of_int: "0 \<le> x \<Longrightarrow> x < 2 ^ 32 \<Longrightarrow> uint (word_of_int x :: uint) = x"
  by (simp add: unsigned_of_int take_bit_int_eq_self)

lemma log_blk_uint:
  assumes "log_geom s" and "int t + 1 < lg_size s"
  shows "uint (log_blk s t) = lg_start s + int t + 1" and "uint (head_blk s) = lg_start s"
proof -
  have *: "lg_start s + int t + 1 < 2 ^ 32" "lg_start s < 2 ^ 32" "0 \<le> lg_start s"
    using assms unsigned_less [where w = "disksize s" and ?'a = int] by (auto simp: log_geom_def)
  show "uint (log_blk s t) = lg_start s + int t + 1"
    unfolding log_blk_def by (rule uint_word_of_int) (use * in simp_all)
  show "uint (head_blk s) = lg_start s"
    unfolding head_blk_def by (rule uint_word_of_int) (use * in simp_all)
qed

lemma head_blk_uint: "log_geom s \<Longrightarrow> uint (head_blk s) = lg_start s"
  unfolding head_blk_def
  using unsigned_less [where w = "disksize s" and ?'a = int]
  by (auto intro!: uint_word_of_int simp: log_geom_def)

lemma log_blk_props:
  assumes "log_geom s" and "int t + 1 < lg_size s"
  shows "log_blk s t < disksize s" and "log_blk s t \<in> log_area s" and "log_blk s t \<noteq> head_blk s"
  using assms log_blk_uint [OF assms] by (auto simp: log_geom_def log_area_def word_less_def)

lemma head_blk_props:
  assumes "log_geom s"
  shows "head_blk s < disksize s" and "head_blk s \<in> log_area s"
  using assms head_blk_uint [OF assms] by (auto simp: log_geom_def log_area_def word_less_def)

lemma log_blk_inj:
  assumes "log_geom s" and "int t + 1 < lg_size s" and "int u + 1 < lg_size s"
  shows "log_blk s t = log_blk s u \<longleftrightarrow> t = u"
proof
  assume "log_blk s t = log_blk s u"
  then have "lg_start s + int t + 1 = lg_start s + int u + 1"
    unfolding log_blk_uint(1) [OF assms(1,2), symmetric] log_blk_uint(1) [OF assms(1,3), symmetric] by simp
  then show "t = u" by simp
qed simp

lemma writes_log_eqs:
  assumes "writes s tr s'"
  shows "log_blk s' = log_blk s" "head_blk s' = head_blk s" "log_area s' = log_area s" "log_ok s' hs = log_ok s hs"
    "log_geom s' = log_geom s"
  using writes_log_fields [OF assms] writes_fields [OF assms]
  by (simp_all add: fun_eq_iff log_blk_def head_blk_def log_area_def log_ok_def log_geom_def)

lemma log_ok_blk:
  assumes "log_ok s hs" and "t < length hs"
  shows "log_blk s t < disksize s" and "log_blk s t \<notin> set hs" and "hs ! t < disksize s"
    and "log_blk s t \<noteq> hs ! t" and "word_of_int (lh_block s t) = hs ! t" and "log_geom s" and "int t + 1 < lg_size s"
proof -
  from assms have g: "log_geom s" "int t + 1 < lg_size s" "set hs \<inter> log_area s = {}" by (auto simp: log_ok_def)
  note p = log_blk_props [OF g(1,2)]
  show "log_blk s t < disksize s" by (rule p(1))
  show *: "log_blk s t \<notin> set hs" using p(2) g(3) by blast
  show "hs ! t < disksize s" "word_of_int (lh_block s t) = hs ! t" using assms by (auto simp: log_ok_def)
  show "log_blk s t \<noteq> hs ! t" using * assms(2) by auto
  show "log_geom s" "int t + 1 < lg_size s" using g by auto
qed

lemma write_log_loop:
  "log_ok s hs \<Longrightarrow> bio_ok (set hs) Map.empty s \<Longrightarrow> j \<le> length hs \<Longrightarrow>
     \<exists>s'. forM [j..<length hs] write_log_step s = Ok () s'
       \<and> writes s (map (\<lambda>t. (log_blk s t, blk s (hs ! t))) [j..<length hs]) s'
       \<and> bio_ok (set hs) Map.empty s'
       \<and> blk s' = apply_writes (map (\<lambda>t. (log_blk s t, blk s (hs ! t))) [j..<length hs]) (blk s)"
proof (induction "length hs - j" arbitrary: j s)
  case 0
  then show ?case by (auto intro: writes_refl)
next
  case (Suc d)
  then have j: "j < length hs" "[j..<length hs] = j # [Suc j..<length hs]" by (auto simp: upt_conv_Cons)
  note b = log_ok_blk [OF Suc.prems(1) j(1)]
  have card: "card (set hs) < NBUF" and dev: "lg_dev s = 1"
    using Suc.prems(1) by (auto simp: log_ok_def log_geom_def distinct_card)
  have mem: "hs ! j \<in> set hs" using j(1) by simp
  from write_log_step_spec [OF Suc.prems(2) dev card log_blk_def b(5) [symmetric] b(1,2) mem b(3)] obtain s1 where
    1: "write_log_step j s = Ok () s1" "writes s [(log_blk s j, blk s (hs ! j))] s1"
      "bio_ok (set hs) Map.empty s1" "blk s1 = (blk s)(log_blk s j := blk s (hs ! j))" .
  note eqs = writes_log_eqs [OF 1(2)]
  have "d = length hs - Suc j" "log_ok s1 hs" "Suc j \<le> length hs" using Suc.hyps(2) Suc.prems(1) j(1) eqs by auto
  from Suc.hyps(1) [OF this(1) this(2) 1(3) this(3)] obtain s2 where
    2: "forM [Suc j..<length hs] write_log_step s1 = Ok () s2"
      "writes s1 (map (\<lambda>t. (log_blk s1 t, blk s1 (hs ! t))) [Suc j..<length hs]) s2"
      "bio_ok (set hs) Map.empty s2"
      "blk s2 = apply_writes (map (\<lambda>t. (log_blk s1 t, blk s1 (hs ! t))) [Suc j..<length hs]) (blk s1)" by blast
  have same: "map (\<lambda>t. (log_blk s1 t, blk s1 (hs ! t))) [Suc j..<length hs]
      = map (\<lambda>t. (log_blk s t, blk s (hs ! t))) [Suc j..<length hs]"
    using b(2) by (auto simp: eqs 1(4) dest!: nth_mem)
  note 2 = 2 [unfolded same]
  show ?case
    using 1(1,4) 2 writes_trans [OF 1(2) 2(2)] by (intro exI [of _ s2]) (simp add: j(2))
qed


lemma install_loop:
  "log_ok s hs \<Longrightarrow> bio_ok L Map.empty s \<Longrightarrow> j \<le> length hs \<Longrightarrow> L = {} \<or> L = set (drop j hs) \<Longrightarrow>
     \<exists>s'. forM [j..<length hs] install_step s = Ok () s'
       \<and> writes s (map (\<lambda>t. (hs ! t, blk s (log_blk s t))) [j..<length hs]) s'
       \<and> bio_ok {} Map.empty s'
       \<and> blk s' = apply_writes (map (\<lambda>t. (hs ! t, blk s (log_blk s t))) [j..<length hs]) (blk s)"
proof (induction "length hs - j" arbitrary: j s L)
  case 0
  then show ?case by (auto intro: writes_refl)
next
  case (Suc d)
  then have j: "j < length hs" "[j..<length hs] = j # [Suc j..<length hs]" by (auto simp: upt_conv_Cons)
  note b = log_ok_blk [OF Suc.prems(1) j(1)]
  have dr: "drop j hs = hs ! j # drop (Suc j) hs" using j(1) by (rule Cons_nth_drop_Suc [symmetric])
  have hs: "distinct hs" "length hs < NBUF" and dev: "lg_dev s = 1"
    using Suc.prems(1) by (auto simp: log_ok_def log_geom_def)
  have sub: "L \<subseteq> set hs" using Suc.prems(4) set_drop_subset [of j hs] by auto
  then have card: "card L < NBUF"
    using hs card_mono [of "set hs" L] by (simp add: distinct_card)
  have aL: "log_blk s j \<notin> L" using b(2) sub by blast
  have room: "hs ! j \<in> L \<or> card (insert (log_blk s j) L) < NBUF"
    using Suc.prems(4) dr by (auto simp: NBUF_def)
  from install_step_spec [OF Suc.prems(2) dev card log_blk_def b(5) [symmetric] b(1) aL b(3) room b(4)] obtain s1 where
    1: "install_step j s = Ok () s1" "writes s [(hs ! j, blk s (log_blk s j))] s1"
      "bio_ok (L - {hs ! j}) Map.empty s1" "blk s1 = (blk s)(hs ! j := blk s (log_blk s j))" .
  note eqs = writes_log_eqs [OF 1(2)]
  have "hs ! j \<notin> set (drop (Suc j) hs)" using distinct_drop [OF hs(1), of j] dr by simp
  then have L': "L - {hs ! j} = {} \<or> L - {hs ! j} = set (drop (Suc j) hs)" using Suc.prems(4) dr by auto
  have pre: "d = length hs - Suc j" "log_ok s1 hs" "Suc j \<le> length hs" using Suc.hyps(2) Suc.prems(1) j(1) eqs by auto
  from Suc.hyps(1) [OF pre(1,2) 1(3) pre(3) L'] obtain s2 where
    2: "forM [Suc j..<length hs] install_step s1 = Ok () s2"
      "writes s1 (map (\<lambda>t. (hs ! t, blk s1 (log_blk s1 t))) [Suc j..<length hs]) s2"
      "bio_ok {} Map.empty s2"
      "blk s2 = apply_writes (map (\<lambda>t. (hs ! t, blk s1 (log_blk s1 t))) [Suc j..<length hs]) (blk s1)" by blast
  have "log_blk s t \<noteq> hs ! j" if "t < length hs" for t
    using log_ok_blk(2) [OF Suc.prems(1) that] j(1) by auto
  then have same: "map (\<lambda>t. (hs ! t, blk s1 (log_blk s1 t))) [Suc j..<length hs]
      = map (\<lambda>t. (hs ! t, blk s (log_blk s t))) [Suc j..<length hs]"
    by (auto simp: eqs 1(4))
  note 2 = 2 [unfolded same]
  show ?case
    using 1(1,4) 2 writes_trans [OF 1(2) 2(2)] by (intro exI [of _ s2]) (simp add: j(2))
qed

text \<open>The header block.\<close>

definition mk_head :: "uint list \<Rightarrow> bytes \<Rightarrow> bytes" where
  "mk_head hs d = fold (\<lambda>i d. put32 d (4 + 4 * i) (hs ! i)) [0..<length hs] (put32 d 0 (of_nat (length hs)))"

lemma upd_data_loop:
  "forM is (\<lambda>i. upd_buf b (\<lambda>x. x\<lparr>b_data := g i (b_data x)\<rparr>)) s
     = upd_buf b (\<lambda>x. x\<lparr>b_data := fold g is (b_data x)\<rparr>) s"
  by (induction "is" arbitrary: s) (simp_all add: upd_buf_def)

lemma fold_cong_list: "(\<And>i x. i \<in> set is \<Longrightarrow> f i x = g i x) \<Longrightarrow> fold f is x = fold g is x"
  by (induction "is" arbitrary: x) auto

lemma write_head_spec:
  assumes "log_geom s" and "bio_ok L Map.empty s" and "card L < NBUF" and "head_blk s \<notin> L"
    and "lh_n s = int (length hs)" and "\<And>t. t < length hs \<Longrightarrow> word_of_int (lh_block s t) = hs ! t"
  obtains s' where "write_head s = Ok () s'" and "writes s [(head_blk s, mk_head hs (blk s (head_blk s)))] s'"
    and "bio_ok L Map.empty s'" and "blk s' = (blk s)(head_blk s := mk_head hs (blk s (head_blk s)))"
proof -
  let ?h = "head_blk s"
  have dev: "lg_dev s = 1" and h: "?h < disksize s" using assms(1) head_blk_props [OF assms(1)] by (auto simp: log_geom_def)
  have c: "?h \<in> L \<or> card (L \<union> dom (Map.empty :: uint \<Rightarrow> nat option)) < NBUF" using assms(3) by simp
  from bread_writes [OF assms(2) h _ c] obtain i s1 where
    1: "bread 1 ?h s = Ok i s1" "writes s [] s1" "bio_ok L [?h \<mapsto> i] s1" "blk s1 = blk s" by auto
  have Bi: "[?h \<mapsto> i] ?h = Some i" by simp
  let ?f = "\<lambda>d. fold (\<lambda>t d. put32 d (4 + 4 * t) (word_of_int (lh_block s t))) [0..<length hs]
      (put32 d 0 (word_of_int (int (length hs))))"
  have f: "?f d = mk_head hs d" for d
    unfolding mk_head_def using assms(6) by (auto intro!: fold_cong_list)
  from upd_data_writes [OF 1(3) Bi, of "mk_head hs"] obtain s2 where
    2: "upd_buf i (\<lambda>x. x\<lparr>b_data := mk_head hs (b_data x)\<rparr>) s1 = Ok () s2" "writes s1 [] s2" "bio_ok L [?h \<mapsto> i] s2"
      "blk s2 = (blk s)(?h := mk_head hs (blk s ?h))" unfolding 1(4) .
  from bwrite_writes [OF 2(3) Bi] obtain s3 where
    3: "bwrite i s2 = Ok () s3" "writes s2 [(?h, blk s2 ?h)] s3" "bio_ok (L - {?h}) [?h \<mapsto> i] s3" "blk s3 = blk s2" .
  have L: "L - {?h} = L" using assms(4) by simp
  have "?h \<in> L \<or> blk s3 ?h = memdisk s3 ?h" using writes_fields(5) [OF 3(2)] 3(4) by simp
  from brelse_writes [OF 3(3) [unfolded L] Bi this] obtain s4 where
    4: "brelse i s3 = Ok () s4" "writes s3 [] s4" "bio_ok L ([?h \<mapsto> i](?h := None)) s4" "blk s4 = blk s3" .
  have run: "write_head s = Ok () s4"
  proof -
    have "log_bread (lg_start s) s = Ok i s1"
      unfolding log_bread_run [OF dev] head_blk_def [symmetric] by (rule 1(1))
    moreover have "upd_buf i (\<lambda>x. x\<lparr>b_data := put32 (b_data x) 0 (word_of_int (int (length hs)))\<rparr>) s1
        = Ok () (s1\<lparr>bufs := (bufs s1)(i := (bufs s1 i)\<lparr>b_data := put32 (b_data (bufs s1 i)) 0 (word_of_int (int (length hs)))\<rparr>)\<rparr>)"
      (is "_ = Ok () ?t") by (simp add: upd_buf_def)
    moreover have "forM [0..<length hs] (\<lambda>t. upd_buf i (\<lambda>x. x\<lparr>b_data := put32 (b_data x) (4 + 4 * t) (word_of_int (lh_block s t))\<rparr>)) ?t
        = Ok () s2"
      unfolding upd_data_loop [where g = "\<lambda>t d. put32 d (4 + 4 * t) (word_of_int (lh_block s t))"] using 2(1) f [of "b_data (bufs s1 i)"] by (simp add: upd_buf_def)
    ultimately show ?thesis
      using 3(1) 4(1) assms(5) writes_log_fields [OF 1(2)] by (simp add: write_head_def)
  qed
  have "writes s ([] @ [] @ [(?h, blk s2 ?h)] @ []) s4"
    using 1(2) 2(2) 3(2) 4(2) by (blast intro: writes_trans)
  then show thesis using that [OF run] 2(4) 3(4) 4(3,4) by simp
qed


section \<open>Committing\<close>

lemma apply_writes_other:
  "n \<notin> fst ` set tr \<Longrightarrow> apply_writes tr md n = md n"
  by (induction tr arbitrary: md) auto

lemma apply_writes_hit:
  "t \<in> set is \<Longrightarrow> inj_on f (set is) \<Longrightarrow> distinct is \<Longrightarrow> apply_writes (map (\<lambda>t. (f t, g t)) is) md (f t) = g t"
proof (induction "is" arbitrary: md)
  case (Cons u us)
  show ?case
  proof (cases "t = u")
    case True
    with Cons.prems have "f t \<notin> fst ` set (map (\<lambda>t. (f t, g t)) us)" by (auto simp: inj_on_def)
    with True show ?thesis by (simp add: apply_writes_other)
  qed (use Cons in auto)
qed simp

definition commit_trace :: "'z klog_scheme \<Rightarrow> uint list \<Rightarrow> (uint \<times> bytes) list" where
  "commit_trace s hs =
     map (\<lambda>t. (log_blk s t, blk s (hs ! t))) [0..<length hs]
   @ [(head_blk s, mk_head hs (blk s (head_blk s)))]
   @ map (\<lambda>t. (hs ! t, blk s (hs ! t))) [0..<length hs]
   @ [(head_blk s, mk_head [] (mk_head hs (blk s (head_blk s))))]"

lemma writes_lh_n:
  assumes "writes s tr s'"
  shows "writes (s\<lparr>lh_n := n\<rparr>) tr (s'\<lparr>lh_n := n\<rparr>)"
proof -
  from assms obtain sl bs where
    "s' = s\<lparr>slocks := sl, bufs := bs, memdisk := apply_writes tr (memdisk s), dwrites := dwrites s @ tr\<rparr>"
    by (rule writesE)
  then show ?thesis by (intro writesI [where sl = sl and bs = bs]) simp
qed

lemma bio_ok_lh_n [simp]:
  "bio_ok L B (s\<lparr>lh_n := n\<rparr>) = bio_ok L B s" "blk (s\<lparr>lh_n := n\<rparr>) = blk s" "head_blk (s\<lparr>lh_n := n\<rparr>) = head_blk s"
  "log_geom (s\<lparr>lh_n := n\<rparr>) = log_geom s"
  by (simp_all add: bio_ok_def blk_def no_sleeper_def head_blk_def log_geom_def)

lemma commit_spec:
  assumes "log_ok s hs" and "bio_ok (set hs) Map.empty s" and "hs \<noteq> []"
  obtains s' where "commit s = Ok () s'" and "writes (s\<lparr>lh_n := 0\<rparr>) (commit_trace s hs) s'" and "bio_ok {} Map.empty s'"
proof -
  let ?n = "length hs" and ?h = "head_blk s"
  from assms(1) have geom: "log_geom s" and n: "lh_n s = int ?n" "?n < NBUF" and d: "distinct hs"
    and fit: "int ?n < lg_size s" and blocks: "\<And>t. t < ?n \<Longrightarrow> word_of_int (lh_block s t) = hs ! t"
    and disj: "set hs \<inter> log_area s = {}" by (auto simp: log_ok_def)
  have card: "card (set hs) < NBUF" using n d by (simp add: distinct_card)
  have head: "?h \<notin> set hs" using head_blk_props(2) [OF geom] disj by blast
  define T1 where "T1 = map (\<lambda>t. (log_blk s t, blk s (hs ! t))) [0..<?n]"
  from write_log_loop [OF assms(1,2), of 0, folded T1_def] obtain s1 where
    1: "forM [0..<?n] write_log_step s = Ok () s1" "writes s T1 s1" "bio_ok (set hs) Map.empty s1"
      "blk s1 = apply_writes T1 (blk s)" by auto
  note e1 = writes_log_eqs [OF 1(2)] and f1 = writes_log_fields [OF 1(2)]
  have T1: "fst ` set T1 = log_blk s ` {0..<?n}" by (simp add: T1_def image_image)
  have "?h \<notin> log_blk s ` {0..<?n}" using log_blk_props(3) [OF geom] fit by force
  then have h1: "blk s1 ?h = blk s ?h" unfolding 1(4) by (intro apply_writes_other) (simp add: T1)
  have geom1: "log_geom s1" and head1: "head_blk s1 \<notin> set hs" and n1: "lh_n s1 = int ?n"
    and blocks1: "\<And>t. t < ?n \<Longrightarrow> word_of_int (lh_block s1 t) = hs ! t"
    using geom head n blocks e1 f1 by auto
  from write_head_spec [OF geom1 1(3) card head1 n1 blocks1] obtain s2 where
    2: "write_head s1 = Ok () s2" "writes s1 [(?h, mk_head hs (blk s ?h))] s2" "bio_ok (set hs) Map.empty s2"
      "blk s2 = (blk s1)(?h := mk_head hs (blk s ?h))" unfolding e1 h1 .
  note e2 = writes_log_eqs [OF 2(2), unfolded e1] and f2 = writes_log_fields [OF 2(2), unfolded f1]
  have ok2: "log_ok s2 hs" using e2(4) assms(1) by simp
  have logged: "blk s2 (log_blk s t) = blk s (hs ! t)" if "t < ?n" for t
  proof -
    have "inj_on (log_blk s) (set [0..<?n])" using log_blk_inj [OF geom] fit by (auto simp: inj_on_def)
    then have "blk s1 (log_blk s t) = blk s (hs ! t)"
      unfolding 1(4) T1_def using that by (intro apply_writes_hit) auto
    with log_blk_props(3) [OF geom, of t] that fit show ?thesis by (simp add: 2(4))
  qed
  define T3 where "T3 = map (\<lambda>t. (hs ! t, blk s (hs ! t))) [0..<?n]"
  have T3: "map (\<lambda>t. (hs ! t, blk s2 (log_blk s2 t))) [0..<?n] = T3" by (simp add: T3_def e2 logged)
  from install_loop [OF ok2 2(3), of 0, unfolded T3] obtain s3 where
    3: "forM [0..<?n] install_step s2 = Ok () s3" "writes s2 T3 s3" "bio_ok {} Map.empty s3"
      "blk s3 = apply_writes T3 (blk s2)" by auto
  note e3 = writes_log_eqs [OF 3(2), unfolded e2] and f3 = writes_log_fields [OF 3(2), unfolded f2]
  have "blk s3 ?h = mk_head hs (blk s ?h)"
    unfolding 3(4) using head by (subst apply_writes_other) (auto simp: T3_def 2(4))
  then have h3: "blk (s3\<lparr>lh_n := 0\<rparr>) ?h = mk_head hs (blk s ?h)" by simp
  have pre: "log_geom (s3\<lparr>lh_n := 0\<rparr>)" "bio_ok {} Map.empty (s3\<lparr>lh_n := 0\<rparr>)" "card ({} :: uint set) < NBUF"
      "head_blk (s3\<lparr>lh_n := 0\<rparr>) \<notin> {}" "lh_n (s3\<lparr>lh_n := 0\<rparr>) = int (length [])"
    using e3 geom 3(3) by (simp_all add: NBUF_def)
  from write_head_spec [OF pre] obtain s4 where
    4: "write_head (s3\<lparr>lh_n := 0\<rparr>) = Ok () s4" "writes (s3\<lparr>lh_n := 0\<rparr>) [(?h, mk_head [] (mk_head hs (blk s ?h)))] s4"
      "bio_ok {} Map.empty s4" using h3 e3(2) by (auto simp del: bio_ok_lh_n(2))
  have "writes (s\<lparr>lh_n := 0\<rparr>) (T1 @ [(?h, mk_head hs (blk s ?h))] @ T3) (s3\<lparr>lh_n := 0\<rparr>)"
    by (intro writes_lh_n writes_trans [OF 1(2)] writes_trans [OF 2(2)] 3(2))
  from writes_trans [OF this 4(2)] have "writes (s\<lparr>lh_n := 0\<rparr>) (commit_trace s hs) s4"
    by (simp add: commit_trace_def T1_def T3_def)
  moreover have "commit s = Ok () s4"
    using n assms(3) 1(1) 2(1) 3(1) 4(1) f1 f2 f3
    by (simp add: commit_def write_log_def install_trans_def)
  ultimately show thesis using that 4(3) by blast
qed


section \<open>Recovering\<close>

lemma lh_set_loop:
  "k \<le> 30 \<Longrightarrow> j \<le> k \<Longrightarrow> forM [j..<k] (\<lambda>i. lh_set i (v i)) s
     = Ok () (s\<lparr>lh_block := (\<lambda>i. if j \<le> i \<and> i < k then v i else lh_block s i)\<rparr>)"
proof (induction "k - j" arbitrary: j s)
  case 0
  then have "(\<lambda>i. if j \<le> i \<and> i < k then v i else lh_block s i) = lh_block s" by auto
  with 0 show ?case by simp
next
  case (Suc d)
  then have j: "j < k" "[j..<k] = j # [Suc j..<k]" "d = k - Suc j" by (auto simp: upt_conv_Cons)
  let ?s = "s\<lparr>lh_block := (lh_block s)(j := v j)\<rparr>"
  have "(\<lambda>i. if Suc j \<le> i \<and> i < k then v i else lh_block ?s i) = (\<lambda>i. if j \<le> i \<and> i < k then v i else lh_block s i)"
    using j(1) by (auto simp: fun_eq_iff)
  with Suc.hyps(1) [OF j(3), of ?s] Suc.prems j show ?case
    by (simp add: lh_set_def LOGSIZE_def)
qed

lemma sint_of_nat: "m < 2147483648 \<Longrightarrow> sint (of_nat m :: uint) = int m"
proof -
  assume "m < 2147483648"
  then have "signed_take_bit 31 (int m) = int m" by (intro signed_take_bit_int_eq_self) auto
  then show ?thesis by (simp add: signed_of_nat)
qed

definition head_n :: "bytes \<Rightarrow> nat" where
  "head_n d = unat (get32 d 0)"

definition head_blocks :: "bytes \<Rightarrow> uint list" where
  "head_blocks d = map (\<lambda>i. get32 d (4 + 4 * i)) [0..<head_n d]"

definition recover_trace :: "'z klog_scheme \<Rightarrow> (uint \<times> bytes) list" where
  "recover_trace s = (let h = memdisk s (head_blk s); hs = head_blocks h
     in map (\<lambda>t. (hs ! t, memdisk s (log_blk s t))) [0..<length hs] @ [(head_blk s, mk_head [] h)])"

text \<open>A disk whose log header names home blocks that \<open>install_trans\<close> can install.\<close>

definition recoverable :: "'z klog_scheme \<Rightarrow> bool" where
  "recoverable s \<longleftrightarrow> (let hs = head_blocks (memdisk s (head_blk s)) in
     log_geom s \<and> distinct hs \<and> set hs \<inter> log_area s = {} \<and> (\<forall>h \<in> set hs. h < disksize s)
     \<and> int (length hs) < lg_size s \<and> length hs < NBUF)"

lemma writes_lh:
  assumes "writes s tr s'"
  shows "writes (s\<lparr>lh_n := n, lh_block := b\<rparr>) tr (s'\<lparr>lh_n := n, lh_block := b\<rparr>)"
proof -
  from assms obtain sl bs where
    "s' = s\<lparr>slocks := sl, bufs := bs, memdisk := apply_writes tr (memdisk s), dwrites := dwrites s @ tr\<rparr>"
    by (rule writesE)
  then show ?thesis by (intro writesI [where sl = sl and bs = bs]) simp
qed

lemma bio_ok_lh [simp]:
  "bio_ok L B (s\<lparr>lh_n := n, lh_block := b\<rparr>) = bio_ok L B s" "blk (s\<lparr>lh_n := n, lh_block := b\<rparr>) = blk s"
  by (simp_all add: bio_ok_def blk_def no_sleeper_def)

lemma read_head_spec:
  assumes "recoverable s" and "bio_ok {} Map.empty s"
  defines "hs \<equiv> head_blocks (memdisk s (head_blk s))"
  obtains b s' where "read_head s = Ok () s'" and "writes (s\<lparr>lh_n := int (length hs), lh_block := b\<rparr>) [] s'"
    and "log_ok s' hs" and "bio_ok {} Map.empty s'" and "blk s' = memdisk s"
proof -
  let ?h = "head_blk s" and ?d = "memdisk s (head_blk s)"
  from assms(1) have geom: "log_geom s" and n: "length hs < NBUF" by (auto simp: recoverable_def Let_def hs_def)
  have dev: "lg_dev s = 1" and h: "?h < disksize s" using geom head_blk_props [OF geom] by (auto simp: log_geom_def)
  have clean: "blk s = memdisk s" using blk_clean [OF assms(2)] by auto
  have c: "?h \<in> {} \<or> card ({} \<union> dom (Map.empty :: uint \<Rightarrow> nat option)) < NBUF" by (simp add: NBUF_def)
  from bread_writes [OF assms(2) h _ c] obtain i s1 where
    1: "bread 1 ?h s = Ok i s1" "writes s [] s1" "bio_ok {} [?h \<mapsto> i] s1" "blk s1 = memdisk s" using clean by auto
  have data: "b_data (bufs s1 i) = ?d" using held_data [OF 1(3)] 1(4) by simp
  have len: "length hs = head_n ?d" by (simp add: hs_def head_blocks_def)
  have word: "get32 ?d 0 = of_nat (length hs)" by (simp add: len head_n_def)
  then have sint: "sint (get32 ?d 0) = int (length hs)" using n by (simp add: sint_of_nat NBUF_def)
  define b where "b = (\<lambda>j. if 0 \<le> j \<and> j < length hs then sint (get32 ?d (4 + 4 * j)) else lh_block s1 j)"
  let ?s2 = "s1\<lparr>lh_n := int (length hs), lh_block := b\<rparr>"
  have loop: "forM [0..<length hs] (\<lambda>i. lh_set i (sint (get32 ?d (4 + 4 * i)))) (s1\<lparr>lh_n := int (length hs)\<rparr>) = Ok () ?s2"
    using n by (subst lh_set_loop) (simp_all add: NBUF_def b_def cong: if_cong)
  have w2: "writes (s\<lparr>lh_n := int (length hs), lh_block := b\<rparr>) [] ?s2" using 1(2) by (rule writes_lh)
  have ok2: "bio_ok {} [?h \<mapsto> i] ?s2" and v2: "blk ?s2 = memdisk s" using 1(3,4) by simp_all
  have "?h \<in> {} \<or> blk ?s2 ?h = memdisk ?s2 ?h" using v2 writes_fields(5) [OF w2] by simp
  from brelse_writes [OF ok2 _ this] obtain s3 where
    3: "brelse i ?s2 = Ok () s3" "writes ?s2 [] s3" "bio_ok {} Map.empty s3" "blk s3 = memdisk s" using v2 by auto
  have w3: "writes (s\<lparr>lh_n := int (length hs), lh_block := b\<rparr>) [] s3" using writes_trans [OF w2 3(2)] by simp
  have "read_head s = Ok () s3"
  proof -
    have "log_bread (lg_start s) s = Ok i s1"
      unfolding log_bread_run [OF dev] head_blk_def [symmetric] by (rule 1(1))
    then show ?thesis using loop 3(1) data sint by (simp add: read_head_def)
  qed
  moreover have "log_ok s3 hs"
  proof -
    have "word_of_int (b t) = hs ! t" if "t < length hs" for t
      using that len by (simp add: b_def hs_def head_blocks_def)
    then have "log_ok (s\<lparr>lh_n := int (length hs), lh_block := b\<rparr>) hs"
      using assms(1) n by (auto simp: log_ok_def recoverable_def Let_def hs_def [symmetric] log_geom_def log_area_def)
    then show ?thesis using writes_log_eqs(4) [OF w3] by blast
  qed
  ultimately show thesis using that w3 3(3,4) by blast
qed

lemma recover_spec:
  assumes "recoverable s" and "bio_ok {} Map.empty s"
  obtains s' b where "recover_from_log s = Ok () s'" and "writes (s\<lparr>lh_block := b, lh_n := 0\<rparr>) (recover_trace s) s'"
    and "bio_ok {} Map.empty s'"
proof -
  define hs where "hs = head_blocks (memdisk s (head_blk s))"
  from read_head_spec [OF assms, folded hs_def] obtain b s1 where
    1: "read_head s = Ok () s1" "writes (s\<lparr>lh_n := int (length hs), lh_block := b\<rparr>) [] s1"
      "log_ok s1 hs" "bio_ok {} Map.empty s1" "blk s1 = memdisk s" .
  have eq: "head_blk s1 = head_blk s" "log_blk s1 = log_blk s"
    using writes_log_eqs [OF 1(2)] by (auto simp: head_blk_def log_blk_def fun_eq_iff)
  have n: "lh_n s1 = int (length hs)" using 1(3) by (simp add: log_ok_def)
  define T where "T = map (\<lambda>t. (hs ! t, memdisk s (log_blk s t))) [0..<length hs]"
  from install_loop [OF 1(3,4), of 0] 1(5) eq(2) obtain s2 where
    2: "forM [0..<length hs] install_step s1 = Ok () s2" "writes s1 T s2" "bio_ok {} Map.empty s2"
      "blk s2 = apply_writes T (memdisk s)" by (auto simp: T_def)
  note e2 = writes_log_eqs [OF 2(2), unfolded eq] and f2 = writes_log_fields [OF 2(2)]
  have head: "head_blk s \<notin> set hs"
    using 1(3) head_blk_props(2) [of s1] eq(1) by (auto simp: log_ok_def)
  then have h2: "blk (s2\<lparr>lh_n := 0\<rparr>) (head_blk s) = memdisk s (head_blk s)"
    by (simp add: 2(4)) (rule apply_writes_other, auto simp: T_def)
  have pre: "log_geom (s2\<lparr>lh_n := 0\<rparr>)" "bio_ok {} Map.empty (s2\<lparr>lh_n := 0\<rparr>)" "card ({} :: uint set) < NBUF"
      "head_blk (s2\<lparr>lh_n := 0\<rparr>) \<notin> {}" "lh_n (s2\<lparr>lh_n := 0\<rparr>) = int (length [])"
    using e2 1(3) 2(3) by (simp_all add: NBUF_def log_ok_def)
  from write_head_spec [OF pre] obtain s3 where
    3: "write_head (s2\<lparr>lh_n := 0\<rparr>) = Ok () s3"
      "writes (s2\<lparr>lh_n := 0\<rparr>) [(head_blk s, mk_head [] (memdisk s (head_blk s)))] s3" "bio_ok {} Map.empty s3"
    using h2 e2(2) by (auto simp del: bio_ok_lh_n(2))
  have "writes (s\<lparr>lh_n := int (length hs), lh_block := b\<rparr>) T s2" using writes_trans [OF 1(2) 2(2)] by simp
  from writes_trans [OF writes_lh_n [OF this, of 0] 3(2)]
  have "writes (s\<lparr>lh_block := b, lh_n := 0\<rparr>) (recover_trace s) s3"
    by (simp add: recover_trace_def hs_def [symmetric] Let_def T_def)
  moreover have "recover_from_log s = Ok () s3"
    using 1(1) 2(1) 3(1) n by (simp add: recover_from_log_def install_trans_def)
  ultimately show thesis using that 3(3) by blast
qed


text \<open>The header that was written is the header that is read.\<close>

lemma fold_put32_other:
  "(\<And>i. i \<in> set is \<Longrightarrow> k + 4 \<le> 4 + 4 * i \<or> 4 + 4 * i + 4 \<le> k) \<Longrightarrow>
     get32 (fold (\<lambda>i d. put32 d (4 + 4 * i) (v i)) is d) k = get32 d k"
proof (induction "is" arbitrary: d)
  case (Cons i "is")
  then show ?case using get32_put32_other [of "4 + 4 * i" k d "v i"] by (auto simp del: add_Suc)
qed simp

lemma fold_put32_hit:
  "j \<in> set is \<Longrightarrow> distinct is \<Longrightarrow> get32 (fold (\<lambda>i d. put32 d (4 + 4 * i) (v i)) is d) (4 + 4 * j) = v j"
proof (induction "is" arbitrary: d)
  case (Cons i "is")
  show ?case
  proof (cases "j = i")
    case True
    have "4 + 4 * j + 4 \<le> 4 + 4 * x \<or> 4 + 4 * x + 4 \<le> 4 + 4 * j" if "x \<in> set is" for x
    proof -
      have "x \<noteq> j" using Cons.prems(2) True that by auto
      then show ?thesis by linarith
    qed
    then have "get32 (fold (\<lambda>i d. put32 d (4 + 4 * i) (v i)) is (put32 d (4 + 4 * i) (v i))) (4 + 4 * j)
        = get32 (put32 d (4 + 4 * i) (v i)) (4 + 4 * j)" by (rule fold_put32_other)
    with True show ?thesis by simp
  qed (use Cons in auto)
qed simp

lemma head_of_mk_head:
  assumes "length hs < 2 ^ 32"
  shows "head_n (mk_head hs d) = length hs" and "head_blocks (mk_head hs d) = hs"
proof -
  have "get32 (mk_head hs d) 0 = of_nat (length hs)"
    unfolding mk_head_def by (subst fold_put32_other) auto
  then show n: "head_n (mk_head hs d) = length hs" using assms by (simp add: head_n_def u32_of_nat)
  have get: "get32 (mk_head hs d) (4 + 4 * i) = hs ! i" if "i < length hs" for i
    unfolding mk_head_def using that by (intro fold_put32_hit) auto
  show "head_blocks (mk_head hs d) = hs"
  proof (rule nth_equalityI)
    fix i assume "i < length (head_blocks (mk_head hs d))"
    then have "i < length hs" by (simp add: head_blocks_def n)
    then show "head_blocks (mk_head hs d) ! i = hs ! i" using get [of i] by (simp add: head_blocks_def n)
  qed (simp add: head_blocks_def n)
qed

section \<open>Crashing\<close>

text \<open>
  A machine that comes up with a fresh cache on the disk \<open>d\<close>, its log where it was.
\<close>

definition rebooted :: "'z klog_scheme \<Rightarrow> (uint \<Rightarrow> bytes) \<Rightarrow> 'z klog_scheme \<Rightarrow> bool" where
  "rebooted s d t \<longleftrightarrow> memdisk t = d \<and> disksize t = disksize s \<and> lg_start t = lg_start s \<and> lg_size t = lg_size s
     \<and> lg_dev t = lg_dev s \<and> bio_ok {} Map.empty t"

lemma rebooted_eqs:
  assumes "rebooted s d t"
  shows "head_blk t = head_blk s" "log_blk t = log_blk s" "log_area t = log_area s" "log_geom t = log_geom s"
    "memdisk t = d" "disksize t = disksize s" "lg_size t = lg_size s"
  using assms by (auto simp: rebooted_def head_blk_def log_blk_def log_area_def log_geom_def fun_eq_iff)

lemma recover_disk:
  assumes "rebooted s d t" and "head_blocks (d (head_blk s)) = hs" and "log_geom s"
    and "distinct hs" and "set hs \<inter> log_area s = {}" and "\<forall>h \<in> set hs. h < disksize s"
    and "int (length hs) < lg_size s" and "length hs < NBUF"
  obtains t' where "recover_from_log t = Ok () t'" and "bio_ok {} Map.empty t'"
    and "\<And>n. n \<notin> log_area s \<Longrightarrow> n \<notin> set hs \<Longrightarrow> memdisk t' n = d n"
    and "\<And>i. i < length hs \<Longrightarrow> memdisk t' (hs ! i) = d (log_blk s i)"
    and "head_n (memdisk t' (head_blk s)) = 0"
proof -
  note eqs = rebooted_eqs [OF assms(1)]
  have rec: "recoverable t" using assms eqs by (auto simp: recoverable_def Let_def)
  have ok: "bio_ok {} Map.empty t" using assms(1) by (simp add: rebooted_def)
  from recover_spec [OF rec ok] obtain t' b where
    1: "recover_from_log t = Ok () t'" "writes (t\<lparr>lh_block := b, lh_n := 0\<rparr>) (recover_trace t) t'" "bio_ok {} Map.empty t'" .
  define T where "T = map (\<lambda>i. (hs ! i, d (log_blk s i))) [0..<length hs]"
  have tr: "recover_trace t = T @ [(head_blk s, mk_head [] (d (head_blk s)))]"
    using assms(2) by (simp add: recover_trace_def eqs Let_def T_def)
  have md: "memdisk t' = (apply_writes T d)(head_blk s := mk_head [] (d (head_blk s)))"
    using writes_fields(5) [OF 1(2)] by (simp add: tr eqs)
  have head: "head_blk s \<in> log_area s" using head_blk_props(2) [OF assms(3)] .
  have T: "fst ` set T = set hs" by (auto simp: T_def image_image in_set_conv_nth)
  show thesis
  proof (rule that [OF 1(1,3)])
    show "memdisk t' n = d n" if "n \<notin> log_area s" "n \<notin> set hs" for n
      using that head T by (auto simp: md apply_writes_other)
    show "memdisk t' (hs ! i) = d (log_blk s i)" if i: "i < length hs" for i
    proof -
      have "inj_on ((!) hs) (set [0..<length hs])" using assms(4) by (simp add: inj_on_nth)
      then have "apply_writes T d (hs ! i) = d (log_blk s i)"
        unfolding T_def using i by (intro apply_writes_hit) auto
      moreover have "hs ! i \<in> set hs" using i by simp
      then have "hs ! i \<noteq> head_blk s" using head assms(5) by auto
      ultimately show ?thesis by (simp add: md)
    qed
    show "head_n (memdisk t' (head_blk s)) = 0" using head_of_mk_head(1) [of "[]"] by (simp add: md)
  qed
qed


text \<open>The disk after the first \<open>k\<close> writes of a commit of the blocks \<open>hs\<close>.\<close>

lemma commit_crash_before:
  assumes "log_ok s hs" and "k \<le> length hs"
  shows "take k (commit_trace s hs) = map (\<lambda>t. (log_blk s t, blk s (hs ! t))) [0..<k]"
    and "n \<notin> log_area s \<or> n = head_blk s \<Longrightarrow> apply_writes (take k (commit_trace s hs)) d n = d n"
proof -
  show tr: "take k (commit_trace s hs) = map (\<lambda>t. (log_blk s t, blk s (hs ! t))) [0..<k]"
    using assms(2) by (simp add: commit_trace_def take_map)
  have "log_blk s t \<in> log_area s \<and> log_blk s t \<noteq> head_blk s" if "t < k" for t
    using log_blk_props [of s t] log_ok_blk(6,7) [OF assms(1), of t] that assms(2) by simp
  then show "apply_writes (take k (commit_trace s hs)) d n = d n" if "n \<notin> log_area s \<or> n = head_blk s"
    using that by (intro apply_writes_other) (auto simp: tr)
qed

lemma commit_crash_after:
  assumes "log_ok s hs" and "length hs < k" and d'_def: "d' = apply_writes (take k (commit_trace s hs)) d"
  shows "n \<notin> log_area s \<Longrightarrow> n \<notin> set hs \<Longrightarrow> d' n = d n"
    and "t < length hs \<Longrightarrow> d' (log_blk s t) = blk s (hs ! t)"
    and "if k \<le> 2 * length hs + 1 then head_blocks (d' (head_blk s)) = hs
         else head_blocks (d' (head_blk s)) = [] \<and> (\<forall>t < length hs. d' (hs ! t) = blk s (hs ! t))"
proof -
  let ?n = "length hs" and ?h = "head_blk s"
  define T1 where "T1 = map (\<lambda>t. (log_blk s t, blk s (hs ! t))) [0..<?n]"
  define T3 where "T3 = map (\<lambda>t. (hs ! t, blk s (hs ! t))) [0..<?n]"
  define H where "H = mk_head hs (blk s ?h)"
  define T4 where "T4 = take (k - 2 * ?n - 1) [(?h, mk_head [] H)]"
  have tr: "take k (commit_trace s hs) = T1 @ (?h, H) # take (k - ?n - 1) T3 @ T4"
  proof -
    have T: "commit_trace s hs = T1 @ (?h, H) # T3 @ [(?h, mk_head [] H)]"
      by (simp add: commit_trace_def T1_def T3_def H_def)
    have "take k (T1 @ (?h, H) # T3 @ [(?h, mk_head [] H)]) = T1 @ (?h, H) # take (k - ?n - 1) (T3 @ [(?h, mk_head [] H)])"
      using assms(2) by (cases "k - ?n") (simp_all add: T1_def)
    then have "take k (commit_trace s hs) = T1 @ (?h, H) # take (k - ?n - 1) (T3 @ [(?h, mk_head [] H)])"
      unfolding T .
    moreover have "k - ?n - 1 - ?n = k - 2 * ?n - 1" by simp
    ultimately show ?thesis by (simp add: T4_def T3_def)
  qed
  have geom: "log_geom s" and d: "distinct hs" and disj: "set hs \<inter> log_area s = {}" and fit: "int ?n < lg_size s"
    and small: "?n < NBUF"
    using assms(1) by (auto simp: log_ok_def)
  have h: "?h \<in> log_area s" using head_blk_props(2) [OF geom] .
  have lb: "log_blk s t \<in> log_area s \<and> log_blk s t \<noteq> ?h" if "t < ?n" for t
    using log_blk_props [OF geom, of t] that fit by simp
  have f1: "fst ` set T1 = log_blk s ` {0..<?n}" by (simp add: T1_def image_image)
  have f3: "fst ` set (take j T3) \<subseteq> set hs" for j
    using set_take_subset [of j T3] by (auto simp: T3_def)
  have f4: "fst ` set T4 \<subseteq> {?h}" unfolding T4_def by (cases "k - 2 * ?n - 1") auto
  define e where "e = (apply_writes T1 d)(?h := H)"
  have d': "d' = apply_writes T4 (apply_writes (take (k - ?n - 1) T3) e)"
    by (simp add: d'_def tr e_def)
  have e_log: "e (log_blk s t) = blk s (hs ! t)" if "t < ?n" for t
  proof -
    have "inj_on (log_blk s) (set [0..<?n])" using log_blk_inj [OF geom] fit by (auto simp: inj_on_def)
    then have "apply_writes T1 d (log_blk s t) = blk s (hs ! t)"
      unfolding T1_def using that by (intro apply_writes_hit) auto
    with lb [OF that] show ?thesis by (simp add: e_def)
  qed
  show "d' n = d n" if "n \<notin> log_area s" "n \<notin> set hs"
  proof -
    have nh: "n \<noteq> ?h" using that h by blast
    moreover have "n \<notin> fst ` set T4" using f4 nh by blast
    moreover have "n \<notin> fst ` set (take (k - ?n - 1) T3)" using f3 that(2) by blast
    moreover have "n \<notin> fst ` set T1" unfolding f1 using lb that(1) by auto
    ultimately show ?thesis by (simp add: d' apply_writes_other e_def)
  qed
  show "d' (log_blk s t) = blk s (hs ! t)" if "t < ?n"
  proof -
    have "log_blk s t \<notin> fst ` set T4" using lb [OF that] f4 by blast
    moreover have "log_blk s t \<notin> fst ` set (take (k - ?n - 1) T3)" using lb [OF that] f3 disj by blast
    ultimately show ?thesis using e_log [OF that] by (simp add: d' apply_writes_other)
  qed
  have head3: "apply_writes (take (k - ?n - 1) T3) e ?h = H"
  proof -
    have "?h \<notin> fst ` set (take (k - ?n - 1) T3)" using f3 h disj by blast
    then show ?thesis by (simp add: apply_writes_other e_def)
  qed
  show "if k \<le> 2 * ?n + 1 then head_blocks (d' ?h) = hs
        else head_blocks (d' ?h) = [] \<and> (\<forall>t < ?n. d' (hs ! t) = blk s (hs ! t))"
  proof (cases "k \<le> 2 * ?n + 1")
    case True
    then have "T4 = []" by (simp add: T4_def)
    then have "d' ?h = H" unfolding d' using head3 by simp
    with True show ?thesis using head_of_mk_head(2) [of hs] small by (simp add: H_def NBUF_def)
  next
    case False
    then have T4: "T4 = [(?h, mk_head [] H)]" and all: "take (k - ?n - 1) T3 = T3" by (auto simp: T4_def T3_def)
    have "d' (hs ! t) = blk s (hs ! t)" if "t < ?n" for t
    proof -
      have "inj_on ((!) hs) (set [0..<?n])" using d by (simp add: inj_on_nth)
      then have "apply_writes T3 e (hs ! t) = blk s (hs ! t)"
        unfolding T3_def using that by (intro apply_writes_hit) auto
      moreover have "hs ! t \<in> set hs" using that by simp
      then have "hs ! t \<noteq> ?h" using h disj by auto
      ultimately show ?thesis unfolding d' T4 all by simp
    qed
    moreover have "d' ?h = mk_head [] H" unfolding d' T4 by simp
    ultimately show ?thesis using False head_of_mk_head(2) [of "[]"] by simp
  qed
qed


section \<open>Adding a block to the log\<close>

lemma mark_dirty_spec:
  assumes "bio_ok L B s" and "B n = Some i"
  shows "bio_ok (insert n L) B (s\<lparr>bufs := (bufs s)(i := (bufs s i)\<lparr>b_dirty := True\<rparr>)\<rparr>)"
    and "blk (s\<lparr>bufs := (bufs s)(i := (bufs s i)\<lparr>b_dirty := True\<rparr>)\<rparr>) = blk s"
    and "b_blockno (bufs s i) = n"
proof -
  from assms(1) obtain me where me: "held s = []" "cur s = Some me" "\<And>i. no_sleeper (C_sleeplock (SL_buf i)) s"
    and ok: "bufs_ok (bufs s) (slocks s) (p_pid (ptable s ! me)) (memdisk s) (disksize s) L B"
    by (rule bio_okE) blast
  have c: "cached (bufs s) n i" using bufs_ok_held [OF ok assms(2)] .
  then have i: "i < NBUF" "b_dev (bufs s i) = 1" "b_blockno (bufs s i) = n" by (simp_all add: cached_def)
  then show "b_blockno (bufs s i) = n" by simp
  have rc: "b_refcnt (bufs s i) = 1" using bufs_ok_locked [OF ok i(1) ranI [of B, OF assms(2)]] by auto
  have val: "b_valid (bufs s i)" using bufs_ok_valid [OF ok i(1)] i by simp
  have v: "blk s n = b_data (bufs s i)" using view_cached [OF ok c] by (simp add: blk_def)
  note m = bufs_ok_modify [OF ok assms(2), of "(bufs s i)\<lparr>b_dirty := True\<rparr>" "memdisk s n"]
  show "bio_ok (insert n L) B (s\<lparr>bufs := (bufs s)(i := (bufs s i)\<lparr>b_dirty := True\<rparr>)\<rparr>)"
    using m(1) i rc val me by (simp add: bio_ok_def no_sleeper_def)
  show "blk (s\<lparr>bufs := (bufs s)(i := (bufs s i)\<lparr>b_dirty := True\<rparr>)\<rparr>) = blk s"
    using m(2) i rc val v by (simp add: blk_def fun_eq_iff)
qed

lemma log_write_run:
  assumes "held s = []" and "lh_n s < LOGSIZE" and "lh_n s < lg_size s - 1" and "1 \<le> lg_outstanding s"
    and "j = log_slot s (b_blockno (bufs s b))" and "int j < LOGSIZE"
  shows "log_write b s = Ok () (s\<lparr>lh_block := (lh_block s)(j := sint (b_blockno (bufs s b))),
    lh_n := (if int j = lh_n s then lh_n s + 1 else lh_n s), bufs := (bufs s)(b := (bufs s b)\<lparr>b_dirty := True\<rparr>)\<rparr>)"
proof -
  have slot: "log_slot (s\<lparr>held := [L_log]\<rparr>) (b_blockno (bufs s b)) = j"
    using assms(5) by (simp add: log_slot_def split: option.split)
  have acq: "acquire L_log s = Ok () (s\<lparr>held := [L_log]\<rparr>)" using assms(1) by (simp add: run_simps)
  have set: "lh_set j v t = Ok () (t\<lparr>lh_block := (lh_block t)(j := v)\<rparr>)" for v and t :: "'a klog_scheme"
    using assms(6) by (simp add: lh_set_def)
  show ?thesis
    using assms(1-4)
    by (cases "int j = lh_n s") (simp_all add: log_write_def acq slot set upd_buf_def release_def)
qed

text \<open>A block that is in the log already is not added again.\<close>

definition absorb :: "uint \<Rightarrow> uint list \<Rightarrow> uint list" where
  "absorb n hs = (if n \<in> set hs then hs else hs @ [n])"

lemma log_write_spec:
  assumes "log_ok s hs" and "bio_ok (set hs) B s" and "B n = Some i" and "n \<notin> log_area s" and "n < disksize s"
    and "int (length hs) < lg_size s - 1" and "lg_size s \<le> 30" and "1 \<le> lg_outstanding s"
  obtains bs lb where
    "log_write i s = Ok () (s\<lparr>lh_block := lb, lh_n := int (length (absorb n hs)), bufs := bs\<rparr>)"
    and "log_ok (s\<lparr>lh_block := lb, lh_n := int (length (absorb n hs)), bufs := bs\<rparr>) (absorb n hs)"
    and "bio_ok (set (absorb n hs)) B (s\<lparr>lh_block := lb, lh_n := int (length (absorb n hs)), bufs := bs\<rparr>)"
    and "view bs (memdisk s) = blk s"
proof -
  let ?bs = "(bufs s)(i := (bufs s i)\<lparr>b_dirty := True\<rparr>)" and ?m = "length hs"
  note dirty = mark_dirty_spec [OF assms(2,3)]
  from assms(1) have n: "lh_n s = int ?m" and blocks: "\<And>t. t < ?m \<Longrightarrow> word_of_int (lh_block s t) = hs ! t"
    and m30: "?m < 29" "distinct hs" using assms(6,7) by (auto simp: log_ok_def)
  have held: "held s = []" using assms(2) by (simp add: bio_ok_def)
  define j where "j = log_slot s n"
  define lb where "lb = (lh_block s)(j := sint n)"
  have j: "if n \<in> set hs then j < ?m \<and> hs ! j = n else j = ?m"
  proof (cases "first_idx (\<lambda>v. word_of_int v = n) (map (lh_block s) [0..<?m])")
    case None
    then have "n \<notin> set hs" using blocks by (auto simp: first_idx_None_iff in_set_conv_nth)
    with None show ?thesis by (simp add: j_def log_slot_def n)
  next
    case (Some k)
    then have "k < ?m" "word_of_int (map (lh_block s) [0..<?m] ! k) = n" by (auto dest: first_idx_SomeD)
    then have "k < ?m" "hs ! k = n" using blocks by auto
    moreover from this have "n \<in> set hs" by auto
    ultimately show ?thesis using Some by (simp add: j_def log_slot_def n)
  qed
  have len: "int (length (absorb n hs)) = (if int j = int ?m then int ?m + 1 else int ?m)"
    using j by (auto simp: absorb_def split: if_splits)
  let ?s = "s\<lparr>lh_block := lb, lh_n := int (length (absorb n hs)), bufs := ?bs\<rparr>"
  have run: "log_write i s = Ok () ?s"
  proof -
    have "int j < LOGSIZE" using j m30 by (auto simp: LOGSIZE_def split: if_splits)
    moreover have "lh_n s < LOGSIZE" "lh_n s < lg_size s - 1" using n m30 assms(6) by (simp_all add: LOGSIZE_def)
    ultimately show ?thesis using log_write_run [OF held, of j i] assms(8) dirty(3) len n j_def by (simp add: lb_def)
  qed
  have bio: "bio_ok (set (absorb n hs)) B ?s" and v: "view ?bs (memdisk s) = blk s"
  proof -
    have "insert n (set hs) = set (absorb n hs)" by (auto simp: absorb_def)
    with dirty(1) show "bio_ok (set (absorb n hs)) B ?s" by (simp add: bio_ok_def no_sleeper_def)
    show "view ?bs (memdisk s) = blk s" using dirty(2) by (simp add: blk_def)
  qed
  have "word_of_int (lb t) = absorb n hs ! t" if "t < length (absorb n hs)" for t
    using j blocks [of t] that by (auto simp: lb_def absorb_def nth_append split: if_splits)
  then have "log_ok ?s (absorb n hs)"
    using assms(1,4-7) m30 by (auto simp: log_ok_def absorb_def log_geom_def log_area_def NBUF_def)
  from that [OF run this bio v] show thesis .
qed

text \<open>
  Inside a transaction: \<open>hs\<close> are the blocks logged so far. \<open>tx_frame\<close> lists what an operation on
  the logical disk \<open>blk\<close> may change: buffers and their locks, and the header in memory.
\<close>

definition in_tx :: "'z klog_scheme \<Rightarrow> uint list \<Rightarrow> (uint \<rightharpoonup> nat) \<Rightarrow> bool" where
  "in_tx s hs B \<longleftrightarrow> log_ok s hs \<and> bio_ok (set hs) B s \<and> lg_size s \<le> 30 \<and> 1 \<le> lg_outstanding s"

definition tx_frame :: "'z klog_scheme \<Rightarrow> 'z klog_scheme \<Rightarrow> bool" where
  "tx_frame s s' \<longleftrightarrow> (\<exists>sl bs lb n. s' = s\<lparr>slocks := sl, bufs := bs, lh_block := lb, lh_n := n\<rparr>)"

lemma tx_frame_refl [simp, intro]: "tx_frame s s"
  unfolding tx_frame_def by (intro exI [of _ "slocks s"] exI [of _ "bufs s"] exI [of _ "lh_block s"] exI [of _ "lh_n s"]) simp

lemma tx_frameI: "s' = s\<lparr>slocks := sl, bufs := bs, lh_block := lb, lh_n := n\<rparr> \<Longrightarrow> tx_frame s s'"
  by (auto simp: tx_frame_def)

lemma tx_frame_bufs: "tx_frame s (s\<lparr>slocks := sl, bufs := bs\<rparr>)"
  by (rule tx_frameI [where sl = sl and bs = bs and lb = "lh_block s" and n = "lh_n s"]) simp

lemma tx_frame_trans: "tx_frame s s1 \<Longrightarrow> tx_frame s1 s2 \<Longrightarrow> tx_frame s s2"
  by (auto simp: tx_frame_def) blast

lemma tx_frame_writes: "writes s [] s' \<Longrightarrow> tx_frame s s'"
  by (auto simp: writes_def intro: tx_frameI [where lb = "lh_block s" and n = "lh_n s"])

lemma tx_frame_fields:
  assumes "tx_frame s s'"
  shows "memdisk s' = memdisk s" "dwrites s' = dwrites s" "disksize s' = disksize s" "log_area s' = log_area s"
    "lg_size s' = lg_size s" "lg_outstanding s' = lg_outstanding s" "held s' = held s" "cur s' = cur s" "ptable s' = ptable s"
    "lg_start s' = lg_start s" "lg_dev s' = lg_dev s"
  using assms by (auto simp: tx_frame_def log_area_def)

lemma in_txD:
  assumes "in_tx s hs B"
  shows "log_ok s hs" "bio_ok (set hs) B s" "lg_size s \<le> 30" "1 \<le> lg_outstanding s"
  using assms by (simp_all add: in_tx_def)

lemma tx_bread:
  assumes "in_tx s hs B" and "n < disksize s" and "B n = None" and "n \<in> set hs \<or> card (set hs \<union> dom B) < NBUF"
  obtains i s' where "bread 1 n s = Ok i s'" and "in_tx s' hs (B(n \<mapsto> i))" and "blk s' = blk s" and "tx_frame s s'"
    and "b_data (bufs s' i) = blk s n"
proof -
  note t = in_txD [OF assms(1)]
  from bread_writes [OF t(2) assms(2-4)] obtain i s' where
    r: "bread 1 n s = Ok i s'" "writes s [] s'" "bio_ok (set hs) (B(n \<mapsto> i)) s'" "blk s' = blk s" .
  note f = writes_log_fields [OF r(2)] writes_fields [OF r(2)]
  have "log_ok s' hs" using t(1) f by (simp add: log_ok_def log_geom_def log_area_def)
  then have "in_tx s' hs (B(n \<mapsto> i))" using t r(3) f by (simp add: in_tx_def)
  moreover have "b_data (bufs s' i) = blk s n" using held_data [OF r(3), of n i] r(4) by simp
  ultimately show thesis using that r(1,4) tx_frame_writes [OF r(2)] by blast
qed

lemma tx_brelse:
  assumes "in_tx s hs B" and "B n = Some i" and "n \<in> set hs \<or> blk s n = memdisk s n"
  obtains s' where "brelse i s = Ok () s'" and "in_tx s' hs (B(n := None))" and "blk s' = blk s" and "tx_frame s s'"
proof -
  note t = in_txD [OF assms(1)]
  from brelse_writes [OF t(2) assms(2,3)] obtain s' where
    r: "brelse i s = Ok () s'" "writes s [] s'" "bio_ok (set hs) (B(n := None)) s'" "blk s' = blk s" .
  note f = writes_log_fields [OF r(2)] writes_fields [OF r(2)]
  have "log_ok s' hs" using t(1) f by (simp add: log_ok_def log_geom_def log_area_def)
  then show thesis using that r t f tx_frame_writes [OF r(2)] by (simp add: in_tx_def)
qed

lemma tx_upd:
  assumes "in_tx s hs B" and "B n = Some i"
  obtains s' where "upd_buf i (\<lambda>x. x\<lparr>b_data := f (b_data x)\<rparr>) s = Ok () s'" and "in_tx s' hs B"
    and "blk s' = (blk s)(n := f (blk s n))" and "tx_frame s s'"
proof -
  note t = in_txD [OF assms(1)]
  from upd_data_writes [OF t(2) assms(2), of f] obtain s' where
    r: "upd_buf i (\<lambda>x. x\<lparr>b_data := f (b_data x)\<rparr>) s = Ok () s'" "writes s [] s'" "bio_ok (set hs) B s'"
    "blk s' = (blk s)(n := f (blk s n))" .
  note f = writes_log_fields [OF r(2)] writes_fields [OF r(2)]
  have "log_ok s' hs" using t(1) f by (simp add: log_ok_def log_geom_def log_area_def)
  then show thesis using that r t f tx_frame_writes [OF r(2)] by (simp add: in_tx_def)
qed

lemma tx_log_write:
  assumes "in_tx s hs B" and "B n = Some i" and "n \<notin> log_area s" and "n < disksize s" and "int (length hs) < lg_size s - 1"
  obtains s' where "log_write i s = Ok () s'" and "in_tx s' (absorb n hs) B" and "blk s' = blk s" and "tx_frame s s'"
proof -
  note t = in_txD [OF assms(1)]
  from log_write_spec [OF t(1,2) assms(2-5) t(3,4)] obtain bs lb where
    r: "log_write i s = Ok () (s\<lparr>lh_block := lb, lh_n := int (length (absorb n hs)), bufs := bs\<rparr>)"
    "log_ok (s\<lparr>lh_block := lb, lh_n := int (length (absorb n hs)), bufs := bs\<rparr>) (absorb n hs)"
    "bio_ok (set (absorb n hs)) B (s\<lparr>lh_block := lb, lh_n := int (length (absorb n hs)), bufs := bs\<rparr>)"
    "view bs (memdisk s) = blk s" .
  have "tx_frame s (s\<lparr>lh_block := lb, lh_n := int (length (absorb n hs)), bufs := bs\<rparr>)"
    by (rule tx_frameI [where sl = "slocks s" and bs = bs and lb = lb and n = "int (length (absorb n hs))"]) simp
  with r t show thesis by (intro that [OF r(1)]) (simp_all add: in_tx_def blk_def)
qed

text \<open>The pattern of every logged change: read, change, log, release.\<close>

lemma tx_update:
  assumes "in_tx s hs Map.empty" and "n \<notin> log_area s" and "n < disksize s" and "int (length hs) < lg_size s - 1"
  obtains i s1 s' where "bread 1 n s = Ok i s1" and "b_data (bufs s1 i) = blk s n" and "tx_frame s s1"
    and "stmts [upd_buf i (\<lambda>x. x\<lparr>b_data := f (b_data x)\<rparr>), log_write i, brelse i] s1 = Ok () s'"
    and "in_tx s' (absorb n hs) Map.empty" and "blk s' = (blk s)(n := f (blk s n))" and "tx_frame s s'"
proof -
  have "card (set hs \<union> dom (Map.empty :: uint \<rightharpoonup> nat)) < NBUF"
    using in_txD [OF assms(1)] card_length [of hs] by (simp add: log_ok_def)
  with tx_bread [OF assms(1,3)] obtain i s1 where
    1: "bread 1 n s = Ok i s1" "in_tx s1 hs [n \<mapsto> i]" "blk s1 = blk s" "tx_frame s s1" "b_data (bufs s1 i) = blk s n"
    by auto
  from tx_upd [OF 1(2), of n i f] obtain s2 where
    2: "upd_buf i (\<lambda>x. x\<lparr>b_data := f (b_data x)\<rparr>) s1 = Ok () s2" "in_tx s2 hs [n \<mapsto> i]"
      "blk s2 = (blk s1)(n := f (blk s1 n))" "tx_frame s1 s2" by auto
  note f2 = tx_frame_trans [OF 1(4) 2(4)]
  from tx_log_write [OF 2(2), of n i] assms tx_frame_fields [OF f2] obtain s3 where
    3: "log_write i s2 = Ok () s3" "in_tx s3 (absorb n hs) [n \<mapsto> i]" "blk s3 = blk s2" "tx_frame s2 s3" by auto
  have "n \<in> set (absorb n hs)" by (simp add: absorb_def)
  with tx_brelse [OF 3(2), of n i] obtain s4 where
    4: "brelse i s3 = Ok () s4" "in_tx s4 (absorb n hs) (Map.empty(n := None))" "blk s4 = blk s3" "tx_frame s3 s4"
    by auto
  show thesis
    by (rule that [where s' = s4, OF 1(1,5,4)])
      (use 1 2 3 4 tx_frame_trans [OF f2 tx_frame_trans [OF 3(4) 4(4)]] in simp_all)
qed

section \<open>What the log promises\<close>

text \<open>
  C1: A commit is atomic with respect to crashes: \<open>commit\<close> of the logged blocks returns, and if the
  machine stops after any number \<open>k\<close> of the disk writes it makes and comes up again, then
  \<open>recover_from_log\<close> returns and leaves all blocks outside the log as they were on the disk before
  the commit, or all as the committed transaction has them; the log is then empty.
\<close>
theorem commit_crash_atomic:
  assumes "log_ok s hs" and "bio_ok (set hs) Map.empty s" and "hs \<noteq> []"
    and "head_n (memdisk s (head_blk s)) = 0"
  shows "\<exists>s'. commit s = Ok () s' \<and>
    (\<forall>k t. rebooted s (apply_writes (take k (drop (length (dwrites s)) (dwrites s'))) (memdisk s)) t \<longrightarrow>
      (\<exists>t'. recover_from_log t = Ok () t' \<and> head_n (memdisk t' (head_blk s)) = 0
        \<and> ((\<forall>n. n \<notin> log_area s \<longrightarrow> memdisk t' n = memdisk s n)
            \<or> (\<forall>n. n \<notin> log_area s \<longrightarrow> memdisk t' n = blk s n))))"
proof -
  let ?T = "commit_trace s hs" and ?d = "memdisk s"
  from commit_spec [OF assms(1-3)] obtain s' where run: "commit s = Ok () s'"
    and w: "writes (s\<lparr>lh_n := 0\<rparr>) ?T s'" .
  have tr: "drop (length (dwrites s)) (dwrites s') = ?T" using writes_fields(6) [OF w] by simp
  from assms(1) have log: "log_geom s" "distinct hs" "set hs \<inter> log_area s = {}" "\<forall>h \<in> set hs. h < disksize s"
    "int (length hs) < lg_size s" "length hs < NBUF" by (auto simp: log_ok_def)
  have clean: "blk s n = ?d n" if "n \<notin> set hs" for n using blk_clean [OF assms(2) that] by simp
  have "\<exists>t'. recover_from_log t = Ok () t' \<and> head_n (memdisk t' (head_blk s)) = 0
        \<and> ((\<forall>n. n \<notin> log_area s \<longrightarrow> memdisk t' n = ?d n) \<or> (\<forall>n. n \<notin> log_area s \<longrightarrow> memdisk t' n = blk s n))"
    if reb: "rebooted s (apply_writes (take k ?T) ?d) t" for k t
  proof (cases "k \<le> length hs")
    case True
    note b = commit_crash_before(2) [OF assms(1) True]
    have "head_blocks (apply_writes (take k ?T) ?d (head_blk s)) = []"
      using assms(4) by (simp add: b head_blocks_def)
    from recover_disk [OF reb this log(1)] log(5) obtain t' where
      "recover_from_log t = Ok () t'" "head_n (memdisk t' (head_blk s)) = 0"
      "\<And>n. n \<notin> log_area s \<Longrightarrow> memdisk t' n = apply_writes (take k ?T) ?d n" by (auto simp: NBUF_def)
    then show ?thesis using b by auto
  next
    case False
    then have k: "length hs < k" by simp
    note a = commit_crash_after [OF assms(1) k refl, where d = ?d]
    show ?thesis
    proof (cases "k \<le> 2 * length hs + 1")
      case True
      with a(3) have h: "head_blocks (apply_writes (take k ?T) ?d (head_blk s)) = hs" by simp
      obtain t' where
        t': "recover_from_log t = Ok () t'" "bio_ok {} Map.empty t'"
        "\<And>n. n \<notin> log_area s \<Longrightarrow> n \<notin> set hs \<Longrightarrow> memdisk t' n = apply_writes (take k ?T) ?d n"
        "\<And>i. i < length hs \<Longrightarrow> memdisk t' (hs ! i) = apply_writes (take k ?T) ?d (log_blk s i)"
        "head_n (memdisk t' (head_blk s)) = 0"
        by (rule recover_disk [OF reb h log]) blast
      have "memdisk t' n = blk s n" if "n \<notin> log_area s" for n
      proof (cases "n \<in> set hs")
        case True
        then obtain i where "i < length hs" "n = hs ! i" by (auto simp: in_set_conv_nth)
        then show ?thesis using t'(4) a(2) by simp
      qed (use t'(3) a(1) clean that in simp)
      with t' show ?thesis by blast
    next
      case False
      with a(3) have h: "head_blocks (apply_writes (take k ?T) ?d (head_blk s)) = []"
        and home: "\<And>t. t < length hs \<Longrightarrow> apply_writes (take k ?T) ?d (hs ! t) = blk s (hs ! t)" by auto
      from recover_disk [OF reb h log(1)] log(5) obtain t' where
        t': "recover_from_log t = Ok () t'" "head_n (memdisk t' (head_blk s)) = 0"
        "\<And>n. n \<notin> log_area s \<Longrightarrow> memdisk t' n = apply_writes (take k ?T) ?d n" by (auto simp: NBUF_def)
      have "memdisk t' n = blk s n" if "n \<notin> log_area s" for n
      proof (cases "n \<in> set hs")
        case True
        then obtain i where "i < length hs" "n = hs ! i" by (auto simp: in_set_conv_nth)
        then show ?thesis using t'(3) home that by simp
      qed (use t'(3) a(1) clean that in simp)
      with t' show ?thesis by blast
    qed
  qed
  then show ?thesis using run by (intro exI [of _ s']) (simp add: tr)
qed

definition demo_klog :: klog where
  "demo_klog = kbio.extend (demo_kbio\<lparr>memdisk := (\<lambda>_ _. 0)\<rparr>)
     \<lparr>lg_start = 2, lg_size = 30, lg_outstanding = 1, lg_committing = False, lg_dev = 1, lh_n = 0, lh_block = (\<lambda>_. 0)\<rparr>"

lemma demo_klog_simps [simp]:
  "held demo_klog = []" "cur demo_klog = Some 0" "memdisk demo_klog = (\<lambda>_ _. 0)" "disksize demo_klog = 1000"
  "dwrites demo_klog = []" "zero_bufs (bufs demo_klog)" "no_sleeper (C_sleeplock lk) demo_klog"
  "lg_start demo_klog = 2" "lg_size demo_klog = 30" "lg_outstanding demo_klog = 1" "lg_dev demo_klog = 1" "lh_n demo_klog = 0"
proof -
  have *: "ptable demo_klog = ptable demo_kbio" "held demo_klog = held demo_kbio" "cur demo_klog = cur demo_kbio"
    "disksize demo_klog = disksize demo_kbio" "dwrites demo_klog = dwrites demo_kbio" "bufs demo_klog = bufs demo_kbio"
    "memdisk demo_klog = (\<lambda>_ _. 0)"
    by (simp_all add: demo_klog_def kbio.defs)
  show "held demo_klog = []" "cur demo_klog = Some 0" "memdisk demo_klog = (\<lambda>_ _. 0)" "disksize demo_klog = 1000"
    "dwrites demo_klog = []" "zero_bufs (bufs demo_klog)" using * by simp_all
  have "no_sleeper (C_sleeplock lk) demo_kbio" by simp
  then show "no_sleeper (C_sleeplock lk) demo_klog" unfolding no_sleeper_def * .
  show "lg_start demo_klog = 2" "lg_size demo_klog = 30" "lg_outstanding demo_klog = 1" "lg_dev demo_klog = 1" "lh_n demo_klog = 0"
    by (simp_all add: demo_klog_def kbio.defs)
qed

lemma demo_klog_boot:
  obtains s where "binit demo_klog = Ok () s" and "in_tx s [] Map.empty" and "blk s = (\<lambda>_ _. 0)" and "tx_frame demo_klog s"
proof -
  from binit_spec [of demo_klog 0] obtain sl bs where
    b: "binit demo_klog = Ok () (demo_klog\<lparr>slocks := sl, bufs := bs\<rparr>)"
      "bio_ok {} Map.empty (demo_klog\<lparr>slocks := sl, bufs := bs\<rparr>)" "view bs (memdisk demo_klog) = memdisk demo_klog" by auto
  have "tx_frame demo_klog (demo_klog\<lparr>slocks := sl, bufs := bs\<rparr>)"
    by (rule tx_frame_bufs)
  with b show thesis
    by (intro that [OF b(1)]) (simp_all add: in_tx_def log_ok_def log_geom_def blk_def NBUF_def)
qed

theorem commit_crash_atomic_witness:
  "\<exists>(s :: klog) s'. blk s 50 = (\<lambda>_. 7) \<and> memdisk s 50 = (\<lambda>_. 0) \<and> commit s = Ok () s'
    \<and> (\<forall>k t. rebooted s (apply_writes (take k (dwrites s')) (memdisk s)) t \<longrightarrow>
        (\<exists>t'. recover_from_log t = Ok () t' \<and> memdisk t' 50 \<in> {\<lambda>_. 0, \<lambda>_. 7}))"
proof -
  obtain s0 where 0: "in_tx s0 [] Map.empty" "blk s0 = (\<lambda>_ _. 0)" "tx_frame demo_klog s0" by (rule demo_klog_boot)
  note f0 = tx_frame_fields [OF 0(3)]
  from tx_update [OF 0(1), of 50 "\<lambda>_ _. 7"] f0 obtain i s1 s where
    "in_tx s [50] Map.empty" "blk s = (blk s0)(50 := (\<lambda>_. 7))" "tx_frame s0 s"
    by (auto simp: absorb_def log_area_def)
  then have s: "log_ok s [50]" "bio_ok (set [50]) Map.empty s" "blk s 50 = (\<lambda>_. 7)" "memdisk s = (\<lambda>_ _. 0)"
    "dwrites s = []" "50 \<notin> log_area s"
    using 0 f0 tx_frame_fields [of s0 s] by (auto simp: in_tx_def log_area_def)
  have "head_n (memdisk s (head_blk s)) = 0" by (simp add: s head_n_def get32_def)
  from commit_crash_atomic [OF s(1,2) _ this] obtain s' where run: "commit s = Ok () s'"
    and crash: "\<And>k t. rebooted s (apply_writes (take k (dwrites s')) (memdisk s)) t \<Longrightarrow>
      \<exists>t'. recover_from_log t = Ok () t' \<and> ((\<forall>n. n \<notin> log_area s \<longrightarrow> memdisk t' n = memdisk s n)
        \<or> (\<forall>n. n \<notin> log_area s \<longrightarrow> memdisk t' n = blk s n))" by (simp add: s(5)) blast
  have "\<exists>t'. recover_from_log t = Ok () t' \<and> memdisk t' 50 \<in> {\<lambda>_. 0, \<lambda>_. 7}"
    if "rebooted s (apply_writes (take k (dwrites s')) (memdisk s)) t" for k t
    using crash [OF that] s(3,4,6) by fastforce
  with run s(3,4) show ?thesis by (intro exI [of _ s] exI [of _ s']) simp
qed

end
