(* ===== verification/Inode.thy ===== *)
theory Inode
  imports Commit
begin

text \<open>
  Blocks and inodes of the file system (src/fs.c up to \<open>itrunc\<close>, src/fs.h, \<open>struct inode\<close> of
  src/file.h).

  A pointer to an in-memory inode is an index into \<open>icache\<close>; \<open>ilock\<close> and \<open>iunlock\<close>, which test
  their argument for null, take an option. An inode on the disk is the 64 bytes at
  \<open>(inum mod IPB) * 64\<close> of its block. The loop counters of \<open>balloc\<close> and \<open>ialloc\<close> are naturals:
  they stay below \<open>sb.size + BPB\<close> and \<open>sb.ninodes\<close>. A call that has to wait for a sleep lock has
  the outcome \<open>Blocked\<close>. The line \<open>iinit\<close> prints at boot is not part of its model.
\<close>

section \<open>Layout of the disk (fs.h)\<close>

definition NINODE :: nat where "NINODE = 50"
definition ROOTDEV :: uint where "ROOTDEV = 1"
definition ROOTINO :: uint where "ROOTINO = 1"
definition NDIRECT :: nat where "NDIRECT = 12"
definition NINDIRECT :: nat where "NINDIRECT = BSIZE div 4"
definition MAXFILE :: nat where "MAXFILE = NDIRECT + NINDIRECT"
definition DINODE_SIZE :: nat where "DINODE_SIZE = 64"
definition IPB :: nat where "IPB = BSIZE div DINODE_SIZE"
definition BPB :: nat where "BPB = BSIZE * 8"

definition T_DIR :: ushort where "T_DIR = 1"
definition T_FILE :: ushort where "T_FILE = 2"
definition T_DEV :: ushort where "T_DEV = 3"

record dinode =
  d_type :: ushort
  d_major :: ushort
  d_minor :: ushort
  d_nlink :: ushort
  d_size :: uint
  d_addrs :: "uint list"

record inode =
  i_dev :: uint
  i_inum :: uint
  i_ref :: int
  i_valid :: bool
  i_type :: ushort
  i_major :: ushort
  i_minor :: ushort
  i_nlink :: ushort
  i_size :: uint
  i_addrs :: "uint list"

record kino = klog +
  icache :: "inode list"
  fsb :: superblock

definition IBLOCK :: "uint \<Rightarrow> superblock \<Rightarrow> uint" where
  "IBLOCK i sb = i div of_nat IPB + sb_inodestart sb"

definition BBLOCK :: "uint \<Rightarrow> superblock \<Rightarrow> uint" where
  "BBLOCK b sb = b div of_nat BPB + sb_bmapstart sb"

text \<open>Where inode \<open>inum\<close> starts in its block, and the words of its array of addresses.\<close>

definition dinode_off :: "uint \<Rightarrow> nat" where
  "dinode_off inum = (unat inum mod IPB) * DINODE_SIZE"

definition get_addrs :: "bytes \<Rightarrow> nat \<Rightarrow> uint list" where
  "get_addrs d k = map (\<lambda>i. get32 d (k + 4 * i)) [0..<NDIRECT + 1]"

definition put_addrs :: "bytes \<Rightarrow> nat \<Rightarrow> uint list \<Rightarrow> bytes" where
  "put_addrs d k as = fold (\<lambda>i d. put32 d (k + 4 * i) (as ! i)) [0..<NDIRECT + 1] d"

definition get_dinode :: "bytes \<Rightarrow> nat \<Rightarrow> dinode" where
  "get_dinode d k = \<lparr>d_type = get16 d k, d_major = get16 d (k + 2), d_minor = get16 d (k + 4),
     d_nlink = get16 d (k + 6), d_size = get32 d (k + 8), d_addrs = get_addrs d (k + 12)\<rparr>"

definition put_dinode :: "bytes \<Rightarrow> nat \<Rightarrow> dinode \<Rightarrow> bytes" where
  "put_dinode d k di = put_addrs (put32 (put16 (put16 (put16 (put16 d k (d_type di)) (k + 2) (d_major di))
     (k + 4) (d_minor di)) (k + 6) (d_nlink di)) (k + 8) (d_size di)) (k + 12) (d_addrs di)"

definition the_inode :: "nat \<Rightarrow> ('z kino_scheme, inode) kmon" where
  "the_inode ip = gets (\<lambda>s. icache s ! ip)"

definition upd_inode :: "nat \<Rightarrow> (inode \<Rightarrow> inode) \<Rightarrow> ('z kino_scheme, unit) kmon" where
  "upd_inode ip f = modify (\<lambda>s. s\<lparr>icache := (icache s)[ip := f (icache s ! ip)]\<rparr>)"

section \<open>Blocks\<close>

definition bzero :: "uint \<Rightarrow> uint \<Rightarrow> ('z klog_scheme, unit) kmon" where
  "bzero dev bno = bnd (bread dev bno) (\<lambda>bp. stmts [
     upd_buf bp (\<lambda>x. x\<lparr>b_data := memset (b_data x) 0 0 BSIZE\<rparr>),
     log_write bp,
     brelse bp])"

definition bit_mask :: "nat \<Rightarrow> uchar" where
  "bit_mask bi = push_bit (bi mod 8) 1"

definition block_free :: "bytes \<Rightarrow> nat \<Rightarrow> bool" where
  "block_free d bi \<longleftrightarrow> d (bi div 8) AND bit_mask bi = 0"

definition set_used :: "nat \<Rightarrow> bytes \<Rightarrow> bytes" where
  "set_used bi d = d(bi div 8 := d (bi div 8) OR bit_mask bi)"

definition set_free :: "nat \<Rightarrow> bytes \<Rightarrow> bytes" where
  "set_free bi d = d(bi div 8 := d (bi div 8) AND NOT (bit_mask bi))"

text \<open>The inner loop of \<open>balloc\<close>, and the outer one over the starts of the bitmap blocks.\<close>

definition balloc_find :: "bytes \<Rightarrow> nat \<Rightarrow> nat \<Rightarrow> nat option" where
  "balloc_find d b sz = find (block_free d) (filter (\<lambda>bi. b + bi < sz) [0..<BPB])"

fun balloc_from :: "uint \<Rightarrow> nat list \<Rightarrow> ('z kino_scheme, uint) kmon" where
  "balloc_from dev [] = panic ''balloc: out of blocks''"
| "balloc_from dev (b # bs) = bnd (gets fsb) (\<lambda>sb. bnd (bread dev (BBLOCK (of_nat b) sb)) (\<lambda>bp.
     bnd (gets (\<lambda>s. b_data (bufs s bp))) (\<lambda>d.
       case balloc_find d b (unat (sb_size sb)) of
         Some bi \<Rightarrow> sqn (stmts [
             upd_buf bp (\<lambda>x. x\<lparr>b_data := set_used bi (b_data x)\<rparr>),
             log_write bp,
             brelse bp,
             bzero dev (of_nat (b + bi))])
           (ret (of_nat (b + bi)))
       | None \<Rightarrow> sqn (brelse bp) (balloc_from dev bs))))"

definition bitmap_starts :: "nat \<Rightarrow> nat list" where
  "bitmap_starts sz = map (\<lambda>k. k * BPB) [0..<(sz + BPB - 1) div BPB]"

definition balloc :: "uint \<Rightarrow> ('z kino_scheme, uint) kmon" where
  "balloc dev = bnd (gets fsb) (\<lambda>sb. balloc_from dev (bitmap_starts (unat (sb_size sb))))"

definition bfree :: "uint \<Rightarrow> uint \<Rightarrow> ('z kino_scheme, unit) kmon" where
  "bfree dev b = bnd (readsb dev) (\<lambda>sb. sqn (modify (\<lambda>s. s\<lparr>fsb := sb\<rparr>))
     (bnd (bread dev (BBLOCK b sb)) (\<lambda>bp. bnd (gets (\<lambda>s. b_data (bufs s bp))) (\<lambda>d.
        let bi = unat b mod BPB in
        if block_free d bi then panic ''freeing free block''
        else stmts [
          upd_buf bp (\<lambda>x. x\<lparr>b_data := set_free bi (b_data x)\<rparr>),
          log_write bp,
          brelse bp]))))"

section \<open>The inode cache\<close>

definition iinit :: "uint \<Rightarrow> ('z kino_scheme, unit) kmon" where
  "iinit dev = sqn (forM [0..<NINODE] (\<lambda>i. initsleeplock (SL_inode i)))
     (bnd (readsb dev) (\<lambda>sb. modify (\<lambda>s. s\<lparr>fsb := sb\<rparr>)))"

definition iget :: "uint \<Rightarrow> uint \<Rightarrow> ('z kino_scheme, nat) kmon" where
  "iget dev inum = sqn (acquire L_icache)
     (bnd (gets icache) (\<lambda>c.
        case first_idx (\<lambda>x. i_ref x > 0 \<and> i_dev x = dev \<and> i_inum x = inum) c of
          Some ip \<Rightarrow> sqn (upd_inode ip (\<lambda>x. x\<lparr>i_ref := i_ref x + 1\<rparr>)) (sqn (release L_icache) (ret ip))
        | None \<Rightarrow> (case first_idx (\<lambda>x. i_ref x = 0) c of
            None \<Rightarrow> panic ''iget: no inodes''
          | Some ip \<Rightarrow>
              sqn (upd_inode ip (\<lambda>x. x\<lparr>i_dev := dev, i_inum := inum, i_ref := 1, i_valid := False\<rparr>))
                (sqn (release L_icache) (ret ip)))))"

fun ialloc_from :: "uint \<Rightarrow> ushort \<Rightarrow> nat list \<Rightarrow> ('z kino_scheme, nat) kmon" where
  "ialloc_from dev ty [] = panic ''ialloc: no inodes''"
| "ialloc_from dev ty (inum # is) = bnd (gets fsb) (\<lambda>sb. bnd (bread dev (IBLOCK (of_nat inum) sb)) (\<lambda>bp.
     let k = dinode_off (of_nat inum) in
     bnd (gets (\<lambda>s. get16 (b_data (bufs s bp)) k)) (\<lambda>t.
       if t = 0 then sqn (stmts [
           upd_buf bp (\<lambda>x. x\<lparr>b_data := put16 (memset (b_data x) k 0 DINODE_SIZE) k ty\<rparr>),
           log_write bp,
           brelse bp])
         (iget dev (of_nat inum))
       else sqn (brelse bp) (ialloc_from dev ty is))))"

definition ialloc :: "uint \<Rightarrow> ushort \<Rightarrow> ('z kino_scheme, nat) kmon" where
  "ialloc dev ty = bnd (gets fsb) (\<lambda>sb. ialloc_from dev ty [1..<unat (sb_ninodes sb)])"

definition to_dinode :: "inode \<Rightarrow> dinode" where
  "to_dinode x = \<lparr>d_type = i_type x, d_major = i_major x, d_minor = i_minor x, d_nlink = i_nlink x,
     d_size = i_size x, d_addrs = i_addrs x\<rparr>"

definition of_dinode :: "dinode \<Rightarrow> inode \<Rightarrow> inode" where
  "of_dinode d x = x\<lparr>i_type := d_type d, i_major := d_major d, i_minor := d_minor d, i_nlink := d_nlink d,
     i_size := d_size d, i_addrs := d_addrs d\<rparr>"

definition iupdate :: "nat \<Rightarrow> ('z kino_scheme, unit) kmon" where
  "iupdate ip = bnd (the_inode ip) (\<lambda>x. bnd (gets fsb) (\<lambda>sb.
     bnd (bread (i_dev x) (IBLOCK (i_inum x) sb)) (\<lambda>bp. stmts [
       upd_buf bp (\<lambda>y. y\<lparr>b_data := put_dinode (b_data y) (dinode_off (i_inum x)) (to_dinode x)\<rparr>),
       log_write bp,
       brelse bp])))"

definition idup :: "nat \<Rightarrow> ('z kino_scheme, nat) kmon" where
  "idup ip = sqn (stmts [
     acquire L_icache,
     upd_inode ip (\<lambda>x. x\<lparr>i_ref := i_ref x + 1\<rparr>),
     release L_icache])
     (ret ip)"

text \<open>What \<open>ilock\<close> does once it has the sleep lock.\<close>

definition ilock_read :: "nat \<Rightarrow> ('z kino_scheme, unit) kmon" where
  "ilock_read ip = bnd (the_inode ip) (\<lambda>x. whenM (\<not> i_valid x)
     (bnd (gets fsb) (\<lambda>sb. bnd (bread (i_dev x) (IBLOCK (i_inum x) sb)) (\<lambda>bp.
        bnd (gets (\<lambda>s. get_dinode (b_data (bufs s bp)) (dinode_off (i_inum x)))) (\<lambda>d. stmts [
          upd_inode ip (of_dinode d),
          brelse bp,
          upd_inode ip (\<lambda>x. x\<lparr>i_valid := True\<rparr>),
          whenM (d_type d = 0) (panic ''ilock: no type'')])))))"

definition ilock :: "nat option \<Rightarrow> ('z kino_scheme, unit) kmon" where
  "ilock p = (case p of
     None \<Rightarrow> panic ''ilock''
   | Some ip \<Rightarrow> bnd (the_inode ip) (\<lambda>x.
       if i_ref x < 1 then panic ''ilock''
       else sqn (acquiresleep (SL_inode ip)) (ilock_read ip)))"

definition iunlock :: "nat option \<Rightarrow> ('z kino_scheme, unit) kmon" where
  "iunlock p = (case p of
     None \<Rightarrow> panic ''iunlock''
   | Some ip \<Rightarrow> bnd (holdingsleep (SL_inode ip)) (\<lambda>h. bnd (the_inode ip) (\<lambda>x.
       if \<not> h \<or> i_ref x < 1 then panic ''iunlock'' else releasesleep (SL_inode ip))))"

section \<open>Freeing an inode\<close>

definition itrunc_direct :: "nat \<Rightarrow> nat \<Rightarrow> ('z kino_scheme, unit) kmon" where
  "itrunc_direct ip i = bnd (the_inode ip) (\<lambda>x. whenM (i_addrs x ! i \<noteq> 0) (stmts [
     bfree (i_dev x) (i_addrs x ! i),
     upd_inode ip (\<lambda>x. x\<lparr>i_addrs := (i_addrs x)[i := 0]\<rparr>)]))"

definition itrunc_indirect :: "nat \<Rightarrow> ('z kino_scheme, unit) kmon" where
  "itrunc_indirect ip = bnd (the_inode ip) (\<lambda>x. whenM (i_addrs x ! NDIRECT \<noteq> 0)
     (bnd (bread (i_dev x) (i_addrs x ! NDIRECT)) (\<lambda>bp. stmts [
        forM [0..<NINDIRECT] (\<lambda>j. bnd (gets (\<lambda>s. get32 (b_data (bufs s bp)) (4 * j))) (\<lambda>a.
          whenM (a \<noteq> 0) (bfree (i_dev x) a))),
        brelse bp,
        bfree (i_dev x) (i_addrs x ! NDIRECT),
        upd_inode ip (\<lambda>x. x\<lparr>i_addrs := (i_addrs x)[NDIRECT := 0]\<rparr>)])))"

definition itrunc :: "nat \<Rightarrow> ('z kino_scheme, unit) kmon" where
  "itrunc ip = stmts [
     forM [0..<NDIRECT] (itrunc_direct ip),
     itrunc_indirect ip,
     upd_inode ip (\<lambda>x. x\<lparr>i_size := 0\<rparr>),
     iupdate ip]"

definition iput :: "nat \<Rightarrow> ('z kino_scheme, unit) kmon" where
  "iput ip = stmts [
     acquiresleep (SL_inode ip),
     bnd (the_inode ip) (\<lambda>x. whenM (i_valid x \<and> i_nlink x = 0)
       (sqn (acquire L_icache) (bnd (the_inode ip) (\<lambda>y. sqn (release L_icache)
         (whenM (i_ref y = 1) (stmts [
           itrunc ip,
           upd_inode ip (\<lambda>x. x\<lparr>i_type := 0\<rparr>),
           iupdate ip,
           upd_inode ip (\<lambda>x. x\<lparr>i_valid := False\<rparr>)])))))),
     releasesleep (SL_inode ip),
     acquire L_icache,
     upd_inode ip (\<lambda>x. x\<lparr>i_ref := i_ref x - 1\<rparr>),
     release L_icache]"

definition iunlockput :: "nat \<Rightarrow> ('z kino_scheme, unit) kmon" where
  "iunlockput ip = stmts [iunlock (Some ip), iput ip]"

section \<open>The blocks of a file\<close>

text \<open>\<open>balloc\<close> into entry \<open>i\<close> of the array of addresses when it has none yet.\<close>

definition bmap_addr :: "nat \<Rightarrow> nat \<Rightarrow> ('z kino_scheme, uint) kmon" where
  "bmap_addr ip i = bnd (the_inode ip) (\<lambda>x.
     if i_addrs x ! i = 0
     then bnd (balloc (i_dev x)) (\<lambda>addr. sqn (upd_inode ip (\<lambda>x. x\<lparr>i_addrs := (i_addrs x)[i := addr]\<rparr>)) (ret addr))
     else ret (i_addrs x ! i))"

text \<open>The entry \<open>bn\<close> of the indirect block \<open>ind\<close>.\<close>

definition bmap_ind :: "nat \<Rightarrow> nat \<Rightarrow> uint \<Rightarrow> ('z kino_scheme, uint) kmon" where
  "bmap_ind ip bn ind = bnd (the_inode ip) (\<lambda>x. bnd (bread (i_dev x) ind) (\<lambda>bp.
     bnd (gets (\<lambda>s. get32 (b_data (bufs s bp)) (4 * bn))) (\<lambda>a.
       if a = 0 then bnd (balloc (i_dev x)) (\<lambda>addr. sqn (stmts [
           upd_buf bp (\<lambda>y. y\<lparr>b_data := put32 (b_data y) (4 * bn) addr\<rparr>),
           log_write bp,
           brelse bp])
         (ret addr))
       else sqn (brelse bp) (ret a))))"

definition bmap :: "nat \<Rightarrow> uint \<Rightarrow> ('z kino_scheme, uint) kmon" where
  "bmap ip bn =
     (if unat bn < NDIRECT then bmap_addr ip (unat bn)
      else let bn = unat (bn - of_nat NDIRECT) in
      if bn < NINDIRECT then bnd (bmap_addr ip NDIRECT) (bmap_ind ip bn)
      else panic ''bmap: out of range'')"

end
