(* ===== verification/Console.thy ===== *)
theory Console
  imports Inode
begin

text \<open>
  The console (src/console.c), \<open>procdump\<close> of src/proc.c, \<open>getcallerpcs\<close> of src/spinlock.c and the
  transmitter of src/uart.c.

  \<open>crt\<close> is the CGA memory, two bytes for each cell, \<open>crt_pos\<close> the cursor position the CRT
  controller keeps in two 8-bit registers, \<open>uart_out\<close> the bytes given to the serial port.
  \<open>devsw\<close> has \<open>True\<close> where \<open>consoleinit\<close> stores the console's functions. The arguments of
  \<open>cprintf\<close> are the words on its stack; \<open>str\<close> gives the characters of the string at an address.
  The results of the successive calls of \<open>getc\<close> in \<open>consoleintr\<close> are a list that ends where
  \<open>getc\<close> returns a negative number. A CPU that finds \<open>panicked\<close> set stops.
\<close>

definition INPUT_BUF :: uint where "INPUT_BUF = 128"
definition BACKSPACE :: int where "BACKSPACE = 0x100"
definition CONSOLE :: nat where "CONSOLE = 1"
definition NDEV :: nat where "NDEV = 10"

record kcons = kino +
  panicked :: bool
  cons_locking :: bool
  in_buf :: bytes
  in_r :: uint
  in_w :: uint
  in_e :: uint
  crt :: bytes
  crt_pos :: int
  uart :: bool
  uart_out :: "uchar list"
  devsw_read :: "nat \<Rightarrow> bool"
  devsw_write :: "nat \<Rightarrow> bool"

section \<open>Output\<close>

definition uartputc :: "int \<Rightarrow> ('z kcons_scheme, unit) kmon" where
  "uartputc c = bnd (gets uart) (\<lambda>u. whenM u (modify (\<lambda>s. s\<lparr>uart_out := uart_out s @ [word_of_int c]\<rparr>)))"

definition cga_scroll :: "int \<Rightarrow> bytes \<Rightarrow> bytes" where
  "cga_scroll pos m = memset (memmove m 0 160 (2 * 23 * 80)) (2 * nat pos) 0 (2 * nat (24 * 80 - pos))"

definition cgaputc :: "int \<Rightarrow> ('z kcons_scheme, unit) kmon" where
  "cgaputc c s =
     (let pos = crt_pos s;
          (pos, m) = (if c = 10 then (pos + (80 - pos mod 80), crt s)
             else if c = BACKSPACE then (if pos > 0 then pos - 1 else pos, crt s)
             else (pos + 1, put16 (crt s) (2 * nat pos) ((word_of_int c AND 0xFF) OR 0x0700)))
      in if pos < 0 \<or> pos > 25 * 80 then Panic ''pos under/overflow''
      else
        let (pos, m) = (if pos div 80 \<ge> 24 then (pos - 80, cga_scroll (pos - 80) m) else (pos, m))
        in Ok () (s\<lparr>crt := put16 m (2 * nat pos) (0x20 OR 0x0700), crt_pos := pos mod 65536\<rparr>))"

definition consputc :: "int \<Rightarrow> ('z kcons_scheme, unit) kmon" where
  "consputc c = bnd (gets panicked) (\<lambda>p.
     if p then panic ''frozen''
     else if c = BACKSPACE then stmts [uartputc 8, uartputc 32, uartputc 8, cgaputc c]
     else stmts [uartputc c, cgaputc c])"

text \<open>
  The digits of \<open>printint\<close>, last first, as the loop stores them in \<open>buf\<close>. The base is 10 or 16;
  the guard on it makes the recursion end.
\<close>

definition digits :: "int list" where
  "digits = map of_char ''0123456789abcdef''"

function printint_buf :: "nat \<Rightarrow> nat \<Rightarrow> int list" where
  "printint_buf base x = digits ! (x mod base) #
     (if x div base = 0 \<or> base < 2 then [] else printint_buf base (x div base))"
  by pat_completeness auto
termination
  by (relation "measure snd") (auto intro: Nat.gr0I simp: Suc_le_eq div_eq_0_iff)

definition printint_chars :: "int \<Rightarrow> nat \<Rightarrow> bool \<Rightarrow> int list" where
  "printint_chars xx base sign =
     (let neg = sign \<and> xx < 0;
          x = (if neg then word_of_int (- xx) else word_of_int xx :: uint)
      in (if neg then [of_char (CHR ''-'')] else []) @ rev (printint_buf base (unat x)))"

definition printint :: "int \<Rightarrow> nat \<Rightarrow> bool \<Rightarrow> ('z kcons_scheme, unit) kmon" where
  "printint xx base sign = forM (printint_chars xx base sign) consputc"

text \<open>The next argument of \<open>cprintf\<close>; reading past the last one is an error.\<close>

definition null_str :: "int list" where
  "null_str = map of_char ''(null)''"

fun cprintf_loop :: "(uint \<Rightarrow> int list) \<Rightarrow> char list \<Rightarrow> uint list \<Rightarrow> ('z kcons_scheme, unit) kmon" where
  "cprintf_loop str [] args = ret ()"
| "cprintf_loop str (f # fmt) args =
     (if f \<noteq> CHR ''%'' then sqn (consputc (of_char f)) (cprintf_loop str fmt args)
      else case fmt of
        [] \<Rightarrow> ret ()
      | c # fmt' \<Rightarrow>
          if c = CHR ''d'' then (case args of
              [] \<Rightarrow> panic ''out of bounds''
            | a # args' \<Rightarrow> sqn (printint (sint a) 10 True) (cprintf_loop str fmt' args'))
          else if c = CHR ''x'' \<or> c = CHR ''p'' then (case args of
              [] \<Rightarrow> panic ''out of bounds''
            | a # args' \<Rightarrow> sqn (printint (sint a) 16 False) (cprintf_loop str fmt' args'))
          else if c = CHR ''s'' then (case args of
              [] \<Rightarrow> panic ''out of bounds''
            | a # args' \<Rightarrow> sqn (forM (if a = 0 then null_str else str a) consputc) (cprintf_loop str fmt' args'))
          else if c = CHR ''%'' then sqn (consputc (of_char (CHR ''%''))) (cprintf_loop str fmt' args)
          else stmts [consputc (of_char (CHR ''%'')), consputc (of_char c), cprintf_loop str fmt' args])"

definition cprintf :: "(uint \<Rightarrow> int list) \<Rightarrow> char list \<Rightarrow> uint list \<Rightarrow> ('z kcons_scheme, unit) kmon" where
  "cprintf str fmt args = bnd (gets cons_locking) (\<lambda>locking. stmts [
     whenM locking (acquire L_cons),
     cprintf_loop str fmt args,
     whenM locking (release L_cons)])"

section \<open>The process listing\<close>

text \<open>Words of kernel memory, and the saved program counters along a chain of frames.\<close>

definition kbyte :: "'z kmem_scheme \<Rightarrow> uint \<Rightarrow> uchar" where
  "kbyte s a = mem s (PGROUNDDOWN a) (unat a mod 4096)"

definition kload :: "'z kmem_scheme \<Rightarrow> uint \<Rightarrow> uint" where
  "kload s a = get32 (\<lambda>i. kbyte s (a + of_nat i)) 0"

fun callerpcs :: "'z kmem_scheme \<Rightarrow> nat \<Rightarrow> uint \<Rightarrow> uint list" where
  "callerpcs s 0 ebp = []"
| "callerpcs s (Suc n) ebp =
     (if ebp = 0 \<or> ebp < KERNBASE \<or> ebp = 0xFFFFFFFF then replicate (Suc n) 0
      else kload s (ebp + 4) # callerpcs s n (kload s ebp))"

definition getcallerpcs :: "'z kmem_scheme \<Rightarrow> uint \<Rightarrow> uint list" where
  "getcallerpcs s v = callerpcs s 10 (v - 8)"

definition state_name :: "procstate \<Rightarrow> string" where
  "state_name st = (case st of UNUSED \<Rightarrow> ''unused'' | EMBRYO \<Rightarrow> ''embryo'' | SLEEPING \<Rightarrow> ''sleep ''
     | RUNNABLE \<Rightarrow> ''runble'' | RUNNING \<Rightarrow> ''run   '' | ZOMBIE \<Rightarrow> ''zombie'')"

definition name_chars :: "bytes \<Rightarrow> int list" where
  "name_chars nm = map sint (cstr nm 0 16)"

text \<open>\<open>str\<close> is chosen so that the addresses 1 and 2 are those of the state's and of the process's name.\<close>

definition procdump_one :: "proc \<Rightarrow> ('z kcons_scheme, unit) kmon" where
  "procdump_one p = (if p_state p = UNUSED then ret () else stmts [
     cprintf (\<lambda>a. if a = 1 then map of_char (state_name (p_state p)) else name_chars (p_name p))
       ''%d %s %s'' [word_of_int (p_pid p), 1, 2],
     whenM (p_state p = SLEEPING) (bnd (gets (\<lambda>s. getcallerpcs s (cx_ebp (p_context p) + 8))) (\<lambda>pc.
       forM (takeWhile (\<lambda>a. a \<noteq> 0) pc) (\<lambda>a. cprintf (\<lambda>_. []) '' %p'' [a]))),
     cprintf (\<lambda>_. []) [CHR 0x0A] []])"

definition procdump :: "('z kcons_scheme, unit) kmon" where
  "procdump = bnd (gets ptable) (\<lambda>ps. forM ps procdump_one)"

section \<open>Input\<close>

definition in_char :: "'z kcons_scheme \<Rightarrow> uint \<Rightarrow> uchar" where
  "in_char s i = in_buf s (unat (i mod INPUT_BUF))"

text \<open>The loop of control-U. \<open>n\<close> bounds the steps: \<open>input.e - input.w\<close> falls by one in each.\<close>

fun kill_line :: "nat \<Rightarrow> ('z kcons_scheme, unit) kmon" where
  "kill_line 0 = ret ()"
| "kill_line (Suc n) = bnd (gets (\<lambda>s. in_e s \<noteq> in_w s \<and> in_char s (in_e s - 1) \<noteq> 10)) (\<lambda>more.
     whenM more (stmts [
       modify (\<lambda>s. s\<lparr>in_e := in_e s - 1\<rparr>),
       consputc BACKSPACE,
       kill_line n]))"

definition input_char :: "int \<Rightarrow> ('z kcons_scheme, unit) kmon" where
  "input_char c = bnd (gets (\<lambda>s. c \<noteq> 0 \<and> in_e s - in_r s < INPUT_BUF)) (\<lambda>room. whenM room
     (let c = (if c = 13 then 10 else c) in stmts [
        modify (\<lambda>s. s\<lparr>in_buf := (in_buf s)(unat (in_e s mod INPUT_BUF) := word_of_int c), in_e := in_e s + 1\<rparr>),
        consputc c,
        bnd (gets (\<lambda>s. c = 10 \<or> c = 4 \<or> in_e s = in_r s + INPUT_BUF)) (\<lambda>eol.
          whenM eol (stmts [modify (\<lambda>s. s\<lparr>in_w := in_e s\<rparr>), wakeup C_input]))]))"

definition consoleintr_char :: "int \<Rightarrow> ('z kcons_scheme, unit) kmon" where
  "consoleintr_char c =
     (if c = 16 then ret ()
      else if c = 21 then bnd (gets (\<lambda>s. unat (in_e s - in_w s))) kill_line
      else if c = 8 \<or> c = 0x7F then bnd (gets (\<lambda>s. in_e s \<noteq> in_w s)) (\<lambda>b. whenM b (stmts [
        modify (\<lambda>s. s\<lparr>in_e := in_e s - 1\<rparr>),
        consputc BACKSPACE]))
      else input_char c)"

definition consoleintr :: "int list \<Rightarrow> ('z kcons_scheme, unit) kmon" where
  "consoleintr cs = stmts [
     acquire L_cons,
     forM (takeWhile (\<lambda>c. c \<ge> 0) cs) consoleintr_char,
     release L_cons,
     whenM (16 \<in> set (takeWhile (\<lambda>c. c \<ge> 0) cs)) procdump]"

text \<open>
  \<open>consoleread\<close> puts its characters in \<open>dst\<close> from index \<open>k\<close>; \<open>n\<close> are still wanted. It returns the
  count and the buffer.
\<close>

definition consoleread_end :: "nat \<Rightarrow> uint \<Rightarrow> nat \<Rightarrow> bytes \<Rightarrow> ('z kcons_scheme, int \<times> bytes) kmon" where
  "consoleread_end ip target n dst = sqn (release L_cons) (sqn (ilock (Some ip)) (ret (sint (target - of_nat n), dst)))"

fun consoleread_loop :: "nat \<Rightarrow> uint \<Rightarrow> nat \<Rightarrow> nat \<Rightarrow> bytes \<Rightarrow> ('z kcons_scheme, int \<times> bytes) kmon" where
  "consoleread_loop ip target 0 k dst = consoleread_end ip target 0 dst"
| "consoleread_loop ip target (Suc n) k dst = bnd (gets (\<lambda>s. in_r s = in_w s)) (\<lambda>empty.
     if empty then bnd myproc_killed (\<lambda>killed.
       if killed then sqn (release L_cons) (sqn (ilock (Some ip)) (ret (- 1, dst)))
       else sleep_wait C_input L_cons)
     else bnd (gets (\<lambda>s. in_char s (in_r s))) (\<lambda>c. sqn (modify (\<lambda>s. s\<lparr>in_r := in_r s + 1\<rparr>))
       (if c = 4 then
          sqn (whenM (of_nat (Suc n) < target) (modify (\<lambda>s. s\<lparr>in_r := in_r s - 1\<rparr>)))
            (consoleread_end ip target (Suc n) dst)
        else if c = 10 then consoleread_end ip target n (dst(k := c))
        else consoleread_loop ip target n (k + 1) (dst(k := c)))))"

definition consoleread :: "nat \<Rightarrow> bytes \<Rightarrow> int \<Rightarrow> ('z kcons_scheme, int \<times> bytes) kmon" where
  "consoleread ip dst n = sqn (iunlock (Some ip)) (sqn (acquire L_cons)
     (if n > 0 then consoleread_loop ip (word_of_int n) (nat n) 0 dst
      else sqn (release L_cons) (sqn (ilock (Some ip)) (ret (0, dst)))))"

definition consoleread_resume :: "nat \<Rightarrow> uint \<Rightarrow> nat \<Rightarrow> nat \<Rightarrow> bytes \<Rightarrow> ('z kcons_scheme, int \<times> bytes) kmon" where
  "consoleread_resume ip target n k dst = sqn (sleep_resume L_cons) (consoleread_loop ip target n k dst)"

definition consolewrite :: "nat \<Rightarrow> bytes \<Rightarrow> int \<Rightarrow> ('z kcons_scheme, int) kmon" where
  "consolewrite ip src n = sqn (stmts [
     iunlock (Some ip),
     acquire L_cons,
     forM [0..<nat n] (\<lambda>i. consputc (uint (src i))),
     release L_cons,
     ilock (Some ip)])
     (ret n)"

definition consoleinit :: "('z kcons_scheme, unit) kmon" where
  "consoleinit = modify (\<lambda>s. s\<lparr>devsw_write := (devsw_write s)(CONSOLE := True),
     devsw_read := (devsw_read s)(CONSOLE := True), cons_locking := True\<rparr>)"

end
