(* ===== verification/Fs.thy ===== *)
theory Fs
  imports Console
begin

text \<open>
  Files, directories and path names (src/fs.c from \<open>stati\<close> on).

  \<open>readi\<close> copies into the buffer it is given and returns it with the count; \<open>writei\<close> copies out
  of its buffer. Their loops run on naturals: the tests at the start make \<open>off + n\<close> fit in a
  \<open>uint\<close>. A directory entry is 16 bytes, the inode number at 0 and the name at 2. A path is the
  list of its characters before the NUL; a name is a buffer of \<open>DIRSIZ\<close> bytes. A function that
  returns a null pointer returns \<open>None\<close>.
\<close>

definition DIRSIZ :: nat where "DIRSIZ = 14"
definition DIRENT_SIZE :: nat where "DIRENT_SIZE = 16"

definition O_RDONLY :: int where "O_RDONLY = 0"
definition O_WRONLY :: int where "O_WRONLY = 0x001"
definition O_RDWR :: int where "O_RDWR = 0x002"
definition O_CREATE :: int where "O_CREATE = 0x200"

record stat =
  st_type :: ushort
  st_dev :: int
  st_ino :: uint
  st_nlink :: ushort
  st_size :: uint

definition deref :: "'p option \<Rightarrow> ('p \<Rightarrow> ('s, 'a) kmon) \<Rightarrow> ('s, 'a) kmon" where
  "deref p k = (case p of None \<Rightarrow> panic ''null pointer'' | Some x \<Rightarrow> k x)"

definition stati :: "nat \<Rightarrow> ('z kino_scheme, stat) kmon" where
  "stati ip = bnd (the_inode ip) (\<lambda>x. ret \<lparr>st_type = i_type x, st_dev = sint (i_dev x), st_ino = i_inum x,
     st_nlink = i_nlink x, st_size = i_size x\<rparr>)"

section \<open>Contents\<close>

definition chunk :: "nat \<Rightarrow> nat \<Rightarrow> nat" where
  "chunk left off = min left (BSIZE - off mod BSIZE)"

lemma chunk_pos: "0 < left \<Longrightarrow> 0 < chunk left off"
  by (simp add: chunk_def BSIZE_def)

lemma chunk_le: "chunk left off \<le> left"
  by (simp add: chunk_def)

function readi_loop :: "nat \<Rightarrow> nat \<Rightarrow> nat \<Rightarrow> nat \<Rightarrow> bytes \<Rightarrow> ('z kino_scheme, bytes) kmon" where
  "readi_loop ip off tot n dst =
     (if tot < n then
        bnd (the_inode ip) (\<lambda>x. bnd (bmap ip (of_nat (off div BSIZE))) (\<lambda>addr. bnd (bread (i_dev x) addr) (\<lambda>bp.
          bnd (gets (\<lambda>s. b_data (bufs s bp))) (\<lambda>d. sqn (brelse bp)
            (readi_loop ip (off + chunk (n - tot) off) (tot + chunk (n - tot) off) n
               (memmove_from dst tot d (off mod BSIZE) (chunk (n - tot) off)))))))
      else ret dst)"
  by pat_completeness auto
termination
  by (relation "measure (\<lambda>(ip, off, tot, n, dst). n - tot)") (auto simp: chunk_pos intro: diff_less_mono2)

definition readi :: "nat \<Rightarrow> bytes \<Rightarrow> uint \<Rightarrow> uint \<Rightarrow> ('z kcons_scheme, int \<times> bytes) kmon" where
  "readi ip dst off n = bnd (the_inode ip) (\<lambda>x.
     if i_type x = T_DEV then bnd (gets devsw_read) (\<lambda>sw.
       if sint (i_major x) < 0 \<or> sint (i_major x) \<ge> int NDEV \<or> \<not> sw (unat (i_major x)) then ret (- 1, dst)
       else consoleread ip dst (sint n))
     else if off > i_size x \<or> off + n < off then ret (- 1, dst)
     else let n = (if off + n > i_size x then i_size x - off else n)
       in bnd (readi_loop ip (unat off) 0 (unat n) dst) (\<lambda>dst. ret (sint n, dst)))"

function writei_loop :: "nat \<Rightarrow> bytes \<Rightarrow> nat \<Rightarrow> nat \<Rightarrow> nat \<Rightarrow> ('z kino_scheme, unit) kmon" where
  "writei_loop ip src off tot n =
     (if tot < n then
        bnd (the_inode ip) (\<lambda>x. bnd (bmap ip (of_nat (off div BSIZE))) (\<lambda>addr. bnd (bread (i_dev x) addr) (\<lambda>bp.
          sqn (stmts [
            upd_buf bp (\<lambda>y. y\<lparr>b_data := memmove_from (b_data y) (off mod BSIZE) src tot (chunk (n - tot) off)\<rparr>),
            log_write bp,
            brelse bp])
          (writei_loop ip src (off + chunk (n - tot) off) (tot + chunk (n - tot) off) n))))
      else ret ())"
  by pat_completeness auto
termination
  by (relation "measure (\<lambda>(ip, src, off, tot, n). n - tot)") (auto simp: chunk_pos intro: diff_less_mono2)

definition writei :: "nat \<Rightarrow> bytes \<Rightarrow> uint \<Rightarrow> uint \<Rightarrow> ('z kcons_scheme, int) kmon" where
  "writei ip src off n = bnd (the_inode ip) (\<lambda>x.
     if i_type x = T_DEV then bnd (gets devsw_write) (\<lambda>sw.
       if sint (i_major x) < 0 \<or> sint (i_major x) \<ge> int NDEV \<or> \<not> sw (unat (i_major x)) then ret (- 1)
       else consolewrite ip src (sint n))
     else if off > i_size x \<or> off + n < off then ret (- 1)
     else if off + n > of_nat (MAXFILE * BSIZE) then ret (- 1)
     else sqn (writei_loop ip src (unat off) 0 (unat n))
       (bnd (the_inode ip) (\<lambda>y. sqn (whenM (n > 0 \<and> off + n > i_size y) (stmts [
            upd_inode ip (\<lambda>y. y\<lparr>i_size := off + n\<rparr>),
            iupdate ip]))
          (ret (sint n)))))"

section \<open>Directories\<close>

definition namecmp :: "bytes \<Rightarrow> nat \<Rightarrow> bytes \<Rightarrow> nat \<Rightarrow> int" where
  "namecmp ms s mt t = strncmp ms s mt t DIRSIZ"

definition de_inum :: "bytes \<Rightarrow> ushort" where
  "de_inum de = get16 de 0"

text \<open>The offsets a loop over the entries of a directory of a given size visits.\<close>

definition dirent_offs :: "nat \<Rightarrow> nat list" where
  "dirent_offs sz = map (\<lambda>k. k * DIRENT_SIZE) [0..<(sz + DIRENT_SIZE - 1) div DIRENT_SIZE]"

text \<open>Reading one entry; the message tells the two callers apart.\<close>

definition read_dirent :: "string \<Rightarrow> nat \<Rightarrow> nat \<Rightarrow> bytes \<Rightarrow> ('z kcons_scheme, bytes) kmon" where
  "read_dirent msg dp off de = bnd (readi dp de (of_nat off) (of_nat DIRENT_SIZE)) (\<lambda>(r, de).
     if r \<noteq> int DIRENT_SIZE then panic msg else ret de)"

fun dirlookup_loop :: "nat \<Rightarrow> bytes \<Rightarrow> bytes \<Rightarrow> nat list \<Rightarrow> ('z kcons_scheme, (nat \<times> nat) option) kmon" where
  "dirlookup_loop dp name de [] = ret None"
| "dirlookup_loop dp name de (off # offs) = bnd (read_dirent ''dirlookup read'' dp off de) (\<lambda>de.
     if de_inum de = 0 then dirlookup_loop dp name de offs
     else if namecmp name 0 de 2 = 0
     then bnd (the_inode dp) (\<lambda>x. bnd (iget (i_dev x) (ucast (de_inum de))) (\<lambda>ip. ret (Some (ip, off))))
     else dirlookup_loop dp name de offs)"

definition dirlookup :: "nat \<Rightarrow> bytes \<Rightarrow> ('z kcons_scheme, (nat \<times> nat) option) kmon" where
  "dirlookup dp name = bnd (the_inode dp) (\<lambda>x.
     if i_type x \<noteq> T_DIR then panic ''dirlookup not DIR''
     else dirlookup_loop dp name (\<lambda>_. 0) (dirent_offs (unat (i_size x))))"

fun dirlink_find :: "nat \<Rightarrow> bytes \<Rightarrow> nat list \<Rightarrow> nat \<Rightarrow> ('z kcons_scheme, nat \<times> bytes) kmon" where
  "dirlink_find dp de [] nxt = ret (nxt, de)"
| "dirlink_find dp de (off # offs) nxt = bnd (read_dirent ''dirlink read'' dp off de) (\<lambda>de.
     if de_inum de = 0 then ret (off, de) else dirlink_find dp de offs (off + DIRENT_SIZE))"

definition dirlink :: "nat \<Rightarrow> bytes \<Rightarrow> uint \<Rightarrow> ('z kcons_scheme, int) kmon" where
  "dirlink dp name inum = bnd (dirlookup dp name) (\<lambda>found. case found of
     Some (ip, _) \<Rightarrow> sqn (iput ip) (ret (- 1))
   | None \<Rightarrow> bnd (the_inode dp) (\<lambda>x. bnd (dirlink_find dp (\<lambda>_. 0) (dirent_offs (unat (i_size x))) 0) (\<lambda>(off, de).
       let de = put16 (strncpy de 2 name 0 (int DIRSIZ)) 0 (ucast inum) in
       bnd (writei dp de (of_nat off) (of_nat DIRENT_SIZE)) (\<lambda>r.
         if r \<noteq> int DIRENT_SIZE then panic ''dirlink'' else ret 0))))"

section \<open>Paths\<close>

definition slash :: uchar where "slash = of_char (CHR ''/'')"

definition list_bytes :: "uchar list \<Rightarrow> bytes" where
  "list_bytes xs i = (if i < length xs then xs ! i else 0)"

definition skipelem :: "uchar list \<Rightarrow> bytes \<Rightarrow> (uchar list \<times> bytes) option" where
  "skipelem pth name =
     (let pth = dropWhile (\<lambda>c. c = slash) pth in
      if pth = [] then None
      else
        let s = takeWhile (\<lambda>c. c \<noteq> slash) pth;
            len = length s;
            name = (if len \<ge> DIRSIZ then memmove_from name 0 (list_bytes s) 0 DIRSIZ
              else (memmove_from name 0 (list_bytes s) 0 len)(len := 0))
        in Some (dropWhile (\<lambda>c. c = slash) (dropWhile (\<lambda>c. c \<noteq> slash) pth), name))"

lemma skipelem_shorter: "skipelem pth name = Some (rest, name') \<Longrightarrow> length rest < length pth"
proof -
  assume *: "skipelem pth name = Some (rest, name')"
  let ?p = "dropWhile (\<lambda>c. c = slash) pth"
  have ne: "?p \<noteq> []" and rest: "rest = dropWhile (\<lambda>c. c = slash) (dropWhile (\<lambda>c. c \<noteq> slash) ?p)"
    using * by (auto simp: skipelem_def Let_def split: if_splits)
  from ne have "hd ?p \<noteq> slash" by (rule hd_dropWhile)
  with ne have "length (dropWhile (\<lambda>c. c \<noteq> slash) ?p) < length ?p"
    by (cases ?p) (auto simp: le_imp_less_Suc length_dropWhile_le)
  moreover have "length rest \<le> length (dropWhile (\<lambda>c. c \<noteq> slash) ?p)" "length ?p \<le> length pth"
    by (simp_all add: rest length_dropWhile_le)
  ultimately show ?thesis by linarith
qed

function namex_loop :: "nat \<Rightarrow> uchar list \<Rightarrow> bool \<Rightarrow> bytes \<Rightarrow> ('z kcons_scheme, nat option \<times> bytes) kmon" where
  "namex_loop ip pth parent name = (case skipelem pth name of
     None \<Rightarrow> if parent then sqn (iput ip) (ret (None, name)) else ret (Some ip, name)
   | Some (rest, name) \<Rightarrow> sqn (ilock (Some ip)) (bnd (the_inode ip) (\<lambda>x.
       if i_type x \<noteq> T_DIR then sqn (iunlockput ip) (ret (None, name))
       else if parent \<and> rest = [] then sqn (iunlock (Some ip)) (ret (Some ip, name))
       else bnd (dirlookup ip name) (\<lambda>found. case found of
         None \<Rightarrow> sqn (iunlockput ip) (ret (None, name))
       | Some (next, _) \<Rightarrow> sqn (iunlockput ip) (namex_loop next rest parent name)))))"
  by pat_completeness auto
termination
  by (relation "measure (\<lambda>(ip, pth, parent, name). length pth)") (auto dest: skipelem_shorter)

definition namex :: "uchar list \<Rightarrow> bool \<Rightarrow> bytes \<Rightarrow> ('z kcons_scheme, nat option \<times> bytes) kmon" where
  "namex pth parent name =
     (if pth \<noteq> [] \<and> hd pth = slash then
        bnd (iget ROOTDEV ROOTINO) (\<lambda>ip. namex_loop ip pth parent name)
      else bnd myproc (\<lambda>me. deref me (\<lambda>i. bnd (gets (\<lambda>s. p_cwd (the_proc s i))) (\<lambda>cwd.
        deref cwd (\<lambda>d. bnd (idup d) (\<lambda>ip. namex_loop ip pth parent name))))))"

definition namei :: "uchar list \<Rightarrow> ('z kcons_scheme, nat option) kmon" where
  "namei pth = bnd (namex pth False (\<lambda>_. 0)) (\<lambda>(ip, _). ret ip)"

definition nameiparent :: "uchar list \<Rightarrow> bytes \<Rightarrow> ('z kcons_scheme, nat option \<times> bytes) kmon" where
  "nameiparent pth name = namex pth True name"

end
