(* ===== verification/Vm.thy ===== *)
theory Vm
  imports Fs
begin

text \<open>
  Page tables (src/vm.c, the macros of src/mmu.h). A page table is two levels of 1024 words in
  pages of \<open>mem\<close>. A pointer to an entry is the address of its page and the index in it, a null
  pointer is \<open>None\<close>; a null page directory is the address 0. Addresses in the loops over user
  memory are naturals: they stay below \<open>KERNBASE\<close>. The loop of \<open>mappages\<close>, which may end at the
  top of the address space, counts its pages with the \<open>uint\<close> arithmetic of the source.
  \<open>seginit\<close>, the descriptor of the task segment in \<open>switchuvm\<close> and the flushing of the TLB are
  not modelled.
\<close>

definition PTE_P :: uint where "PTE_P = 0x001"
definition PTE_W :: uint where "PTE_W = 0x002"
definition PTE_U :: uint where "PTE_U = 0x004"
definition DEVSPACE :: uint where "DEVSPACE = 0xFE000000"
definition KERNLINK :: uint where "KERNLINK = KERNBASE + EXTMEM"

definition PDX :: "uint \<Rightarrow> nat" where "PDX va = unat (drop_bit 22 va AND 0x3FF)"
definition PTX :: "uint \<Rightarrow> nat" where "PTX va = unat (drop_bit 12 va AND 0x3FF)"
definition PTE_ADDR :: "uint \<Rightarrow> uint" where "PTE_ADDR pte = pte AND NOT 0xFFF"
definition PTE_FLAGS :: "uint \<Rightarrow> uint" where "PTE_FLAGS pte = pte AND 0xFFF"

type_synonym pteptr = "uint \<times> nat"

definition pte_at :: "'z kmem_scheme \<Rightarrow> pteptr \<Rightarrow> uint" where
  "pte_at s p = get32 (mem s (fst p)) (4 * snd p)"

definition set_pte :: "pteptr \<Rightarrow> uint \<Rightarrow> ('z kmem_scheme, unit) kmon" where
  "set_pte p v = upd_page (fst p) (\<lambda>b. put32 b (4 * snd p) v)"

section \<open>Walking and mapping\<close>

definition walkpgdir :: "uint \<Rightarrow> uint \<Rightarrow> bool \<Rightarrow> ('z kmem_scheme, pteptr option) kmon" where
  "walkpgdir pgdir va alloc = bnd (gets (\<lambda>s. pte_at s (pgdir, PDX va))) (\<lambda>pde.
     if pde AND PTE_P \<noteq> 0 then ret (Some (P2V (PTE_ADDR pde), PTX va))
     else if \<not> alloc then ret None
     else bnd kalloc (\<lambda>pgtab.
       if pgtab = 0 then ret None
       else sqn (stmts [
           upd_page pgtab (\<lambda>b. memset b 0 0 4096),
           set_pte (pgdir, PDX va) (V2P pgtab OR PTE_P OR PTE_W OR PTE_U)])
         (ret (Some (pgtab, PTX va)))))"

primrec mappages_loop :: "nat \<Rightarrow> uint \<Rightarrow> uint \<Rightarrow> uint \<Rightarrow> uint \<Rightarrow> ('z kmem_scheme, int) kmon" where
  "mappages_loop 0 pgdir a pa perm = bnd (walkpgdir pgdir a True) (\<lambda>w. case w of
     None \<Rightarrow> ret (- 1)
   | Some pte \<Rightarrow> bnd (gets (\<lambda>s. pte_at s pte)) (\<lambda>v.
       if v AND PTE_P \<noteq> 0 then panic ''remap''
       else sqn (set_pte pte (pa OR perm OR PTE_P)) (ret 0)))"
| "mappages_loop (Suc n) pgdir a pa perm = bnd (walkpgdir pgdir a True) (\<lambda>w. case w of
     None \<Rightarrow> ret (- 1)
   | Some pte \<Rightarrow> bnd (gets (\<lambda>s. pte_at s pte)) (\<lambda>v.
       if v AND PTE_P \<noteq> 0 then panic ''remap''
       else sqn (set_pte pte (pa OR perm OR PTE_P)) (mappages_loop n pgdir (a + PGSIZE) (pa + PGSIZE) perm)))"

definition mappages :: "uint \<Rightarrow> uint \<Rightarrow> uint \<Rightarrow> uint \<Rightarrow> uint \<Rightarrow> ('z kmem_scheme, int) kmon" where
  "mappages pgdir va sz pa perm =
     (let a = PGROUNDDOWN va; last = PGROUNDDOWN (va + sz - 1)
      in mappages_loop (unat ((last - a) div PGSIZE)) pgdir a pa perm)"

section \<open>Freeing user memory\<close>

text \<open>The next address after the page table that \<open>walkpgdir\<close> did not find.\<close>

definition next_pgdir :: "nat \<Rightarrow> nat" where
  "next_pgdir a = (a div 4194304 + 1) * 4194304"

lemma next_pgdir_greater: "a < next_pgdir a"
  unfolding next_pgdir_def by (metis add.commute dividend_less_div_times mult.commute mult_Suc plus_1_eq_Suc zero_less_numeral)

function deallocuvm_loop :: "uint \<Rightarrow> nat \<Rightarrow> nat \<Rightarrow> ('z kmem_scheme, unit) kmon" where
  "deallocuvm_loop pgdir a oldsz =
     (if a < oldsz then bnd (walkpgdir pgdir (of_nat a) False) (\<lambda>w. case w of
        None \<Rightarrow> deallocuvm_loop pgdir (next_pgdir a) oldsz
      | Some pte \<Rightarrow> bnd (gets (\<lambda>s. pte_at s pte)) (\<lambda>v.
          if v AND PTE_P \<noteq> 0 then
            (if PTE_ADDR v = 0 then panic ''kfree''
             else stmts [
               kfree (P2V (PTE_ADDR v)),
               set_pte pte 0,
               deallocuvm_loop pgdir (a + 4096) oldsz])
          else deallocuvm_loop pgdir (a + 4096) oldsz))
      else ret ())"
  by pat_completeness auto
termination
  by (relation "measure (\<lambda>(pgdir, a, oldsz). oldsz - a)") (auto intro: diff_less_mono2 next_pgdir_greater)

definition deallocuvm :: "uint \<Rightarrow> uint \<Rightarrow> uint \<Rightarrow> ('z kmem_scheme, uint) kmon" where
  "deallocuvm pgdir oldsz newsz =
     (if newsz \<ge> oldsz then ret oldsz
      else sqn (deallocuvm_loop pgdir (unat (PGROUNDUP newsz)) (unat oldsz)) (ret newsz))"

definition freevm :: "uint \<Rightarrow> ('z kmem_scheme, unit) kmon" where
  "freevm pgdir = (if pgdir = 0 then panic ''freevm: no pgdir'' else
     sqn (deallocuvm pgdir KERNBASE 0) (stmts [
       forM [0..<1024] (\<lambda>i. bnd (gets (\<lambda>s. pte_at s (pgdir, i))) (\<lambda>v.
         whenM (v AND PTE_P \<noteq> 0) (kfree (P2V (PTE_ADDR v))))),
       kfree pgdir]))"

section \<open>The kernel's mappings\<close>

definition kmap :: "uint \<Rightarrow> (uint \<times> uint \<times> uint \<times> uint) list" where
  "kmap data = [
     (KERNBASE, 0, EXTMEM, PTE_W),
     (KERNLINK, V2P KERNLINK, V2P data, 0),
     (data, V2P data, PHYSTOP, PTE_W),
     (DEVSPACE, DEVSPACE, 0, PTE_W)]"

fun setupkvm_loop :: "uint \<Rightarrow> (uint \<times> uint \<times> uint \<times> uint) list \<Rightarrow> ('z kmem_scheme, uint) kmon" where
  "setupkvm_loop pgdir [] = ret pgdir"
| "setupkvm_loop pgdir ((virt, phys_start, phys_end, perm) # ks) =
     bnd (mappages pgdir virt (phys_end - phys_start) phys_start perm) (\<lambda>r.
       if r < 0 then sqn (freevm pgdir) (ret 0) else setupkvm_loop pgdir ks)"

definition setupkvm :: "('z kmem_scheme, uint) kmon" where
  "setupkvm = bnd kalloc (\<lambda>pgdir.
     if pgdir = 0 then ret 0
     else sqn (upd_page pgdir (\<lambda>b. memset b 0 0 4096))
       (if P2V PHYSTOP > DEVSPACE then panic ''PHYSTOP too high''
        else bnd (gets kdata) (\<lambda>data. setupkvm_loop pgdir (kmap data))))"

definition kvmalloc :: "('z kmem_scheme, unit) kmon" where
  "kvmalloc = bnd setupkvm (\<lambda>p. stmts [modify (\<lambda>s. s\<lparr>kpgdir := p\<rparr>), switchkvm])"

section \<open>User memory\<close>

definition inituvm :: "uint \<Rightarrow> bytes \<Rightarrow> uint \<Rightarrow> ('z kmem_scheme, unit) kmon" where
  "inituvm pgdir init sz =
     (if sz \<ge> PGSIZE then panic ''inituvm: more than a page''
      else bnd kalloc (\<lambda>m.
        if m = 0 then panic ''null pointer''
        else sqn (upd_page m (\<lambda>b. memset b 0 0 4096))
          (sqn (mappages pgdir 0 PGSIZE (V2P m) (PTE_W OR PTE_U))
            (upd_page m (\<lambda>b. memmove_from b 0 init 0 (unat sz))))))"

definition page_starts :: "nat \<Rightarrow> nat list" where
  "page_starts sz = map (\<lambda>k. k * 4096) [0..<(sz + 4095) div 4096]"

fun loaduvm_loop :: "uint \<Rightarrow> uint \<Rightarrow> nat \<Rightarrow> uint \<Rightarrow> uint \<Rightarrow> nat list \<Rightarrow> ('z kcons_scheme, int) kmon" where
  "loaduvm_loop pgdir addr ip offset sz [] = ret 0"
| "loaduvm_loop pgdir addr ip offset sz (i # is) = bnd (walkpgdir pgdir (addr + of_nat i) False) (\<lambda>w. case w of
     None \<Rightarrow> panic ''loaduvm: address should exist''
   | Some pte \<Rightarrow> bnd (gets (\<lambda>s. P2V (PTE_ADDR (pte_at s pte)))) (\<lambda>page.
       let n = (if sz - of_nat i < PGSIZE then sz - of_nat i else PGSIZE) in
       bnd (gets (\<lambda>s. mem s page)) (\<lambda>dst. bnd (readi ip dst (offset + of_nat i) n) (\<lambda>(r, dst).
         sqn (upd_page page (\<lambda>_. dst))
           (if word_of_int r \<noteq> n then ret (- 1) else loaduvm_loop pgdir addr ip offset sz is)))))"

definition loaduvm :: "uint \<Rightarrow> uint \<Rightarrow> nat \<Rightarrow> uint \<Rightarrow> uint \<Rightarrow> ('z kcons_scheme, int) kmon" where
  "loaduvm pgdir addr ip offset sz =
     (if addr mod PGSIZE \<noteq> 0 then panic ''loaduvm: addr must be page aligned''
      else loaduvm_loop pgdir addr ip offset sz (page_starts (unat sz)))"

definition oom_msg :: "string \<Rightarrow> ('z kcons_scheme, unit) kmon" where
  "oom_msg m = cprintf (\<lambda>_. []) (m @ [CHR 0x0A]) []"

function allocuvm_loop :: "uint \<Rightarrow> uint \<Rightarrow> uint \<Rightarrow> nat \<Rightarrow> ('z kcons_scheme, uint) kmon" where
  "allocuvm_loop pgdir oldsz newsz a =
     (if a < unat newsz then bnd kalloc (\<lambda>m.
        if m = 0 then sqn (oom_msg ''allocuvm out of memory'') (sqn (deallocuvm pgdir newsz oldsz) (ret 0))
        else sqn (upd_page m (\<lambda>b. memset b 0 0 4096))
          (bnd (mappages pgdir (of_nat a) PGSIZE (V2P m) (PTE_W OR PTE_U)) (\<lambda>r.
             if r < 0 then sqn (oom_msg ''allocuvm out of memory (2)'')
               (sqn (deallocuvm pgdir newsz oldsz) (sqn (kfree m) (ret 0)))
             else allocuvm_loop pgdir oldsz newsz (a + 4096))))
      else ret newsz)"
  by pat_completeness auto
termination
  by (relation "measure (\<lambda>(pgdir, oldsz, newsz, a). unat newsz - a)") auto

definition allocuvm :: "uint \<Rightarrow> uint \<Rightarrow> uint \<Rightarrow> ('z kcons_scheme, uint) kmon" where
  "allocuvm pgdir oldsz newsz =
     (if newsz \<ge> KERNBASE then ret 0
      else if newsz < oldsz then ret oldsz
      else allocuvm_loop pgdir oldsz newsz (unat (PGROUNDUP oldsz)))"

definition clearpteu :: "uint \<Rightarrow> uint \<Rightarrow> ('z kmem_scheme, unit) kmon" where
  "clearpteu pgdir uva = bnd (walkpgdir pgdir uva False) (\<lambda>w. case w of
     None \<Rightarrow> panic ''clearpteu''
   | Some pte \<Rightarrow> bnd (gets (\<lambda>s. pte_at s pte)) (\<lambda>v. set_pte pte (v AND NOT PTE_U)))"

fun copyuvm_loop :: "uint \<Rightarrow> uint \<Rightarrow> nat list \<Rightarrow> ('z kmem_scheme, uint) kmon" where
  "copyuvm_loop pgdir d [] = ret d"
| "copyuvm_loop pgdir d (i # is) = bnd (walkpgdir pgdir (of_nat i) False) (\<lambda>w. case w of
     None \<Rightarrow> panic ''copyuvm: pte should exist''
   | Some pte \<Rightarrow> bnd (gets (\<lambda>s. pte_at s pte)) (\<lambda>v.
       if v AND PTE_P = 0 then panic ''copyuvm: page not present''
       else bnd kalloc (\<lambda>m.
         if m = 0 then sqn (freevm d) (ret 0)
         else sqn (bnd (gets (\<lambda>s. mem s (P2V (PTE_ADDR v)))) (\<lambda>src. upd_page m (\<lambda>b. memmove_from b 0 src 0 4096)))
           (bnd (mappages d (of_nat i) PGSIZE (V2P m) (PTE_FLAGS v)) (\<lambda>r.
              if r < 0 then sqn (kfree m) (sqn (freevm d) (ret 0))
              else copyuvm_loop pgdir d is)))))"

definition copyuvm :: "uint \<Rightarrow> uint \<Rightarrow> ('z kmem_scheme, uint) kmon" where
  "copyuvm pgdir sz = bnd setupkvm (\<lambda>d. if d = 0 then ret 0 else copyuvm_loop pgdir d (page_starts (unat sz)))"

section \<open>Copying to user memory\<close>

definition uva2ka :: "uint \<Rightarrow> uint \<Rightarrow> ('z kmem_scheme, uint) kmon" where
  "uva2ka pgdir uva = bnd (walkpgdir pgdir uva False) (\<lambda>w. deref w (\<lambda>pte.
     bnd (gets (\<lambda>s. pte_at s pte)) (\<lambda>v.
       if v AND PTE_P = 0 then ret 0
       else if v AND PTE_U = 0 then ret 0
       else ret (P2V (PTE_ADDR v)))))"

definition copyout_n :: "uint \<Rightarrow> nat \<Rightarrow> nat" where
  "copyout_n va left = min (4096 - unat va mod 4096) left"

lemma copyout_n_pos: "0 < left \<Longrightarrow> 0 < copyout_n va left"
  by (simp add: copyout_n_def)

function copyout_loop :: "uint \<Rightarrow> uint \<Rightarrow> bytes \<Rightarrow> nat \<Rightarrow> nat \<Rightarrow> ('z kmem_scheme, int) kmon" where
  "copyout_loop pgdir va p k left =
     (if left > 0 then bnd (uva2ka pgdir (PGROUNDDOWN va)) (\<lambda>pa0.
        if pa0 = 0 then ret (- 1)
        else sqn (upd_page pa0 (\<lambda>b. memmove_from b (unat (va - PGROUNDDOWN va)) p k (copyout_n va left)))
          (copyout_loop pgdir (PGROUNDDOWN va + PGSIZE) p (k + copyout_n va left) (left - copyout_n va left)))
      else ret 0)"
  by pat_completeness auto
termination
  by (relation "measure (\<lambda>(pgdir, va, p, k, left). left)") (auto simp: copyout_n_pos)

definition copyout :: "uint \<Rightarrow> uint \<Rightarrow> bytes \<Rightarrow> uint \<Rightarrow> ('z kmem_scheme, int) kmon" where
  "copyout pgdir va p len = copyout_loop pgdir va p 0 (unat len)"

end
