(* ===== verification/File.thy ===== *)
theory File
  imports Fs
begin

text \<open>
  Open files (src/file.c, \<open>struct file\<close> of src/file.h) and \<open>pipealloc\<close> of src/pipe.c.

  A pointer into \<open>ftable.file\<close> is an index. \<open>fileread\<close> returns the buffer it has filled with the
  count; \<open>filewrite\<close> reads from its buffer, the loop starting at byte \<open>i\<close>.
\<close>

definition NFILE :: nat where "NFILE = 100"

datatype ftype = FD_NONE | FD_PIPE | FD_INODE

record ofile =
  f_type :: ftype
  f_ref :: int
  f_readable :: bool
  f_writable :: bool
  f_pipe :: uint
  f_ip :: "nat option"
  f_off :: uint

record kfile = kcons +
  ftable :: "ofile list"

definition the_file :: "nat \<Rightarrow> ('z kfile_scheme, ofile) kmon" where
  "the_file f = gets (\<lambda>s. ftable s ! f)"

definition upd_file :: "nat \<Rightarrow> (ofile \<Rightarrow> ofile) \<Rightarrow> ('z kfile_scheme, unit) kmon" where
  "upd_file f g = modify (\<lambda>s. s\<lparr>ftable := (ftable s)[f := g (ftable s ! f)]\<rparr>)"

definition filealloc :: "('z kfile_scheme, nat option) kmon" where
  "filealloc = sqn (acquire L_ftable)
     (bnd (gets (\<lambda>s. first_idx (\<lambda>x. f_ref x = 0) (ftable s))) (\<lambda>w. case w of
        Some f \<Rightarrow> sqn (upd_file f (\<lambda>x. x\<lparr>f_ref := 1\<rparr>)) (sqn (release L_ftable) (ret (Some f)))
      | None \<Rightarrow> sqn (release L_ftable) (ret None)))"

definition filedup :: "nat \<Rightarrow> ('z kfile_scheme, nat) kmon" where
  "filedup f = sqn (acquire L_ftable) (bnd (the_file f) (\<lambda>x.
     if f_ref x < 1 then panic ''filedup''
     else sqn (upd_file f (\<lambda>x. x\<lparr>f_ref := f_ref x + 1\<rparr>)) (sqn (release L_ftable) (ret f))))"

definition fileclose :: "nat \<Rightarrow> ('z kfile_scheme, unit) kmon" where
  "fileclose f = sqn (acquire L_ftable) (bnd (the_file f) (\<lambda>ff.
     if f_ref ff < 1 then panic ''fileclose''
     else if f_ref ff - 1 > 0 then stmts [
       upd_file f (\<lambda>x. x\<lparr>f_ref := f_ref x - 1\<rparr>),
       release L_ftable]
     else stmts [
       upd_file f (\<lambda>x. x\<lparr>f_ref := 0, f_type := FD_NONE\<rparr>),
       release L_ftable,
       (case f_type ff of
          FD_PIPE \<Rightarrow> pipeclose (f_pipe ff) (f_writable ff)
        | FD_INODE \<Rightarrow> stmts [begin_op, deref (f_ip ff) iput, end_op]
        | FD_NONE \<Rightarrow> ret ())]))"

definition filestat :: "nat \<Rightarrow> stat \<Rightarrow> ('z kfile_scheme, int \<times> stat) kmon" where
  "filestat f st = bnd (the_file f) (\<lambda>x.
     if f_type x = FD_INODE then sqn (ilock (f_ip x)) (deref (f_ip x) (\<lambda>ip.
       bnd (stati ip) (\<lambda>st. sqn (iunlock (f_ip x)) (ret (0, st)))))
     else ret (- 1, st))"

definition fileread :: "nat \<Rightarrow> bytes \<Rightarrow> int \<Rightarrow> ('z kfile_scheme, int \<times> bytes) kmon" where
  "fileread f addr n = bnd (the_file f) (\<lambda>x.
     if \<not> f_readable x then ret (- 1, addr)
     else case f_type x of
       FD_PIPE \<Rightarrow> piperead (f_pipe x) addr n
     | FD_INODE \<Rightarrow> sqn (ilock (f_ip x)) (deref (f_ip x) (\<lambda>ip.
         bnd (the_file f) (\<lambda>y. bnd (readi ip addr (f_off y) (word_of_int n)) (\<lambda>(r, addr). sqn (stmts [
             whenM (r > 0) (upd_file f (\<lambda>y. y\<lparr>f_off := f_off y + word_of_int r\<rparr>)),
             iunlock (f_ip x)])
           (ret (r, addr))))))
     | FD_NONE \<Rightarrow> panic ''fileread'')"

definition WRITE_MAX :: int where "WRITE_MAX = ((MAXOPBLOCKS - 1 - 1 - 2) div 2) * 512"

text \<open>One turn of the loop of \<open>filewrite\<close>: a transaction that writes \<open>n1\<close> bytes.\<close>

definition filewrite_chunk :: "nat \<Rightarrow> nat option \<Rightarrow> bytes \<Rightarrow> int \<Rightarrow> int \<Rightarrow> ('z kfile_scheme, int) kmon" where
  "filewrite_chunk f p addr i n1 = sqn begin_op (sqn (ilock p) (deref p (\<lambda>ip.
     bnd (the_file f) (\<lambda>y. bnd (writei ip (\<lambda>k. addr (nat i + k)) (f_off y) (word_of_int n1)) (\<lambda>r. sqn (stmts [
         whenM (r > 0) (upd_file f (\<lambda>y. y\<lparr>f_off := f_off y + word_of_int r\<rparr>)),
         iunlock p,
         end_op])
       (ret r))))))"

function filewrite_loop :: "nat \<Rightarrow> nat option \<Rightarrow> bytes \<Rightarrow> int \<Rightarrow> int \<Rightarrow> ('z kfile_scheme, int) kmon" where
  "filewrite_loop f p addr n i =
     (if i < n then
        bnd (filewrite_chunk f p addr i (min (n - i) WRITE_MAX)) (\<lambda>r.
          if r < 0 then ret i
          else if r \<noteq> min (n - i) WRITE_MAX then panic ''short filewrite''
          else filewrite_loop f p addr n (i + min (n - i) WRITE_MAX))
      else ret i)"
  by pat_completeness auto
termination
  by (relation "measure (\<lambda>(f, p, addr, n, i). nat (n - i))") (auto simp: WRITE_MAX_def MAXOPBLOCKS_def)

definition filewrite :: "nat \<Rightarrow> bytes \<Rightarrow> int \<Rightarrow> ('z kfile_scheme, int) kmon" where
  "filewrite f addr n = bnd (the_file f) (\<lambda>x.
     if \<not> f_writable x then ret (- 1)
     else case f_type x of
       FD_PIPE \<Rightarrow> pipewrite (f_pipe x) addr n
     | FD_INODE \<Rightarrow> bnd (filewrite_loop f (f_ip x) addr n 0) (\<lambda>i. ret (if i = n then n else - 1))
     | FD_NONE \<Rightarrow> panic ''filewrite'')"

section \<open>Allocating a pipe\<close>

definition close_opt :: "nat option \<Rightarrow> ('z kfile_scheme, unit) kmon" where
  "close_opt f = (case f of None \<Rightarrow> ret () | Some f \<Rightarrow> fileclose f)"

definition pipealloc_bad :: "nat option \<Rightarrow> nat option \<Rightarrow> ('z kfile_scheme, (nat \<times> nat) option) kmon" where
  "pipealloc_bad f0 f1 = sqn (stmts [close_opt f0, close_opt f1]) (ret None)"

definition pipealloc :: "('z kfile_scheme, (nat \<times> nat) option) kmon" where
  "pipealloc = bnd filealloc (\<lambda>w0. case w0 of
     None \<Rightarrow> pipealloc_bad None None
   | Some f0 \<Rightarrow> bnd filealloc (\<lambda>w1. case w1 of
       None \<Rightarrow> pipealloc_bad (Some f0) None
     | Some f1 \<Rightarrow> bnd kalloc (\<lambda>p.
         if p = 0 then pipealloc_bad (Some f0) (Some f1)
         else sqn (stmts [
             upd_pipe p (\<lambda>q. q\<lparr>pi_readopen := True, pi_writeopen := True, pi_nwrite := 0, pi_nread := 0\<rparr>),
             upd_file f0 (\<lambda>x. x\<lparr>f_type := FD_PIPE, f_readable := True, f_writable := False, f_pipe := p\<rparr>),
             upd_file f1 (\<lambda>x. x\<lparr>f_type := FD_PIPE, f_readable := False, f_writable := True, f_pipe := p\<rparr>)])
           (ret (Some (f0, f1))))))"

end
