(* ===== verification/Proc.thy ===== *)
theory Proc
  imports Vm File
begin

text \<open>
  The life of a process (src/proc.c: \<open>allocproc\<close>, \<open>userinit\<close>, \<open>growproc\<close>, \<open>fork\<close>, \<open>exit\<close>,
  \<open>wait\<close>, \<open>forkret\<close>).

  \<open>kproc\<close> adds the addresses of the assembly entry points, the image of the first program and the
  static flag of \<open>forkret\<close>. The trap frame and the context of a process lie on its kernel stack;
  the model keeps their contents in the process and their addresses beside them. A process that
  sleeps in \<open>wait\<close> goes on with \<open>wait_resume\<close>; \<open>exit\<close> never returns.
\<close>

record kproc = kfile +
  forkret_addr :: uint
  trapret_addr :: uint
  initcode :: bytes
  initcode_size :: uint
  fork_first :: bool

definition TF_SIZE :: uint where "TF_SIZE = 76"
definition CONTEXT_SIZE :: uint where "CONTEXT_SIZE = 20"
definition FL_IF :: uint where "FL_IF = 0x200"
definition USER_CS :: ushort where "USER_CS = push_bit 3 3 OR 3"
definition USER_DS :: ushort where "USER_DS = push_bit 3 4 OR 3"

section \<open>Creating processes\<close>

definition allocproc :: "('z kproc_scheme, nat option) kmon" where
  "allocproc = sqn (acquire L_ptable)
     (bnd (gets (\<lambda>s. first_idx (\<lambda>p. p_state p = UNUSED) (ptable s))) (\<lambda>w. case w of
        None \<Rightarrow> sqn (release L_ptable) (ret None)
      | Some i \<Rightarrow> sqn (stmts [
            upd_proc i (\<lambda>p. p\<lparr>p_state := EMBRYO\<rparr>),
            bnd (gets nextpid) (\<lambda>pid. upd_proc i (\<lambda>p. p\<lparr>p_pid := pid\<rparr>)),
            modify (\<lambda>s. s\<lparr>nextpid := i32 (nextpid s + 1)\<rparr>),
            release L_ptable])
          (bnd kalloc (\<lambda>k. sqn (upd_proc i (\<lambda>p. p\<lparr>p_kstack := k\<rparr>))
            (if k = 0 then sqn (upd_proc i (\<lambda>p. p\<lparr>p_state := UNUSED\<rparr>)) (ret None)
             else
               let tf = k + KSTACKSIZE - TF_SIZE; ra = tf - 4; cx = ra - CONTEXT_SIZE
               in sqn (stmts [
                   upd_proc i (\<lambda>p. p\<lparr>p_tfaddr := tf\<rparr>),
                   bnd (gets trapret_addr) (\<lambda>t. upd_page k (\<lambda>b. put32 b (unat (ra - k)) t)),
                   bnd (gets forkret_addr) (\<lambda>f. upd_proc i (\<lambda>p. p\<lparr>p_contextaddr := cx,
                     p_context := zero_context\<lparr>cx_eip := f\<rparr>\<rparr>))])
                 (ret (Some i)))))))"

definition str_bytes :: "string \<Rightarrow> bytes" where
  "str_bytes x = list_bytes (map of_char x)"

definition userinit :: "('z kproc_scheme, unit) kmon" where
  "userinit = bnd allocproc (\<lambda>w. sqn (modify (\<lambda>s. s\<lparr>initproc := w\<rparr>)) (deref w (\<lambda>p.
     bnd setupkvm (\<lambda>pg. sqn (upd_proc p (\<lambda>x. x\<lparr>p_pgdir := pg\<rparr>))
      (if pg = 0 then panic ''userinit: out of memory?''
       else stmts [
         bnd (gets (\<lambda>s. (initcode s, initcode_size s))) (\<lambda>(code, sz). inituvm pg code sz),
         upd_proc p (\<lambda>x. x\<lparr>p_sz := PGSIZE,
           p_tf := zero_tf\<lparr>tf_cs := USER_CS, tf_ds := USER_DS, tf_es := USER_DS, tf_ss := USER_DS,
             tf_eflags := FL_IF, tf_esp := PGSIZE, tf_eip := 0\<rparr>,
           p_ticks := 0, p_tickets := 10,
           p_name := safestrcpy (p_name x) 0 (str_bytes ''initcode'') 0 16\<rparr>),
         bnd (namei [slash]) (\<lambda>cwd. upd_proc p (\<lambda>x. x\<lparr>p_cwd := cwd\<rparr>)),
         acquire L_ptable,
         upd_proc p (\<lambda>x. x\<lparr>p_state := RUNNABLE\<rparr>),
         release L_ptable])))))"

definition growproc :: "int \<Rightarrow> ('z kproc_scheme, int) kmon" where
  "growproc n = bnd myproc (\<lambda>me. deref me (\<lambda>i. bnd (gets (\<lambda>s. the_proc s i)) (\<lambda>p.
     bnd (if n > 0 then allocuvm (p_pgdir p) (p_sz p) (p_sz p + word_of_int n)
          else if n < 0 then deallocuvm (p_pgdir p) (p_sz p) (p_sz p + word_of_int n)
          else ret (p_sz p)) (\<lambda>sz.
       if n \<noteq> 0 \<and> sz = 0 then ret (- 1)
       else sqn (stmts [
           upd_proc i (\<lambda>p. p\<lparr>p_sz := sz\<rparr>),
           switchuvm (Some i)])
         (ret 0)))))"

definition fork :: "('z kproc_scheme, int) kmon" where
  "fork = bnd myproc (\<lambda>me. bnd allocproc (\<lambda>w. case w of
     None \<Rightarrow> ret (- 1)
   | Some np \<Rightarrow> deref me (\<lambda>i. bnd (gets (\<lambda>s. the_proc s i)) (\<lambda>p.
       bnd (copyuvm (p_pgdir p) (p_sz p)) (\<lambda>pg. sqn (upd_proc np (\<lambda>x. x\<lparr>p_pgdir := pg\<rparr>))
         (if pg = 0 then sqn (bnd (gets (\<lambda>s. p_kstack (the_proc s np))) kfree)
            (sqn (upd_proc np (\<lambda>x. x\<lparr>p_kstack := 0, p_state := UNUSED\<rparr>)) (ret (- 1)))
          else sqn (stmts [
              upd_proc np (\<lambda>x. x\<lparr>p_ticks := 0,
                p_tickets := (if 10 \<ge> p_tickets p then 10 else p_tickets p),
                p_sz := p_sz p,
                p_parent := Some i,
                p_tf := (p_tf p)\<lparr>tf_eax := 0\<rparr>\<rparr>),
              forM [0..<NOFILE] (\<lambda>k. case p_ofile p ! k of
                  None \<Rightarrow> ret ()
                | Some f \<Rightarrow> bnd (filedup f) (\<lambda>f. upd_proc np (\<lambda>x. x\<lparr>p_ofile := (p_ofile x)[k := Some f]\<rparr>))),
              deref (p_cwd p) (\<lambda>d. bnd (idup d) (\<lambda>d. upd_proc np (\<lambda>x. x\<lparr>p_cwd := Some d\<rparr>))),
              upd_proc np (\<lambda>x. x\<lparr>p_name := safestrcpy (p_name x) 0 (p_name p) 0 16\<rparr>)])
            (bnd (gets (\<lambda>s. p_pid (the_proc s np))) (\<lambda>pid. sqn (stmts [
                acquire L_ptable,
                upd_proc np (\<lambda>x. x\<lparr>p_state := RUNNABLE\<rparr>),
                release L_ptable])
              (ret pid)))))))))"

section \<open>Ending processes\<close>

definition proc_chan :: "nat option \<Rightarrow> chan option" where
  "proc_chan w = map_option C_proc w"

text \<open>One turn of the loop that passes the children of \<open>me\<close> to init.\<close>

definition reparent :: "nat \<Rightarrow> nat \<Rightarrow> ('z kbase_scheme, unit) kmon" where
  "reparent me i = bnd (gets (\<lambda>s. the_proc s i)) (\<lambda>p. whenM (p_parent p = Some me) (bnd (gets initproc) (\<lambda>ini. stmts [
     upd_proc i (\<lambda>p. p\<lparr>p_parent := ini\<rparr>),
     whenM (p_state p = ZOMBIE) (wakeup1 (proc_chan ini))])))"

text \<open>The end of \<open>exit\<close>, with \<open>ptable.lock\<close> held.\<close>

definition exit_tail :: "nat \<Rightarrow> ('z kbase_scheme, unit) kmon" where
  "exit_tail i = stmts [
     bnd (gets (\<lambda>s. p_parent (the_proc s i))) (\<lambda>par. wakeup1 (proc_chan par)),
     forM [0..<NPROC] (reparent i),
     upd_proc i (\<lambda>p. p\<lparr>p_state := ZOMBIE\<rparr>),
     sched]"

definition exit :: "('z kproc_scheme, 'a) kmon" where
  "exit = bnd myproc (\<lambda>me. bnd (gets initproc) (\<lambda>ini.
     if me = ini then panic ''init exiting''
     else deref me (\<lambda>i. sqn (stmts [
       forM [0..<NOFILE] (\<lambda>fd. bnd (gets (\<lambda>s. p_ofile (the_proc s i) ! fd)) (\<lambda>f. case f of
           None \<Rightarrow> ret ()
         | Some f \<Rightarrow> stmts [fileclose f, upd_proc i (\<lambda>p. p\<lparr>p_ofile := (p_ofile p)[fd := None]\<rparr>)])),
       begin_op,
       bnd (gets (\<lambda>s. p_cwd (the_proc s i))) (\<lambda>d. deref d iput),
       end_op,
       upd_proc i (\<lambda>p. p\<lparr>p_cwd := None\<rparr>),
       acquire L_ptable,
       exit_tail i])
       (panic ''zombie exit''))))"

definition wait_loop :: "nat \<Rightarrow> ('z kmem_scheme, int) kmon" where
  "wait_loop me = bnd (gets (\<lambda>s. first_idx (\<lambda>p. p_parent p = Some me \<and> p_state p = ZOMBIE) (ptable s))) (\<lambda>w. case w of
     Some i \<Rightarrow> bnd (gets (\<lambda>s. the_proc s i)) (\<lambda>p. sqn (stmts [
         kfree (p_kstack p),
         upd_proc i (\<lambda>p. p\<lparr>p_kstack := 0\<rparr>),
         freevm (p_pgdir p),
         upd_proc i (\<lambda>p. p\<lparr>p_pid := 0, p_parent := None, p_name := (p_name p)(0 := 0), p_killed := False,
           p_state := UNUSED\<rparr>),
         release L_ptable])
       (ret (p_pid p)))
   | None \<Rightarrow> bnd (gets (\<lambda>s. list_ex (\<lambda>p. p_parent p = Some me) (ptable s))) (\<lambda>havekids.
       bnd (gets (\<lambda>s. p_killed (the_proc s me))) (\<lambda>killed.
         if \<not> havekids \<or> killed then sqn (release L_ptable) (ret (- 1))
         else sleep_wait (C_proc me) L_ptable)))"

definition wait :: "('z kmem_scheme, int) kmon" where
  "wait = bnd myproc (\<lambda>me. sqn (acquire L_ptable) (deref me wait_loop))"

definition wait_resume :: "nat \<Rightarrow> ('z kmem_scheme, int) kmon" where
  "wait_resume me = sqn (sleep_resume L_ptable) (wait_loop me)"

definition forkret :: "('z kproc_scheme, unit) kmon" where
  "forkret = sqn (release L_ptable) (bnd (gets fork_first) (\<lambda>first. whenM first (stmts [
     modify (\<lambda>s. s\<lparr>fork_first := False\<rparr>),
     iinit ROOTDEV,
     initlog (uint ROOTDEV)])))"

end
