(* ===== verification/Uaccess.thy ===== *)
theory Uaccess
  imports Proc
begin

text \<open>
  System call arguments and user memory (src/syscall.c up to \<open>argstr\<close>). The kernel reads and
  writes user memory through the page table the CPU has loaded (\<open>cr3\<close>); an address without a
  page makes the CPU trap in the kernel, which is \<open>panic("trap")\<close>. A function that
  stores through a pointer and returns 0, or returns \<open>-1\<close>, returns an option; a string is
  the list of its characters.
\<close>

definition user_page :: "'z kmem_scheme \<Rightarrow> uint \<Rightarrow> uint \<Rightarrow> uint option" where
  "user_page s pgdir va = (let pde = pte_at s (pgdir, PDX va) in
     if pde AND PTE_P = 0 then None
     else let pte = pte_at s (P2V (PTE_ADDR pde), PTX va) in
       if pte AND PTE_P = 0 then None else Some (P2V (PTE_ADDR pte)))"

definition load_byte :: "uint \<Rightarrow> ('z kmem_scheme, uchar) kmon" where
  "load_byte va = bnd (gets (\<lambda>s. user_page s (P2V (cr3 s)) va)) (\<lambda>w. case w of
     None \<Rightarrow> panic ''trap''
   | Some p \<Rightarrow> gets (\<lambda>s. mem s p (unat va mod 4096)))"

definition store_byte :: "uint \<Rightarrow> uchar \<Rightarrow> ('z kmem_scheme, unit) kmon" where
  "store_byte va c = bnd (gets (\<lambda>s. user_page s (P2V (cr3 s)) va)) (\<lambda>w. case w of
     None \<Rightarrow> panic ''trap''
   | Some p \<Rightarrow> upd_page p (\<lambda>b. b(unat va mod 4096 := c)))"

fun load_list :: "uint \<Rightarrow> nat \<Rightarrow> ('z kmem_scheme, uchar list) kmon" where
  "load_list va 0 = ret []"
| "load_list va (Suc n) = bnd (load_byte va) (\<lambda>c. bnd (load_list (va + 1) n) (\<lambda>cs. ret (c # cs)))"

definition load_user :: "uint \<Rightarrow> nat \<Rightarrow> ('z kmem_scheme, bytes) kmon" where
  "load_user va n = bnd (load_list va n) (\<lambda>cs. ret (list_bytes cs))"

definition store_user :: "uint \<Rightarrow> bytes \<Rightarrow> nat \<Rightarrow> ('z kmem_scheme, unit) kmon" where
  "store_user va b n = forM [0..<n] (\<lambda>i. store_byte (va + of_nat i) (b i))"

section \<open>Fetching\<close>

definition curproc :: "(proc \<Rightarrow> ('z kbase_scheme, 'a) kmon) \<Rightarrow> ('z kbase_scheme, 'a) kmon" where
  "curproc k = bnd myproc (\<lambda>me. deref me (\<lambda>i. bnd (gets (\<lambda>s. the_proc s i)) k))"

definition fetchint :: "uint \<Rightarrow> ('z kmem_scheme, int option) kmon" where
  "fetchint addr = curproc (\<lambda>p.
     if addr \<ge> p_sz p \<or> addr + 4 > p_sz p then ret None
     else bnd (load_user addr 4) (\<lambda>b. ret (Some (sint (get32 b 0)))))"

fun fetchstr_loop :: "uint \<Rightarrow> nat \<Rightarrow> ('z kmem_scheme, uchar list option) kmon" where
  "fetchstr_loop s 0 = ret None"
| "fetchstr_loop s (Suc n) = bnd (load_byte s) (\<lambda>c.
     if c = 0 then ret (Some [])
     else bnd (fetchstr_loop (s + 1) n) (\<lambda>r. ret (map_option (Cons c) r)))"

definition fetchstr :: "uint \<Rightarrow> ('z kmem_scheme, uchar list option) kmon" where
  "fetchstr addr = curproc (\<lambda>p.
     if addr \<ge> p_sz p then ret None else fetchstr_loop addr (unat (p_sz p) - unat addr))"

definition argint :: "nat \<Rightarrow> ('z kmem_scheme, int option) kmon" where
  "argint n = curproc (\<lambda>p. fetchint (tf_esp (p_tf p) + 4 + 4 * of_nat n))"

definition argptr :: "nat \<Rightarrow> int \<Rightarrow> ('z kmem_scheme, uint option) kmon" where
  "argptr n sz = curproc (\<lambda>p. bnd (argint n) (\<lambda>r. case r of
     None \<Rightarrow> ret None
   | Some i \<Rightarrow>
       if sz < 0 \<or> word_of_int i \<ge> p_sz p \<or> word_of_int i + word_of_int sz > p_sz p then ret None
       else ret (Some (word_of_int i))))"

definition argstr :: "nat \<Rightarrow> ('z kmem_scheme, uchar list option) kmon" where
  "argstr n = bnd (argint n) (\<lambda>r. case r of
     None \<Rightarrow> ret None
   | Some addr \<Rightarrow> fetchstr (word_of_int addr))"

section \<open>The process's own memory\<close>

definition ubyte :: "'z kmem_scheme \<Rightarrow> uint \<Rightarrow> uchar option" where
  "ubyte s va = map_option (\<lambda>p. mem s p (unat va mod 4096)) (user_page s (P2V (cr3 s)) va)"

lemma curproc_run: "cur s = Some i \<Longrightarrow> curproc k s = k (ptable s ! i) s"
  by (simp add: curproc_def myproc_def deref_def the_proc_def)

lemma load_byte_run: "load_byte va s = (case ubyte s va of None \<Rightarrow> Panic ''trap'' | Some c \<Rightarrow> Ok c s)"
  by (simp add: load_byte_def ubyte_def split: option.split)

lemma load_list_Ok:
  "load_list va n s = Ok cs s' \<Longrightarrow> s' = s \<and> length cs = n \<and> (\<forall>k < n. ubyte s (va + of_nat k) = Some (cs ! k))"
proof (induction n arbitrary: va cs)
  case (Suc n)
  then obtain c cs' where c: "ubyte s va = Some c" "load_list (va + 1) n s = Ok cs' s'" "cs = c # cs'"
    by (auto simp: bnd_Ok_iff load_byte_run split: option.splits)
  from Suc.IH [OF c(2)] c(1,3) show ?case by (auto simp: less_Suc_eq_0_disj add.assoc)
qed simp

lemma fetchstr_loop_Ok:
  "fetchstr_loop va n s = Ok (Some cs) s' \<Longrightarrow> s' = s \<and> length cs < n
    \<and> (\<forall>k < length cs. ubyte s (va + of_nat k) = Some (cs ! k) \<and> cs ! k \<noteq> 0)
    \<and> ubyte s (va + of_nat (length cs)) = Some 0"
proof (induction n arbitrary: va cs)
  case (Suc n)
  from Suc.prems obtain c where c: "ubyte s va = Some c"
    by (auto simp: bnd_Ok_iff load_byte_run split: option.splits)
  show ?case
  proof (cases "c = 0")
    case True
    with Suc.prems c show ?thesis by (auto simp: bnd_def load_byte_run)
  next
    case False
    with Suc.prems c obtain cs' where r: "fetchstr_loop (va + 1) n s = Ok (Some cs') s'" "cs = c # cs'"
      by (auto simp: bnd_Ok_iff load_byte_run)
    from Suc.IH [OF r(1)] r(2) c False show ?thesis by (auto simp: less_Suc_eq_0_disj add.assoc)
  qed
qed simp

lemma fetchstr_run:
  "cur s = Some i \<Longrightarrow> fetchstr addr s = (if addr \<ge> p_sz (ptable s ! i) then Ok None s
    else fetchstr_loop addr (unat (p_sz (ptable s ! i)) - unat addr) s)"
  by (simp add: fetchstr_def curproc_run)

text \<open>
  C9: A string the kernel takes from a system call argument lies in the memory of the calling process: the
  characters are those at the address, none of them is a NUL, and the terminating NUL is still below
  the process's size. Fetching it changes nothing.
\<close>
theorem fetchstr_inside_process:
  assumes "cur s = Some i" and "fetchstr addr s = Ok (Some cs) s'"
  shows "s' = s \<and> unat addr + length cs < unat (p_sz (ptable s ! i))
    \<and> (\<forall>k < length cs. ubyte s (addr + of_nat k) = Some (cs ! k) \<and> cs ! k \<noteq> 0)
    \<and> ubyte s (addr + of_nat (length cs)) = Some 0"
proof -
  from assms have lt: "addr < p_sz (ptable s ! i)"
    and r: "fetchstr_loop addr (unat (p_sz (ptable s ! i)) - unat addr) s = Ok (Some cs) s'"
    by (auto simp: fetchstr_run split: if_splits)
  from fetchstr_loop_Ok [OF r] lt show ?thesis by (auto simp: word_less_nat_alt)
qed

text \<open>
  C10: \<open>argptr\<close> accepts a pointer argument exactly when the whole block it points to lies below the
  process's size; the sum in its test does not wrap, since a process is smaller than \<open>KERNBASE\<close>.
\<close>
theorem argptr_exact:
  assumes "cur s = Some i" and "p_sz (ptable s ! i) \<le> KERNBASE" and "argint n s = Ok (Some v) s"
    and "- 2147483648 \<le> sz" and "sz < 2147483648"
  shows "argptr n sz s =
    Ok (if 0 \<le> sz \<and> unat (word_of_int v :: uint) < unat (p_sz (ptable s ! i))
          \<and> unat (word_of_int v :: uint) + nat sz \<le> unat (p_sz (ptable s ! i))
        then Some (word_of_int v) else None) s"
proof -
  let ?a = "word_of_int v :: uint" and ?p = "p_sz (ptable s ! i)"
  have p: "unat ?p \<le> 2147483648" using assms(2) by (simp add: word_le_nat_alt KERNBASE_def)
  have "unat (?a + word_of_int sz) = unat ?a + nat sz" if "?a < ?p" "0 \<le> sz"
  proof -
    have "unat (word_of_int sz :: uint) = nat sz"
      using that assms(5) by (simp add: unsigned_of_int take_bit_int_eq_self nat_eq_iff2 unat_eq_nat_uint)
    moreover have "unat ?a + nat sz < 2 ^ 32" using that p assms(5) by (simp add: word_less_nat_alt)
    ultimately show ?thesis by (simp add: unat_add_lem [THEN iffD1])
  qed
  then show ?thesis
    using assms(1,3) by (auto simp: argptr_def curproc_run word_le_nat_alt word_less_nat_alt)
qed

section \<open>A process with one page\<close>

text \<open>Page directory, page table and page of a process with "ab" at 100 and the argument 100 on its stack.\<close>

definition demo_user_mem :: "uint \<Rightarrow> bytes" where
  "demo_user_mem = (\<lambda>_ _. 0)(0x80200000 := put32 (\<lambda>_. 0) 0 0x201007, 0x80201000 := put32 (\<lambda>_. 0) 0 0x202007,
     0x80202000 := (\<lambda>_. 0)(100 := 97, 101 := 98, 204 := 100))"

definition demo_user :: kmem where
  "demo_user = demo_kmem\<lparr>cur := Some 0,
     ptable := [zero_proc\<lparr>p_sz := 4096, p_pgdir := 0x80200000, p_tf := zero_tf\<lparr>tf_esp := 200\<rparr>\<rparr>],
     cr3 := 0x200000, mem := demo_user_mem\<rparr>"

lemma demo_user_page:
  assumes "mem s = demo_user_mem" and "unat va < 4096"
  shows "user_page s 0x80200000 va = Some 0x80202000"
proof -
  have "drop_bit 12 va = 0" "drop_bit 22 va = 0"
    using assms(2) by (simp_all add: drop_bit_eq_div word_unat_eq_iff unat_div)
  then have "PDX va = 0" "PTX va = 0" by (simp_all add: PDX_def PTX_def)
  moreover have "pte_at s (0x80200000, 0) = 0x201007" "pte_at s (0x80201000, 0) = 0x202007"
    using assms(1) by (simp_all add: pte_at_def demo_user_mem_def get32_put32)
  ultimately show ?thesis by (simp add: user_page_def PTE_P_def PTE_ADDR_def P2V_def KERNBASE_def)
qed

lemma demo_user_byte: "unat va < 4096 \<Longrightarrow> ubyte demo_user va = Some (demo_user_mem 0x80202000 (unat va))"
proof -
  assume va: "unat va < 4096"
  have "mem demo_user = demo_user_mem" "P2V (cr3 demo_user) = 0x80200000"
    by (simp_all add: demo_user_def P2V_def KERNBASE_def)
  then show ?thesis using demo_user_page [of demo_user va] va by (simp add: ubyte_def)
qed

lemma demo_user_bytes:
  "load_byte 204 demo_user = Ok 100 demo_user" "load_byte 205 demo_user = Ok 0 demo_user"
  "load_byte 206 demo_user = Ok 0 demo_user" "load_byte 207 demo_user = Ok 0 demo_user"
  "load_byte 100 demo_user = Ok 97 demo_user" "load_byte 101 demo_user = Ok 98 demo_user"
  "load_byte 102 demo_user = Ok 0 demo_user"
  by (simp_all add: load_byte_run demo_user_byte demo_user_mem_def)

lemma demo_user_proc: "cur demo_user = Some 0" "p_sz (ptable demo_user ! 0) = 4096" "tf_esp (p_tf (ptable demo_user ! 0)) = 200"
  by (simp_all add: demo_user_def)

lemma demo_user_argint: "argint 0 demo_user = Ok (Some 100) demo_user"
proof -
  have "load_list 204 (Suc (Suc (Suc (Suc 0)))) demo_user = Ok [100, 0, 0, 0] demo_user"
    by (simp add: demo_user_bytes)
  then have "load_user 204 4 demo_user = Ok (list_bytes [100, 0, 0, 0]) demo_user"
    by (simp add: load_user_def numeral_eq_Suc demo_user_bytes)
  moreover have "get32 (list_bytes [100, 0, 0, 0]) 0 = 100" by (simp add: get32_def list_bytes_def)
  ultimately show ?thesis
    by (simp add: argint_def fetchint_def curproc_run demo_user_proc)
qed

theorem fetchstr_inside_process_witness:
  "fetchstr 100 demo_user = Ok (Some [97, 98]) demo_user \<and> 100 + length [97, 98 :: uchar] < unat (p_sz (ptable demo_user ! 0))"
proof -
  have "fetchstr_loop 100 (Suc (Suc (Suc n))) demo_user = Ok (Some [97, 98]) demo_user" for n
    by (simp add: demo_user_bytes)
  from this [of 3993] have run: "fetchstr 100 demo_user = Ok (Some [97, 98]) demo_user"
    by (simp add: fetchstr_run [OF demo_user_proc(1)] demo_user_proc)
  from fetchstr_inside_process [OF demo_user_proc(1) run] run show ?thesis by simp
qed

theorem argptr_exact_witness:
  "argptr 0 3996 demo_user = Ok (Some 100) demo_user \<and> argptr 0 3997 demo_user = Ok None demo_user
    \<and> argptr 0 (- 1) demo_user = Ok None demo_user"
proof -
  have sz: "p_sz (ptable demo_user ! 0) \<le> KERNBASE" by (simp add: demo_user_proc KERNBASE_def)
  note e = argptr_exact [OF demo_user_proc(1) sz demo_user_argint]
  from e [of 3996] e [of 3997] e [of "- 1"] show ?thesis by (simp add: demo_user_proc)
qed

end
