(* ===== verification/Exec.thy ===== *)
theory Exec
  imports Uaccess
begin

text \<open>
  \<open>exec\<close> (src/exec.c, src/elf.h). The headers are read at their offsets in the file. The
  strings of \<open>argv\<close> are lists of characters; \<open>None\<close> stands for a jump to \<open>bad\<close>.
\<close>

definition ELF_MAGIC :: uint where "ELF_MAGIC = 0x464C457F"
definition ELF_PROG_LOAD :: uint where "ELF_PROG_LOAD = 1"
definition ELFHDR_SIZE :: nat where "ELFHDR_SIZE = 52"
definition PROGHDR_SIZE :: nat where "PROGHDR_SIZE = 32"
definition MAXARG :: nat where "MAXARG = 32"

record elfhdr =
  e_magic :: uint
  e_entry :: uint
  e_phoff :: uint
  e_phnum :: ushort

definition get_elfhdr :: "bytes \<Rightarrow> elfhdr" where
  "get_elfhdr b = \<lparr>e_magic = get32 b 0, e_entry = get32 b 24, e_phoff = get32 b 28, e_phnum = get16 b 44\<rparr>"

record proghdr =
  ph_type :: uint
  ph_off :: uint
  ph_vaddr :: uint
  ph_filesz :: uint
  ph_memsz :: uint

definition get_proghdr :: "bytes \<Rightarrow> proghdr" where
  "get_proghdr b = \<lparr>ph_type = get32 b 0, ph_off = get32 b 4, ph_vaddr = get32 b 8, ph_filesz = get32 b 16,
     ph_memsz = get32 b 20\<rparr>"

section \<open>Loading the segments\<close>

definition exec_segment :: "nat \<Rightarrow> uint \<Rightarrow> proghdr \<Rightarrow> uint \<Rightarrow> ('z kcons_scheme, uint option) kmon" where
  "exec_segment ip pgdir ph sz =
     (if ph_type ph \<noteq> ELF_PROG_LOAD then ret (Some sz)
      else if ph_memsz ph < ph_filesz ph then ret None
      else if ph_vaddr ph + ph_memsz ph < ph_vaddr ph then ret None
      else bnd (allocuvm pgdir sz (ph_vaddr ph + ph_memsz ph)) (\<lambda>sz.
        if sz = 0 then ret None
        else if ph_vaddr ph mod PGSIZE \<noteq> 0 then ret None
        else bnd (loaduvm pgdir (ph_vaddr ph) ip (ph_off ph) (ph_filesz ph)) (\<lambda>r.
          if r < 0 then ret None else ret (Some sz))))"

primrec exec_load :: "nat \<Rightarrow> nat \<Rightarrow> uint \<Rightarrow> uint \<Rightarrow> uint \<Rightarrow> ('z kcons_scheme, uint option) kmon" where
  "exec_load 0 ip pgdir off sz = ret (Some sz)"
| "exec_load (Suc n) ip pgdir off sz = bnd (readi ip (\<lambda>_. 0) off (of_nat PROGHDR_SIZE)) (\<lambda>(r, b).
     if r \<noteq> int PROGHDR_SIZE then ret None
     else bnd (exec_segment ip pgdir (get_proghdr b) sz) (\<lambda>w. case w of
       None \<Rightarrow> ret None
     | Some sz \<Rightarrow> exec_load n ip pgdir (off + of_nat PROGHDR_SIZE) sz))"

section \<open>The arguments\<close>

fun exec_args :: "uint \<Rightarrow> uint \<Rightarrow> nat \<Rightarrow> uint list \<Rightarrow> uchar list list \<Rightarrow> ('z kmem_scheme, (uint \<times> uint list) option) kmon" where
  "exec_args pgdir sp argc ustack [] = ret (Some (sp, ustack))"
| "exec_args pgdir sp argc ustack (a # as) =
     (if argc \<ge> MAXARG then ret None
      else let sp = (sp - of_nat (length a + 1)) AND NOT 3
        in bnd (copyout pgdir sp (list_bytes a) (of_nat (length a + 1))) (\<lambda>r.
          if r < 0 then ret None else exec_args pgdir sp (argc + 1) (ustack @ [sp]) as))"

definition words_bytes :: "uint list \<Rightarrow> bytes" where
  "words_bytes ws i = (if i div 4 < length ws then ucast (drop_bit (8 * (i mod 4)) (ws ! (i div 4))) else 0)"

definition exec_stack :: "uint \<Rightarrow> uint \<Rightarrow> uchar list list \<Rightarrow> ('z kmem_scheme, uint option) kmon" where
  "exec_stack pgdir sp argv = bnd (exec_args pgdir sp 0 [] argv) (\<lambda>w. case w of
     None \<Rightarrow> ret None
   | Some (sp, ustack) \<Rightarrow>
       let argc = length ustack;
           ws = [0xFFFFFFFF, of_nat argc, sp - of_nat (argc + 1) * 4] @ ustack @ [0];
           sp = sp - of_nat (3 + argc + 1) * 4
       in bnd (copyout pgdir sp (words_bytes ws) (of_nat ((3 + argc + 1) * 4))) (\<lambda>r.
         if r < 0 then ret None else ret (Some sp)))"

section \<open>exec\<close>

definition last_elem :: "uchar list \<Rightarrow> uchar list" where
  "last_elem pth = rev (takeWhile (\<lambda>c. c \<noteq> slash) (rev pth))"

text \<open>The label \<open>bad\<close>: before and after the inode has been released.\<close>

definition exec_bad :: "uint \<Rightarrow> nat option \<Rightarrow> ('z kcons_scheme, int) kmon" where
  "exec_bad pgdir ip = sqn (stmts [
     whenM (pgdir \<noteq> 0) (freevm pgdir),
     (case ip of None \<Rightarrow> ret () | Some ip \<Rightarrow> stmts [iunlockput ip, end_op])])
     (ret (- 1))"

definition exec_commit :: "nat \<Rightarrow> uchar list \<Rightarrow> uint \<Rightarrow> uint \<Rightarrow> uint \<Rightarrow> uint \<Rightarrow> ('z kcons_scheme, int) kmon" where
  "exec_commit i pth pgdir sz entry sp = bnd (gets (\<lambda>s. p_pgdir (the_proc s i))) (\<lambda>oldpgdir. sqn (stmts [
       upd_proc i (\<lambda>p. p\<lparr>p_name := safestrcpy (p_name p) 0 (list_bytes (last_elem pth)) 0 16,
         p_pgdir := pgdir, p_sz := sz, p_tf := (p_tf p)\<lparr>tf_eip := entry, tf_esp := sp\<rparr>\<rparr>),
       switchuvm (Some i),
       freevm oldpgdir])
     (ret 0))"

text \<open>From the release of the inode on: the stack pages, the arguments and the switch.\<close>

definition exec_image :: "nat \<Rightarrow> uchar list \<Rightarrow> uchar list list \<Rightarrow> uint \<Rightarrow> uint \<Rightarrow> uint \<Rightarrow> ('z kcons_scheme, int) kmon" where
  "exec_image i pth argv pgdir entry sz =
     (let sz = PGROUNDUP sz in
      bnd (allocuvm pgdir sz (sz + 2 * PGSIZE)) (\<lambda>sz.
        if sz = 0 then exec_bad pgdir None
        else sqn (clearpteu pgdir (sz - 2 * PGSIZE))
          (bnd (exec_stack pgdir sz argv) (\<lambda>w. case w of
             None \<Rightarrow> exec_bad pgdir None
           | Some sp \<Rightarrow> exec_commit i pth pgdir sz entry sp))))"

definition exec :: "uchar list \<Rightarrow> uchar list list \<Rightarrow> ('z kcons_scheme, int) kmon" where
  "exec pth argv = bnd myproc (\<lambda>me. sqn begin_op (bnd (namei pth) (\<lambda>w. case w of
     None \<Rightarrow> sqn (stmts [end_op, cprintf (\<lambda>_. []) (''exec: fail'' @ [CHR 0x0A]) []]) (ret (- 1))
   | Some ip \<Rightarrow> sqn (ilock (Some ip)) (bnd (readi ip (\<lambda>_. 0) 0 (of_nat ELFHDR_SIZE)) (\<lambda>(r, b).
       if r \<noteq> int ELFHDR_SIZE then exec_bad 0 (Some ip)
       else if e_magic (get_elfhdr b) \<noteq> ELF_MAGIC then exec_bad 0 (Some ip)
       else bnd setupkvm (\<lambda>pgdir.
         if pgdir = 0 then exec_bad 0 (Some ip)
         else bnd (exec_load (unat (e_phnum (get_elfhdr b))) ip pgdir (e_phoff (get_elfhdr b)) 0) (\<lambda>w. case w of
           None \<Rightarrow> exec_bad pgdir (Some ip)
         | Some sz \<Rightarrow> sqn (stmts [iunlockput ip, end_op])
             (deref me (\<lambda>i. exec_image i pth argv pgdir (e_entry (get_elfhdr b)) sz)))))))))"

end
