(* ===== verification/Sysfile.thy ===== *)
theory Sysfile
  imports Exec
begin

text \<open>
  The system calls on files (src/sysfile.c, src/fcntl.h), whole: arguments, transactions, every
  error return. The result of a call is its C result; a buffer in user memory is loaded before
  and stored after the call that uses it.
\<close>


definition set_ofile :: "nat \<Rightarrow> nat option \<Rightarrow> ('z kbase_scheme, unit) kmon" where
  "set_ofile fd f = bnd myproc (\<lambda>me. deref me (\<lambda>i. upd_proc i (\<lambda>p. p\<lparr>p_ofile := (p_ofile p)[fd := f]\<rparr>)))"

definition argfd :: "nat \<Rightarrow> ('z kmem_scheme, (nat \<times> nat) option) kmon" where
  "argfd n = bnd (argint n) (\<lambda>r. case r of
     None \<Rightarrow> ret None
   | Some fd \<Rightarrow>
       if fd < 0 \<or> fd \<ge> int NOFILE then ret None
       else curproc (\<lambda>p. ret (map_option (Pair (nat fd)) (p_ofile p ! nat fd))))"

definition fdalloc :: "nat \<Rightarrow> ('z kmem_scheme, nat option) kmon" where
  "fdalloc f = curproc (\<lambda>p. case first_idx (\<lambda>x. x = None) (p_ofile p) of
     Some fd \<Rightarrow> sqn (set_ofile fd (Some f)) (ret (Some fd))
   | None \<Rightarrow> ret None)"

section \<open>Descriptors\<close>

definition sys_dup :: "('z kproc_scheme, int) kmon" where
  "sys_dup = bnd (argfd 0) (\<lambda>r. case r of
     None \<Rightarrow> ret (- 1)
   | Some (_, f) \<Rightarrow> bnd (fdalloc f) (\<lambda>w. case w of
       None \<Rightarrow> ret (- 1)
     | Some fd \<Rightarrow> sqn (filedup f) (ret (int fd))))"

text \<open>The arguments of \<open>read\<close> and \<open>write\<close>: the file, the count and the checked address.\<close>

definition arg_buf :: "('z kmem_scheme, (nat \<times> uint \<times> int) option) kmon" where
  "arg_buf = bnd (argfd 0) (\<lambda>r. case r of
     None \<Rightarrow> ret None
   | Some (_, f) \<Rightarrow> bnd (argint 2) (\<lambda>r. case r of
       None \<Rightarrow> ret None
     | Some n \<Rightarrow> bnd (argptr 1 n) (\<lambda>r. ret (map_option (\<lambda>p. (f, p, n)) r))))"

definition sys_read :: "('z kproc_scheme, int) kmon" where
  "sys_read = bnd arg_buf (\<lambda>r. case r of
     None \<Rightarrow> ret (- 1)
   | Some (f, p, n) \<Rightarrow> bnd (load_user p (nat n)) (\<lambda>b. bnd (fileread f b n) (\<lambda>(r, b).
       sqn (store_user p b (nat n)) (ret r))))"

definition sys_write :: "('z kproc_scheme, int) kmon" where
  "sys_write = bnd arg_buf (\<lambda>r. case r of
     None \<Rightarrow> ret (- 1)
   | Some (f, p, n) \<Rightarrow> bnd (load_user p (nat n)) (\<lambda>b. filewrite f b n))"

definition sys_close :: "('z kproc_scheme, int) kmon" where
  "sys_close = bnd (argfd 0) (\<lambda>r. case r of
     None \<Rightarrow> ret (- 1)
   | Some (fd, f) \<Rightarrow> sqn (stmts [set_ofile fd None, fileclose f]) (ret 0))"

definition STAT_SIZE :: nat where "STAT_SIZE = 20"

definition get_stat :: "bytes \<Rightarrow> stat" where
  "get_stat b = \<lparr>st_type = get16 b 0, st_dev = sint (get32 b 4), st_ino = get32 b 8, st_nlink = get16 b 12,
     st_size = get32 b 16\<rparr>"

definition put_stat :: "bytes \<Rightarrow> stat \<Rightarrow> bytes" where
  "put_stat b st = put32 (put16 (put32 (put32 (put16 b 0 (st_type st)) 4 (word_of_int (st_dev st))) 8 (st_ino st))
     12 (st_nlink st)) 16 (st_size st)"

definition sys_fstat :: "('z kproc_scheme, int) kmon" where
  "sys_fstat = bnd (argfd 0) (\<lambda>r. case r of
     None \<Rightarrow> ret (- 1)
   | Some (_, f) \<Rightarrow> bnd (argptr 1 (int STAT_SIZE)) (\<lambda>r. case r of
       None \<Rightarrow> ret (- 1)
     | Some a \<Rightarrow> bnd (load_user a STAT_SIZE) (\<lambda>b. bnd (filestat f (get_stat b)) (\<lambda>(r, st).
         sqn (store_user a (put_stat b st) STAT_SIZE) (ret r)))))"

section \<open>Links\<close>

definition end_fail :: "('z kproc_scheme, int) kmon" where
  "end_fail = sqn end_op (ret (- 1))"

definition sys_link_bad :: "nat \<Rightarrow> ('z kproc_scheme, int) kmon" where
  "sys_link_bad ip = sqn (stmts [
     ilock (Some ip),
     upd_inode ip (\<lambda>x. x\<lparr>i_nlink := i_nlink x - 1\<rparr>),
     iupdate ip,
     iunlockput ip])
     end_fail"

definition sys_link_to :: "nat \<Rightarrow> uchar list \<Rightarrow> ('z kproc_scheme, int) kmon" where
  "sys_link_to ip new = bnd (nameiparent new (\<lambda>_. 0)) (\<lambda>(w, name). case w of
     None \<Rightarrow> sys_link_bad ip
   | Some dp \<Rightarrow> sqn (ilock (Some dp)) (bnd (the_inode dp) (\<lambda>d. bnd (the_inode ip) (\<lambda>x.
       if i_dev d \<noteq> i_dev x then sqn (iunlockput dp) (sys_link_bad ip)
       else bnd (dirlink dp name (i_inum x)) (\<lambda>r.
         if r < 0 then sqn (iunlockput dp) (sys_link_bad ip)
         else sqn (stmts [iunlockput dp, iput ip, end_op]) (ret 0))))))"

definition sys_link :: "('z kproc_scheme, int) kmon" where
  "sys_link = bnd (argstr 0) (\<lambda>r. case r of
     None \<Rightarrow> ret (- 1)
   | Some old \<Rightarrow> bnd (argstr 1) (\<lambda>r. case r of
       None \<Rightarrow> ret (- 1)
     | Some new \<Rightarrow> sqn begin_op (bnd (namei old) (\<lambda>w. case w of
         None \<Rightarrow> end_fail
       | Some ip \<Rightarrow> sqn (ilock (Some ip)) (bnd (the_inode ip) (\<lambda>x.
           if i_type x = T_DIR then sqn (iunlockput ip) end_fail
           else sqn (stmts [
               upd_inode ip (\<lambda>x. x\<lparr>i_nlink := i_nlink x + 1\<rparr>),
               iupdate ip,
               iunlock (Some ip)])
             (sys_link_to ip new)))))))"

text \<open>The entries after "." and ".." of a directory.\<close>

fun isdirempty_loop :: "nat \<Rightarrow> bytes \<Rightarrow> nat list \<Rightarrow> ('z kcons_scheme, bool) kmon" where
  "isdirempty_loop dp de [] = ret True"
| "isdirempty_loop dp de (off # offs) = bnd (read_dirent ''isdirempty: readi'' dp off de) (\<lambda>de.
     if de_inum de \<noteq> 0 then ret False else isdirempty_loop dp de offs)"

definition isdirempty :: "nat \<Rightarrow> ('z kcons_scheme, bool) kmon" where
  "isdirempty dp = bnd (the_inode dp) (\<lambda>x. isdirempty_loop dp (\<lambda>_. 0) (drop 2 (dirent_offs (unat (i_size x)))))"

definition sys_unlink_bad :: "nat \<Rightarrow> ('z kproc_scheme, int) kmon" where
  "sys_unlink_bad dp = sqn (iunlockput dp) end_fail"

definition sys_unlink_entry :: "nat \<Rightarrow> nat \<Rightarrow> nat \<Rightarrow> ('z kproc_scheme, int) kmon" where
  "sys_unlink_entry dp ip off = bnd (the_inode ip) (\<lambda>x.
     if sint (i_nlink x) < 1 then panic ''unlink: nlink < 1''
     else bnd (if i_type x = T_DIR then isdirempty ip else ret True) (\<lambda>empty.
       if \<not> empty then sqn (iunlockput ip) (sys_unlink_bad dp)
       else bnd (writei dp (memset (\<lambda>_. 0) 0 0 DIRENT_SIZE) (of_nat off) (of_nat DIRENT_SIZE)) (\<lambda>r.
         if r \<noteq> int DIRENT_SIZE then panic ''unlink: writei''
         else sqn (stmts [
             whenM (i_type x = T_DIR) (stmts [
               upd_inode dp (\<lambda>d. d\<lparr>i_nlink := i_nlink d - 1\<rparr>),
               iupdate dp]),
             iunlockput dp,
             upd_inode ip (\<lambda>x. x\<lparr>i_nlink := i_nlink x - 1\<rparr>),
             iupdate ip,
             iunlockput ip,
             end_op])
           (ret 0))))"

definition sys_unlink :: "('z kproc_scheme, int) kmon" where
  "sys_unlink = bnd (argstr 0) (\<lambda>r. case r of
     None \<Rightarrow> ret (- 1)
   | Some pth \<Rightarrow> sqn begin_op (bnd (nameiparent pth (\<lambda>_. 0)) (\<lambda>(w, name). case w of
       None \<Rightarrow> end_fail
     | Some dp \<Rightarrow> sqn (ilock (Some dp))
         (if namecmp name 0 (str_bytes ''.'') 0 = 0 \<or> namecmp name 0 (str_bytes ''..'') 0 = 0 then sys_unlink_bad dp
          else bnd (dirlookup dp name) (\<lambda>found. case found of
            None \<Rightarrow> sys_unlink_bad dp
          | Some (ip, off) \<Rightarrow> sqn (ilock (Some ip)) (sys_unlink_entry dp ip off))))))"

section \<open>Creating and opening\<close>

definition create_new :: "nat \<Rightarrow> bytes \<Rightarrow> ushort \<Rightarrow> ushort \<Rightarrow> ushort \<Rightarrow> ('z kcons_scheme, nat option) kmon" where
  "create_new dp name ty major minor = bnd (the_inode dp) (\<lambda>d. bnd (ialloc (i_dev d) ty) (\<lambda>ip. sqn (stmts [
       ilock (Some ip),
       upd_inode ip (\<lambda>x. x\<lparr>i_major := major, i_minor := minor, i_nlink := 1\<rparr>),
       iupdate ip,
       whenM (ty = T_DIR) (stmts [
         upd_inode dp (\<lambda>d. d\<lparr>i_nlink := i_nlink d + 1\<rparr>),
         iupdate dp,
         bnd (the_inode ip) (\<lambda>x. bnd (dirlink ip (str_bytes ''.'') (i_inum x)) (\<lambda>r.
           whenM (r < 0) (panic ''create dots''))),
         bnd (the_inode dp) (\<lambda>d. bnd (dirlink ip (str_bytes ''..'') (i_inum d)) (\<lambda>r.
           whenM (r < 0) (panic ''create dots'')))]),
       bnd (the_inode ip) (\<lambda>x. bnd (dirlink dp name (i_inum x)) (\<lambda>r.
         whenM (r < 0) (panic ''create: dirlink''))),
       iunlockput dp])
     (ret (Some ip))))"

definition create :: "uchar list \<Rightarrow> ushort \<Rightarrow> ushort \<Rightarrow> ushort \<Rightarrow> ('z kcons_scheme, nat option) kmon" where
  "create pth ty major minor = bnd (nameiparent pth (\<lambda>_. 0)) (\<lambda>(w, name). case w of
     None \<Rightarrow> ret None
   | Some dp \<Rightarrow> sqn (ilock (Some dp)) (bnd (dirlookup dp name) (\<lambda>found. case found of
       Some (ip, _) \<Rightarrow> sqn (stmts [iunlockput dp, ilock (Some ip)]) (bnd (the_inode ip) (\<lambda>x.
         if ty = T_FILE \<and> i_type x = T_FILE then ret (Some ip)
         else sqn (iunlockput ip) (ret None)))
     | None \<Rightarrow> create_new dp name ty major minor)))"

text \<open>The end of \<open>open\<close>, with the inode locked.\<close>

definition open_file :: "nat \<Rightarrow> int \<Rightarrow> ('z kproc_scheme, int) kmon" where
  "open_file ip omode = bnd filealloc (\<lambda>w. case w of
     None \<Rightarrow> sqn (iunlockput ip) end_fail
   | Some f \<Rightarrow> bnd (fdalloc f) (\<lambda>w. case w of
       None \<Rightarrow> sqn (stmts [fileclose f, iunlockput ip]) end_fail
     | Some fd \<Rightarrow> sqn (stmts [
           iunlock (Some ip),
           end_op,
           upd_file f (\<lambda>x. x\<lparr>f_type := FD_INODE, f_ip := Some ip, f_off := 0,
             f_readable := (omode AND O_WRONLY = 0),
             f_writable := (omode AND O_WRONLY \<noteq> 0 \<or> omode AND O_RDWR \<noteq> 0)\<rparr>)])
         (ret (int fd))))"

definition sys_open :: "('z kproc_scheme, int) kmon" where
  "sys_open = bnd (argstr 0) (\<lambda>r. case r of
     None \<Rightarrow> ret (- 1)
   | Some pth \<Rightarrow> bnd (argint 1) (\<lambda>r. case r of
       None \<Rightarrow> ret (- 1)
     | Some omode \<Rightarrow> sqn begin_op
         (if omode AND O_CREATE \<noteq> 0 then bnd (create pth T_FILE 0 0) (\<lambda>w. case w of
            None \<Rightarrow> end_fail
          | Some ip \<Rightarrow> open_file ip omode)
          else bnd (namei pth) (\<lambda>w. case w of
            None \<Rightarrow> end_fail
          | Some ip \<Rightarrow> sqn (ilock (Some ip)) (bnd (the_inode ip) (\<lambda>x.
              if i_type x = T_DIR \<and> omode \<noteq> O_RDONLY then sqn (iunlockput ip) end_fail
              else open_file ip omode))))))"

text \<open>The end of \<open>mkdir\<close> and \<open>mknod\<close>.\<close>

definition created :: "nat option \<Rightarrow> ('z kproc_scheme, int) kmon" where
  "created w = (case w of
     None \<Rightarrow> end_fail
   | Some ip \<Rightarrow> sqn (stmts [iunlockput ip, end_op]) (ret 0))"

definition sys_mkdir :: "('z kproc_scheme, int) kmon" where
  "sys_mkdir = sqn begin_op (bnd (argstr 0) (\<lambda>r. case r of
     None \<Rightarrow> end_fail
   | Some pth \<Rightarrow> bnd (create pth T_DIR 0 0) created))"

definition sys_mknod :: "('z kproc_scheme, int) kmon" where
  "sys_mknod = sqn begin_op (bnd (argstr 0) (\<lambda>r. case r of
     None \<Rightarrow> end_fail
   | Some pth \<Rightarrow> bnd (argint 1) (\<lambda>r. case r of
       None \<Rightarrow> end_fail
     | Some major \<Rightarrow> bnd (argint 2) (\<lambda>r. case r of
         None \<Rightarrow> end_fail
       | Some minor \<Rightarrow> bnd (create pth T_DEV (word_of_int major) (word_of_int minor)) created))))"

definition sys_chdir :: "('z kproc_scheme, int) kmon" where
  "sys_chdir = bnd myproc (\<lambda>me. sqn begin_op (bnd (argstr 0) (\<lambda>r. case r of
     None \<Rightarrow> end_fail
   | Some pth \<Rightarrow> bnd (namei pth) (\<lambda>w. case w of
       None \<Rightarrow> end_fail
     | Some ip \<Rightarrow> sqn (ilock (Some ip)) (bnd (the_inode ip) (\<lambda>x.
         if i_type x \<noteq> T_DIR then sqn (iunlockput ip) end_fail
         else deref me (\<lambda>i. sqn (stmts [
             iunlock (Some ip),
             bnd (gets (\<lambda>s. p_cwd (the_proc s i))) (\<lambda>d. deref d iput),
             end_op,
             upd_proc i (\<lambda>p. p\<lparr>p_cwd := Some ip\<rparr>)])
           (ret 0))))))))"

section \<open>exec and pipe\<close>

text \<open>The loop over \<open>argv\<close>: \<open>n\<close> entries of the kernel's array are left.\<close>

fun exec_argv :: "nat \<Rightarrow> uint \<Rightarrow> ('z kmem_scheme, uchar list list option) kmon" where
  "exec_argv 0 uargv = ret None"
| "exec_argv (Suc n) uargv = bnd (fetchint uargv) (\<lambda>r. case r of
     None \<Rightarrow> ret None
   | Some uarg \<Rightarrow>
       if uarg = 0 then ret (Some [])
       else bnd (fetchstr (word_of_int uarg)) (\<lambda>r. case r of
         None \<Rightarrow> ret None
       | Some a \<Rightarrow> bnd (exec_argv n (uargv + 4)) (\<lambda>r. ret (map_option (Cons a) r))))"

definition sys_exec :: "('z kproc_scheme, int) kmon" where
  "sys_exec = bnd (argstr 0) (\<lambda>r. case r of
     None \<Rightarrow> ret (- 1)
   | Some pth \<Rightarrow> bnd (argint 1) (\<lambda>r. case r of
       None \<Rightarrow> ret (- 1)
     | Some uargv \<Rightarrow> bnd (exec_argv MAXARG (word_of_int uargv)) (\<lambda>r. case r of
         None \<Rightarrow> ret (- 1)
       | Some argv \<Rightarrow> exec pth argv)))"

definition sys_pipe :: "('z kproc_scheme, int) kmon" where
  "sys_pipe = bnd (argptr 0 8) (\<lambda>r. case r of
     None \<Rightarrow> ret (- 1)
   | Some fd \<Rightarrow> bnd pipealloc (\<lambda>w. case w of
       None \<Rightarrow> ret (- 1)
     | Some (rd, wr) \<Rightarrow> bnd (fdalloc rd) (\<lambda>w. case w of
         None \<Rightarrow> sqn (stmts [fileclose rd, fileclose wr]) (ret (- 1))
       | Some fd0 \<Rightarrow> bnd (fdalloc wr) (\<lambda>w. case w of
           None \<Rightarrow> sqn (stmts [set_ofile fd0 None, fileclose rd, fileclose wr]) (ret (- 1))
         | Some fd1 \<Rightarrow> sqn (store_user fd (words_bytes [of_nat fd0, of_nat fd1]) 8) (ret 0)))))"

end
