(* ===== verification/Kbd.thy ===== *)
theory Kbd
  imports Kprelude
begin

text \<open>
  The keyboard (src/kbd.c, src/kbd.h): the tables that give the character of a scan code, and
  \<open>kbdgetc\<close>, a function of the bytes read from the status and the data port and of the static
  variable \<open>shift\<close>. A table is the list its initialiser writes, the designated entries last.
\<close>

definition KBS_DIB :: uchar where "KBS_DIB = 0x01"
definition SHIFT :: uint where "SHIFT = push_bit 0 1"
definition CTL :: uint where "CTL = push_bit 1 1"
definition ALT :: uint where "ALT = push_bit 2 1"
definition CAPSLOCK :: uint where "CAPSLOCK = push_bit 3 1"
definition NUMLOCK :: uint where "NUMLOCK = push_bit 4 1"
definition SCROLLLOCK :: uint where "SCROLLLOCK = push_bit 5 1"
definition E0ESC :: uint where "E0ESC = push_bit 6 1"

section \<open>Tables (kbd.h)\<close>

definition chs :: "string \<Rightarrow> uchar list" where "chs = map of_char"

text \<open>\<open>C('A')\<close>, control and a key.\<close>

definition ctls :: "string \<Rightarrow> uchar list" where "ctls cs = map (\<lambda>c. of_char c - 0x40) cs"

definition key_table :: "uchar list \<Rightarrow> (nat \<times> uchar) list \<Rightarrow> uchar list" where
  "key_table xs ds = fold (\<lambda>(i, v) t. t[i := v]) ds (xs @ replicate (256 - length xs) 0)"

definition shiftcode :: "uchar list" where
  "shiftcode = key_table [] [(0x1D, ucast CTL), (0x2A, ucast SHIFT), (0x36, ucast SHIFT), (0x38, ucast ALT),
     (0x9D, ucast CTL), (0xB8, ucast ALT)]"

definition togglecode :: "uchar list" where
  "togglecode = key_table [] [(0x3A, ucast CAPSLOCK), (0x45, ucast NUMLOCK), (0x46, ucast SCROLLLOCK)]"

text \<open>The entries the three maps end with: keypad enter and division, then the cursor keys.\<close>

definition keypad :: "uchar \<Rightarrow> uchar \<Rightarrow> (nat \<times> uchar) list" where
  "keypad enter slash = [(0x9C, enter), (0xB5, slash), (0xC8, 0xE2), (0xD0, 0xE3), (0xC9, 0xE6), (0xD1, 0xE7),
     (0xCB, 0xE4), (0xCD, 0xE5), (0x97, 0xE0), (0xCF, 0xE1), (0xD2, 0xE8), (0xD3, 0xE9)]"

definition normalmap :: "uchar list" where
  "normalmap = key_table ([0, 0x1B] @ chs ''1234567890-='' @ [8, 9]
     @ chs ''qwertyuiop[]'' @ [10, 0] @ chs ''asdfghjkl;'' @ [0x27, 0x60, 0, 0x5C]
     @ chs ''zxcvbnm,./'' @ [0] @ chs ''*'' @ [0] @ chs '' '' @ replicate 13 0
     @ chs ''789-456+1230.'' @ replicate 4 0)
     (keypad 10 0x2F)"

definition shiftmap :: "uchar list" where
  "shiftmap = key_table ([0, 0x1B] @ chs ''!@#$%^&*()_+'' @ [8, 9]
     @ chs ''QWERTYUIOP{}'' @ [10, 0] @ chs ''ASDFGHJKL:'' @ [0x22, 0x7E, 0, 0x7C]
     @ chs ''ZXCVBNM<>?'' @ [0] @ chs ''*'' @ [0] @ chs '' '' @ replicate 13 0
     @ chs ''789-456+1230.'' @ replicate 4 0)
     (keypad 10 0x2F)"

definition ctlmap :: "uchar list" where
  "ctlmap = key_table (replicate 16 0 @ ctls ''QWERTYUIOP'' @ [0, 0, 13, 0] @ ctls ''ASDFGHJKL'' @ replicate 4 0
     @ [0x5C - 0x40] @ ctls ''ZXCVBNM'' @ [0, 0] @ ctls ''/'' @ [0, 0])
     (keypad 13 (0x2F - 0x40))"

definition charcode :: "uchar list list" where
  "charcode = [normalmap, shiftmap, ctlmap, ctlmap]"

section \<open>kbdgetc\<close>

definition swap_case :: "uint \<Rightarrow> uint" where
  "swap_case c = (if 0x61 \<le> c \<and> c \<le> 0x7A then c + (0x41 - 0x61)
     else if 0x41 \<le> c \<and> c \<le> 0x5A then c + (0x61 - 0x41) else c)"

text \<open>A pressed key, once the E0 escape is folded into its code.\<close>

definition key_press :: "uchar \<Rightarrow> uint \<Rightarrow> int \<times> uint" where
  "key_press data shift =
     (let shift = shift OR ucast (shiftcode ! unat data);
          shift = shift XOR ucast (togglecode ! unat data);
          c = ucast (charcode ! unat (shift AND (CTL OR SHIFT)) ! unat data);
          c = (if shift AND CAPSLOCK \<noteq> 0 then swap_case c else c)
      in (sint c, shift))"

definition kbdgetc :: "uchar \<Rightarrow> uchar \<Rightarrow> uint \<Rightarrow> int \<times> uint" where
  "kbdgetc st data shift =
     (if st AND KBS_DIB = 0 then (- 1, shift)
      else if data = 0xE0 then (0, shift OR E0ESC)
      else if data AND 0x80 \<noteq> 0 then
        let data = (if shift AND E0ESC \<noteq> 0 then data else data AND 0x7F)
        in (0, shift AND NOT (ucast (shiftcode ! unat data) OR E0ESC))
      else if shift AND E0ESC \<noteq> 0 then key_press (data OR 0x80) (shift AND NOT E0ESC)
      else key_press data shift)"

end
