(* ===== verification/Trap.thy ===== *)
theory Trap
  imports Sysfile Kbd
begin

text \<open>
  System calls and traps (src/sysproc.c, \<open>syscall\<close> of src/syscall.c, src/trap.c without the set-up
  of the descriptor table).

  A process that sleeps in \<open>sys_sleep\<close> goes on with \<open>sys_sleep_resume\<close>. \<open>trap\<close> is given the trap
  frame, the number of the CPU, the contents of \<open>cr2\<close> and the characters the keyboard or the
  serial port delivers. The disk is the memory disk, whose \<open>ideintr\<close> does nothing; writes to the
  interrupt controller are not modelled.
\<close>

section \<open>System calls on processes (sysproc.c)\<close>

definition sys_fork :: "('z kproc_scheme, int) kmon" where "sys_fork = fork"

definition sys_exit :: "('z kproc_scheme, int) kmon" where "sys_exit = sqn (exit :: ('z kproc_scheme, unit) kmon) (ret 0)"

definition sys_wait :: "('z kproc_scheme, int) kmon" where "sys_wait = wait"

definition sys_kill :: "('z kproc_scheme, int) kmon" where
  "sys_kill = bnd (argint 0) (\<lambda>r. case r of None \<Rightarrow> ret (- 1) | Some pid \<Rightarrow> kill pid)"

definition sys_getpid :: "('z kproc_scheme, int) kmon" where
  "sys_getpid = curproc (\<lambda>p. ret (p_pid p))"

definition sys_sbrk :: "('z kproc_scheme, int) kmon" where
  "sys_sbrk = bnd (argint 0) (\<lambda>r. case r of
     None \<Rightarrow> ret (- 1)
   | Some n \<Rightarrow> curproc (\<lambda>p. bnd (growproc n) (\<lambda>g. if g < 0 then ret (- 1) else ret (sint (p_sz p)))))"

definition sys_sleep_loop :: "uint \<Rightarrow> int \<Rightarrow> ('z kbase_scheme, int) kmon" where
  "sys_sleep_loop ticks0 n = bnd (gets ticks) (\<lambda>t.
     if t - ticks0 < word_of_int n then bnd myproc_killed (\<lambda>killed.
       if killed then sqn (release L_ticks) (ret (- 1)) else sleep_wait C_ticks L_ticks)
     else sqn (release L_ticks) (ret 0))"

definition sys_sleep :: "('z kproc_scheme, int) kmon" where
  "sys_sleep = bnd (argint 0) (\<lambda>r. case r of
     None \<Rightarrow> ret (- 1)
   | Some n \<Rightarrow> sqn (acquire L_ticks) (bnd (gets ticks) (\<lambda>ticks0. sys_sleep_loop ticks0 n)))"

definition sys_sleep_resume :: "uint \<Rightarrow> int \<Rightarrow> ('z kbase_scheme, int) kmon" where
  "sys_sleep_resume ticks0 n = sqn (sleep_resume L_ticks) (sys_sleep_loop ticks0 n)"

definition sys_uptime :: "('z kproc_scheme, int) kmon" where
  "sys_uptime = sqn (acquire L_ticks) (bnd (gets ticks) (\<lambda>x. sqn (release L_ticks) (ret (sint x))))"

text \<open>A \<open>pstat_t\<close> takes 36 bytes: four words, the name and the state.\<close>

definition PSTAT_SIZE :: nat where "PSTAT_SIZE = 36"

definition get_pstat :: "bytes \<Rightarrow> nat \<Rightarrow> pstat" where
  "get_pstat b k = \<lparr>ps_inuse = sint (get32 b k), ps_tickets = sint (get32 b (k + 4)), ps_pid = sint (get32 b (k + 8)),
     ps_ticks = sint (get32 b (k + 12)), ps_name = (\<lambda>i. b (k + 16 + i)), ps_state = b (k + 32)\<rparr>"

definition put_pstat :: "nat \<Rightarrow> pstat \<Rightarrow> bytes \<Rightarrow> bytes" where
  "put_pstat k e b = (memmove_from (put32 (put32 (put32 (put32 b k (word_of_int (ps_inuse e)))
     (k + 4) (word_of_int (ps_tickets e))) (k + 8) (word_of_int (ps_pid e))) (k + 12) (word_of_int (ps_ticks e)))
     (k + 16) (ps_name e) 0 16)(k + 32 := ps_state e)"

definition sys_getpinfo :: "('z kproc_scheme, int) kmon" where
  "sys_getpinfo = bnd (argptr 0 (int (NPROC * PSTAT_SIZE))) (\<lambda>r. case r of
     None \<Rightarrow> ret (- 1)
   | Some a \<Rightarrow> bnd (load_user a (NPROC * PSTAT_SIZE)) (\<lambda>b.
       bnd (fillpstat (map (\<lambda>i. get_pstat b (i * PSTAT_SIZE)) [0..<NPROC])) (\<lambda>t. sqn
         (store_user a (fold (\<lambda>i. put_pstat (i * PSTAT_SIZE) (t ! i)) [0..<NPROC] b) (NPROC * PSTAT_SIZE))
         (ret 0))))"

definition sys_settickets :: "('z kproc_scheme, int) kmon" where
  "sys_settickets = bnd (argint 0) (\<lambda>r. case r of
     None \<Rightarrow> ret (- 1)
   | Some n \<Rightarrow> if n < 10 then ret (- 1) else settickets n)"

section \<open>Dispatch\<close>

definition syscalls :: "('z kproc_scheme, int) kmon list" where
  "syscalls = [sys_fork, sys_exit, sys_wait, sys_pipe, sys_read, sys_kill, sys_exec, sys_fstat, sys_chdir, sys_dup,
     sys_getpid, sys_sbrk, sys_sleep, sys_uptime, sys_open, sys_write, sys_mknod, sys_unlink, sys_link, sys_mkdir,
     sys_close, sys_getpinfo, sys_settickets]"

definition set_eax :: "nat \<Rightarrow> int \<Rightarrow> ('z kbase_scheme, unit) kmon" where
  "set_eax i r = upd_proc i (\<lambda>p. p\<lparr>p_tf := (p_tf p)\<lparr>tf_eax := word_of_int r\<rparr>\<rparr>)"

definition syscall :: "('z kproc_scheme, unit) kmon" where
  "syscall = bnd myproc (\<lambda>me. deref me (\<lambda>i. bnd (gets (\<lambda>s. the_proc s i)) (\<lambda>p.
     let num = sint (tf_eax (p_tf p)) in
     if num > 0 \<and> num < int (length (syscalls :: ('z kproc_scheme, int) kmon list)) + 1
     then bnd (syscalls ! nat (num - 1)) (set_eax i)
     else stmts [
       cprintf (\<lambda>_. name_chars (p_name p)) (''%d %s: unknown sys call %d'' @ [CHR 0x0A])
         [word_of_int (p_pid p), 1, word_of_int num],
       set_eax i (- 1)])))"

section \<open>Traps (trap.c)\<close>

definition T_SYSCALL :: uint where "T_SYSCALL = 64"
definition T_IRQ0 :: uint where "T_IRQ0 = 32"

definition exit_if_killed :: "bool \<Rightarrow> ('z kproc_scheme, unit) kmon" where
  "exit_if_killed guard = bnd myproc (\<lambda>me. case me of
     None \<Rightarrow> ret ()
   | Some i \<Rightarrow> bnd (gets (\<lambda>s. p_killed (the_proc s i))) (\<lambda>k. whenM (k \<and> guard) exit))"

definition trap_syscall :: "trapframe \<Rightarrow> ('z kproc_scheme, unit) kmon" where
  "trap_syscall tf = bnd myproc (\<lambda>me. deref me (\<lambda>i. stmts [
     exit_if_killed True,
     upd_proc i (\<lambda>p. p\<lparr>p_tf := tf\<rparr>),
     syscall,
     exit_if_killed True]))"

definition trap_irq :: "trapframe \<Rightarrow> nat \<Rightarrow> uint \<Rightarrow> int list \<Rightarrow> ('z kproc_scheme, unit) kmon" where
  "trap_irq tf cpu cr2 input =
     (if tf_trapno tf = T_IRQ0 then whenM (cpu = 0) (stmts [
        acquire L_ticks,
        modify (\<lambda>s. s\<lparr>ticks := ticks s + 1\<rparr>),
        wakeup C_ticks,
        release L_ticks])
      else if tf_trapno tf = T_IRQ0 + 14 \<or> tf_trapno tf = T_IRQ0 + 15 then ret ()
      else if tf_trapno tf = T_IRQ0 + 1 \<or> tf_trapno tf = T_IRQ0 + 4 then consoleintr input
      else if tf_trapno tf = T_IRQ0 + 7 \<or> tf_trapno tf = T_IRQ0 + 31 then
        cprintf (\<lambda>_. []) (''cpu%d: spurious interrupt at %x:%x'' @ [CHR 0x0A]) [of_nat cpu, ucast (tf_cs tf), tf_eip tf]
      else bnd myproc (\<lambda>me.
        if me = None \<or> tf_cs tf AND 3 = 0 then stmts [
          cprintf (\<lambda>_. []) (''unexpected trap %d from cpu %d eip %x (cr2=0x%x)'' @ [CHR 0x0A])
            [tf_trapno tf, of_nat cpu, tf_eip tf, cr2],
          panic ''trap'']
        else deref me (\<lambda>i. bnd (gets (\<lambda>s. the_proc s i)) (\<lambda>p. stmts [
          cprintf (\<lambda>_. name_chars (p_name p))
            (''pid %d %s: trap %d err %d on cpu %d eip 0x%x addr 0x%x--kill proc'' @ [CHR 0x0A])
            [word_of_int (p_pid p), 1, tf_trapno tf, tf_err tf, of_nat cpu, tf_eip tf, cr2],
          upd_proc i (\<lambda>p. p\<lparr>p_killed := True\<rparr>)]))))"

definition trap :: "trapframe \<Rightarrow> nat \<Rightarrow> uint \<Rightarrow> int list \<Rightarrow> ('z kproc_scheme, unit) kmon" where
  "trap tf cpu cr2 input =
     (if tf_trapno tf = T_SYSCALL then trap_syscall tf
      else stmts [
        trap_irq tf cpu cr2 input,
        exit_if_killed (tf_cs tf AND 3 = 3),
        bnd myproc (\<lambda>me. case me of
          None \<Rightarrow> ret ()
        | Some i \<Rightarrow> bnd (gets (\<lambda>s. p_state (the_proc s i))) (\<lambda>st.
            whenM (st = RUNNING \<and> tf_trapno tf = T_IRQ0) yield)),
        exit_if_killed (tf_cs tf AND 3 = 3)])"

text \<open>What follows the \<open>yield\<close> once the process runs again.\<close>

definition trap_resume :: "trapframe \<Rightarrow> ('z kproc_scheme, unit) kmon" where
  "trap_resume tf = stmts [yield_resume, exit_if_killed (tf_cs tf AND 3 = 3)]"

end
