(* ===== verification/Tables.thy ===== *)
theory Tables
  imports Trap
begin

text \<open>
  An invariant of the whole kernel: whatever traps, system calls, schedulings and wake-ups do, the
  process table has \<open>NPROC\<close> entries with \<open>NOFILE\<close> descriptors and a legal number of tickets
  each, the inode cache \<open>NINODE\<close> entries with \<open>NDIRECT + 1\<close> addresses each and the file table
  \<open>NFILE\<close> entries. Every index that comes out of a scan of one of these tables therefore stays valid.
  There is one lemma per operation, found by the rules in \<open>keeps_intros\<close>; \<open>kstep\<close> at the end
  collects everything that can run in the kernel.
\<close>

definition proc_ok :: "proc \<Rightarrow> bool" where
  "proc_ok p \<longleftrightarrow> length (p_ofile p) = NOFILE \<and> (p_tickets p = 0 \<or> 10 \<le> p_tickets p)"

definition inode_ok :: "inode \<Rightarrow> bool" where
  "inode_ok x \<longleftrightarrow> length (i_addrs x) = NDIRECT + 1"

definition tables_ok :: "'z kfile_scheme \<Rightarrow> bool" where
  "tables_ok s \<longleftrightarrow> length (ptable s) = NPROC \<and> list_all proc_ok (ptable s)
     \<and> length (icache s) = NINODE \<and> list_all inode_ok (icache s) \<and> length (ftable s) = NFILE"

section \<open>Rules\<close>

lemma all_list_update:
  assumes "list_all P xs" and "\<And>x. P x \<Longrightarrow> P (f x)"
  shows "list_all P (xs[i := f (xs ! i)])"
proof (cases "i < length xs")
  case True
  then have "P (f (xs ! i))" using assms by (simp add: list_all_length)
  with True show ?thesis using assms(1) by (auto simp: list_all_length nth_list_update)
qed (use assms in \<open>simp add: list_update_beyond\<close>)

lemma keeps_modify_tables [keeps_intros]:
  assumes "\<And>s. ptable (f s) = ptable s" and "\<And>s. icache (f s) = icache s" and "\<And>s. ftable (f s) = ftable s"
  shows "keeps tables_ok (modify f)"
  using assms by (auto intro: keeps_modify simp: tables_ok_def)

lemma keeps_upd_proc [keeps_intros]:
  assumes "\<And>p. proc_ok p \<Longrightarrow> proc_ok (f p)"
  shows "keeps tables_ok (upd_proc i f)"
proof -
  have "list_all proc_ok ((ptable s)[i := f (ptable s ! i)])" if "tables_ok s" for s :: "'z kfile_scheme"
    by (rule all_list_update) (use that assms in \<open>auto simp: tables_ok_def\<close>)
  then show ?thesis unfolding upd_proc_def by (intro keeps_modify) (simp add: tables_ok_def)
qed

lemma keeps_upd_inode [keeps_intros]:
  assumes "\<And>x. inode_ok x \<Longrightarrow> inode_ok (f x)"
  shows "keeps tables_ok (upd_inode i f)"
proof -
  have "list_all inode_ok ((icache s)[i := f (icache s ! i)])" if "tables_ok s" for s :: "'z kfile_scheme"
    by (rule all_list_update) (use that assms in \<open>auto simp: tables_ok_def\<close>)
  then show ?thesis unfolding upd_inode_def by (intro keeps_modify) (simp add: tables_ok_def)
qed

lemma keeps_upd_file [keeps_intros]: "keeps tables_ok (upd_file i f)"
  unfolding upd_file_def by (rule keeps_modify) (simp add: tables_ok_def)

lemma keeps_state:
  assumes "\<And>s x s'. m s = Ok x s' \<Longrightarrow> ptable s' = ptable s \<and> icache s' = icache s \<and> ftable s' = ftable s"
    and "\<And>s s'. m s = Blocked s' \<Longrightarrow> ptable s' = ptable s \<and> icache s' = icache s \<and> ftable s' = ftable s"
  shows "keeps tables_ok m"
  by (rule keepsI) (use assms in \<open>force simp: tables_ok_def\<close>)+

section \<open>Process table\<close>

lemma keeps_acquire [keeps_intros]: "keeps tables_ok (acquire lk)"
  by (rule keeps_state) (auto simp: acquire_def split: if_splits)

lemma keeps_release [keeps_intros]: "keeps tables_ok (release lk)"
  by (rule keeps_state) (auto simp: release_def split: if_splits)

lemma keeps_sched [keeps_intros]: "keeps tables_ok sched"
  by (rule keeps_state) (auto simp: sched_def split: if_splits option.splits)

lemma keeps_wakeup1 [keeps_intros]: "keeps tables_ok (wakeup1 c)"
  unfolding wakeup1_def by (rule keeps_modify) (auto simp: tables_ok_def list_all_iff proc_ok_def wake_proc_def)

lemma keeps_deref [keeps_intros]: "(\<And>x. keeps I (k x)) \<Longrightarrow> keeps I (deref p k)"
  unfolding deref_def by (intro keeps_intros)

lemmas ptable_ops = myproc_def yield_def yield_resume_def sleep_def sleep_resume_def sleep_wait_def myproc_killed_def
  wakeup_def kill_def settickets_def switchkvm_def switchuvm_def fillpstat_def myproc_pid_def curproc_def set_ofile_def
  set_eax_def

lemma keeps_myproc [keeps_intros]: "keeps tables_ok myproc"
  unfolding myproc_def by (intro keeps_intros)

lemma keeps_curproc [keeps_intros]: "(\<And>p. keeps tables_ok (k p)) \<Longrightarrow> keeps tables_ok (curproc k)"
  unfolding curproc_def by (intro keeps_intros)

lemma keeps_ptable_ops [keeps_intros]:
  "keeps tables_ok yield" "keeps tables_ok yield_resume" "keeps tables_ok (sleep c lk)" "keeps tables_ok (sleep_resume lk)"
  "keeps tables_ok (wakeup c)" "keeps tables_ok (kill pid)" "keeps tables_ok switchkvm"
  "keeps tables_ok (switchuvm w)" "keeps tables_ok (fillpstat t)" "keeps tables_ok myproc_pid" "keeps tables_ok myproc_killed"
  "keeps tables_ok (set_ofile fd f)" "keeps tables_ok (set_eax i r)"
  unfolding ptable_ops by (intro keeps_intros; simp add: kill_proc_def proc_ok_def)+

lemma keeps_settickets [keeps_intros]: "10 \<le> n \<Longrightarrow> keeps tables_ok (settickets n)"
  unfolding settickets_def by (intro keeps_intros; simp add: proc_ok_def)

lemma keeps_sleep_wait [keeps_intros]: "keeps tables_ok (sleep_wait c lk)"
  unfolding sleep_wait_def by (intro keeps_intros)

section \<open>Memory, pipes, locks, buffers, log\<close>

lemma keeps_kalloc_ops [keeps_intros]:
  "keeps tables_ok (upd_page v f)" "keeps tables_ok kmem_lock" "keeps tables_ok kmem_unlock"
  unfolding upd_page_def kmem_lock_def kmem_unlock_def by (intro keeps_intros; simp add: proc_ok_def inode_ok_def)+

lemma keeps_kalloc [keeps_intros]:
  "keeps tables_ok kalloc" "keeps tables_ok (kfree v)"
  unfolding kalloc_def kfree_def by (intro keeps_intros; simp add: proc_ok_def inode_ok_def)+

lemma keeps_pipe_ops [keeps_intros]:
  "keeps tables_ok (upd_pipe q f)"
  unfolding upd_pipe_def by (intro keeps_intros; simp add: proc_ok_def inode_ok_def)+

lemma keeps_pipewrite_loop [keeps_intros]: "keeps tables_ok (pipewrite_loop q addr n i)"
proof (induction q addr n i rule: pipewrite_loop.induct)
  case (1 q addr n i)
  show ?case by (subst pipewrite_loop.simps) (intro keeps_intros 1; simp)
qed

lemma keeps_piperead_copy [keeps_intros]: "keeps tables_ok (piperead_copy q addr n i)"
proof (induction q addr n i rule: piperead_copy.induct)
  case (1 q addr n i)
  show ?case by (subst piperead_copy.simps) (intro keeps_intros 1; simp)
qed

lemma keeps_piperead_loop [keeps_intros]:
  "keeps tables_ok (piperead_loop q addr n)"
  unfolding piperead_loop_def by (intro keeps_intros; simp add: proc_ok_def inode_ok_def)+

lemma keeps_pipe [keeps_intros]:
  "keeps tables_ok (pipeclose q w)" "keeps tables_ok (pipewrite q addr n)" "keeps tables_ok (piperead q addr n)"
  unfolding pipeclose_def pipewrite_def piperead_def by (intro keeps_intros; simp add: proc_ok_def inode_ok_def)+

lemma keeps_slock_ops [keeps_intros]:
  "keeps tables_ok (set_slock l v)" "keeps tables_ok (initsleeplock l)" "keeps tables_ok (holdingsleep l)" "keeps tables_ok (releasesleep l)"
  unfolding initsleeplock_def holdingsleep_def releasesleep_def set_slock_def by (intro keeps_intros; simp add: proc_ok_def inode_ok_def)+

lemma keeps_acquiresleep_loop [keeps_intros]:
  "keeps tables_ok (acquiresleep_loop l)"
  unfolding acquiresleep_loop_def by (intro keeps_intros; simp add: proc_ok_def inode_ok_def)+

lemma keeps_acquiresleep [keeps_intros]:
  "keeps tables_ok (acquiresleep l)"
  unfolding acquiresleep_def by (intro keeps_intros; simp add: proc_ok_def inode_ok_def)+

lemma keeps_upd_buf [keeps_intros]:
  "keeps tables_ok (upd_buf i f)" "keeps tables_ok (the_buf i)"
  unfolding upd_buf_def the_buf_def by (intro keeps_intros; simp add: proc_ok_def inode_ok_def)+

lemma keeps_link_front [keeps_intros]:
  "keeps tables_ok (link_front i)"
  unfolding link_front_def by (intro keeps_intros; simp add: proc_ok_def inode_ok_def)+

lemma keeps_bget [keeps_intros]:
  "keeps tables_ok (bget d n)" "keeps tables_ok (iderw i)"
  unfolding bget_def iderw_def by (intro keeps_intros; simp add: proc_ok_def inode_ok_def)+

lemma keeps_bread [keeps_intros]:
  "keeps tables_ok (bread d n)" "keeps tables_ok (bwrite i)" "keeps tables_ok (brelse i)"
  unfolding bread_def bwrite_def brelse_def by (intro keeps_intros; simp add: proc_ok_def inode_ok_def)+

lemma keeps_log_ops [keeps_intros]:
  "keeps tables_ok (readsb d)" "keeps tables_ok (log_bread n)" "keeps tables_ok (lh_set i v)"
  unfolding readsb_def log_bread_def lh_set_def by (intro keeps_intros; simp add: proc_ok_def inode_ok_def)+

lemma keeps_log_steps [keeps_intros]:
  "keeps tables_ok (install_step t)" "keeps tables_ok (write_log_step t)"
  unfolding install_step_def write_log_step_def by (intro keeps_intros; simp add: proc_ok_def inode_ok_def)+

lemma keeps_log_phases [keeps_intros]:
  "keeps tables_ok install_trans" "keeps tables_ok read_head" "keeps tables_ok write_head" "keeps tables_ok write_log"
  unfolding install_trans_def read_head_def write_head_def write_log_def by (intro keeps_intros; simp add: proc_ok_def inode_ok_def)+

lemma keeps_commit [keeps_intros]:
  "keeps tables_ok commit" "keeps tables_ok recover_from_log"
  unfolding commit_def recover_from_log_def by (intro keeps_intros; simp add: proc_ok_def inode_ok_def)+

lemma keeps_begin_op_loop [keeps_intros]:
  "keeps tables_ok begin_op_loop"
  unfolding begin_op_loop_def by (intro keeps_intros; simp add: proc_ok_def inode_ok_def)+

lemma keeps_log [keeps_intros]:
  "keeps tables_ok begin_op" "keeps tables_ok end_op" "keeps tables_ok (log_write i)" "keeps tables_ok (initlog d)"
  unfolding begin_op_def end_op_def log_write_def initlog_def by (intro keeps_intros; simp add: proc_ok_def inode_ok_def)+

section \<open>Inodes\<close>

lemma keeps_bzero [keeps_intros]:
  "keeps tables_ok (the_inode i)" "keeps tables_ok (bzero d n)"
  unfolding the_inode_def bzero_def by (intro keeps_intros; simp add: proc_ok_def inode_ok_def)+

lemma keeps_balloc_from [keeps_intros]: "keeps tables_ok (balloc_from d bs)"
proof (induction bs)
  case (Cons b bs)
  show ?case unfolding balloc_from.simps by (intro keeps_intros Cons; simp)
qed (unfold balloc_from.simps, rule keeps_panic)

lemma keeps_iget [keeps_intros]: "keeps tables_ok (iget d n)"
  unfolding iget_def by (intro keeps_intros; simp add: proc_ok_def inode_ok_def)

lemma keeps_ialloc_from [keeps_intros]: "keeps tables_ok (ialloc_from d t is)"
proof (induction "is")
  case (Cons b bs)
  show ?case unfolding ialloc_from.simps by (intro keeps_intros Cons; simp)
qed (unfold ialloc_from.simps, rule keeps_panic)

lemma length_get_addrs: "length (get_addrs d k) = NDIRECT + 1"
  by (simp add: get_addrs_def)

lemma keeps_of_dinode [keeps_intros]: "keeps tables_ok (bnd (gets (\<lambda>s. get_dinode (f s) k)) (\<lambda>d. stmts (upd_inode ip (of_dinode d) # ms d)))"
  if "\<And>d. keeps tables_ok (stmts (ms d))" for ip
proof -
  have "keeps tables_ok (bnd (gets f) (\<lambda>b. stmts (upd_inode ip (of_dinode (get_dinode b k)) # ms (get_dinode b k))))"
    by (intro keeps_intros that) (simp add: inode_ok_def of_dinode_def get_dinode_def length_get_addrs)
  moreover have "bnd (gets (\<lambda>s. get_dinode (f s) k)) (\<lambda>d. stmts (upd_inode ip (of_dinode d) # ms d))
    = bnd (gets f) (\<lambda>b. stmts (upd_inode ip (of_dinode (get_dinode b k)) # ms (get_dinode b k)))"
    by (rule ext) simp
  ultimately show ?thesis by simp
qed

lemma keeps_ilock_read [keeps_intros]: "keeps tables_ok (ilock_read ip)"
  unfolding ilock_read_def
  by (rule keeps_bnd keeps_whenM keeps_of_dinode | intro keeps_intros; simp add: proc_ok_def inode_ok_def)+

lemma keeps_inode_ops [keeps_intros]:
  "keeps tables_ok (balloc d)" "keeps tables_ok (bfree d b)" "keeps tables_ok (iinit d)" "keeps tables_ok (ialloc d t)" "keeps tables_ok (iupdate ip)" "keeps tables_ok (idup ip)" "keeps tables_ok (ilock w)" "keeps tables_ok (iunlock w)"
  unfolding balloc_def bfree_def iinit_def ialloc_def iupdate_def idup_def ilock_def iunlock_def by (intro keeps_intros; simp add: proc_ok_def inode_ok_def)+

lemma keeps_itrunc_steps [keeps_intros]:
  "keeps tables_ok (itrunc_direct ip i)" "keeps tables_ok (itrunc_indirect ip)"
  unfolding itrunc_direct_def itrunc_indirect_def by (intro keeps_intros; simp add: proc_ok_def inode_ok_def)+

lemma keeps_itrunc [keeps_intros]:
  "keeps tables_ok (itrunc ip)"
  unfolding itrunc_def by (intro keeps_intros; simp add: proc_ok_def inode_ok_def)+

lemma keeps_iput [keeps_intros]:
  "keeps tables_ok (iput ip)"
  unfolding iput_def by (intro keeps_intros; simp add: proc_ok_def inode_ok_def)+

lemma keeps_bmap_addr [keeps_intros]:
  "keeps tables_ok (iunlockput ip)" "keeps tables_ok (bmap_addr ip i)"
  unfolding iunlockput_def bmap_addr_def by (intro keeps_intros; simp add: proc_ok_def inode_ok_def)+

lemma keeps_bmap_ind [keeps_intros]:
  "keeps tables_ok (bmap_ind ip bn ind)"
  unfolding bmap_ind_def by (intro keeps_intros; simp add: proc_ok_def inode_ok_def)+

lemma keeps_bmap [keeps_intros]:
  "keeps tables_ok (bmap ip bn)"
  unfolding bmap_def by (intro keeps_intros; simp add: proc_ok_def inode_ok_def)+

section \<open>Console\<close>

lemma keeps_cgaputc [keeps_intros]: "keeps tables_ok (cgaputc c)"
  by (rule keeps_state) (auto simp: cgaputc_def Let_def split: if_splits prod.splits)

lemma keeps_uartputc [keeps_intros]:
  "keeps tables_ok (uartputc c)"
  unfolding uartputc_def by (intro keeps_intros; simp add: proc_ok_def inode_ok_def)+

lemma keeps_consputc [keeps_intros]:
  "keeps tables_ok (consputc c)"
  unfolding consputc_def by (intro keeps_intros; simp add: proc_ok_def inode_ok_def)+

lemma keeps_printint [keeps_intros]:
  "keeps tables_ok (printint xx b sg)"
  unfolding printint_def by (intro keeps_intros; simp add: proc_ok_def inode_ok_def)+

lemma keeps_cprintf_loop [keeps_intros]: "keeps tables_ok (cprintf_loop str fmt args)"
proof (induction fmt arbitrary: args rule: length_induct)
  case (1 fmt)
  note IH = 1 [rule_format]
  show ?case
  proof (cases fmt)
    case Nil
    show ?thesis unfolding Nil cprintf_loop.simps by (intro keeps_intros)
  next
    case (Cons f fmt1)
    show ?thesis
    proof (cases fmt1)
      case Nil
      show ?thesis unfolding Cons Nil cprintf_loop.simps list.case by (intro keeps_intros IH; simp add: Cons)
    next
      case c: (Cons c fmt2)
      show ?thesis unfolding Cons c
        by (subst cprintf_loop.simps) (unfold list.case, intro keeps_intros IH; simp add: Cons c)
    qed
  qed
qed

lemma keeps_cprintf [keeps_intros]:
  "keeps tables_ok (cprintf str fmt args)"
  unfolding cprintf_def by (intro keeps_intros; simp add: proc_ok_def inode_ok_def)+

lemma keeps_procdump_one [keeps_intros]:
  "keeps tables_ok (procdump_one q)"
  unfolding procdump_one_def by (intro keeps_intros; simp add: proc_ok_def inode_ok_def)+

lemma keeps_procdump [keeps_intros]:
  "keeps tables_ok procdump"
  unfolding procdump_def by (intro keeps_intros; simp add: proc_ok_def inode_ok_def)+

lemma keeps_kill_line [keeps_intros]: "keeps tables_ok (kill_line n)"
  by (induction n) (unfold kill_line.simps, intro keeps_intros; simp add: proc_ok_def inode_ok_def)+

lemma keeps_input_char [keeps_intros]:
  "keeps tables_ok (input_char c)"
  unfolding input_char_def by (intro keeps_intros; simp add: proc_ok_def inode_ok_def)+

lemma keeps_consoleintr_char [keeps_intros]:
  "keeps tables_ok (consoleintr_char c)"
  unfolding consoleintr_char_def by (intro keeps_intros; simp add: proc_ok_def inode_ok_def)+

lemma keeps_consoleintr [keeps_intros]:
  "keeps tables_ok (consoleintr cs)"
  unfolding consoleintr_def by (intro keeps_intros; simp add: proc_ok_def inode_ok_def)+

lemma keeps_consoleread_end [keeps_intros]:
  "keeps tables_ok (consoleread_end ip t n dst)"
  unfolding consoleread_end_def by (intro keeps_intros; simp add: proc_ok_def inode_ok_def)+

lemma keeps_consoleread_loop [keeps_intros]: "keeps tables_ok (consoleread_loop ip t n k dst)"
  by (induction n arbitrary: k dst) (unfold consoleread_loop.simps, intro keeps_intros; simp add: proc_ok_def inode_ok_def)+

lemma keeps_console [keeps_intros]:
  "keeps tables_ok (consoleread ip dst n)" "keeps tables_ok (consolewrite ip dst n)"
  unfolding consoleread_def consolewrite_def by (intro keeps_intros; simp add: proc_ok_def inode_ok_def)+

section \<open>Files\<close>

lemma keeps_stati [keeps_intros]:
  "keeps tables_ok (stati ip)"
  unfolding stati_def by (intro keeps_intros; simp add: proc_ok_def inode_ok_def)+

lemma keeps_readi_loop [keeps_intros]: "keeps tables_ok (readi_loop ip off tot n dst)"
proof (induction ip off tot n dst rule: readi_loop.induct)
  case (1 ip off tot n dst)
  show ?case by (subst readi_loop.simps) (intro keeps_intros 1; simp)
qed

lemma keeps_writei_loop [keeps_intros]: "keeps tables_ok (writei_loop ip src off tot n)"
proof (induction ip src off tot n rule: writei_loop.induct)
  case (1 ip src off tot n)
  show ?case by (subst writei_loop.simps) (intro keeps_intros 1; simp)
qed

lemma keeps_readi [keeps_intros]:
  "keeps tables_ok (readi ip dst off n)" "keeps tables_ok (writei ip dst off n)"
  unfolding readi_def writei_def by (intro keeps_intros; simp add: proc_ok_def inode_ok_def)+

lemma keeps_read_dirent [keeps_intros]:
  "keeps tables_ok (read_dirent msg dp off de)"
  unfolding read_dirent_def by (intro keeps_intros; simp add: proc_ok_def inode_ok_def)+

lemma keeps_dirlookup_loop [keeps_intros]: "keeps tables_ok (dirlookup_loop dp name de offs)"
  by (induction offs arbitrary: de) (unfold dirlookup_loop.simps, intro keeps_intros; simp add: proc_ok_def inode_ok_def)+

lemma keeps_dirlink_find [keeps_intros]: "keeps tables_ok (dirlink_find dp de offs nxt)"
  by (induction offs arbitrary: de nxt) (unfold dirlink_find.simps, intro keeps_intros; simp add: proc_ok_def inode_ok_def)+

lemma keeps_dirlookup [keeps_intros]:
  "keeps tables_ok (dirlookup dp name)"
  unfolding dirlookup_def by (intro keeps_intros; simp add: proc_ok_def inode_ok_def)+

lemma keeps_dirlink [keeps_intros]:
  "keeps tables_ok (dirlink dp name n)"
  unfolding dirlink_def by (intro keeps_intros; simp add: proc_ok_def inode_ok_def)+

lemma keeps_namex_loop [keeps_intros]: "keeps tables_ok (namex_loop ip pth par name)"
proof (induction pth arbitrary: ip name rule: length_induct)
  case (1 pth)
  note IH = 1 [rule_format]
  show ?case
  proof (cases "skipelem pth name")
    case None
    then show ?thesis by (subst namex_loop.simps) (unfold None option.case, intro keeps_intros)
  next
    case (Some y)
    obtain rest nm where y: "y = (rest, nm)" by (cases y)
    with Some have "length rest < length pth" by (simp add: skipelem_shorter)
    then show ?thesis
      by (subst namex_loop.simps) (unfold Some y option.case prod.case, intro keeps_intros IH; simp)
  qed
qed

lemma keeps_namex [keeps_intros]:
  "keeps tables_ok (namex pth par name)"
  unfolding namex_def by (intro keeps_intros; simp add: proc_ok_def inode_ok_def)+

lemma keeps_namei [keeps_intros]:
  "keeps tables_ok (namei pth)" "keeps tables_ok (nameiparent pth name)"
  unfolding namei_def nameiparent_def by (intro keeps_intros; simp add: proc_ok_def inode_ok_def)+

lemma keeps_ftype [keeps_intros]:
  "keeps I a \<Longrightarrow> keeps I b \<Longrightarrow> keeps I c \<Longrightarrow> keeps I (case t of FD_NONE \<Rightarrow> a | FD_PIPE \<Rightarrow> b | FD_INODE \<Rightarrow> c)"
  by (cases t) simp_all

lemma keeps_file_ops [keeps_intros]:
  "keeps tables_ok (the_file f)" "keeps tables_ok filealloc" "keeps tables_ok (filedup f)" "keeps tables_ok (fileclose f)" "keeps tables_ok (filestat f st)" "keeps tables_ok (fileread f addr n)" "keeps tables_ok (filewrite_chunk f w addr i n)"
  unfolding the_file_def filealloc_def filedup_def fileclose_def filestat_def fileread_def filewrite_chunk_def by (intro keeps_intros; simp add: proc_ok_def inode_ok_def)+

lemma keeps_filewrite_loop [keeps_intros]: "keeps tables_ok (filewrite_loop f w addr n i)"
proof (induction f w addr n i rule: filewrite_loop.induct)
  case (1 f w addr n i)
  show ?case by (subst filewrite_loop.simps) (intro keeps_intros 1; simp)
qed

lemma keeps_filewrite [keeps_intros]:
  "keeps tables_ok (filewrite f addr n)" "keeps tables_ok (close_opt w)"
  unfolding filewrite_def close_opt_def by (intro keeps_intros; simp add: proc_ok_def inode_ok_def)+

lemma keeps_pipealloc [keeps_intros]:
  "keeps tables_ok (pipealloc_bad w0 w1)" "keeps tables_ok pipealloc"
  unfolding pipealloc_def pipealloc_bad_def by (intro keeps_intros; simp add: proc_ok_def inode_ok_def)+

section \<open>Page tables\<close>

lemma keeps_set_pte [keeps_intros]:
  "keeps tables_ok (set_pte q v)"
  unfolding set_pte_def by (intro keeps_intros; simp add: proc_ok_def inode_ok_def)+

lemma keeps_walkpgdir [keeps_intros]:
  "keeps tables_ok (walkpgdir pg va al)"
  unfolding walkpgdir_def by (intro keeps_intros; simp add: proc_ok_def inode_ok_def)+

lemma keeps_mappages_loop [keeps_intros]: "keeps tables_ok (mappages_loop n pg a pa perm)"
  by (induction n arbitrary: a pa) (unfold mappages_loop.simps, intro keeps_intros; simp add: proc_ok_def inode_ok_def)+

lemma keeps_mappages [keeps_intros]:
  "keeps tables_ok (mappages pg va sz pa perm)"
  unfolding mappages_def by (intro keeps_intros; simp add: proc_ok_def inode_ok_def)+

lemma keeps_deallocuvm_loop [keeps_intros]: "keeps tables_ok (deallocuvm_loop pg a oldsz)"
proof (induction pg a oldsz rule: deallocuvm_loop.induct)
  case (1 pg a oldsz)
  show ?case by (subst deallocuvm_loop.simps) (intro keeps_intros 1; simp)
qed

lemma keeps_deallocuvm [keeps_intros]:
  "keeps tables_ok (deallocuvm pg oz nz)"
  unfolding deallocuvm_def by (intro keeps_intros; simp add: proc_ok_def inode_ok_def)+

lemma keeps_freevm [keeps_intros]:
  "keeps tables_ok (freevm pg)"
  unfolding freevm_def by (intro keeps_intros; simp add: proc_ok_def inode_ok_def)+

lemma keeps_setupkvm_loop [keeps_intros]: "keeps tables_ok (setupkvm_loop pg ks)"
  by (induction pg ks rule: setupkvm_loop.induct) (unfold setupkvm_loop.simps, intro keeps_intros; simp add: proc_ok_def inode_ok_def)+

lemma keeps_setupkvm [keeps_intros]:
  "keeps tables_ok setupkvm" "keeps tables_ok (inituvm pg code sz)"
  unfolding setupkvm_def inituvm_def by (intro keeps_intros; simp add: proc_ok_def inode_ok_def)+

lemma keeps_loaduvm_loop [keeps_intros]: "keeps tables_ok (loaduvm_loop pg addr ip off sz is)"
  by (induction "is") (unfold loaduvm_loop.simps, intro keeps_intros; simp add: proc_ok_def inode_ok_def)+

lemma keeps_loaduvm [keeps_intros]:
  "keeps tables_ok (loaduvm pg addr ip off sz)" "keeps tables_ok (oom_msg m)"
  unfolding loaduvm_def oom_msg_def by (intro keeps_intros; simp add: proc_ok_def inode_ok_def)+

lemma keeps_allocuvm_loop [keeps_intros]: "keeps tables_ok (allocuvm_loop pg oldsz newsz a)"
proof (induction pg oldsz newsz a rule: allocuvm_loop.induct)
  case (1 pg oldsz newsz a)
  show ?case by (subst allocuvm_loop.simps) (intro keeps_intros 1; simp)
qed

lemma keeps_allocuvm [keeps_intros]:
  "keeps tables_ok (allocuvm pg oz nz)" "keeps tables_ok (clearpteu pg va)"
  unfolding allocuvm_def clearpteu_def by (intro keeps_intros; simp add: proc_ok_def inode_ok_def)+

lemma keeps_copyuvm_loop [keeps_intros]: "keeps tables_ok (copyuvm_loop pg d is)"
  by (induction "is") (unfold copyuvm_loop.simps, intro keeps_intros; simp add: proc_ok_def inode_ok_def)+

lemma keeps_copyuvm [keeps_intros]:
  "keeps tables_ok (copyuvm pg sz)" "keeps tables_ok (uva2ka pg va)"
  unfolding copyuvm_def uva2ka_def by (intro keeps_intros; simp add: proc_ok_def inode_ok_def)+

lemma keeps_copyout_loop [keeps_intros]: "keeps tables_ok (copyout_loop pg va q k left)"
proof (induction pg va q k left rule: copyout_loop.induct)
  case (1 pg va q k left)
  show ?case by (subst copyout_loop.simps) (intro keeps_intros 1; simp)
qed

lemma keeps_copyout [keeps_intros]:
  "keeps tables_ok (copyout pg va q len)"
  unfolding copyout_def by (intro keeps_intros; simp add: proc_ok_def inode_ok_def)+

section \<open>Processes and system calls\<close>

lemma keeps_allocproc [keeps_intros]:
  "keeps tables_ok allocproc"
  unfolding allocproc_def by (intro keeps_intros; simp add: proc_ok_def inode_ok_def)+

lemma keeps_fork [keeps_intros]:
  "keeps tables_ok (growproc n)" "keeps tables_ok fork" "keeps tables_ok userinit"
  unfolding growproc_def fork_def userinit_def by (intro keeps_intros; simp add: proc_ok_def inode_ok_def)+

lemma keeps_exit [keeps_intros]:
  "keeps tables_ok (reparent me i)" "keeps tables_ok (exit_tail i)" "keeps tables_ok exit"
  unfolding reparent_def exit_def exit_tail_def by (intro keeps_intros; simp add: proc_ok_def inode_ok_def)+

lemma keeps_wait_loop [keeps_intros]:
  "keeps tables_ok (wait_loop me)"
  unfolding wait_loop_def by (intro keeps_intros; simp add: proc_ok_def inode_ok_def)+

lemma keeps_wait [keeps_intros]:
  "keeps tables_ok wait" "keeps tables_ok (wait_resume me)" "keeps tables_ok forkret"
  unfolding wait_def wait_resume_def forkret_def by (intro keeps_intros; simp add: proc_ok_def inode_ok_def)+

lemma keeps_uaccess [keeps_intros]:
  "keeps tables_ok (load_byte va)" "keeps tables_ok (store_byte va c)"
  unfolding load_byte_def store_byte_def by (intro keeps_intros; simp add: proc_ok_def inode_ok_def)+

lemma keeps_load_list [keeps_intros]: "keeps tables_ok (load_list va n)"
  by (induction n arbitrary: va) (unfold load_list.simps, intro keeps_intros; simp add: proc_ok_def inode_ok_def)+

lemma keeps_load_user [keeps_intros]:
  "keeps tables_ok (load_user va n)" "keeps tables_ok (store_user va b n)"
  unfolding load_user_def store_user_def by (intro keeps_intros; simp add: proc_ok_def inode_ok_def)+

lemma keeps_fetchstr_loop [keeps_intros]: "keeps tables_ok (fetchstr_loop va n)"
  by (induction n arbitrary: va) (unfold fetchstr_loop.simps, intro keeps_intros; simp add: proc_ok_def inode_ok_def)+

lemma keeps_fetch [keeps_intros]:
  "keeps tables_ok (fetchint a)" "keeps tables_ok (fetchstr a)"
  unfolding fetchint_def fetchstr_def by (intro keeps_intros; simp add: proc_ok_def inode_ok_def)+

lemma keeps_argint [keeps_intros]:
  "keeps tables_ok (argint n)"
  unfolding argint_def by (intro keeps_intros; simp add: proc_ok_def inode_ok_def)+

lemma keeps_args [keeps_intros]:
  "keeps tables_ok (argptr n sz)" "keeps tables_ok (argstr n)"
  unfolding argptr_def argstr_def by (intro keeps_intros; simp add: proc_ok_def inode_ok_def)+

lemma keeps_exec_segment [keeps_intros]:
  "keeps tables_ok (exec_segment ip pg ph sz)"
  unfolding exec_segment_def by (intro keeps_intros; simp add: proc_ok_def inode_ok_def)+

lemma keeps_exec_load [keeps_intros]: "keeps tables_ok (exec_load n ip pg off sz)"
  by (induction n arbitrary: off sz) (unfold exec_load.simps, intro keeps_intros; simp add: proc_ok_def inode_ok_def)+

lemma keeps_exec_args [keeps_intros]: "keeps tables_ok (exec_args pg sp argc us as)"
  by (induction "as" arbitrary: sp argc us) (unfold exec_args.simps, intro keeps_intros; simp add: proc_ok_def inode_ok_def)+

lemma keeps_exec_stack [keeps_intros]:
  "keeps tables_ok (exec_stack pg sp argv)" "keeps tables_ok (exec_bad pg w)" "keeps tables_ok (exec_commit i pth pg sz en sp)"
  unfolding exec_stack_def exec_bad_def exec_commit_def by (intro keeps_intros; simp add: proc_ok_def inode_ok_def)+

lemma keeps_exec_image [keeps_intros]:
  "keeps tables_ok (exec_image i pth argv pg en sz)"
  unfolding exec_image_def by (intro keeps_intros; simp add: proc_ok_def inode_ok_def)+

lemma keeps_exec [keeps_intros]:
  "keeps tables_ok (exec pth argv)"
  unfolding exec_def by (intro keeps_intros; simp add: proc_ok_def inode_ok_def)+

lemma keeps_argfd [keeps_intros]:
  "keeps tables_ok (argfd n)" "keeps tables_ok (fdalloc f)"
  unfolding argfd_def fdalloc_def by (intro keeps_intros; simp add: proc_ok_def inode_ok_def)+

lemma keeps_arg_buf [keeps_intros]:
  "keeps tables_ok arg_buf" "keeps tables_ok end_fail"
  unfolding arg_buf_def end_fail_def by (intro keeps_intros; simp add: proc_ok_def inode_ok_def)+

lemma keeps_sys_rw [keeps_intros]:
  "keeps tables_ok sys_dup" "keeps tables_ok sys_read" "keeps tables_ok sys_write" "keeps tables_ok sys_close" "keeps tables_ok sys_fstat"
  unfolding sys_dup_def sys_read_def sys_write_def sys_close_def sys_fstat_def by (intro keeps_intros; simp add: proc_ok_def inode_ok_def)+

lemma keeps_sys_link_bad [keeps_intros]:
  "keeps tables_ok (sys_link_bad ip)" "keeps tables_ok (sys_unlink_bad ip)"
  unfolding sys_link_bad_def sys_unlink_bad_def by (intro keeps_intros; simp add: proc_ok_def inode_ok_def)+

lemma keeps_sys_link_to [keeps_intros]:
  "keeps tables_ok (sys_link_to ip new)"
  unfolding sys_link_to_def by (intro keeps_intros; simp add: proc_ok_def inode_ok_def)+

lemma keeps_isdirempty_loop [keeps_intros]: "keeps tables_ok (isdirempty_loop dp de offs)"
  by (induction offs arbitrary: de) (unfold isdirempty_loop.simps, intro keeps_intros; simp add: proc_ok_def inode_ok_def)+

lemma keeps_isdirempty [keeps_intros]:
  "keeps tables_ok (isdirempty dp)"
  unfolding isdirempty_def by (intro keeps_intros; simp add: proc_ok_def inode_ok_def)+

lemma keeps_sys_unlink_entry [keeps_intros]:
  "keeps tables_ok (sys_unlink_entry dp ip off)" "keeps tables_ok (create_new dp name ty mj mn)"
  unfolding sys_unlink_entry_def create_new_def by (intro keeps_intros; simp add: proc_ok_def inode_ok_def)+

lemma keeps_create [keeps_intros]:
  "keeps tables_ok (create pth ty mj mn)" "keeps tables_ok (open_file ip om)" "keeps tables_ok (created w)"
  unfolding create_def open_file_def created_def by (intro keeps_intros; simp add: proc_ok_def inode_ok_def)+

lemma keeps_exec_argv [keeps_intros]: "keeps tables_ok (exec_argv n ua)"
  by (induction n arbitrary: ua) (unfold exec_argv.simps, intro keeps_intros; simp add: proc_ok_def inode_ok_def)+

lemma keeps_sysfile [keeps_intros]:
  "keeps tables_ok sys_link" "keeps tables_ok sys_unlink" "keeps tables_ok sys_open" "keeps tables_ok sys_mkdir" "keeps tables_ok sys_mknod" "keeps tables_ok sys_chdir" "keeps tables_ok sys_exec" "keeps tables_ok sys_pipe"
  unfolding sys_link_def sys_unlink_def sys_open_def sys_mkdir_def sys_mknod_def sys_chdir_def sys_exec_def sys_pipe_def by (intro keeps_intros; simp add: proc_ok_def inode_ok_def)+

lemma keeps_sys_sleep_loop [keeps_intros]:
  "keeps tables_ok (sys_sleep_loop t0 n)"
  unfolding sys_sleep_loop_def by (intro keeps_intros; simp add: proc_ok_def inode_ok_def)+

lemma keeps_sysproc [keeps_intros]:
  "keeps tables_ok sys_fork" "keeps tables_ok sys_exit" "keeps tables_ok sys_wait" "keeps tables_ok sys_kill" "keeps tables_ok sys_getpid" "keeps tables_ok sys_sbrk" "keeps tables_ok sys_sleep" "keeps tables_ok (sys_sleep_resume t0 n)" "keeps tables_ok sys_uptime" "keeps tables_ok sys_getpinfo" "keeps tables_ok sys_settickets"
  unfolding sys_fork_def sys_exit_def sys_wait_def sys_kill_def sys_getpid_def sys_sbrk_def sys_sleep_def sys_sleep_resume_def sys_uptime_def sys_getpinfo_def sys_settickets_def by (intro keeps_intros; simp add: proc_ok_def inode_ok_def)+

lemma keeps_syscalls: "m \<in> set syscalls \<Longrightarrow> keeps tables_ok m"
  by (auto simp: syscalls_def intro: keeps_intros)

lemma keeps_syscall [keeps_intros]: "keeps tables_ok syscall"
  unfolding syscall_def by (intro keeps_intros; simp?) (rule keeps_syscalls, rule nth_mem, auto)

lemma keeps_exit_if_killed [keeps_intros]:
  "keeps tables_ok (exit_if_killed g)"
  unfolding exit_if_killed_def by (intro keeps_intros; simp add: proc_ok_def inode_ok_def)+

lemma keeps_trap_parts [keeps_intros]:
  "keeps tables_ok (trap_syscall tf)" "keeps tables_ok (trap_irq tf cpu c inp)"
  unfolding trap_syscall_def trap_irq_def by (intro keeps_intros; simp add: proc_ok_def inode_ok_def)+

lemma keeps_trap [keeps_intros]: "keeps tables_ok (trap tf cpu c inp)" "keeps tables_ok (trap_resume tf)"
  unfolding trap_def trap_resume_def by (intro keeps_intros; simp)+

lemma keeps_resume [keeps_intros]:
  "keeps tables_ok begin_op_resume" "keeps tables_ok (acquiresleep_resume l)" "keeps tables_ok (pipewrite_resume q addr n i)"
  "keeps tables_ok (piperead_resume q addr n)" "keeps tables_ok (consoleread_resume ip t w k dst)"
  unfolding begin_op_resume_def acquiresleep_resume_def pipewrite_resume_def piperead_resume_def consoleread_resume_def
  by (intro keeps_intros)+

section \<open>The scheduler and runs of the kernel\<close>

lemma keeps_random [keeps_intros]: "keeps tables_ok random"
  by (rule keeps_state) (auto simp: random_def Let_def)

lemma keeps_scheduler_select [keeps_intros]: "keeps tables_ok scheduler_select"
  unfolding scheduler_select_def by (intro keeps_intros)

lemma keeps_scheduler [keeps_intros]: "keeps tables_ok scheduler_enter" "keeps tables_ok (scheduler_return i)"
  unfolding scheduler_enter_def scheduler_return_def by (intro keeps_intros; simp add: proc_ok_def)+

text \<open>Everything the kernel runs: a trap, a round of the scheduler, and what a process does when it runs again.\<close>

inductive kstep :: "'z kproc_scheme \<Rightarrow> 'z kproc_scheme \<Rightarrow> bool" where
  trap: "reaches (trap tf cpu cr2 input) s s' \<Longrightarrow> kstep s s'"
| after_yield: "reaches (trap_resume tf) s s' \<Longrightarrow> kstep s s'"
| dispatch: "reaches scheduler_enter s s' \<Longrightarrow> kstep s s'"
| switch_back: "reaches (scheduler_return i) s s' \<Longrightarrow> kstep s s'"
| first_run: "reaches forkret s s' \<Longrightarrow> kstep s s'"
| after_wait: "reaches (wait_resume me) s s' \<Longrightarrow> kstep s s'"
| after_sleep: "reaches (sys_sleep_resume t0 n) s s' \<Longrightarrow> kstep s s'"
| after_begin_op: "reaches begin_op_resume s s' \<Longrightarrow> kstep s s'"
| after_sleeplock: "reaches (acquiresleep_resume l) s s' \<Longrightarrow> kstep s s'"
| after_pipewrite: "reaches (pipewrite_resume q addr m i) s s' \<Longrightarrow> kstep s s'"
| after_piperead: "reaches (piperead_resume q addr m) s s' \<Longrightarrow> kstep s s'"
| after_consoleread: "reaches (consoleread_resume ip t w k dst) s s' \<Longrightarrow> kstep s s'"

lemma reaches_keeps: "reaches m s s' \<Longrightarrow> I s \<Longrightarrow> keeps I m \<Longrightarrow> I s'"
  unfolding reaches_def by (elim disjE exE) (rule keeps_Ok keeps_Blocked, assumption+)+

lemma kstep_keeps: "kstep s s' \<Longrightarrow> tables_ok s \<Longrightarrow> tables_ok s'"
  by (induction rule: kstep.induct; erule reaches_keeps [where I = tables_ok]; (assumption | intro keeps_intros))


definition zero_inode :: inode where
  "zero_inode = \<lparr>i_dev = 0, i_inum = 0, i_ref = 0, i_valid = False, i_type = 0, i_major = 0, i_minor = 0, i_nlink = 0,
     i_size = 0, i_addrs = replicate (NDIRECT + 1) 0\<rparr>"

definition zero_file :: ofile where
  "zero_file = \<lparr>f_type = FD_NONE, f_ref = 0, f_readable = False, f_writable = False, f_pipe = 0, f_ip = None, f_off = 0\<rparr>"

text \<open>A kernel as the loader leaves it, on the disk of \<open>demo_klog\<close>.\<close>

definition demo_kproc :: kproc where
  "demo_kproc = kfile.extend (kcons.extend (kino.extend
     (klog.extend (demo_klog\<lparr>ptable := replicate NPROC zero_proc, cur := None, ticks := 0\<rparr>)
       \<lparr>icache = replicate NINODE zero_inode, fsb = decode_sb (\<lambda>_. 0)\<rparr>)
     \<lparr>panicked = False, cons_locking = True, in_buf = (\<lambda>_. 0), in_r = 0, in_w = 0, in_e = 0, crt = (\<lambda>_. 0), crt_pos = 0,
       uart = True, uart_out = [], devsw_read = (\<lambda>_. False), devsw_write = (\<lambda>_. False)\<rparr>)
     \<lparr>ftable = replicate NFILE zero_file\<rparr>)
     \<lparr>forkret_addr = 0x80103000, trapret_addr = 0x80105000, initcode = (\<lambda>_. 0), initcode_size = 0, fork_first = True\<rparr>"

lemma demo_kproc_simps [simp]:
  "ptable demo_kproc = replicate NPROC zero_proc" "cur demo_kproc = None" "ticks demo_kproc = 0" "held demo_kproc = []"
  "icache demo_kproc = replicate NINODE zero_inode" "ftable demo_kproc = replicate NFILE zero_file"
proof -
  have "held demo_klog = []" by simp
  then show "ptable demo_kproc = replicate NPROC zero_proc" "cur demo_kproc = None" "ticks demo_kproc = 0" "held demo_kproc = []"
    "icache demo_kproc = replicate NINODE zero_inode" "ftable demo_kproc = replicate NFILE zero_file"
    by (simp_all add: demo_kproc_def kfile.defs kcons.defs kino.defs klog.defs)
qed

lemma demo_kproc_tables: "tables_ok demo_kproc"
  by (simp add: tables_ok_def list_all_iff proc_ok_def inode_ok_def zero_proc_def zero_inode_def)


end
