(* ===== verification/Locks.thy ===== *)
theory Locks
  imports Tables
begin

text \<open>
  Lock discipline. \<open>leaves L m L'\<close>: when \<open>m\<close> is entered with the spinlocks \<open>L\<close>, it returns with
  exactly \<open>L'\<close> held, or it goes to sleep with exactly \<open>ptable.lock\<close> held. Most operations are
  balanced, \<open>leaves L m L\<close>; the pieces that start with a lock held and release it have their own
  statement. There is one lemma per operation, found by the rules in \<open>leaves_intros\<close>.
\<close>

definition leaves :: "lockid list \<Rightarrow> ('z kbase_scheme, 'a) kmon \<Rightarrow> lockid list \<Rightarrow> bool" where
  "leaves L m L' \<longleftrightarrow> (\<forall>s. held s = L \<longrightarrow>
     (case m s of Ok _ s' \<Rightarrow> held s' = L' | Panic _ \<Rightarrow> True | Blocked s' \<Rightarrow> held s' = [L_ptable]))"

named_theorems leaves_intros

section \<open>Rules\<close>

lemma leavesI:
  assumes "\<And>s x s'. held s = L \<Longrightarrow> m s = Ok x s' \<Longrightarrow> held s' = L'"
    and "\<And>s s'. held s = L \<Longrightarrow> m s = Blocked s' \<Longrightarrow> held s' = [L_ptable]"
  shows "leaves L m L'"
  unfolding leaves_def
proof (intro allI impI)
  fix s :: "'a kbase_scheme"
  assume h: "held s = L"
  show "case m s of Ok _ s' \<Rightarrow> held s' = L' | Panic _ \<Rightarrow> True | Blocked s' \<Rightarrow> held s' = [L_ptable]"
  proof (cases "m s")
    case (Ok x s')
    from assms(1) [OF h Ok] show ?thesis by (simp add: Ok)
  next
    case (Blocked s')
    from assms(2) [OF h Blocked] show ?thesis by (simp add: Blocked)
  qed simp
qed

lemma leavesD:
  assumes "leaves L m L'" and "held s = L"
  shows "m s = Ok x s' \<Longrightarrow> held s' = L'" and "m s = Blocked s' \<Longrightarrow> held s' = [L_ptable]"
proof -
  from assms have *: "case m s of Ok _ s' \<Rightarrow> held s' = L' | Panic _ \<Rightarrow> True | Blocked s' \<Rightarrow> held s' = [L_ptable]"
    by (simp add: leaves_def)
  show "m s = Ok x s' \<Longrightarrow> held s' = L'" and "m s = Blocked s' \<Longrightarrow> held s' = [L_ptable]"
    using * by simp_all
qed

lemma leaves_ret [leaves_intros]: "leaves L (ret x) L"
  by (simp add: leaves_def)

lemma leaves_gets [leaves_intros]: "leaves L (gets f) L"
  by (simp add: leaves_def)

lemma leaves_panic [leaves_intros]: "leaves L (panic e) L'"
  by (simp add: leaves_def)

lemma leaves_modify [leaves_intros]: "(\<And>s. held (f s) = held s) \<Longrightarrow> leaves L (modify f) L"
  by (simp add: leaves_def)

lemma leaves_acquire [leaves_intros]: "leaves L (acquire lk) (lk # L)"
  by (auto simp: leaves_def acquire_def split: if_splits)

lemma leaves_release [leaves_intros]: "leaves (lk # L) (release lk) L"
  by (auto simp: leaves_def release_def split: if_splits)

lemma leaves_bnd [leaves_intros]:
  assumes "leaves L m M" and "\<And>x. leaves M (k x) L'"
  shows "leaves L (bnd m k) L'"
proof (rule leavesI)
  fix s x s'
  assume h: "held s = L" and "bnd m k s = Ok x s'"
  then obtain y t where *: "m s = Ok y t" "k y t = Ok x s'" by (auto simp: bnd_Ok_iff)
  show "held s' = L'" by (rule leavesD(1) [OF assms(2) leavesD(1) [OF assms(1) h *(1)] *(2)])
next
  fix s s'
  assume h: "held s = L" and "bnd m k s = Blocked s'"
  then consider "m s = Blocked s'" | y t where "m s = Ok y t" "k y t = Blocked s'"
    by (auto simp: bnd_def split: outcome.splits)
  then show "held s' = [L_ptable]"
  proof cases
    case 1
    show ?thesis by (rule leavesD(2) [OF assms(1) h 1])
  next
    case (2 y t)
    show ?thesis by (rule leavesD(2) [OF assms(2) leavesD(1) [OF assms(1) h 2(1)] 2(2)])
  qed
qed

lemma leaves_sqn [leaves_intros]: "leaves L m M \<Longrightarrow> leaves M n L' \<Longrightarrow> leaves L (sqn m n) L'"
  unfolding sqn_def by (rule leaves_bnd)

lemma leaves_if [leaves_intros]: "(b \<Longrightarrow> leaves L m L') \<Longrightarrow> (\<not> b \<Longrightarrow> leaves L n L') \<Longrightarrow> leaves L (if b then m else n) L'"
  by simp

lemma leaves_whenM [leaves_intros]: "leaves L m L \<Longrightarrow> leaves L (whenM b m) L"
  by (simp add: whenM_def leaves_ret)

lemma leaves_whenM_unit: "leaves L m L' \<Longrightarrow> (\<not> b \<Longrightarrow> L = L') \<Longrightarrow> leaves L (whenM b m) L'"
  by (cases b) (simp_all add: whenM_def leaves_ret)

lemma leaves_option [leaves_intros]:
  "leaves L m L' \<Longrightarrow> (\<And>y. leaves L (n y) L') \<Longrightarrow> leaves L (case x of None \<Rightarrow> m | Some y \<Rightarrow> n y) L'"
  by (cases x) simp_all

lemma leaves_stmts_Nil [leaves_intros]: "leaves L (stmts []) L"
  by (simp add: leaves_ret)

lemma leaves_stmts_Cons [leaves_intros]: "leaves L m M \<Longrightarrow> leaves M (stmts ms) L' \<Longrightarrow> leaves L (stmts (m # ms)) L'"
  by (simp add: leaves_sqn)

lemma leaves_let [leaves_intros]: "(\<And>x. leaves L (f x) L') \<Longrightarrow> leaves L (Let x f) L'"
  by simp

lemma leaves_prod [leaves_intros]: "(\<And>a b. leaves L (f a b) L') \<Longrightarrow> leaves L (case p of (a, b) \<Rightarrow> f a b) L'"
  by (cases p) simp

lemma leaves_list [leaves_intros]:
  "leaves L m L' \<Longrightarrow> (\<And>y ys. leaves L (n y ys) L') \<Longrightarrow> leaves L (case xs of [] \<Rightarrow> m | y # ys \<Rightarrow> n y ys) L'"
  by (cases xs) simp_all

lemma leaves_ftype [leaves_intros]:
  "leaves L a L' \<Longrightarrow> leaves L b L' \<Longrightarrow> leaves L c L' \<Longrightarrow>
    leaves L (case t of FD_NONE \<Rightarrow> a | FD_PIPE \<Rightarrow> b | FD_INODE \<Rightarrow> c) L'"
  by (cases t) simp_all

lemma leaves_forM [leaves_intros]:
  assumes "\<And>i. leaves L (f i) L"
  shows "leaves L (forM is f) L"
  by (induction "is") (unfold forM.simps, (rule leaves_ret leaves_sqn assms | assumption)+)

lemma leaves_deref [leaves_intros]: "(\<And>x. leaves L (k x) L') \<Longrightarrow> leaves L (deref p k) L'"
  unfolding deref_def by (rule leaves_intros | assumption | simp)+

section \<open>Process table\<close>

lemma leaves_upd [leaves_intros]: "leaves L (upd_proc i f) L" "leaves L (upd_inode j g) L" "leaves L (upd_file k h) L"
  unfolding upd_proc_def upd_inode_def upd_file_def by (rule leaves_intros | simp)+

lemma leaves_sched [leaves_intros]: "leaves L sched L'"
  by (rule leavesI)
    (auto simp: sched_not_Ok sched_def ncli_def length_Suc_conv split: if_splits option.splits)

lemma leaves_wakeup1 [leaves_intros]: "leaves L (wakeup1 c) L"
  unfolding wakeup1_def by (rule leaves_intros | simp)+

lemma leaves_myproc [leaves_intros]: "leaves L myproc L"
  unfolding myproc_def by (rule leaves_intros | assumption | simp)+

lemma leaves_curproc [leaves_intros]: "(\<And>p. leaves L (k p) L') \<Longrightarrow> leaves L (curproc k) L'"
  unfolding curproc_def by (rule leaves_intros | assumption | simp)+

lemma leaves_ptable_ops [leaves_intros]:
  "leaves L (wakeup c) L" "leaves L (kill pid) L" "leaves L (settickets n) L" "leaves L switchkvm L"
  "leaves L (switchuvm w) L" "leaves L (fillpstat t) L" "leaves L myproc_pid L" "leaves L myproc_killed L"
  "leaves L (set_ofile fd f) L" "leaves L (set_eax i r) L" "leaves (L_ptable # L) yield_resume L"
  unfolding ptable_ops by (rule leaves_intros | simp)+

text \<open>A call of \<open>sleep\<close> does not return by itself.\<close>

lemma leaves_release_any: "leaves L (release lk) (remove1 lk L)"
  by (auto simp: leaves_def release_def)

lemma leaves_sleep [leaves_intros]: "leaves L (sleep c lk) L'"
proof -
  have "leaves L (stmts [whenM b (stmts [acquire L_ptable, release lk]), upd_proc i f, sched]) L'" for b i f
    by (cases b) (simp_all only: whenM_def if_True if_False, (rule leaves_release_any leaves_intros)+)
  note body = this
  show ?thesis unfolding sleep_def by (rule body leaves_bnd leaves_option leaves_myproc leaves_panic)+
qed

lemma leaves_sleep_wait [leaves_intros]: "leaves L (sleep_wait c lk) L'"
proof -
  have not_Ok: "sleep c lk s \<noteq> Ok x s'" for s x s'
    unfolding sleep_def by (auto simp: bnd_Ok_iff sqn_Ok_iff sched_not_Ok split: option.splits)
  show ?thesis
  proof (rule leavesI)
    fix s s'
    assume "held s = L" and "sleep_wait c lk s = Blocked s'"
    then have "sleep c lk s = Blocked s'"
      using not_Ok by (auto simp: sleep_wait_run split: outcome.splits)
    then show "held s' = [L_ptable]" using leavesD(2) [OF leaves_sleep \<open>held s = L\<close>] by blast
  qed (use not_Ok in \<open>auto simp: sleep_wait_def sqn_Ok_iff\<close>)
qed

lemma leaves_yield [leaves_intros]: "leaves L yield L'"
  unfolding yield_def by (rule leaves_intros)+

lemma leaves_sleep_resume [leaves_intros]: "leaves (L_ptable # L) (sleep_resume lk) (lk # L)"
  unfolding sleep_resume_def by (rule leaves_whenM_unit leaves_intros | simp)+

section \<open>Memory, pipes, locks, buffers, log\<close>

lemma leaves_upd_page [leaves_intros]: "leaves L (upd_page v f) L"
  unfolding upd_page_def by (rule leaves_intros | simp)+

lemma leaves_kalloc [leaves_intros]: "leaves L kalloc L"
  by (rule leavesI) (auto simp: kalloc_def kmem_lock_def kmem_unlock_def run_simps split: if_splits)

lemma leaves_kfree [leaves_intros]: "leaves L (kfree v) L"
  by (rule leavesI) (auto simp: kfree_def kmem_lock_def kmem_unlock_def run_simps upd_page_def split: if_splits)

lemma leaves_upd_pipe [leaves_intros]:
  "leaves L (upd_pipe q f) L"
  unfolding upd_pipe_def by (rule leaves_intros | simp)+

lemma leaves_pipewrite_loop [leaves_intros]: "leaves (L_pipe q # L) (pipewrite_loop q addr n i) L"
proof (induction q addr n i rule: pipewrite_loop.induct)
  case (1 q addr n i)
  show ?case by (subst pipewrite_loop.simps) (rule leaves_intros 1 | assumption | simp)+
qed

lemma leaves_piperead_copy [leaves_intros]: "leaves L (piperead_copy q addr n i) L"
proof (induction q addr n i rule: piperead_copy.induct)
  case (1 q addr n i)
  show ?case by (subst piperead_copy.simps) (rule leaves_intros 1 | assumption | simp)+
qed

lemma leaves_piperead_loop [leaves_intros]:
  "leaves (L_pipe q # L) (piperead_loop q addr n) L"
  unfolding piperead_loop_def by (rule leaves_intros | simp)+

lemma leaves_pipe [leaves_intros]:
  "leaves L (pipeclose q w) L" "leaves L (pipewrite q addr n) L" "leaves L (piperead q addr n) L"
  unfolding pipeclose_def pipewrite_def piperead_def by (rule leaves_intros | simp)+

lemma leaves_slock_ops [leaves_intros]:
  "leaves L (set_slock l v) L" "leaves L (initsleeplock l) L" "leaves L (holdingsleep l) L" "leaves L (releasesleep l) L"
  unfolding initsleeplock_def holdingsleep_def releasesleep_def set_slock_def by (rule leaves_intros | simp)+

lemma leaves_acquiresleep_loop [leaves_intros]:
  "leaves (L_sleep l # L) (acquiresleep_loop l) L"
  unfolding acquiresleep_loop_def by (rule leaves_intros | simp)+

lemma leaves_acquiresleep [leaves_intros]:
  "leaves L (acquiresleep l) L"
  unfolding acquiresleep_def by (rule leaves_intros | simp)+

lemma leaves_upd_buf [leaves_intros]:
  "leaves L (upd_buf i f) L" "leaves L (the_buf i) L"
  unfolding upd_buf_def the_buf_def by (rule leaves_intros | simp)+

lemma leaves_link_front [leaves_intros]:
  "leaves L (link_front i) L"
  unfolding link_front_def by (rule leaves_intros | simp)+

lemma leaves_bget [leaves_intros]:
  "leaves L (bget d n) L" "leaves L (iderw i) L"
  unfolding bget_def iderw_def by (rule leaves_intros | simp)+

lemma leaves_bread [leaves_intros]:
  "leaves L (bread d n) L" "leaves L (bwrite i) L" "leaves L (brelse i) L"
  unfolding bread_def bwrite_def brelse_def by (rule leaves_intros | simp)+

lemma leaves_log_ops [leaves_intros]:
  "leaves L (readsb d) L" "leaves L (log_bread n) L" "leaves L (lh_set i v) L"
  unfolding readsb_def log_bread_def lh_set_def by (rule leaves_intros | simp)+

lemma leaves_log_steps [leaves_intros]:
  "leaves L (install_step t) L" "leaves L (write_log_step t) L"
  unfolding install_step_def write_log_step_def by (rule leaves_intros | simp)+

lemma leaves_log_phases [leaves_intros]:
  "leaves L install_trans L" "leaves L read_head L" "leaves L write_head L" "leaves L write_log L"
  unfolding install_trans_def read_head_def write_head_def write_log_def by (rule leaves_intros | simp)+

lemma leaves_commit [leaves_intros]:
  "leaves L commit L" "leaves L recover_from_log L"
  unfolding commit_def recover_from_log_def by (rule leaves_intros | simp)+

lemma leaves_begin_op_loop [leaves_intros]:
  "leaves (L_log # L) begin_op_loop L"
  unfolding begin_op_loop_def by (rule leaves_intros | simp)+

lemma leaves_log [leaves_intros]:
  "leaves L begin_op L" "leaves L end_op L" "leaves L (log_write i) L" "leaves L (initlog d) L"
  unfolding begin_op_def end_op_def log_write_def initlog_def by (rule leaves_intros | simp)+

section \<open>Inodes\<close>

lemma leaves_bzero [leaves_intros]:
  "leaves L (the_inode i) L" "leaves L (bzero d n) L"
  unfolding the_inode_def bzero_def by (rule leaves_intros | simp)+

lemma leaves_balloc_from [leaves_intros]: "leaves L (balloc_from d bs) L"
  by (induction bs) (unfold balloc_from.simps, (rule leaves_intros | assumption | simp)+)

lemma leaves_iget [leaves_intros]: "leaves L (iget d n) L"
  unfolding iget_def by (rule leaves_intros | simp)+

lemma leaves_ialloc_from [leaves_intros]: "leaves L (ialloc_from d t is) L"
  by (induction "is") (unfold ialloc_from.simps, (rule leaves_intros | assumption | simp)+)

lemma leaves_ilock_read [leaves_intros]:
  "leaves L (ilock_read ip) L"
  unfolding ilock_read_def by (rule leaves_intros | simp)+

lemma leaves_inode_ops [leaves_intros]:
  "leaves L (balloc d) L" "leaves L (bfree d b) L" "leaves L (iinit d) L" "leaves L (ialloc d t) L" "leaves L (iupdate ip) L" "leaves L (idup ip) L" "leaves L (ilock w) L" "leaves L (iunlock w) L"
  unfolding balloc_def bfree_def iinit_def ialloc_def iupdate_def idup_def ilock_def iunlock_def by (rule leaves_intros | simp)+

lemma leaves_itrunc_steps [leaves_intros]:
  "leaves L (itrunc_direct ip i) L" "leaves L (itrunc_indirect ip) L"
  unfolding itrunc_direct_def itrunc_indirect_def by (rule leaves_intros | simp)+

lemma leaves_itrunc [leaves_intros]:
  "leaves L (itrunc ip) L"
  unfolding itrunc_def by (rule leaves_intros | simp)+

lemma leaves_iput [leaves_intros]:
  "leaves L (iput ip) L"
  unfolding iput_def by (rule leaves_intros | simp)+

lemma leaves_bmap_addr [leaves_intros]:
  "leaves L (iunlockput ip) L" "leaves L (bmap_addr ip i) L"
  unfolding iunlockput_def bmap_addr_def by (rule leaves_intros | simp)+

lemma leaves_bmap_ind [leaves_intros]:
  "leaves L (bmap_ind ip bn ind) L"
  unfolding bmap_ind_def by (rule leaves_intros | simp)+

lemma leaves_bmap [leaves_intros]:
  "leaves L (bmap ip bn) L"
  unfolding bmap_def by (rule leaves_intros | simp)+

section \<open>Console\<close>

lemma leaves_cgaputc [leaves_intros]: "leaves L (cgaputc c) L"
  by (rule leavesI) (auto simp: cgaputc_def Let_def split: if_splits prod.splits)

lemma leaves_uartputc [leaves_intros]:
  "leaves L (uartputc c) L"
  unfolding uartputc_def by (rule leaves_intros | simp)+

lemma leaves_consputc [leaves_intros]:
  "leaves L (consputc c) L"
  unfolding consputc_def by (rule leaves_intros | simp)+

lemma leaves_printint [leaves_intros]:
  "leaves L (printint xx b sg) L"
  unfolding printint_def by (rule leaves_intros | simp)+

lemma leaves_cprintf_loop [leaves_intros]: "leaves L (cprintf_loop str fmt args) L"
proof (induction fmt arbitrary: args rule: length_induct)
  case (1 fmt)
  note IH = 1 [rule_format]
  show ?case
  proof (cases fmt)
    case Nil
    show ?thesis unfolding Nil cprintf_loop.simps by (rule leaves_intros | assumption | simp)+
  next
    case (Cons f fmt1)
    show ?thesis
    proof (cases fmt1)
      case Nil
      show ?thesis unfolding Cons Nil cprintf_loop.simps list.case by (rule leaves_intros IH | simp add: Cons)+
    next
      case c: (Cons c fmt2)
      show ?thesis unfolding Cons c
        by (subst cprintf_loop.simps) (unfold list.case, (rule leaves_intros IH | simp add: Cons c)+)
    qed
  qed
qed

lemma leaves_cprintf [leaves_intros]: "leaves L (cprintf str fmt args) L"
proof -
  have "leaves L (stmts [whenM u (acquire L_cons), cprintf_loop str fmt args, whenM u (release L_cons)]) L" for u
    by (cases u) (simp_all only: whenM_def if_True if_False, (rule leaves_intros)+)
  then show ?thesis unfolding cprintf_def by (rule leaves_bnd [OF leaves_gets])
qed

lemma leaves_procdump_one [leaves_intros]:
  "leaves L (procdump_one q) L"
  unfolding procdump_one_def by (rule leaves_intros | simp)+

lemma leaves_procdump [leaves_intros]:
  "leaves L procdump L"
  unfolding procdump_def by (rule leaves_intros | simp)+

lemma leaves_kill_line [leaves_intros]: "leaves L (kill_line n) L"
  by (induction n) (unfold kill_line.simps, (rule leaves_intros | assumption | simp)+)

lemma leaves_input_char [leaves_intros]:
  "leaves L (input_char c) L"
  unfolding input_char_def by (rule leaves_intros | simp)+

lemma leaves_consoleintr_char [leaves_intros]:
  "leaves L (consoleintr_char c) L"
  unfolding consoleintr_char_def by (rule leaves_intros | simp)+

lemma leaves_consoleintr [leaves_intros]:
  "leaves L (consoleintr cs) L"
  unfolding consoleintr_def by (rule leaves_intros | simp)+

lemma leaves_consoleread_end [leaves_intros]:
  "leaves (L_cons # L) (consoleread_end ip t n dst) L"
  unfolding consoleread_end_def by (rule leaves_intros | simp)+

lemma leaves_consoleread_loop [leaves_intros]: "leaves (L_cons # L) (consoleread_loop ip t n k dst) L"
  by (induction n arbitrary: k dst) (unfold consoleread_loop.simps, (rule leaves_intros | assumption | simp)+)

lemma leaves_console [leaves_intros]:
  "leaves L (consoleread ip dst n) L" "leaves L (consolewrite ip dst n) L"
  unfolding consoleread_def consolewrite_def by (rule leaves_intros | simp)+

section \<open>Files\<close>

lemma leaves_stati [leaves_intros]:
  "leaves L (stati ip) L"
  unfolding stati_def by (rule leaves_intros | simp)+

lemma leaves_readi_loop [leaves_intros]: "leaves L (readi_loop ip off tot n dst) L"
proof (induction ip off tot n dst rule: readi_loop.induct)
  case (1 ip off tot n dst)
  show ?case by (subst readi_loop.simps) (rule leaves_intros 1 | assumption | simp)+
qed

lemma leaves_writei_loop [leaves_intros]: "leaves L (writei_loop ip src off tot n) L"
proof (induction ip src off tot n rule: writei_loop.induct)
  case (1 ip src off tot n)
  show ?case by (subst writei_loop.simps) (rule leaves_intros 1 | assumption | simp)+
qed

lemma leaves_readi [leaves_intros]:
  "leaves L (readi ip dst off n) L" "leaves L (writei ip dst off n) L"
  unfolding readi_def writei_def by (rule leaves_intros | simp)+

lemma leaves_read_dirent [leaves_intros]:
  "leaves L (read_dirent msg dp off de) L"
  unfolding read_dirent_def by (rule leaves_intros | simp)+

lemma leaves_dirlookup_loop [leaves_intros]: "leaves L (dirlookup_loop dp name de offs) L"
  by (induction offs arbitrary: de) (unfold dirlookup_loop.simps, (rule leaves_intros | assumption | simp)+)

lemma leaves_dirlink_find [leaves_intros]: "leaves L (dirlink_find dp de offs nxt) L"
  by (induction offs arbitrary: de nxt) (unfold dirlink_find.simps, (rule leaves_intros | assumption | simp)+)

lemma leaves_dirlookup [leaves_intros]:
  "leaves L (dirlookup dp name) L"
  unfolding dirlookup_def by (rule leaves_intros | simp)+

lemma leaves_dirlink [leaves_intros]:
  "leaves L (dirlink dp name n) L"
  unfolding dirlink_def by (rule leaves_intros | simp)+

lemma leaves_namex_loop [leaves_intros]: "leaves L (namex_loop ip pth par name) L"
proof (induction pth arbitrary: ip name rule: length_induct)
  case (1 pth)
  note IH = 1 [rule_format]
  show ?case
  proof (cases "skipelem pth name")
    case None
    then show ?thesis by (subst namex_loop.simps) (unfold None option.case, (rule leaves_intros)+)
  next
    case (Some y)
    obtain rest nm where y: "y = (rest, nm)" by (cases y)
    with Some have "length rest < length pth" by (simp add: skipelem_shorter)
    then show ?thesis
      by (subst namex_loop.simps) (unfold Some y option.case prod.case, (rule leaves_intros IH | assumption | simp)+)
  qed
qed

lemma leaves_namex [leaves_intros]:
  "leaves L (namex pth par name) L"
  unfolding namex_def by (rule leaves_intros | simp)+

lemma leaves_namei [leaves_intros]:
  "leaves L (namei pth) L" "leaves L (nameiparent pth name) L"
  unfolding namei_def nameiparent_def by (rule leaves_intros | simp)+

lemma leaves_file_ops [leaves_intros]:
  "leaves L (the_file f) L" "leaves L filealloc L" "leaves L (filedup f) L" "leaves L (fileclose f) L" "leaves L (filestat f st) L" "leaves L (fileread f addr n) L" "leaves L (filewrite_chunk f w addr i n) L"
  unfolding the_file_def filealloc_def filedup_def fileclose_def filestat_def fileread_def filewrite_chunk_def by (rule leaves_intros | simp)+

lemma leaves_filewrite_loop [leaves_intros]: "leaves L (filewrite_loop f w addr n i) L"
proof (induction f w addr n i rule: filewrite_loop.induct)
  case (1 f w addr n i)
  show ?case by (subst filewrite_loop.simps) (rule leaves_intros 1 | assumption | simp)+
qed

lemma leaves_filewrite [leaves_intros]:
  "leaves L (filewrite f addr n) L" "leaves L (close_opt w) L"
  unfolding filewrite_def close_opt_def by (rule leaves_intros | simp)+

lemma leaves_pipealloc [leaves_intros]:
  "leaves L (pipealloc_bad w0 w1) L" "leaves L pipealloc L"
  unfolding pipealloc_def pipealloc_bad_def by (rule leaves_intros | simp)+

section \<open>Page tables\<close>

lemma leaves_set_pte [leaves_intros]:
  "leaves L (set_pte q v) L"
  unfolding set_pte_def by (rule leaves_intros | simp)+

lemma leaves_walkpgdir [leaves_intros]:
  "leaves L (walkpgdir pg va al) L"
  unfolding walkpgdir_def by (rule leaves_intros | simp)+

lemma leaves_mappages_loop [leaves_intros]: "leaves L (mappages_loop n pg a pa perm) L"
  by (induction n arbitrary: a pa) (unfold mappages_loop.simps, (rule leaves_intros | assumption | simp)+)

lemma leaves_mappages [leaves_intros]:
  "leaves L (mappages pg va sz pa perm) L"
  unfolding mappages_def by (rule leaves_intros | simp)+

lemma leaves_deallocuvm_loop [leaves_intros]: "leaves L (deallocuvm_loop pg a oldsz) L"
proof (induction pg a oldsz rule: deallocuvm_loop.induct)
  case (1 pg a oldsz)
  show ?case by (subst deallocuvm_loop.simps) (rule leaves_intros 1 | assumption | simp)+
qed

lemma leaves_deallocuvm [leaves_intros]:
  "leaves L (deallocuvm pg oz nz) L"
  unfolding deallocuvm_def by (rule leaves_intros | simp)+

lemma leaves_freevm [leaves_intros]:
  "leaves L (freevm pg) L"
  unfolding freevm_def by (rule leaves_intros | simp)+

lemma leaves_setupkvm_loop [leaves_intros]: "leaves L (setupkvm_loop pg ks) L"
  by (induction pg ks rule: setupkvm_loop.induct) (unfold setupkvm_loop.simps, (rule leaves_intros | assumption | simp)+)

lemma leaves_setupkvm [leaves_intros]:
  "leaves L setupkvm L" "leaves L (inituvm pg code sz) L"
  unfolding setupkvm_def inituvm_def by (rule leaves_intros | simp)+

lemma leaves_loaduvm_loop [leaves_intros]: "leaves L (loaduvm_loop pg addr ip off sz is) L"
  by (induction "is") (unfold loaduvm_loop.simps, (rule leaves_intros | assumption | simp)+)

lemma leaves_loaduvm [leaves_intros]:
  "leaves L (loaduvm pg addr ip off sz) L" "leaves L (oom_msg m) L"
  unfolding loaduvm_def oom_msg_def by (rule leaves_intros | simp)+

lemma leaves_allocuvm_loop [leaves_intros]: "leaves L (allocuvm_loop pg oldsz newsz a) L"
proof (induction pg oldsz newsz a rule: allocuvm_loop.induct)
  case (1 pg oldsz newsz a)
  show ?case by (subst allocuvm_loop.simps) (rule leaves_intros 1 | assumption | simp)+
qed

lemma leaves_allocuvm [leaves_intros]:
  "leaves L (allocuvm pg oz nz) L" "leaves L (clearpteu pg va) L"
  unfolding allocuvm_def clearpteu_def by (rule leaves_intros | simp)+

lemma leaves_copyuvm_loop [leaves_intros]: "leaves L (copyuvm_loop pg d is) L"
  by (induction "is") (unfold copyuvm_loop.simps, (rule leaves_intros | assumption | simp)+)

lemma leaves_copyuvm [leaves_intros]:
  "leaves L (copyuvm pg sz) L" "leaves L (uva2ka pg va) L"
  unfolding copyuvm_def uva2ka_def by (rule leaves_intros | simp)+

lemma leaves_copyout_loop [leaves_intros]: "leaves L (copyout_loop pg va q k left) L"
proof (induction pg va q k left rule: copyout_loop.induct)
  case (1 pg va q k left)
  show ?case by (subst copyout_loop.simps) (rule leaves_intros 1 | assumption | simp)+
qed

lemma leaves_copyout [leaves_intros]:
  "leaves L (copyout pg va q len) L"
  unfolding copyout_def by (rule leaves_intros | simp)+

section \<open>Processes and system calls\<close>

lemma leaves_allocproc [leaves_intros]:
  "leaves L allocproc L"
  unfolding allocproc_def by (rule leaves_intros | simp)+

lemma leaves_fork [leaves_intros]:
  "leaves L (growproc n) L" "leaves L fork L" "leaves L userinit L"
  unfolding growproc_def fork_def userinit_def by (rule leaves_intros | simp)+

lemma leaves_reparent [leaves_intros]: "leaves L (reparent me i) L"
  unfolding reparent_def by (rule leaves_intros | simp)+

text \<open>\<open>exit\<close> never returns.\<close>

lemma leaves_exit [leaves_intros]: "leaves L exit L'"
  unfolding exit_def exit_tail_def by (rule leaves_intros | simp)+

lemma leaves_wait_loop [leaves_intros]:
  "leaves (L_ptable # L) (wait_loop me) L"
  unfolding wait_loop_def by (rule leaves_intros | simp)+

lemma leaves_wait [leaves_intros]:
  "leaves L wait L" "leaves (L_ptable # L) (wait_resume me) L" "leaves (L_ptable # L) forkret L"
  unfolding wait_def wait_resume_def forkret_def by (rule leaves_intros | simp)+

lemma leaves_uaccess [leaves_intros]:
  "leaves L (load_byte va) L" "leaves L (store_byte va c) L"
  unfolding load_byte_def store_byte_def by (rule leaves_intros | simp)+

lemma leaves_load_list [leaves_intros]: "leaves L (load_list va n) L"
  by (induction n arbitrary: va) (unfold load_list.simps, (rule leaves_intros | assumption | simp)+)

lemma leaves_load_user [leaves_intros]:
  "leaves L (load_user va n) L" "leaves L (store_user va b n) L"
  unfolding load_user_def store_user_def by (rule leaves_intros | simp)+

lemma leaves_fetchstr_loop [leaves_intros]: "leaves L (fetchstr_loop va n) L"
  by (induction n arbitrary: va) (unfold fetchstr_loop.simps, (rule leaves_intros | assumption | simp)+)

lemma leaves_fetch [leaves_intros]:
  "leaves L (fetchint a) L" "leaves L (fetchstr a) L"
  unfolding fetchint_def fetchstr_def by (rule leaves_intros | simp)+

lemma leaves_argint [leaves_intros]:
  "leaves L (argint n) L"
  unfolding argint_def by (rule leaves_intros | simp)+

lemma leaves_args [leaves_intros]:
  "leaves L (argptr n sz) L" "leaves L (argstr n) L"
  unfolding argptr_def argstr_def by (rule leaves_intros | simp)+

lemma leaves_exec_segment [leaves_intros]:
  "leaves L (exec_segment ip pg ph sz) L"
  unfolding exec_segment_def by (rule leaves_intros | simp)+

lemma leaves_exec_load [leaves_intros]: "leaves L (exec_load n ip pg off sz) L"
  by (induction n arbitrary: off sz) (unfold exec_load.simps, (rule leaves_intros | assumption | simp)+)

lemma leaves_exec_args [leaves_intros]: "leaves L (exec_args pg sp argc us as) L"
  by (induction "as" arbitrary: sp argc us) (unfold exec_args.simps, (rule leaves_intros | assumption | simp)+)

lemma leaves_exec_stack [leaves_intros]:
  "leaves L (exec_stack pg sp argv) L" "leaves L (exec_bad pg w) L" "leaves L (exec_commit i pth pg sz en sp) L"
  unfolding exec_stack_def exec_bad_def exec_commit_def by (rule leaves_intros | simp)+

lemma leaves_exec_image [leaves_intros]:
  "leaves L (exec_image i pth argv pg en sz) L"
  unfolding exec_image_def by (rule leaves_intros | simp)+

lemma leaves_exec [leaves_intros]:
  "leaves L (exec pth argv) L"
  unfolding exec_def by (rule leaves_intros | simp)+

lemma leaves_argfd [leaves_intros]:
  "leaves L (argfd n) L" "leaves L (fdalloc f) L"
  unfolding argfd_def fdalloc_def by (rule leaves_intros | simp)+

lemma leaves_arg_buf [leaves_intros]:
  "leaves L arg_buf L" "leaves L end_fail L"
  unfolding arg_buf_def end_fail_def by (rule leaves_intros | simp)+

lemma leaves_sys_rw [leaves_intros]:
  "leaves L sys_dup L" "leaves L sys_read L" "leaves L sys_write L" "leaves L sys_close L" "leaves L sys_fstat L"
  unfolding sys_dup_def sys_read_def sys_write_def sys_close_def sys_fstat_def by (rule leaves_intros | simp)+

lemma leaves_sys_link_bad [leaves_intros]:
  "leaves L (sys_link_bad ip) L" "leaves L (sys_unlink_bad ip) L"
  unfolding sys_link_bad_def sys_unlink_bad_def by (rule leaves_intros | simp)+

lemma leaves_sys_link_to [leaves_intros]:
  "leaves L (sys_link_to ip new) L"
  unfolding sys_link_to_def by (rule leaves_intros | simp)+

lemma leaves_isdirempty_loop [leaves_intros]: "leaves L (isdirempty_loop dp de offs) L"
  by (induction offs arbitrary: de) (unfold isdirempty_loop.simps, (rule leaves_intros | assumption | simp)+)

lemma leaves_isdirempty [leaves_intros]:
  "leaves L (isdirempty dp) L"
  unfolding isdirempty_def by (rule leaves_intros | simp)+

lemma leaves_sys_unlink_entry [leaves_intros]:
  "leaves L (sys_unlink_entry dp ip off) L" "leaves L (create_new dp name ty mj mn) L"
  unfolding sys_unlink_entry_def create_new_def by (rule leaves_intros | simp)+

lemma leaves_create [leaves_intros]:
  "leaves L (create pth ty mj mn) L" "leaves L (open_file ip om) L" "leaves L (created w) L"
  unfolding create_def open_file_def created_def by (rule leaves_intros | simp)+

lemma leaves_exec_argv [leaves_intros]: "leaves L (exec_argv n ua) L"
  by (induction n arbitrary: ua) (unfold exec_argv.simps, (rule leaves_intros | assumption | simp)+)

lemma leaves_sysfile [leaves_intros]:
  "leaves L sys_link L" "leaves L sys_unlink L" "leaves L sys_open L" "leaves L sys_mkdir L" "leaves L sys_mknod L" "leaves L sys_chdir L" "leaves L sys_exec L" "leaves L sys_pipe L"
  unfolding sys_link_def sys_unlink_def sys_open_def sys_mkdir_def sys_mknod_def sys_chdir_def sys_exec_def sys_pipe_def by (rule leaves_intros | simp)+

lemma leaves_sys_sleep_loop [leaves_intros]:
  "leaves (L_ticks # L) (sys_sleep_loop t0 n) L"
  unfolding sys_sleep_loop_def by (rule leaves_intros | simp)+

lemma leaves_sysproc [leaves_intros]:
  "leaves L sys_fork L" "leaves L sys_exit L" "leaves L sys_wait L" "leaves L sys_kill L" "leaves L sys_getpid L" "leaves L sys_sbrk L" "leaves L sys_sleep L" "leaves (L_ptable # L) (sys_sleep_resume t0 n) L" "leaves L sys_uptime L" "leaves L sys_getpinfo L" "leaves L sys_settickets L"
  unfolding sys_fork_def sys_exit_def sys_wait_def sys_kill_def sys_getpid_def sys_sbrk_def sys_sleep_def sys_sleep_resume_def sys_uptime_def sys_getpinfo_def sys_settickets_def by (rule leaves_intros | simp)+

lemma leaves_syscalls: "m \<in> set syscalls \<Longrightarrow> leaves L m L"
  by (auto simp: syscalls_def intro: leaves_intros)

lemma leaves_syscall_nth:
  fixes table :: "('z kproc_scheme, int) kmon list"
  assumes "table = syscalls" and "0 < n \<and> n < int (length table) + 1"
  shows "leaves L (table ! nat (n - 1)) L"
proof -
  have "nat (n - 1) < length table" using assms(2) by linarith
  then show ?thesis using assms(1) by (intro leaves_syscalls) auto
qed

lemma leaves_syscall [leaves_intros]: "leaves L syscall L"
  unfolding syscall_def Let_def
  by (rule leaves_syscall_nth [OF refl] leaves_intros | assumption | simp)+

lemma leaves_exit_if_killed [leaves_intros]:
  "leaves L (exit_if_killed g) L"
  unfolding exit_if_killed_def by (rule leaves_intros | simp)+

lemma leaves_trap_parts [leaves_intros]:
  "leaves L (trap_syscall tf) L" "leaves L (trap_irq tf cpu c inp) L"
  unfolding trap_syscall_def trap_irq_def by (rule leaves_intros | simp)+

lemma leaves_trap: "leaves L (trap tf cpu c inp) L" "leaves (L_ptable # L) (trap_resume tf) L"
  unfolding trap_def trap_resume_def by (rule leaves_intros | simp)+


text \<open>A machine on which process 0 runs.\<close>

definition demo_running :: kproc where
  "demo_running = demo_kproc\<lparr>cur := Some 0, ptable := zero_proc\<lparr>p_state := RUNNING\<rparr> # replicate 63 zero_proc\<rparr>"


end
