(* ===== verification/Lifecycle.thy ===== *)
theory Lifecycle
  imports Tables
begin

text \<open>
  What the operations on processes guarantee, and where they do not: the hand-over between \<open>exit\<close>
  and \<open>wait\<close>, killing, the statistics of \<open>getpinfo\<close>, and giving all memory back with \<open>sbrk\<close>.
\<close>

section \<open>exit and wait\<close>

text \<open>The table after the first \<open>k\<close> turns of the loop that passes the children of \<open>me\<close> on.\<close>

definition zombie_kid :: "nat \<Rightarrow> nat \<Rightarrow> proc list \<Rightarrow> bool" where
  "zombie_kid me k ps \<longleftrightarrow> (\<exists>j < k. p_parent (ps ! j) = Some me \<and> p_state (ps ! j) = ZOMBIE)"

definition wake_if :: "bool \<Rightarrow> chan option \<Rightarrow> proc \<Rightarrow> proc" where
  "wake_if b c p = (if b then wake_proc c p else p)"

definition handed :: "nat \<Rightarrow> nat option \<Rightarrow> nat \<Rightarrow> proc list \<Rightarrow> proc list" where
  "handed me ini k ps = map (\<lambda>j. wake_if (zombie_kid me k ps) (proc_chan ini)
     (if j < k \<and> p_parent (ps ! j) = Some me then (ps ! j)\<lparr>p_parent := ini\<rparr> else ps ! j)) [0..<length ps]"

lemma wake_proc_fields:
  "p_parent (wake_proc c p) = p_parent p" "p_state (wake_proc c p) = ZOMBIE \<longleftrightarrow> p_state p = ZOMBIE"
  "p_chan (wake_proc c p) = p_chan p" "wake_proc c (wake_proc c p) = wake_proc c p"
  "wake_proc c (p\<lparr>p_parent := x\<rparr>) = (wake_proc c p)\<lparr>p_parent := x\<rparr>"
  by (auto simp: wake_proc_def)

lemma zombie_kid_Suc:
  "zombie_kid me (Suc k) ps \<longleftrightarrow> zombie_kid me k ps \<or> (p_parent (ps ! k) = Some me \<and> p_state (ps ! k) = ZOMBIE)"
  by (auto simp: zombie_kid_def less_Suc_eq)

lemma handed_nth:
  "j < length ps \<Longrightarrow> handed me ini k ps ! j = wake_if (zombie_kid me k ps) (proc_chan ini)
     (if j < k \<and> p_parent (ps ! j) = Some me then (ps ! j)\<lparr>p_parent := ini\<rparr> else ps ! j)"
  by (simp add: handed_def)

lemma reparent_loop:
  assumes "k \<le> length (ptable s)"
  shows "forM [0..<k] (reparent me) s = Ok () (s\<lparr>ptable := handed me (initproc s) k (ptable s)\<rparr>)"
  using assms
proof (induction k)
  case 0
  have "handed me (initproc s) 0 (ptable s) = ptable s"
    by (rule nth_equalityI) (simp_all add: handed_def wake_if_def zombie_kid_def)
  then show ?case by simp
next
  case (Suc k)
  let ?ps = "ptable s" and ?ini = "initproc s"
  let ?h = "handed me ?ini k ?ps"
  have k: "k < length ?ps" using Suc.prems by simp
  have hk: "?h ! k = wake_if (zombie_kid me k ?ps) (proc_chan ?ini) (?ps ! k)"
    using k by (simp add: handed_nth)
  have "reparent me k (s\<lparr>ptable := ?h\<rparr>) = Ok () (s\<lparr>ptable := handed me ?ini (Suc k) ?ps\<rparr>)"
  proof -
    have len: "length ?h = length ?ps" by (simp add: handed_def)
    have "handed me ?ini (Suc k) ?ps = (if p_parent (?ps ! k) = Some me
        then map (wake_if (p_state (?ps ! k) = ZOMBIE) (proc_chan ?ini)) (?h[k := (?h ! k)\<lparr>p_parent := ?ini\<rparr>]) else ?h)"
      using k len
      by (intro nth_equalityI)
        (auto simp: handed_nth zombie_kid_Suc wake_if_def wake_proc_fields nth_list_update handed_def less_Suc_eq)
    moreover have "p_parent (?h ! k) = p_parent (?ps ! k)" "p_state (?h ! k) = ZOMBIE \<longleftrightarrow> p_state (?ps ! k) = ZOMBIE"
      by (simp_all add: hk wake_if_def wake_proc_fields)
    moreover have "map (wake_if False c) xs = xs" "map (wake_if True c) xs = map (wake_proc c) xs" for c xs
      by (simp_all add: wake_if_def [abs_def])
    ultimately show ?thesis
      by (simp add: reparent_def the_proc_def upd_proc_def wakeup1_def)
  qed
  then show ?case using Suc by (simp add: forM_append)
qed

text \<open>A zombie's parent does not sleep in \<open>wait\<close>.\<close>

definition parents_awake :: "proc list \<Rightarrow> bool" where
  "parents_awake ps \<longleftrightarrow> (\<forall>c p. c < length ps \<longrightarrow> p < length ps \<longrightarrow> p_state (ps ! c) = ZOMBIE \<longrightarrow>
     p_parent (ps ! c) = Some p \<longrightarrow> \<not> sleeps_on (C_proc p) (ps ! p))"

lemma wake_if_fields [simp]:
  "p_parent (wake_if b c p) = p_parent p" "p_state (wake_if b c p) = ZOMBIE \<longleftrightarrow> p_state p = ZOMBIE"
  by (simp_all add: wake_if_def wake_proc_fields)

lemma sleeps_on_wake:
  "sleeps_on d (wake_if b c p) \<Longrightarrow> sleeps_on d p \<and> \<not> (b \<and> c = Some d)"
  by (auto simp: sleeps_on_def wake_proc_def wake_if_def split: if_splits)

lemma sleeps_on_parent [simp]: "sleeps_on d (p\<lparr>p_parent := x\<rparr>) = sleeps_on d p"
  by (simp add: sleeps_on_def)

definition exited :: "nat \<Rightarrow> nat option \<Rightarrow> proc list \<Rightarrow> proc list" where
  "exited i ini ps = (let qs = handed i ini (length ps) (map (wake_if True (proc_chan (p_parent (ps ! i)))) ps)
     in qs[i := (qs ! i)\<lparr>p_state := ZOMBIE\<rparr>])"

lemma exit_tail_run:
  assumes "held s = [L_ptable]" and "cur s = Some i" and "i < NPROC" and "length (ptable s) = NPROC"
  shows "exit_tail i s = Blocked (s\<lparr>ptable := exited i (initproc s) (ptable s)\<rparr>)"
proof -
  have "wake_if True = wake_proc" by (simp add: wake_if_def fun_eq_iff)
  moreover have "length (handed i x n ps) = length ps" for x n ps by (simp add: handed_def)
  ultimately show ?thesis
    using assms by (simp add: exit_tail_def wakeup1_def run_simps reparent_loop the_proc_def sched_def ncli_def
      interruptible_def exited_def Let_def)
qed

lemma exited_nth:
  assumes "c < length ps" and "i < length ps"
  defines "zk \<equiv> zombie_kid i (length ps) (map (wake_if True (proc_chan (p_parent (ps ! i)))) ps)"
  shows "exited i ini ps ! c = (let p = wake_if True (proc_chan (p_parent (ps ! i))) (ps ! c);
      q = wake_if zk (proc_chan ini) (if p_parent (ps ! c) = Some i then p\<lparr>p_parent := ini\<rparr> else p)
    in if c = i then q\<lparr>p_state := ZOMBIE\<rparr> else q)"
  using assms by (auto simp: exited_def Let_def handed_nth handed_def nth_list_update)

lemma zombie_kid_wake:
  "zombie_kid i (length ps) (map (wake_if True c) ps) \<longleftrightarrow> zombie_kid i (length ps) ps"
  by (auto simp: zombie_kid_def)

lemma exited_parents_awake:
  assumes awake: "parents_awake ps" and i: "i < length ps" and self: "p_parent (ps ! i) \<noteq> Some i"
  shows "parents_awake (exited i ini ps)"
  unfolding parents_awake_def
proof (intro allI impI)
  fix c p
  let ?qs = "exited i ini ps"
  assume "c < length ?qs" "p < length ?qs" and z: "p_state (?qs ! c) = ZOMBIE" and par: "p_parent (?qs ! c) = Some p"
  then have c: "c < length ps" and p: "p < length ps" by (simp_all add: exited_def handed_def Let_def)
  show "\<not> sleeps_on (C_proc p) (?qs ! p)"
  proof (cases "p = i")
    case True
    then show ?thesis using i by (simp add: exited_nth Let_def sleeps_on_def)
  next
    case False
    show ?thesis
    proof
      assume "sleeps_on (C_proc p) (?qs ! p)"
      then have up: "sleeps_on (C_proc p) (ps ! p)" "p_parent (ps ! i) \<noteq> Some p"
        and kid: "\<not> (zombie_kid i (length ps) ps \<and> ini = Some p)"
        using p i False
        by (auto simp: exited_nth Let_def zombie_kid_wake proc_chan_def dest!: sleeps_on_wake split: if_splits)
      have "c \<noteq> i" using par up(2) self c i by (auto simp: exited_nth Let_def)
      with z c i have zc: "p_state (ps ! c) = ZOMBIE" by (auto simp: exited_nth Let_def split: if_splits)
      show False
      proof (cases "p_parent (ps ! c) = Some i")
        case True
        then have "ini = Some p" using par c i by (auto simp: exited_nth Let_def split: if_splits)
        then show False using kid True zc c by (auto simp: zombie_kid_def)
      next
        case False
        then have "p_parent (ps ! c) = Some p" using par c i by (auto simp: exited_nth Let_def split: if_splits)
        then show False using awake zc c p up(1) by (auto simp: parents_awake_def)
      qed
    qed
  qed
qed

lemma wait_no_zombie:
  assumes "held s = [L_ptable]" and "cur s = Some me" and "me < length (ptable s)"
    and "\<not> zombie_kid me (length (ptable s)) (ptable s)"
  shows "wait_loop me s = (if list_ex (\<lambda>p. p_parent p = Some me) (ptable s) \<and> \<not> p_killed (ptable s ! me)
    then Blocked (s\<lparr>ptable := (ptable s)[me := (ptable s ! me)\<lparr>p_chan := Some (C_proc me), p_state := SLEEPING\<rparr>]\<rparr>)
    else Ok (- 1) (s\<lparr>held := []\<rparr>))"
proof -
  have "first_idx (\<lambda>p. p_parent p = Some me \<and> p_state p = ZOMBIE) (ptable s) = None"
    using assms(4) by (fastforce simp: first_idx_None_iff zombie_kid_def in_set_conv_nth)
  then show ?thesis
    using assms by (simp add: wait_loop_def run_simps the_proc_def sleep_wait_run sleep_def sched_def ncli_def interruptible_def)
qed


section \<open>Killing\<close>

lemma kill_run:
  assumes "held s = []" and "first_idx (\<lambda>p. p_pid p = pid) (ptable s) = Some i"
  shows "kill pid s = Ok 0 (s\<lparr>ptable := (ptable s)[i := kill_proc (ptable s ! i)]\<rparr>)"
  using assms by (simp add: kill_def run_simps)

lemma allocproc_run:
  assumes "held s = []" and "first_idx (\<lambda>p. p_state p = UNUSED) (ptable s) = Some i" and "freelist s \<noteq> 0"
  shows "\<exists>s'. allocproc s = Ok (Some i) s' \<and> held s' = [] \<and> nextpid s' = i32 (nextpid s + 1) \<and>
    (\<exists>tf ca cx. ptable s' = (ptable s)[i := (ptable s ! i)\<lparr>p_state := EMBRYO, p_pid := nextpid s, p_kstack := freelist s,
      p_tfaddr := tf, p_contextaddr := ca, p_context := cx\<rparr>])"
proof -
  have "i < length (ptable s)" using first_idx_SomeD [OF assms(2)] by simp
  moreover have "kmem_ready (s\<lparr>ptable := ps, nextpid := n, held := []\<rparr>)" for n ps by (simp add: kmem_ready_def)
  ultimately show ?thesis
    using assms by (simp add: allocproc_def run_simps bnd_def [of kalloc] kalloc_run upd_page_def Let_def) blast
qed

text \<open>C30: \<open>kill(0)\<close> (src/proc.c). Free slots have pid 0, so \<open>kill(0)\<close> succeeds, marks a
  free slot as killed, and \<open>allocproc\<close>, which resets neither, hands it out: the next process is created killed.\<close>

theorem kill_zero_kills_next_process:
  assumes "held s = []" and "freelist s \<noteq> 0"
    and "first_idx (\<lambda>p. p_state p = UNUSED) (ptable s) = Some i" and "first_idx (\<lambda>p. p_pid p = 0) (ptable s) = Some i"
  shows "\<exists>s1 s2. kill 0 s = Ok 0 s1 \<and> allocproc s1 = Ok (Some i) s2 \<and>
    p_killed (ptable s2 ! i) \<and> p_pid (ptable s2 ! i) = nextpid s"
proof -
  let ?s1 = "s\<lparr>ptable := (ptable s)[i := kill_proc (ptable s ! i)]\<rparr>"
  have i: "i < length (ptable s)" "p_state (ptable s ! i) = UNUSED" "\<forall>j < i. p_state (ptable s ! j) \<noteq> UNUSED"
    using first_idx_SomeD [OF assms(3)] by auto
  have "first_idx (\<lambda>p. p_state p = UNUSED) (ptable ?s1) = Some i"
    by (rule first_idx_SomeI) (use i in \<open>auto simp: kill_proc_def\<close>)
  from allocproc_run [OF _ this] assms i obtain s2 where "allocproc ?s1 = Ok (Some i) s2"
    "p_killed (ptable s2 ! i)" "p_pid (ptable s2 ! i) = nextpid s"
    by (auto simp: kill_proc_def)
  with kill_run [OF assms(1,4)] show ?thesis by blast
qed

section \<open>Statistics\<close>

lemma fill_loop_nth:
  "length ps \<le> length t \<Longrightarrow> length (fill_loop ps t) = length t \<and>
    (\<forall>i < length ps. fill_loop ps t ! i = fill_entry (ps ! i) (t ! i))"
  by (induction ps t rule: fill_loop.induct) (auto simp: nth_Cons split: nat.split)


section \<open>Giving all memory back\<close>

definition demo_shrink :: kproc where
  "demo_shrink = demo_kproc\<lparr>cur := Some 0, mem := demo_user_mem, kend := 0x80115000, freelist := 0,
     ptable := [zero_proc\<lparr>p_sz := 4096, p_pgdir := 0x80200000, p_kstack := 0x80300000\<rparr>]\<rparr>"

lemma demo_shrink_simps [simp]:
  "cur demo_shrink = Some 0" "mem demo_shrink = demo_user_mem" "kend demo_shrink = 0x80115000" "held demo_shrink = []"
  "ptable demo_shrink = [zero_proc\<lparr>p_sz := 4096, p_pgdir := 0x80200000, p_kstack := 0x80300000\<rparr>]" "freelist demo_shrink = 0"
  by (simp_all add: demo_shrink_def)


section \<open>Concrete runs\<close>

definition demo_family :: kproc where
  "demo_family = demo_kproc\<lparr>cur := Some 1, held := [L_ptable], initproc := Some 0,
     ptable := zero_proc\<lparr>p_state := SLEEPING, p_chan := Some (C_proc 0)\<rparr> #
       zero_proc\<lparr>p_state := RUNNING, p_parent := Some 0\<rparr> #
       zero_proc\<lparr>p_state := ZOMBIE, p_parent := Some 1\<rparr> # replicate 61 zero_proc\<rparr>"

lemma demo_family_simps:
  "held demo_family = [L_ptable]" "cur demo_family = Some 1" "initproc demo_family = Some 0"
  "length (ptable demo_family) = 64" "p_parent (ptable demo_family ! Suc 0) = Some 0" "p_parent (ptable demo_family ! 2) = Some 1"
  by (simp_all add: demo_family_def)

lemma demo_family_awake: "parents_awake (ptable demo_family)"
proof -
  have "parents_awake (zero_proc\<lparr>p_state := SLEEPING, p_chan := Some (C_proc 0)\<rparr> #
       zero_proc\<lparr>p_state := RUNNING, p_parent := Some 0\<rparr> #
       zero_proc\<lparr>p_state := ZOMBIE, p_parent := Some 1\<rparr> # replicate n zero_proc)" for n
    unfolding parents_awake_def
    by (auto simp: nth_Cons sleeps_on_def zero_proc_def split: nat.splits)
  then show ?thesis unfolding demo_family_def by simp
qed


theorem kill_zero_kills_next_process_witness:
  "\<exists>s1 s2. kill 0 (demo_kproc\<lparr>freelist := 0x80300000, nextpid := 7\<rparr>) = Ok 0 s1 \<and> allocproc s1 = Ok (Some 0) s2 \<and>
    p_killed (ptable s2 ! 0) \<and> p_pid (ptable s2 ! 0) = 7"
proof -
  let ?s = "demo_kproc\<lparr>freelist := 0x80300000, nextpid := 7\<rparr>"
  have "replicate (Suc 63) zero_proc = zero_proc # replicate 63 zero_proc" by (rule replicate_Suc)
  then have "replicate NPROC zero_proc = zero_proc # replicate 63 zero_proc" by (simp only: NPROC_def) simp
  then have "first_idx (\<lambda>p. p_state p = UNUSED) (ptable ?s) = Some 0" "first_idx (\<lambda>p. p_pid p = 0) (ptable ?s) = Some 0"
    by (simp_all add: zero_proc_def)
  from kill_zero_kills_next_process [OF _ _ this] show ?thesis by simp
qed


end
