(* ===== verification/Blocks.thy ===== *)
theory Blocks
  imports Fs
begin

text \<open>
  What the block allocator and the block map of a file guarantee (\<open>balloc\<close>, \<open>bmap\<close> of src/fs.c),
  in terms of the logical disk \<open>blk\<close> inside a transaction.

  The contents of a file are a function of the disk and of the addresses in its inode, in which a
  block that is not allocated reads as zeros. \<open>balloc\<close> takes a block no bitmap marks, so \<open>bmap\<close>
  may allocate without changing the contents of the file.
\<close>

section \<open>A logged change while other buffers are held\<close>

lemma stmts_append:
  assumes "stmts xs s = Ok () t"
  shows "stmts (xs @ ys) s = stmts ys t"
  using assms by (induction xs arbitrary: s) (auto simp: sqn_def bnd_def split: outcome.splits)

lemma tx_frame_kino:
  fixes s s' :: "'z kino_scheme"
  assumes "tx_frame s s'"
  shows "icache s' = icache s" "fsb s' = fsb s"
  using assms by (auto simp: tx_frame_def)

lemma tx_card:
  assumes "in_tx s hs B" and "card (dom B) \<le> 1" and "int (length hs) + 1 < lg_size s"
  shows "card (set hs \<union> dom B) < NBUF"
proof -
  have "lg_size s \<le> 30" using in_txD [OF assms(1)] by simp
  then have "length hs + 1 < 30" using assms(3) by linarith
  then show ?thesis
    using assms(2) card_length [of hs] card_Un_le [of "set hs" "dom B"] unfolding NBUF_def by linarith
qed

lemma tx_change:
  assumes tx: "in_tx s hs B" and B: "B n = None" "card (dom B) \<le> 1"
    and n: "n \<notin> log_area s" "n < disksize s" and room: "int (length hs) + 1 < lg_size s"
  obtains i s1 s' where "bread 1 n s = Ok i s1" and "b_data (bufs s1 i) = blk s n" and "tx_frame s s1"
    and "stmts [upd_buf i (\<lambda>x. x\<lparr>b_data := f (b_data x)\<rparr>), log_write i, brelse i] s1 = Ok () s'"
    and "in_tx s' (absorb n hs) B" and "blk s' = (blk s)(n := f (blk s n))" and "tx_frame s s'"
proof -
  from tx_bread [OF tx n(2) B(1)] tx_card [OF tx B(2) room] obtain i s1 where
    1: "bread 1 n s = Ok i s1" "in_tx s1 hs (B(n \<mapsto> i))" "blk s1 = blk s" "tx_frame s s1" "b_data (bufs s1 i) = blk s n"
    by auto
  from tx_upd [OF 1(2), of n i f] obtain s2 where
    2: "upd_buf i (\<lambda>x. x\<lparr>b_data := f (b_data x)\<rparr>) s1 = Ok () s2" "in_tx s2 hs (B(n \<mapsto> i))"
      "blk s2 = (blk s1)(n := f (blk s1 n))" "tx_frame s1 s2" by auto
  note f2 = tx_frame_trans [OF 1(4) 2(4)]
  from tx_log_write [OF 2(2), of n i] n room tx_frame_fields [OF f2] obtain s3 where
    3: "log_write i s2 = Ok () s3" "in_tx s3 (absorb n hs) (B(n \<mapsto> i))" "blk s3 = blk s2" "tx_frame s2 s3" by auto
  have "n \<in> set (absorb n hs)" by (simp add: absorb_def)
  with tx_brelse [OF 3(2), of n i] obtain s4 where
    4: "brelse i s3 = Ok () s4" "in_tx s4 (absorb n hs) (B(n := None))" "blk s4 = blk s3" "tx_frame s3 s4" by auto
  have "B(n := None) = B" using B(1) by auto
  then show thesis
    by (intro that [where s' = s4, OF 1(1,5,4)])
      (use 1 2 3 4 tx_frame_trans [OF f2 tx_frame_trans [OF 3(4) 4(4)]] in simp_all)
qed

lemma tx_peek:
  assumes tx: "in_tx s hs B" and B: "B n = None" "card (dom B) \<le> 1"
    and n: "n < disksize s" and room: "int (length hs) + 1 < lg_size s"
  obtains i s1 s' where "bread 1 n s = Ok i s1" and "b_data (bufs s1 i) = blk s n" and "tx_frame s s1"
    and "brelse i s1 = Ok () s'" and "in_tx s' hs B" and "blk s' = blk s" and "tx_frame s s'"
proof -
  from tx_bread [OF tx n(1) B(1)] tx_card [OF tx B(2) room] obtain i s1 where
    1: "bread 1 n s = Ok i s1" "in_tx s1 hs (B(n \<mapsto> i))" "blk s1 = blk s" "tx_frame s s1" "b_data (bufs s1 i) = blk s n"
    by auto
  have "n \<in> set hs \<or> blk s1 n = memdisk s1 n"
    using blk_clean [OF in_txD(2) [OF tx] _ B(1)] 1(3) tx_frame_fields(1) [OF 1(4)] by auto
  with tx_brelse [OF 1(2), of n i] obtain s2 where
    2: "brelse i s1 = Ok () s2" "in_tx s2 hs (B(n := None))" "blk s2 = blk s1" "tx_frame s1 s2" by auto
  have "B(n := None) = B" using B(1) by auto
  with 2 1 show thesis using that tx_frame_trans [OF 1(4) 2(4)] by metis
qed

section \<open>The bitmap\<close>

definition bit_used :: "(uint \<Rightarrow> bytes) \<Rightarrow> superblock \<Rightarrow> uint \<Rightarrow> bool" where
  "bit_used D sb b \<longleftrightarrow> \<not> block_free (D (BBLOCK b sb)) (unat b mod BPB)"

lemma bit_mask_other: "bi div 8 = ci div 8 \<Longrightarrow> bi \<noteq> ci \<Longrightarrow> bit_mask bi AND bit_mask ci = 0"
  by (rule bit_eqI)
    (auto simp: bit_mask_def bit_simps, metis div_mult_mod_eq)

lemma bit_mask_nonzero: "bit_mask bi \<noteq> 0"
proof -
  have "bit (bit_mask bi) (bi mod 8)" by (simp add: bit_mask_def bit_simps)
  then show ?thesis by auto
qed

lemma block_free_set_used: "block_free (set_used bi d) ci \<longleftrightarrow> block_free d ci \<and> ci \<noteq> bi"
proof (cases "ci div 8 = bi div 8")
  case True
  have *: "(a OR m) AND m = m" for a m :: uchar by (rule bit_eqI) (auto simp: bit_simps)
  have "(a OR m) AND c = a AND c" if "m AND c = 0" for a m c :: uchar
    using that by (metis bit.conj_disj_distrib2 bit.disj_zero_right)
  with True show ?thesis
    by (cases "ci = bi") (simp_all add: block_free_def set_used_def * bit_mask_nonzero bit_mask_other)
qed (auto simp: block_free_def set_used_def)

definition data_area :: "'z kino_scheme \<Rightarrow> uint set" where
  "data_area s = {b. b \<noteq> 0 \<and> b < disksize s \<and> b < sb_size (fsb s) \<and> b \<notin> log_area s \<and>
     (\<forall>c. c < sb_size (fsb s) \<longrightarrow> b \<noteq> BBLOCK c (fsb s)) \<and> (\<forall>i. i < sb_ninodes (fsb s) \<longrightarrow> b \<noteq> IBLOCK i (fsb s))}"

text \<open>The blocks of the bitmap lie on the disk outside the log, and what it leaves free are data blocks.\<close>

definition bitmap_ok :: "'z kino_scheme \<Rightarrow> bool" where
  "bitmap_ok s \<longleftrightarrow> (\<forall>b. b < sb_size (fsb s) \<longrightarrow> BBLOCK b (fsb s) < disksize s \<and> BBLOCK b (fsb s) \<notin> log_area s \<and>
     (bit_used (blk s) (fsb s) b \<or> b \<in> data_area s))"

definition used_data :: "'z kino_scheme \<Rightarrow> uint set" where
  "used_data s = {b \<in> data_area s. bit_used (blk s) (fsb s) b}"

lemma tx_frame_area:
  fixes s s' :: "'z kino_scheme"
  assumes "tx_frame s s'"
  shows "data_area s' = data_area s"
  using tx_frame_fields [OF assms] tx_frame_kino [OF assms] by (simp add: data_area_def)

lemma tx_frame_bitmap:
  fixes s s' :: "'z kino_scheme"
  assumes "tx_frame s s'" and "blk s' = blk s"
  shows "bitmap_ok s' = bitmap_ok s" "used_data s' = used_data s"
  using tx_frame_fields [OF assms(1)] tx_frame_kino [OF assms(1)] tx_frame_area [OF assms(1)] assms(2)
  by (simp_all add: bitmap_ok_def used_data_def)

lemma unat_less: "unat b < 4294967296" for b :: uint
  using unsigned_less [of b] by simp

lemma unat_of_nat_small: "n < 4294967296 \<Longrightarrow> unat (of_nat n :: uint) = n"
  by (simp add: unat_of_nat take_bit_nat_eq_self)

lemma div_BPB_less: "unat b div BPB < 2 ^ 32" for b :: uint
proof -
  have "unat b div BPB \<le> unat b" by (rule div_le_dividend)
  also have "\<dots> < 2 ^ 32" using unsigned_less [of b] by simp
  finally show ?thesis .
qed

lemma BBLOCK_div: "BBLOCK b sb = of_nat (unat b div BPB) + sb_bmapstart sb"
proof -
  have "unat (of_nat BPB :: uint) = BPB" by (simp add: BPB_def BSIZE_def)
  then have "unat (b div of_nat BPB) = unat (of_nat (unat b div BPB) :: uint)"
    using div_BPB_less [of b] by (simp add: unat_div unat_of_nat take_bit_nat_eq_self)
  then have "b div of_nat BPB = of_nat (unat b div BPB)" by (simp only: word_unat_eq_iff)
  then show ?thesis by (simp only: BBLOCK_def)
qed

lemma BBLOCK_eq: "BBLOCK b sb = BBLOCK c sb \<longleftrightarrow> unat b div BPB = unat c div BPB"
proof
  assume "BBLOCK b sb = BBLOCK c sb"
  then have "unat (of_nat (unat b div BPB) :: uint) = unat (of_nat (unat c div BPB) :: uint)" by (simp add: BBLOCK_div)
  then show "unat b div BPB = unat c div BPB"
    using div_BPB_less [of b] div_BPB_less [of c] by (simp add: unat_of_nat take_bit_nat_eq_self)
qed (simp add: BBLOCK_div)

lemma bit_used_set_used:
  "bit_used (D(BBLOCK b sb := set_used (unat b mod BPB) (D (BBLOCK b sb)))) sb c \<longleftrightarrow> bit_used D sb c \<or> c = b"
proof (cases "BBLOCK c sb = BBLOCK b sb")
  case True
  then have "unat c div BPB = unat b div BPB" by (simp add: BBLOCK_eq)
  then have "unat c mod BPB = unat b mod BPB \<longleftrightarrow> c = b"
    by (metis div_mult_mod_eq word_unat_eq_iff)
  with True show ?thesis by (auto simp: bit_used_def block_free_set_used)
qed (auto simp: bit_used_def)

section \<open>balloc\<close>

lemma tx_bzero:
  assumes "in_tx s hs B" and "B n = None" and "card (dom B) \<le> 1" and "n \<notin> log_area s" and "n < disksize s"
    and "int (length hs) + 1 < lg_size s"
  obtains s' where "bzero 1 n s = Ok () s'" and "in_tx s' (absorb n hs) B"
    and "blk s' = (blk s)(n := memset (blk s n) 0 0 BSIZE)" and "tx_frame s s'"
proof -
  from tx_change [OF assms, where f = "\<lambda>d. memset d 0 0 BSIZE"] obtain i s1 s' where
    "bread 1 n s = Ok i s1"
    "stmts [upd_buf i (\<lambda>x. x\<lparr>b_data := memset (b_data x) 0 0 BSIZE\<rparr>), log_write i, brelse i] s1 = Ok () s'"
    "in_tx s' (absorb n hs) B" "blk s' = (blk s)(n := memset (blk s n) 0 0 BSIZE)" "tx_frame s s'" .
  then show thesis using that by (simp add: bzero_def bnd_def)
qed

text \<open>The disk after \<open>b\<close> has been marked and cleared.\<close>

definition balloc_disk :: "superblock \<Rightarrow> uint \<Rightarrow> (uint \<Rightarrow> bytes) \<Rightarrow> uint \<Rightarrow> bytes" where
  "balloc_disk sb b D = (let D1 = D(BBLOCK b sb := set_used (unat b mod BPB) (D (BBLOCK b sb)))
     in D1(b := memset (D1 b) 0 0 BSIZE))"

lemma balloc_find_Some:
  assumes "balloc_find d b sz = Some bi"
  shows "bi < BPB" "b + bi < sz" "block_free d bi"
  using assms by (auto simp: balloc_find_def find_Some_iff dest: nth_mem)

lemma balloc_find_None:
  "balloc_find d b sz = None \<longleftrightarrow> (\<forall>bi < BPB. b + bi < sz \<longrightarrow> \<not> block_free d bi)"
  by (auto simp: balloc_find_def find_None_iff)

lemma start_word:
  assumes "k * BPB < unat sz"
  shows "unat (of_nat (k * BPB) :: uint) = k * BPB" "(of_nat (k * BPB) :: uint) < sz"
proof -
  have "k * BPB < 4294967296" using assms unat_less [of sz] by simp
  then show u: "unat (of_nat (k * BPB) :: uint) = k * BPB" by (rule unat_of_nat_small)
  from assms show "(of_nat (k * BPB) :: uint) < sz" unfolding word_less_nat_alt u .
qed

lemma balloc_found:
  fixes s :: "'z kino_scheme"
  assumes tx: "in_tx s hs B" and card: "card (dom B) \<le> 1" and ok: "bitmap_ok s" and B: "dom B \<subseteq> used_data s"
    and room: "int (length hs) + 2 < lg_size s" and k: "k * BPB < unat (sb_size (fsb s))"
    and find: "balloc_find (blk s (BBLOCK (of_nat (k * BPB)) (fsb s))) (k * BPB) (unat (sb_size (fsb s))) = Some bi"
  defines "b \<equiv> of_nat (k * BPB + bi) :: uint"
  shows "\<exists>s'. balloc_from 1 (k * BPB # ks) s = Ok b s' \<and> b \<in> data_area s \<and> \<not> bit_used (blk s) (fsb s) b \<and>
    blk s' = balloc_disk (fsb s) b (blk s) \<and> in_tx s' (absorb b (absorb (BBLOCK b (fsb s)) hs)) B \<and> tx_frame s s'"
proof -
  let ?sb = "fsb s" and ?n = "BBLOCK (of_nat (k * BPB)) (fsb s)"
  note f = balloc_find_Some [OF find] and w = start_word [OF k]
  have "k * BPB + bi < 4294967296" using f(2) unat_less [of "sb_size ?sb"] by simp
  then have ub: "unat b = k * BPB + bi" unfolding b_def by (rule unat_of_nat_small)
  have BPB: "0 < BPB" by (simp add: BPB_def BSIZE_def)
  have bb: "BBLOCK b ?sb = ?n" "unat b mod BPB = bi" using f(1) w(1) BPB by (simp_all add: BBLOCK_eq ub)
  have b_size: "b < sb_size ?sb" using f(2) ub by (simp add: word_less_nat_alt)
  have free: "\<not> bit_used (blk s) ?sb b" using f(3) bb by (simp add: bit_used_def)
  with ok b_size have data: "b \<in> data_area s" and n: "?n < disksize s" "?n \<notin> log_area s" using bb by (auto simp: bitmap_ok_def)
  have "BBLOCK b ?sb \<notin> used_data s" "b \<notin> used_data s"
    using b_size free by (auto simp: used_data_def data_area_def)
  with B have Bn: "B ?n = None" "B b = None" unfolding bb(1) by blast+
  from tx_change [OF tx Bn(1) card n(2,1), where f = "set_used bi"] room obtain i s1 s2 where
    1: "bread 1 ?n s = Ok i s1" "b_data (bufs s1 i) = blk s ?n" "tx_frame s s1"
      "stmts [upd_buf i (\<lambda>x. x\<lparr>b_data := set_used bi (b_data x)\<rparr>), log_write i, brelse i] s1 = Ok () s2"
      "in_tx s2 (absorb ?n hs) B" "blk s2 = (blk s)(?n := set_used bi (blk s ?n))" "tx_frame s s2" by auto
  note fr = tx_frame_fields [OF 1(7)]
  have "b \<notin> log_area s2" "b < disksize s2" "int (length (absorb ?n hs)) + 1 < lg_size s2"
    using data room fr by (auto simp: data_area_def absorb_def)
  with tx_bzero [OF 1(5) Bn(2) card] obtain s3 where
    3: "bzero 1 b s2 = Ok () s3" "in_tx s3 (absorb b (absorb ?n hs)) B"
      "blk s3 = (blk s2)(b := memset (blk s2 b) 0 0 BSIZE)" "tx_frame s2 s3" by blast
  have "stmts [upd_buf i (\<lambda>x. x\<lparr>b_data := set_used bi (b_data x)\<rparr>), log_write i, brelse i, bzero 1 b] s1 = Ok () s3"
    using stmts_append [OF 1(4), of "[bzero 1 b]"] 3(1) by (simp add: sqn_def bnd_def)
  then have "balloc_from 1 (k * BPB # ks) s = Ok b s3"
    using 1(1,2) find by (simp add: bnd_def sqn_def gets_def b_def del: stmts.simps)
  moreover have "blk s3 = balloc_disk ?sb b (blk s)" using 3(3) 1(6) bb by (simp add: balloc_disk_def Let_def)
  ultimately show ?thesis using data free 3(2) bb tx_frame_trans [OF 1(7) 3(4)] by auto
qed

definition has_free :: "(uint \<Rightarrow> bytes) \<Rightarrow> superblock \<Rightarrow> nat set \<Rightarrow> bool" where
  "has_free D sb K \<longleftrightarrow> (\<exists>b. b < sb_size sb \<and> unat b div BPB \<in> K \<and> \<not> bit_used D sb b)"

lemma has_free_find:
  assumes k: "k * BPB < unat (sb_size sb)"
  shows "has_free D sb {k} \<longleftrightarrow> balloc_find (D (BBLOCK (of_nat (k * BPB)) sb)) (k * BPB) (unat (sb_size sb)) \<noteq> None"
proof -
  have BPB: "0 < BPB" by (simp add: BPB_def BSIZE_def)
  have bb: "BBLOCK b sb = BBLOCK (of_nat (k * BPB)) sb" if "unat b div BPB = k" for b
    using that BPB unfolding BBLOCK_eq start_word(1) [OF k] by simp
  show ?thesis
  proof
    assume "has_free D sb {k}"
    then obtain b where b: "b < sb_size sb" "unat b div BPB = k" "\<not> bit_used D sb b" by (auto simp: has_free_def)
    have "k * BPB + unat b mod BPB = unat b" using div_mult_mod_eq [of "unat b" BPB] b(2) by simp
    then show "balloc_find (D (BBLOCK (of_nat (k * BPB)) sb)) (k * BPB) (unat (sb_size sb)) \<noteq> None"
      using b BPB unfolding balloc_find_None bit_used_def bb [OF b(2)] word_less_nat_alt by (metis mod_less_divisor)
  next
    assume "balloc_find (D (BBLOCK (of_nat (k * BPB)) sb)) (k * BPB) (unat (sb_size sb)) \<noteq> None"
    then obtain bi where bi: "bi < BPB" "k * BPB + bi < unat (sb_size sb)"
      "block_free (D (BBLOCK (of_nat (k * BPB)) sb)) bi" unfolding balloc_find_None by blast
    define b where "b = (of_nat (k * BPB + bi) :: uint)"
    have "k * BPB + bi < 4294967296" using bi(2) unat_less [of "sb_size sb"] by simp
    then have u: "unat b = k * BPB + bi" unfolding b_def by (rule unat_of_nat_small)
    have k: "unat b div BPB = k" "unat b mod BPB = bi" using bi(1) by (simp_all add: u)
    have "\<not> bit_used D sb b" using bi(3) unfolding bit_used_def bb [OF k(1)] k(2) by simp
    moreover have "b < sb_size sb" using bi(2) by (simp add: word_less_nat_alt u)
    ultimately show "has_free D sb {k}" using k by (auto simp: has_free_def)
  qed
qed

definition balloc_result :: "'z kino_scheme \<Rightarrow> uint list \<Rightarrow> (uint \<rightharpoonup> nat) \<Rightarrow> (uint, 'z kino_scheme) outcome \<Rightarrow> bool" where
  "balloc_result s hs B r \<longleftrightarrow> (\<exists>b s'. r = Ok b s' \<and> b \<in> data_area s \<and> \<not> bit_used (blk s) (fsb s) b \<and>
     blk s' = balloc_disk (fsb s) b (blk s) \<and> in_tx s' (absorb b (absorb (BBLOCK b (fsb s)) hs)) B \<and> tx_frame s s')"

lemma balloc_from_spec:
  fixes s :: "'z kino_scheme"
  assumes "in_tx s hs B" and card: "card (dom B) \<le> 1" and "bitmap_ok s" and "dom B \<subseteq> used_data s"
    and "int (length hs) + 2 < lg_size s" and "\<forall>k \<in> set ks. k * BPB < unat (sb_size (fsb s))"
  shows "if has_free (blk s) (fsb s) (set ks) then balloc_result s hs B (balloc_from 1 (map (\<lambda>k. k * BPB) ks) s)
    else balloc_from 1 (map (\<lambda>k. k * BPB) ks) s = Panic ''balloc: out of blocks''"
  using assms
proof (induction ks arbitrary: s)
  case Nil
  then show ?case by (simp add: has_free_def panic_def)
next
  case (Cons k ks)
  let ?n = "BBLOCK (of_nat (k * BPB)) (fsb s)"
  have k: "k * BPB < unat (sb_size (fsb s))" using Cons.prems by simp
  have split: "has_free (blk s) (fsb s) (set (k # ks)) \<longleftrightarrow> has_free (blk s) (fsb s) {k} \<or> has_free (blk s) (fsb s) (set ks)"
    by (auto simp: has_free_def)
  show ?case
  proof (cases "balloc_find (blk s ?n) (k * BPB) (unat (sb_size (fsb s)))")
    case (Some bi)
    from balloc_found [OF Cons.prems(1-5) k Some, of "map (\<lambda>k. k * BPB) ks"] show ?thesis
      using Some has_free_find [OF k, of "blk s"] unfolding split balloc_result_def by auto
  next
    case None
    have n: "?n < disksize s" "?n \<notin> used_data s"
      using Cons.prems(3) start_word(2) [OF k] by (auto simp: bitmap_ok_def used_data_def data_area_def)
    then have "B ?n = None" using Cons.prems(4) by blast
    from tx_peek [OF Cons.prems(1) this card n(1)] Cons.prems(5) obtain i s1 s2 where
      p: "bread 1 ?n s = Ok i s1" "b_data (bufs s1 i) = blk s ?n" "tx_frame s s1"
        "brelse i s1 = Ok () s2" "in_tx s2 hs B" "blk s2 = blk s" "tx_frame s s2" by auto
    note fr = tx_frame_fields [OF p(7)] tx_frame_kino [OF p(7)] tx_frame_bitmap [OF p(7,6)] tx_frame_area [OF p(7)]
    have "balloc_from 1 (map (\<lambda>k. k * BPB) (k # ks)) s = balloc_from 1 (map (\<lambda>k. k * BPB) ks) s2"
      using p(1,2,4) None by (simp add: bnd_def sqn_def gets_def)
    moreover have "if has_free (blk s) (fsb s) (set ks) then balloc_result s2 hs B (balloc_from 1 (map (\<lambda>k. k * BPB) ks) s2)
        else balloc_from 1 (map (\<lambda>k. k * BPB) ks) s2 = Panic ''balloc: out of blocks''"
      using Cons.IH [OF p(5) card] Cons.prems fr p(6) by simp
    moreover have "balloc_result s2 hs B r \<Longrightarrow> balloc_result s hs B r" for r
      unfolding balloc_result_def fr p(6) using tx_frame_trans [OF p(7)] by blast
    ultimately show ?thesis using None has_free_find [OF k, of "blk s"] unfolding split by auto
  qed
qed

lemma balloc_spec:
  fixes s :: "'z kino_scheme"
  assumes "in_tx s hs B" and "card (dom B) \<le> 1" and "bitmap_ok s" and "dom B \<subseteq> used_data s"
    and "int (length hs) + 2 < lg_size s"
  shows "if has_free (blk s) (fsb s) UNIV then balloc_result s hs B (balloc 1 s)
    else balloc 1 s = Panic ''balloc: out of blocks''"
proof -
  let ?sz = "unat (sb_size (fsb s))"
  have BPB: "BPB = 4096" by (simp add: BPB_def BSIZE_def)
  let ?ks = "[0..<(?sz + BPB - 1) div BPB]"
  have "\<forall>k \<in> set ?ks. k * BPB < ?sz" by (auto simp: BPB)
  note spec = balloc_from_spec [OF assms this]
  have "has_free (blk s) (fsb s) (set ?ks) = has_free (blk s) (fsb s) UNIV"
    by (auto simp: has_free_def BPB word_less_nat_alt)
  moreover have "balloc 1 s = balloc_from 1 (map (\<lambda>k. k * BPB) ?ks) s"
    by (simp add: balloc_def bitmap_starts_def bnd_def gets_def)
  ultimately show ?thesis using spec by (simp only:)
qed

text \<open>What the new disk means: \<open>b\<close> is now marked and reads as zeros, and no other data block changed.\<close>

lemma balloc_disk_facts:
  assumes "b \<in> data_area s"
  shows "c < sb_size (fsb s) \<Longrightarrow> bit_used (balloc_disk (fsb s) b D) (fsb s) c \<longleftrightarrow> bit_used D (fsb s) c \<or> c = b"
    and "x < BSIZE \<Longrightarrow> balloc_disk (fsb s) b D b x = 0"
    and "c \<in> data_area s \<Longrightarrow> c \<noteq> b \<Longrightarrow> balloc_disk (fsb s) b D c = D c"
proof -
  let ?sb = "fsb s"
  have b: "b < sb_size ?sb" "c < sb_size ?sb \<Longrightarrow> BBLOCK c ?sb \<noteq> b" for c using assms by (auto simp: data_area_def)
  show "bit_used (balloc_disk ?sb b D) ?sb c \<longleftrightarrow> bit_used D ?sb c \<or> c = b" if "c < sb_size ?sb"
    using bit_used_set_used [of D b ?sb c] b(2) [OF that] by (simp add: balloc_disk_def Let_def bit_used_def)
  show "x < BSIZE \<Longrightarrow> balloc_disk ?sb b D b x = 0" by (simp add: balloc_disk_def Let_def memset_apply)
  show "c \<in> data_area s \<Longrightarrow> c \<noteq> b \<Longrightarrow> balloc_disk ?sb b D c = D c"
    using b(1) by (auto simp: balloc_disk_def Let_def data_area_def)
qed

lemma balloc_disk_bitmap:
  fixes s s' :: "'z kino_scheme"
  assumes "b \<in> data_area s" and "bitmap_ok s" and "tx_frame s s'" and "blk s' = balloc_disk (fsb s) b (blk s)"
  shows "bitmap_ok s'" "used_data s' = insert b (used_data s)"
  using balloc_disk_facts(1) [OF assms(1), of _ "blk s"] assms(1,2) tx_frame_fields [OF assms(3)] tx_frame_kino [OF assms(3)]
    tx_frame_area [OF assms(3)] assms(4)
  by (auto simp: bitmap_ok_def used_data_def data_area_def)

text \<open>C13: \<open>balloc\<close> (src/fs.c) inside a transaction returns a data block that the bitmap had free,
  marks exactly this block and clears it; no other data block changes, and it panics exactly when the
  bitmap has no free block.\<close>

theorem balloc_takes_free_block:
  fixes s :: "'z kino_scheme"
  assumes "in_tx s hs Map.empty" and "bitmap_ok s" and "int (length hs) + 2 < lg_size s"
  shows "if \<exists>b. b < sb_size (fsb s) \<and> \<not> bit_used (blk s) (fsb s) b
    then \<exists>b s'. balloc 1 s = Ok b s' \<and> b \<in> data_area s \<and> \<not> bit_used (blk s) (fsb s) b \<and> bitmap_ok s' \<and>
      used_data s' = insert b (used_data s) \<and> (\<forall>x < BSIZE. blk s' b x = 0) \<and> (\<forall>c \<in> data_area s. c \<noteq> b \<longrightarrow> blk s' c = blk s c)
    else balloc 1 s = Panic ''balloc: out of blocks''"
proof (cases "has_free (blk s) (fsb s) UNIV")
  case True
  with balloc_spec [OF assms(1) _ assms(2) _ assms(3)] obtain b s' where
    r: "balloc 1 s = Ok b s'" "b \<in> data_area s" "\<not> bit_used (blk s) (fsb s) b"
      "blk s' = balloc_disk (fsb s) b (blk s)" "tx_frame s s'" by (auto simp: balloc_result_def)
  note d = balloc_disk_facts [OF r(2), of _ "blk s"] balloc_disk_bitmap [OF r(2) assms(2) r(5,4)]
  show ?thesis using True r d by (auto simp: has_free_def)
next
  case False
  then show ?thesis using balloc_spec [OF assms(1) _ assms(2) _ assms(3)] by (auto simp: has_free_def)
qed

section \<open>The blocks a file refers to\<close>

text \<open>Reference \<open>k\<close> of a file: its block \<open>k\<close>, and under \<open>MAXFILE\<close> its indirect block; 0 is none.\<close>

definition fref :: "(uint \<Rightarrow> bytes) \<Rightarrow> uint list \<Rightarrow> nat \<Rightarrow> uint" where
  "fref D ad k = (if k < NDIRECT then ad ! k else if k = MAXFILE then ad ! NDIRECT
     else if k < MAXFILE \<and> ad ! NDIRECT \<noteq> 0 then get32 (D (ad ! NDIRECT)) (4 * (k - NDIRECT)) else 0)"

definition refs_ok :: "(nat \<Rightarrow> uint) \<Rightarrow> uint set \<Rightarrow> bool" where
  "refs_ok R U \<longleftrightarrow> (\<forall>k. R k \<noteq> 0 \<longrightarrow> R k \<in> U) \<and> (\<forall>j k. R j = R k \<longrightarrow> R j \<noteq> 0 \<longrightarrow> j = k)"

definition fbyte :: "(uint \<Rightarrow> bytes) \<Rightarrow> (nat \<Rightarrow> uint) \<Rightarrow> nat \<Rightarrow> uchar" where
  "fbyte D R x = (if x < MAXFILE * BSIZE \<and> R (x div BSIZE) \<noteq> 0 then D (R (x div BSIZE)) (x mod BSIZE) else 0)"

definition addrs :: "'z kino_scheme \<Rightarrow> nat \<Rightarrow> uint list" where
  "addrs s ip = i_addrs (icache s ! ip)"

definition refs :: "'z kino_scheme \<Rightarrow> nat \<Rightarrow> nat \<Rightarrow> uint" where
  "refs s ip = fref (blk s) (addrs s ip)"

definition contents :: "'z kino_scheme \<Rightarrow> nat \<Rightarrow> nat \<Rightarrow> uchar" where
  "contents s ip = fbyte (blk s) (refs s ip)"

definition file_inv :: "'z kino_scheme \<Rightarrow> uint list \<Rightarrow> (uint \<rightharpoonup> nat) \<Rightarrow> nat \<Rightarrow> bool" where
  "file_inv s hs B ip \<longleftrightarrow> in_tx s hs B \<and> bitmap_ok s \<and> ip < length (icache s) \<and> i_dev (icache s ! ip) = 1 \<and>
     length (addrs s ip) = NDIRECT + 1 \<and> refs_ok (refs s ip) (used_data s)"

definition free_blocks :: "'z kino_scheme \<Rightarrow> uint set" where
  "free_blocks s = {b. b < sb_size (fsb s) \<and> \<not> bit_used (blk s) (fsb s) b}"

definition bitmap_blocks :: "'z kino_scheme \<Rightarrow> uint set" where
  "bitmap_blocks s = {BBLOCK b (fsb s) | b. b < sb_size (fsb s)}"

text \<open>What an operation on the blocks of inode \<open>ip\<close> may change.\<close>

definition file_frame :: "nat \<Rightarrow> 'z kino_scheme \<Rightarrow> 'z kino_scheme \<Rightarrow> bool" where
  "file_frame ip s s' \<longleftrightarrow> (\<exists>sl bs lb n ad. s' = s\<lparr>slocks := sl, bufs := bs, lh_block := lb, lh_n := n,
     icache := (icache s)[ip := (icache s ! ip)\<lparr>i_addrs := ad\<rparr>]\<rparr>)"

lemma refs_ok_add:
  assumes "refs_ok R U" and "b \<notin> U"
  shows "refs_ok (R(i := b)) (insert b U)"
  using assms by (auto simp: refs_ok_def)

lemma fbyte_add:
  assumes "R i = 0 \<or> MAXFILE \<le> i" and "\<And>x. x < BSIZE \<Longrightarrow> D' b x = 0"
    and "\<And>k. k < MAXFILE \<Longrightarrow> R k \<noteq> 0 \<Longrightarrow> D' (R k) = D (R k)"
  shows "fbyte D' (R(i := b)) = fbyte D R"
proof
  fix x
  have "0 < BSIZE" by (simp add: BSIZE_def)
  moreover have "x div BSIZE < MAXFILE" if "x < MAXFILE * BSIZE"
    using that by (simp add: less_mult_imp_div_less)
  ultimately show "fbyte D' (R(i := b)) x = fbyte D R x"
    using assms by (auto simp: fbyte_def)
qed

lemma file_frameI:
  "s' = s\<lparr>slocks := sl, bufs := bs, lh_block := lb, lh_n := n, icache := (icache s)[ip := (icache s ! ip)\<lparr>i_addrs := ad\<rparr>]\<rparr>
    \<Longrightarrow> file_frame ip s s'"
  unfolding file_frame_def by (intro exI)

lemma tx_file_frame: "tx_frame s s' \<Longrightarrow> file_frame ip s s'"
  unfolding tx_frame_def
  by (elim exE, rule file_frameI [where ad = "i_addrs (icache s ! ip)"]) (simp add: list_update_id)

lemma file_frame_trans:
  assumes "file_frame ip s s1" and "file_frame ip s1 s2"
  shows "file_frame ip s s2"
proof -
  from assms(1) obtain sl bs lb n ad where 1: "s1 = s\<lparr>slocks := sl, bufs := bs, lh_block := lb, lh_n := n,
     icache := (icache s)[ip := (icache s ! ip)\<lparr>i_addrs := ad\<rparr>]\<rparr>" by (auto simp: file_frame_def)
  from assms(2) obtain sl bs lb n ad' where 2: "s2 = s1\<lparr>slocks := sl, bufs := bs, lh_block := lb, lh_n := n,
     icache := (icache s1)[ip := (icache s1 ! ip)\<lparr>i_addrs := ad'\<rparr>]\<rparr>" by (auto simp: file_frame_def)
  show ?thesis
    by (rule file_frameI [where ad = ad' and sl = sl and bs = bs and lb = lb and n = n], cases "ip < length (icache s)")
      (simp_all add: 1 2 list_update_beyond)
qed

lemma file_frame_addrs:
  assumes "file_frame ip s s1"
  shows "file_frame ip s (s1\<lparr>icache := (icache s1)[ip := (icache s1 ! ip)\<lparr>i_addrs := ad\<rparr>]\<rparr>)"
  by (rule file_frame_trans [OF assms], rule file_frameI [where sl = "slocks s1" and bs = "bufs s1" and lb = "lh_block s1" and n = "lh_n s1"]) simp

lemma file_frame_fields:
  assumes "file_frame ip s s'"
  shows "memdisk s' = memdisk s" "dwrites s' = dwrites s" "disksize s' = disksize s" "log_area s' = log_area s"
    "lg_size s' = lg_size s" "fsb s' = fsb s" "length (icache s') = length (icache s)" "data_area s' = data_area s"
    "bitmap_blocks s' = bitmap_blocks s"
    "(icache s' ! ip)\<lparr>i_addrs := ad\<rparr> = (icache s ! ip)\<lparr>i_addrs := ad\<rparr>" "j \<noteq> ip \<Longrightarrow> icache s' ! j = icache s ! j"
  using assms by (cases "ip < length (icache s)"; auto simp: file_frame_def log_area_def data_area_def bitmap_blocks_def list_update_beyond)+

lemma file_frame_inode:
  assumes "file_frame ip s s'"
  shows "i_dev (icache s' ! ip) = i_dev (icache s ! ip)" "i_inum (icache s' ! ip) = i_inum (icache s ! ip)"
    "i_type (icache s' ! ip) = i_type (icache s ! ip)" "i_size (icache s' ! ip) = i_size (icache s ! ip)"
  using assms by (cases "ip < length (icache s)"; auto simp: file_frame_def list_update_beyond)+

lemma icache_update [simp]:
  "in_tx (s\<lparr>icache := c\<rparr>) hs B = in_tx s hs B" "blk (s\<lparr>icache := c\<rparr>) = blk s" "bitmap_ok (s\<lparr>icache := c\<rparr>) = bitmap_ok s"
  "data_area (s\<lparr>icache := c\<rparr>) = data_area s" "used_data (s\<lparr>icache := c\<rparr>) = used_data s" "free_blocks (s\<lparr>icache := c\<rparr>) = free_blocks s"
proof -
  show "blk (s\<lparr>icache := c\<rparr>) = blk s" "data_area (s\<lparr>icache := c\<rparr>) = data_area s"
    by (simp_all add: blk_def data_area_def log_area_def)
  then show "bitmap_ok (s\<lparr>icache := c\<rparr>) = bitmap_ok s" "used_data (s\<lparr>icache := c\<rparr>) = used_data s"
    "free_blocks (s\<lparr>icache := c\<rparr>) = free_blocks s"
    by (simp_all add: bitmap_ok_def used_data_def free_blocks_def log_area_def)
  show "in_tx (s\<lparr>icache := c\<rparr>) hs B = in_tx s hs B"
    by (simp add: in_tx_def log_ok_def log_geom_def log_area_def bio_ok_def no_sleeper_def)
qed

lemma get32_zero: "(\<And>x. x < BSIZE \<Longrightarrow> d x = 0) \<Longrightarrow> k + 4 \<le> BSIZE \<Longrightarrow> get32 d k = 0"
  by (simp add: get32_def)

lemma NDIRECT_MAXFILE: "NDIRECT < MAXFILE" "k < MAXFILE \<Longrightarrow> 4 * (k - NDIRECT) + 4 \<le> BSIZE"
  by (simp_all add: NDIRECT_def MAXFILE_def NINDIRECT_def BSIZE_def)

definition aref :: "nat \<Rightarrow> nat" where
  "aref i = (if i = NDIRECT then MAXFILE else i)"

lemma fref_aref: "i \<le> NDIRECT \<Longrightarrow> fref D ad (aref i) = ad ! i"
  using NDIRECT_MAXFILE(1) by (auto simp: fref_def aref_def)

lemma fref_attach:
  assumes "length ad = NDIRECT + 1" and "i \<le> NDIRECT" and "ad ! i = 0" and "\<And>x. x < BSIZE \<Longrightarrow> D b x = 0"
  shows "fref D (ad[i := b]) = (fref D ad)(aref i := b)"
proof
  fix k
  have "get32 (D b) (4 * (k - NDIRECT)) = 0" if "k < MAXFILE"
    using assms(4) NDIRECT_MAXFILE(2) [OF that] by (rule get32_zero)
  then show "fref D (ad[i := b]) k = ((fref D ad)(aref i := b)) k"
    using assms(1-3) NDIRECT_MAXFILE(1) by (auto simp: fref_def aref_def nth_list_update)
qed

lemma fref_disk: "D' (ad ! NDIRECT) = D (ad ! NDIRECT) \<Longrightarrow> fref D' ad = fref D ad"
  by (intro ext) (simp add: fref_def)

lemma refs_MAXFILE: "refs s ip MAXFILE = addrs s ip ! NDIRECT"
  using NDIRECT_MAXFILE(1) by (simp add: refs_def fref_def)

lemma file_invD:
  assumes "file_inv s hs B ip"
  shows "in_tx s hs B" "bitmap_ok s" "ip < length (icache s)" "i_dev (icache s ! ip) = 1"
    "length (addrs s ip) = NDIRECT + 1" "refs_ok (refs s ip) (used_data s)"
  using assms by (simp_all add: file_inv_def)

lemma refs_used: "file_inv s hs B ip \<Longrightarrow> refs s ip k \<noteq> 0 \<Longrightarrow> refs s ip k \<in> used_data s"
  by (simp add: file_inv_def refs_ok_def)

text \<open>A fresh block leaves the references and contents of a file as they are.\<close>

lemma balloc_keeps_file:
  fixes s s' :: "'z kino_scheme"
  assumes inv: "file_inv s hs B ip" and b: "b \<in> data_area s" "\<not> bit_used (blk s) (fsb s) b"
    and s': "tx_frame s s'" "blk s' = balloc_disk (fsb s) b (blk s)"
  shows "refs s' ip = refs s ip" "\<And>k. refs s ip k \<noteq> 0 \<Longrightarrow> blk s' (refs s ip k) = blk s (refs s ip k)"
    "\<And>x. x < BSIZE \<Longrightarrow> blk s' b x = 0" "b \<notin> used_data s" "b \<noteq> 0" "used_data s' = insert b (used_data s)" "bitmap_ok s'"
    "free_blocks s' = free_blocks s - {b}" "b \<in> free_blocks s"
proof -
  note d = balloc_disk_facts [OF b(1), of _ "blk s"] and m = balloc_disk_bitmap [OF b(1) file_invD(2) [OF inv] s']
  show bu: "b \<notin> used_data s" using b(2) by (simp add: used_data_def)
  show keep: "blk s' (refs s ip k) = blk s (refs s ip k)" if "refs s ip k \<noteq> 0" for k
    using refs_used [OF inv that] bu d(3) s'(2) by (auto simp: used_data_def)
  have ad: "addrs s' ip = addrs s ip" using tx_frame_kino [OF s'(1)] by (simp add: addrs_def)
  show "refs s' ip = refs s ip"
  proof (cases "addrs s ip ! NDIRECT = 0")
    case True
    then show ?thesis unfolding refs_def ad by (simp add: fref_def fun_eq_iff)
  next
    case False
    then show ?thesis using keep [of MAXFILE] unfolding refs_MAXFILE unfolding refs_def ad by (intro fref_disk) simp
  qed
  show "x < BSIZE \<Longrightarrow> blk s' b x = 0" for x using d(2) s'(2) by simp
  show "b \<noteq> 0" using b(1) by (simp add: data_area_def)
  show "used_data s' = insert b (used_data s)" "bitmap_ok s'" using m by simp_all
  show "free_blocks s' = free_blocks s - {b}" "b \<in> free_blocks s"
    using d(1) tx_frame_kino(2) [OF s'(1)] b s'(2) by (auto simp: free_blocks_def data_area_def)
qed

section \<open>bmap\<close>

definition mapped :: "nat \<Rightarrow> nat \<Rightarrow> uint \<Rightarrow> 'z kino_scheme \<Rightarrow> uint list \<Rightarrow> 'z kino_scheme \<Rightarrow> uint list \<Rightarrow> bool" where
  "mapped ip k a s hs s' hs' \<longleftrightarrow> file_inv s' hs' Map.empty ip \<and> file_frame ip s s' \<and> contents s' ip = contents s ip \<and>
     a \<noteq> 0 \<and> refs s' ip k = a \<and> (\<forall>j. refs s ip j \<noteq> 0 \<or> (j \<noteq> k \<and> j \<noteq> MAXFILE) \<longrightarrow> refs s' ip j = refs s ip j) \<and>
     set hs' \<subseteq> set hs \<union> bitmap_blocks s \<union> ({a, refs s' ip MAXFILE} - {0}) \<and>
     card (free_blocks s) \<le> card (free_blocks s') + (if refs s ip k = 0 then 1 else 0) +
       (if k \<noteq> MAXFILE \<and> refs s ip MAXFILE = 0 \<and> refs s' ip MAXFILE \<noteq> 0 then 1 else 0)"

lemma absorb_length: "length (absorb n hs) \<le> length hs + 1"
  by (simp add: absorb_def)

lemma absorb_set [simp]: "set (absorb n hs) = insert n (set hs)"
  by (auto simp: absorb_def)

lemma free_card: "b \<in> free_blocks s \<Longrightarrow> card (free_blocks s) = card (free_blocks s - {b}) + 1"
  using card.remove [of "free_blocks s" b] by simp

lemma free_has: "has_free (blk s) (fsb s) UNIV \<longleftrightarrow> free_blocks s \<noteq> {}"
  by (auto simp: has_free_def free_blocks_def)

lemma bmap_addr_mapped:
  assumes inv: "file_inv s hs Map.empty ip" and a: "addrs s ip ! i \<noteq> 0" and i: "i \<le> NDIRECT"
  shows "bmap_addr ip i s = Ok (addrs s ip ! i) s" "mapped ip (aref i) (addrs s ip ! i) s hs s hs"
proof -
  show "bmap_addr ip i s = Ok (addrs s ip ! i) s"
    using a by (simp add: bmap_addr_def run_simps the_inode_def addrs_def)
  have "refs s ip (aref i) = addrs s ip ! i" by (simp add: refs_def fref_aref i)
  then show "mapped ip (aref i) (addrs s ip ! i) s hs s hs"
    using inv a tx_file_frame [OF tx_frame_refl] by (auto simp: mapped_def)
qed

lemma bmap_addr_fresh:
  fixes s :: "'z kino_scheme"
  assumes inv: "file_inv s hs Map.empty ip" and i: "i \<le> NDIRECT" and a0: "addrs s ip ! i = 0"
    and room: "int (length hs) + 2 < lg_size s" and free: "free_blocks s \<noteq> {}"
  obtains b s' hs' where "bmap_addr ip i s = Ok b s'" and "mapped ip (aref i) b s hs s' hs'" and "length hs' \<le> length hs + 2"
proof -
  note I = file_invD [OF inv]
  from balloc_spec [OF I(1) _ I(2) _ room] free obtain b t where
    r: "balloc 1 s = Ok b t" "b \<in> data_area s" "\<not> bit_used (blk s) (fsb s) b" "blk t = balloc_disk (fsb s) b (blk s)"
      "in_tx t (absorb b (absorb (BBLOCK b (fsb s)) hs)) Map.empty" "tx_frame s t"
    by (auto simp: balloc_result_def free_has)
  note K = balloc_keeps_file [OF inv r(2,3,6,4)] and f = tx_frame_kino [OF r(6)]
  let ?s = "t\<lparr>icache := (icache t)[ip := (icache t ! ip)\<lparr>i_addrs := (addrs s ip)[i := b]\<rparr>]\<rparr>"
  let ?hs = "absorb b (absorb (BBLOCK b (fsb s)) hs)"
  have ad: "addrs ?s ip = (addrs s ip)[i := b]" using I(3) f by (simp add: addrs_def)
  have "fref (blk t) (addrs s ip) = refs s ip" using K(1) f by (simp add: refs_def addrs_def)
  then have R: "refs ?s ip = (refs s ip)(aref i := b)"
    unfolding refs_def ad by (simp add: fref_attach [OF I(5) i a0] K(3))
  have R0: "refs s ip (aref i) = 0" by (simp add: refs_def fref_aref i a0)
  have run: "bmap_addr ip i s = Ok b ?s"
    using r(1) I(4) a0 f by (simp add: bmap_addr_def run_simps the_inode_def addrs_def upd_inode_def bnd_def)
  have "contents ?s ip = contents s ip"
    unfolding contents_def R icache_update by (rule fbyte_add) (use R0 K in auto)
  moreover have "file_inv ?s ?hs Map.empty ip"
    using r(5) K(6,7) I f R ad refs_ok_add [OF I(6) K(4), of "aref i"] by (simp add: file_inv_def del: fun_upd_apply)
  moreover have "file_frame ip s ?s" by (rule file_frame_addrs [OF tx_file_frame [OF r(6)]])
  moreover have "BBLOCK b (fsb s) \<in> bitmap_blocks s" using r(2) by (auto simp: data_area_def bitmap_blocks_def)
  then have "set ?hs \<subseteq> set hs \<union> bitmap_blocks s \<union> ({b, refs ?s ip MAXFILE} - {0})" using K(5) by auto
  moreover have "refs ?s ip (aref i) = b" "\<forall>j. refs s ip j \<noteq> 0 \<or> (j \<noteq> aref i \<and> j \<noteq> MAXFILE) \<longrightarrow> refs ?s ip j = refs s ip j"
    unfolding R using R0 by auto
  moreover have "card (free_blocks s) = card (free_blocks ?s) + 1" using free_card [OF K(9)] K(8) by simp
  ultimately have "mapped ip (aref i) b s hs ?s ?hs"
    unfolding mapped_def using K(5) R0 by simp
  moreover have "length ?hs \<le> length hs + 2"
    using absorb_length [of b "absorb (BBLOCK b (fsb s)) hs"] absorb_length [of "BBLOCK b (fsb s)" hs] by simp
  ultimately show thesis using that run by blast
qed

lemma fref_indirect:
  assumes "ad ! NDIRECT = ind" and "ind \<noteq> 0" and "k < NINDIRECT"
  shows "fref (D(ind := put32 (D ind) (4 * k) b)) ad = (fref D ad)(NDIRECT + k := b)"
proof
  fix j
  have "get32 (put32 (D ind) (4 * k) b) (4 * (j - NDIRECT)) = get32 (D ind) (4 * (j - NDIRECT))"
    if "NDIRECT \<le> j" "j \<noteq> NDIRECT + k"
    using that by (intro get32_put32_other) linarith
  then show "fref (D(ind := put32 (D ind) (4 * k) b)) ad j = ((fref D ad)(NDIRECT + k := b)) j"
    using assms by (auto simp: fref_def MAXFILE_def)
qed

lemma bmap_ind_mapped:
  assumes inv: "file_inv s hs Map.empty ip" and ind: "addrs s ip ! NDIRECT = ind" "ind \<noteq> 0" and k: "k < NINDIRECT"
    and room: "int (length hs) + 1 < lg_size s" and a: "refs s ip (NDIRECT + k) \<noteq> 0"
  obtains s' where "bmap_ind ip k ind s = Ok (refs s ip (NDIRECT + k)) s'"
    and "mapped ip (NDIRECT + k) (refs s ip (NDIRECT + k)) s hs s' hs"
proof -
  note I = file_invD [OF inv]
  have "ind \<in> used_data s" using refs_used [OF inv, of MAXFILE] ind by (simp add: refs_MAXFILE)
  then have n: "ind < disksize s" by (simp add: used_data_def data_area_def)
  from tx_peek [OF I(1) _ _ n room] obtain i s1 s2 where
    p: "bread 1 ind s = Ok i s1" "b_data (bufs s1 i) = blk s ind" "tx_frame s s1" "brelse i s1 = Ok () s2"
      "in_tx s2 hs Map.empty" "blk s2 = blk s" "tx_frame s s2" by auto
  have g: "get32 (blk s ind) (4 * k) = refs s ip (NDIRECT + k)"
    using ind k by (simp add: refs_def fref_def MAXFILE_def)
  have run: "bmap_ind ip k ind s = Ok (refs s ip (NDIRECT + k)) s2"
    using p(1,2,4) I(4) g a by (simp add: bmap_ind_def bnd_def sqn_def gets_def the_inode_def ret_def)
  note f = tx_frame_kino [OF p(7)] tx_frame_bitmap [OF p(7,6)]
  have R: "refs s2 ip = refs s ip" "addrs s2 ip = addrs s ip" "free_blocks s2 = free_blocks s"
    using f p(6) by (simp_all add: refs_def addrs_def free_blocks_def)
  then have "mapped ip (NDIRECT + k) (refs s ip (NDIRECT + k)) s hs s2 hs"
    using I f p(5,6) a tx_file_frame [OF p(7)] by (auto simp: mapped_def file_inv_def contents_def)
  then show thesis using that run by blast
qed

text \<open>Writing a data block leaves the bitmap alone.\<close>

lemma data_write_bitmap:
  fixes s s' :: "'z kino_scheme"
  assumes f: "tx_frame s s'" and n: "n \<in> data_area s" and D: "blk s' = (blk s)(n := d)"
  shows "bitmap_ok s' = bitmap_ok s" "used_data s' = used_data s" "free_blocks s' = free_blocks s"
proof -
  have "bit_used (blk s') (fsb s) b = bit_used (blk s) (fsb s) b" if "b < sb_size (fsb s)" for b
    using n that D by (auto simp: bit_used_def data_area_def)
  then show "bitmap_ok s' = bitmap_ok s" "used_data s' = used_data s" "free_blocks s' = free_blocks s"
    using tx_frame_fields [OF f] tx_frame_kino [OF f] tx_frame_area [OF f]
    by (auto simp: bitmap_ok_def used_data_def free_blocks_def data_area_def)
qed

lemma mapped_entry:
  fixes s s' :: "'z kino_scheme"
  assumes inv: "file_inv s hs Map.empty ip" and ind: "addrs s ip ! NDIRECT = ind" "ind \<noteq> 0" and k: "k < NINDIRECT"
    and a: "refs s ip (NDIRECT + k) = 0" and F: "tx_frame s s'" and b: "b \<notin> used_data s" "b \<noteq> 0" "b \<in> free_blocks s"
    and s': "in_tx s' hs' Map.empty" "bitmap_ok s'" "used_data s' = insert b (used_data s)" "free_blocks s' = free_blocks s - {b}"
    and D: "\<And>j. refs s ip j \<noteq> 0 \<Longrightarrow> refs s ip j \<noteq> ind \<Longrightarrow> blk s' (refs s ip j) = blk s (refs s ip j)"
      "blk s' ind = put32 (blk s ind) (4 * k) b" "\<And>x. x < BSIZE \<Longrightarrow> blk s' b x = 0"
    and hs': "set hs' \<subseteq> set hs \<union> bitmap_blocks s \<union> {b, ind}"
  shows "mapped ip (NDIRECT + k) b s hs s' hs'"
proof -
  note I = file_invD [OF inv] and f = tx_frame_kino [OF F]
  have ad: "addrs s' ip = addrs s ip" using f by (simp add: addrs_def)
  have K: "NDIRECT + k < MAXFILE" using k by (simp add: MAXFILE_def)
  have "fref (blk s') (addrs s ip) = fref ((blk s)(ind := put32 (blk s ind) (4 * k) b)) (addrs s ip)"
    by (rule fref_disk) (simp add: D(2) ind)
  then have R: "refs s' ip = (refs s ip)(NDIRECT + k := b)"
    unfolding refs_def ad by (simp add: fref_indirect [where b = b, OF ind k])
  have R12: "refs s ip MAXFILE = ind" by (simp add: refs_MAXFILE ind)
  have "contents s' ip = contents s ip"
    unfolding contents_def R
  proof (rule fbyte_add)
    fix j assume "j < MAXFILE" "refs s ip j \<noteq> 0"
    then have "refs s ip j \<noteq> ind" using I(6) R12 unfolding refs_ok_def by (metis less_irrefl)
    then show "blk s' (refs s ip j) = blk s (refs s ip j)" using D(1) \<open>refs s ip j \<noteq> 0\<close> by blast
  qed (use a D in simp_all)
  moreover have "file_inv s' hs' Map.empty ip"
    using I s' f ad R refs_ok_add [OF I(6) b(1), of "NDIRECT + k"] by (simp add: file_inv_def del: fun_upd_apply)
  moreover have "refs s' ip MAXFILE = ind" "refs s' ip (NDIRECT + k) = b"
    "\<forall>j. refs s ip j \<noteq> 0 \<or> (j \<noteq> NDIRECT + k \<and> j \<noteq> MAXFILE) \<longrightarrow> refs s' ip j = refs s ip j"
    using R R12 K a by auto
  moreover have "card (free_blocks s) = card (free_blocks s') + 1" using free_card [OF b(3)] s'(4) by simp
  ultimately show ?thesis
    unfolding mapped_def using tx_file_frame [OF F] b(2) hs' R12 ind(2) a by simp
qed

lemma balloc_Ok:
  fixes s :: "'z kino_scheme"
  assumes "in_tx s hs B" and "card (dom B) \<le> 1" and "bitmap_ok s" and "dom B \<subseteq> used_data s"
    and "int (length hs) + 2 < lg_size s" and "free_blocks s \<noteq> {}"
  obtains b s' where "balloc 1 s = Ok b s'" and "b \<in> data_area s" and "\<not> bit_used (blk s) (fsb s) b"
    and "blk s' = balloc_disk (fsb s) b (blk s)" and "in_tx s' (absorb b (absorb (BBLOCK b (fsb s)) hs)) B" and "tx_frame s s'"
    and "length (absorb b (absorb (BBLOCK b (fsb s)) hs)) \<le> length hs + 2"
    and "set (absorb b (absorb (BBLOCK b (fsb s)) hs)) \<subseteq> set hs \<union> bitmap_blocks s \<union> {b}"
proof -
  from balloc_spec [OF assms(1-5)] assms(6) obtain b s' where
    r: "balloc 1 s = Ok b s'" "b \<in> data_area s" "\<not> bit_used (blk s) (fsb s) b"
    "blk s' = balloc_disk (fsb s) b (blk s)" "in_tx s' (absorb b (absorb (BBLOCK b (fsb s)) hs)) B" "tx_frame s s'"
    unfolding free_has balloc_result_def by (auto split: if_splits)
  moreover have "BBLOCK b (fsb s) \<in> bitmap_blocks s" using r(2) by (auto simp: data_area_def bitmap_blocks_def)
  moreover have "length (absorb b (absorb (BBLOCK b (fsb s)) hs)) \<le> length hs + 2"
    using absorb_length [of b "absorb (BBLOCK b (fsb s)) hs"] absorb_length [of "BBLOCK b (fsb s)" hs] by simp
  ultimately show thesis by (intro that) auto
qed

lemma bmap_ind_fresh:
  fixes s :: "'z kino_scheme"
  assumes inv: "file_inv s hs Map.empty ip" and ind: "addrs s ip ! NDIRECT = ind" "ind \<noteq> 0" and k: "k < NINDIRECT"
    and room: "int (length hs) + 3 < lg_size s" and a: "refs s ip (NDIRECT + k) = 0" and free: "free_blocks s \<noteq> {}"
  obtains b s' hs' where "bmap_ind ip k ind s = Ok b s'" and "mapped ip (NDIRECT + k) b s hs s' hs'"
    and "length hs' \<le> length hs + 3" and "ind \<in> set hs'"
proof -
  note I = file_invD [OF inv]
  have ind_used: "ind \<in> used_data s" using refs_used [OF inv, of MAXFILE] ind by (simp add: refs_MAXFILE)
  then have n: "ind < disksize s" "ind \<notin> log_area s" "ind \<in> data_area s" by (auto simp: used_data_def data_area_def)
  have "card (set hs \<union> dom (Map.empty :: uint \<rightharpoonup> nat)) < NBUF" by (rule tx_card [OF I(1)]) (use room in simp_all)
  with tx_bread [OF I(1) n(1)] obtain i s1 where
    1: "bread 1 ind s = Ok i s1" "in_tx s1 hs [ind \<mapsto> i]" "blk s1 = blk s" "tx_frame s s1" "b_data (bufs s1 i) = blk s ind" by auto
  note f1 = tx_frame_kino [OF 1(4)] tx_frame_bitmap [OF 1(4,3)] tx_frame_fields [OF 1(4)]
  have R1: "refs s1 ip = refs s ip" "free_blocks s1 = free_blocks s" "addrs s1 ip = addrs s ip"
    using f1 1(3) by (simp_all add: refs_def addrs_def free_blocks_def)
  have inv1: "file_inv s1 hs [ind \<mapsto> i] ip" using I 1(2,3) f1 R1 by (simp add: file_inv_def)
  have "int (length hs) + 2 < lg_size s1" using room f1 by simp
  moreover have "card (dom [ind \<mapsto> i]) \<le> 1" "dom [ind \<mapsto> i] \<subseteq> used_data s1" "free_blocks s1 \<noteq> {}"
    using ind_used f1 free R1 by simp_all
  ultimately obtain b s2 where
    2: "balloc 1 s1 = Ok b s2" "b \<in> data_area s1" "\<not> bit_used (blk s1) (fsb s1) b" "blk s2 = balloc_disk (fsb s1) b (blk s1)"
      "in_tx s2 (absorb b (absorb (BBLOCK b (fsb s1)) hs)) [ind \<mapsto> i]" "tx_frame s1 s2"
      and hs2: "length (absorb b (absorb (BBLOCK b (fsb s1)) hs)) \<le> length hs + 2"
        "set (absorb b (absorb (BBLOCK b (fsb s1)) hs)) \<subseteq> set hs \<union> bitmap_blocks s1 \<union> {b}"
    by (elim balloc_Ok [OF 1(2) _ file_invD(2) [OF inv1]])
  let ?hs = "absorb b (absorb (BBLOCK b (fsb s1)) hs)"
  note K = balloc_keeps_file [OF inv1 2(2,3,6,4)]
  from tx_upd [OF 2(5), of ind i "\<lambda>d. put32 d (4 * k) b"] obtain s3 where
    3: "upd_buf i (\<lambda>x. x\<lparr>b_data := put32 (b_data x) (4 * k) b\<rparr>) s2 = Ok () s3" "in_tx s3 ?hs [ind \<mapsto> i]"
      "blk s3 = (blk s2)(ind := put32 (blk s2 ind) (4 * k) b)" "tx_frame s2 s3" by auto
  note F2 = tx_frame_trans [OF 1(4) 2(6)]
  note F3 = tx_frame_trans [OF F2 3(4)]
  have "ind \<notin> log_area s3" "ind < disksize s3" "int (length ?hs) < lg_size s3 - 1"
    using n room tx_frame_fields [OF F3] hs2(1) by simp_all
  with tx_log_write [OF 3(2), of ind i] obtain s4 where
    4: "log_write i s3 = Ok () s4" "in_tx s4 (absorb ind ?hs) [ind \<mapsto> i]" "blk s4 = blk s3" "tx_frame s3 s4" by auto
  from tx_brelse [OF 4(2), of ind i] obtain s5 where
    5: "brelse i s4 = Ok () s5" "in_tx s5 (absorb ind ?hs) (Map.empty(ind := None))" "blk s5 = blk s4" "tx_frame s4 s5" by auto
  note F35 = tx_frame_trans [OF 3(4) tx_frame_trans [OF 4(4) 5(4)]]
  note F5 = tx_frame_trans [OF F2 F35]
  have D5: "blk s5 = (blk s2)(ind := put32 (blk s2 ind) (4 * k) b)" using 3 4 5 by simp
  have ind2: "ind \<in> data_area s2" using n(3) tx_frame_area [OF F2] by simp
  note W = data_write_bitmap [OF F35 ind2 D5] and f5 = tx_frame_kino [OF F5] and f2 = tx_frame_kino [OF F2]
  have run: "bmap_ind ip k ind s = Ok b s5"
  proof -
    have "get32 (blk s ind) (4 * k) = 0" using a ind k by (simp add: refs_def fref_def MAXFILE_def)
    then show ?thesis
      using 1(1,5) 2(1) 3(1) 4(1) 5(1) I(4) by (simp add: bmap_ind_def bnd_def sqn_def gets_def the_inode_def ret_def)
  qed
  have "mapped ip (NDIRECT + k) b s hs s5 (absorb ind ?hs)"
  proof (rule mapped_entry [OF inv ind k a F5])
    show "blk s5 (refs s ip j) = blk s (refs s ip j)" if "refs s ip j \<noteq> 0" "refs s ip j \<noteq> ind" for j
      using K(2) [of j] that R1 1(3) D5 by simp
    show "blk s5 ind = put32 (blk s ind) (4 * k) b"
      using K(2) [of MAXFILE] ind R1 1(3) D5 by (simp add: refs_MAXFILE)
    have "b \<noteq> ind" using K(4) ind_used f1 by auto
    then show "blk s5 b x = 0" if "x < BSIZE" for x using K(3) that D5 by simp
    have "bitmap_blocks s1 = bitmap_blocks s" using f1 by (simp add: bitmap_blocks_def)
    then show "set (absorb ind ?hs) \<subseteq> set hs \<union> bitmap_blocks s \<union> {b, ind}" using hs2(2) by auto
  qed (use K W 5 f1 R1 in simp_all)
  moreover have "length (absorb ind ?hs) \<le> length hs + 3" "ind \<in> set (absorb ind ?hs)"
    using absorb_length [of ind ?hs] hs2(1) by simp_all
  ultimately show thesis using that run by blast
qed

lemma mappedD:
  assumes "mapped ip k a s hs s' hs'"
  shows "file_inv s' hs' Map.empty ip" "file_frame ip s s'" "contents s' ip = contents s ip" "a \<noteq> 0" "refs s' ip k = a"
    "refs s ip j \<noteq> 0 \<Longrightarrow> refs s' ip j = refs s ip j" "j \<noteq> k \<Longrightarrow> j \<noteq> MAXFILE \<Longrightarrow> refs s' ip j = refs s ip j"
    "set hs' \<subseteq> set hs \<union> bitmap_blocks s \<union> ({a, refs s' ip MAXFILE} - {0})"
    "card (free_blocks s) \<le> card (free_blocks s') + (if refs s ip k = 0 then 1 else 0) +
       (if k \<noteq> MAXFILE \<and> refs s ip MAXFILE = 0 \<and> refs s' ip MAXFILE \<noteq> 0 then 1 else 0)"
  using assms unfolding mapped_def by blast+

lemma mapped_trans:
  assumes 1: "mapped ip MAXFILE ind s hs s1 hs1" and 2: "mapped ip k a s1 hs1 s2 hs2" and k: "k \<noteq> MAXFILE"
  shows "mapped ip k a s hs s2 hs2"
proof -
  note m1 = mappedD [OF 1] and m2 = mappedD [OF 2]
  have bm: "bitmap_blocks s1 = bitmap_blocks s" by (rule file_frame_fields(9) [OF m1(2)])
  have R: "refs s2 ip MAXFILE = ind" using m2(6) [of MAXFILE] m1(4,5) by simp
  have Rk: "refs s1 ip k = refs s ip k" by (rule m1(7) [OF k k])
  have "\<forall>j. refs s ip j \<noteq> 0 \<or> (j \<noteq> k \<and> j \<noteq> MAXFILE) \<longrightarrow> refs s2 ip j = refs s ip j"
    using m1(6,7) m2(6,7) by metis
  moreover have "set hs2 \<subseteq> set hs \<union> bitmap_blocks s \<union> ({a, refs s2 ip MAXFILE} - {0})"
    using m1(4,5,8) m2(8) unfolding R bm by auto
  moreover have "card (free_blocks s) \<le> card (free_blocks s1) + (if refs s ip MAXFILE = 0 then 1 else 0)"
    "card (free_blocks s1) \<le> card (free_blocks s2) + (if refs s ip k = 0 then 1 else 0)"
    using m1(4,5,9) m2(9) Rk by simp_all
  ultimately show ?thesis
    unfolding mapped_def using m2(1,3,4,5) m1(3,4) file_frame_trans [OF m1(2) m2(2)] R k by simp
qed

definition needs :: "'z kino_scheme \<Rightarrow> nat \<Rightarrow> nat" where
  "needs s ip = (if refs s ip MAXFILE = 0 then 1 else 0)"

lemma bmap_addr_spec:
  fixes s :: "'z kino_scheme"
  assumes "file_inv s hs Map.empty ip" and "i \<le> NDIRECT" and "int (length hs) + 2 < lg_size s"
    and "addrs s ip ! i = 0 \<Longrightarrow> free_blocks s \<noteq> {}"
  obtains a s' hs' where "bmap_addr ip i s = Ok a s'" and "mapped ip (aref i) a s hs s' hs'" and "length hs' \<le> length hs + 2"
proof (cases "addrs s ip ! i = 0")
  case True
  with bmap_addr_fresh [OF assms(1,2) _ assms(3)] assms(4) that show thesis by blast
next
  case False
  from that [OF bmap_addr_mapped [OF assms(1) False assms(2)]] show thesis by simp
qed

lemma bmap_spec:
  fixes s :: "'z kino_scheme"
  assumes inv: "file_inv s hs Map.empty ip" and k: "k < MAXFILE" and room: "int (length hs) + 5 < lg_size s"
    and free: "(if refs s ip k = 0 then 1 else 0) + needs s ip \<le> card (free_blocks s)"
  obtains a s' hs' where "bmap ip (of_nat k) s = Ok a s'" and "mapped ip k a s hs s' hs'" and "length hs' \<le> length hs + 5"
proof (cases "k < NDIRECT")
  case True
  then have u: "unat (of_nat k :: uint) = k" "aref k = k" by (simp_all add: NDIRECT_def aref_def unat_of_nat_small)
  have "free_blocks s \<noteq> {}" if "addrs s ip ! k = 0"
    using that free True by (auto simp: refs_def fref_def)
  with bmap_addr_spec [OF inv, of k] True room obtain a s' hs' where
    "bmap_addr ip k s = Ok a s'" "mapped ip (aref k) a s hs s' hs'" "length hs' \<le> length hs + 2" by auto
  then show thesis using that True u by (simp add: bmap_def)
next
  case False
  define j where "j = k - NDIRECT"
  have j: "k = NDIRECT + j" "j < NINDIRECT" "j < 128" using False k by (simp_all add: j_def MAXFILE_def NINDIRECT_def BSIZE_def)
  have "(of_nat k - of_nat NDIRECT :: uint) = of_nat j" unfolding j(1) by simp
  then have u: "unat (of_nat k - of_nat NDIRECT :: uint) = j" using j(3) by (simp add: unat_of_nat_small)
  have u2: "\<not> unat (of_nat k :: uint) < NDIRECT" using False k by (simp add: unat_of_nat_small MAXFILE_def NDIRECT_def NINDIRECT_def BSIZE_def)
  have "free_blocks s \<noteq> {}" if "addrs s ip ! NDIRECT = 0" using that free by (auto simp: needs_def refs_MAXFILE)
  with bmap_addr_spec [OF inv, of NDIRECT] room obtain ind s1 hs1 where
    1: "bmap_addr ip NDIRECT s = Ok ind s1" "mapped ip MAXFILE ind s hs s1 hs1" "length hs1 \<le> length hs + 2" by (auto simp: aref_def)
  note m = mappedD [OF 1(2)]
  have s1: "file_inv s1 hs1 Map.empty ip" "addrs s1 ip ! NDIRECT = ind" "ind \<noteq> 0" "lg_size s1 = lg_size s"
    using m(1,4,5) file_frame_fields(5) [OF m(2)] by (simp_all flip: refs_MAXFILE)
  have kM: "k \<noteq> MAXFILE" using k by simp
  have Rk: "refs s1 ip k = refs s ip k" by (rule m(7) [OF kM kM])
  have run: "bmap ip (of_nat k) s = bmap_ind ip j ind s1" using u u2 j(2) 1(1) by (simp add: bmap_def bnd_def)
  have room1: "int (length hs1) + 3 < lg_size s1" using room 1(3) s1(4) by simp
  obtain a s2 hs2 where 2: "bmap_ind ip j ind s1 = Ok a s2" "mapped ip k a s1 hs1 s2 hs2" "length hs2 \<le> length hs1 + 3"
  proof (cases "refs s1 ip k = 0")
    case True
    then have "free_blocks s1 \<noteq> {}" using free m(9) Rk by (auto simp: needs_def split: if_splits)
    with bmap_ind_fresh [OF s1(1-3) j(2) room1] True that show thesis unfolding j(1) by blast
  next
    case False
    have "int (length hs1) + 1 < lg_size s1" using room1 by simp
    with bmap_ind_mapped [OF s1(1-3) j(2)] False that show thesis unfolding j(1) by (metis le_add1)
  qed
  show thesis by (rule that [OF _ mapped_trans [OF 1(2) 2(2) kM]]) (use run 2 1(3) in simp_all)
qed

section \<open>A small file system\<close>

text \<open>The log is in blocks 2 to 31, the inodes are in block 32 and the bitmap in block 45, which marks all
  blocks but 96 to 103. The first cached inode is an empty file, the second has three bytes in block 50.\<close>

definition demo_image :: "uint \<Rightarrow> bytes" where
  "demo_image n = (if n = 45 then (\<lambda>x. if x = 12 then 0 else - 1) else if n = 50 then (\<lambda>_. 7) else (\<lambda>_. 0))"

definition demo_sb :: superblock where
  "demo_sb = \<lparr>sb_size = 1000, sb_nblocks = 941, sb_ninodes = 8, sb_nlog = 30, sb_logstart = 2, sb_inodestart = 32, sb_bmapstart = 45\<rparr>"

definition demo_inode :: "uint \<Rightarrow> uint \<Rightarrow> uint list \<Rightarrow> inode" where
  "demo_inode inum sz ad = \<lparr>i_dev = 1, i_inum = inum, i_ref = 1, i_valid = True, i_type = T_FILE, i_major = 0, i_minor = 0,
     i_nlink = 1, i_size = sz, i_addrs = ad\<rparr>"

definition demo_fs :: kcons where
  "demo_fs = kino.extend (klog.extend (demo_klog\<lparr>memdisk := demo_image\<rparr>)
     \<lparr>icache = [demo_inode 1 0 (replicate 13 0), demo_inode 2 3 (50 # replicate 12 0)], fsb = demo_sb\<rparr>)
     \<lparr>panicked = False, cons_locking = True, in_buf = (\<lambda>_. 0), in_r = 0, in_w = 0, in_e = 0, crt = (\<lambda>_. 0), crt_pos = 0,
       uart = True, uart_out = [], devsw_read = (\<lambda>_. False), devsw_write = (\<lambda>_. False)\<rparr>"

lemma demo_fs_boot:
  obtains s where "binit demo_fs = Ok () s" and "in_tx s [] Map.empty" and "blk s = demo_image"
    and "icache s = [demo_inode 1 0 (replicate 13 0), demo_inode 2 3 (50 # replicate 12 0)]" and "fsb s = demo_sb"
    and "log_area s = {n. 2 \<le> n \<and> n < 32}" and "disksize s = 1000" and "lg_size s = 30"
proof -
  have *: "held demo_fs = held demo_klog" "cur demo_fs = cur demo_klog" "disksize demo_fs = disksize demo_klog"
    "bufs demo_fs = bufs demo_klog" "ptable demo_fs = ptable demo_klog" "memdisk demo_fs = demo_image"
    "lg_start demo_fs = lg_start demo_klog" "lg_size demo_fs = lg_size demo_klog" "lg_dev demo_fs = lg_dev demo_klog"
    "lg_outstanding demo_fs = lg_outstanding demo_klog" "lh_n demo_fs = lh_n demo_klog" "fsb demo_fs = demo_sb"
    "icache demo_fs = [demo_inode 1 0 (replicate 13 0), demo_inode 2 3 (50 # replicate 12 0)]"
    by (simp_all add: demo_fs_def kino.defs klog.defs)
  have nosl: "no_sleeper (C_sleeplock lk) demo_klog" for lk by simp
  have "no_sleeper (C_sleeplock lk) demo_fs" for lk using nosl [of lk] unfolding no_sleeper_def *(5) .
  with binit_spec [of demo_fs 0] obtain sl bs where
    b: "binit demo_fs = Ok () (demo_fs\<lparr>slocks := sl, bufs := bs\<rparr>)"
      "bio_ok {} Map.empty (demo_fs\<lparr>slocks := sl, bufs := bs\<rparr>)" "view bs (memdisk demo_fs) = memdisk demo_fs"
    using * by auto
  let ?s = "demo_fs\<lparr>slocks := sl, bufs := bs\<rparr>"
  have "log_area ?s = {n. 2 \<le> n \<and> n < 32}" using * by (auto simp: log_area_def word_le_def word_less_def)
  then show thesis
    using b * by (intro that [OF b(1)]) (simp_all add: in_tx_def log_ok_def log_geom_def blk_def NBUF_def)
qed

lemma demo_bitmap:
  assumes "b < 1000"
  shows "BBLOCK b demo_sb = 45" "bit_used demo_image demo_sb b \<longleftrightarrow> \<not> (96 \<le> b \<and> b < 104)"
proof -
  have b: "unat b < 1000" using assms by (simp add: word_less_nat_alt)
  then show B: "BBLOCK b demo_sb = 45" by (simp add: BBLOCK_div demo_sb_def BPB_def BSIZE_def)
  have "unat b div 8 = 12 \<longleftrightarrow> 96 \<le> unat b \<and> unat b < 104" by linarith
  then show "bit_used demo_image demo_sb b \<longleftrightarrow> \<not> (96 \<le> b \<and> b < 104)"
    unfolding bit_used_def B using b bit_mask_nonzero [of "unat b"]
    by (auto simp: block_free_def demo_image_def BPB_def BSIZE_def word_le_nat_alt word_less_nat_alt)
qed

lemma demo_fs_ok:
  fixes s :: "'z kino_scheme"
  assumes "blk s = demo_image" "fsb s = demo_sb" "log_area s = {n. 2 \<le> n \<and> n < 32}" "disksize s = 1000"
  shows "bitmap_ok s" "free_blocks s = {b. 96 \<le> b \<and> b < 104}" "bitmap_blocks s = {45}"
    "{50, 96, 97} \<subseteq> data_area s"
proof -
  have sz: "sb_size demo_sb = 1000" "sb_ninodes demo_sb = 8" by (simp_all add: demo_sb_def)
  have I: "IBLOCK i demo_sb = 32" if "i < 8" for i
  proof -
    have "i div 8 = 0" using that by (simp add: word_unat_eq_iff unat_div word_less_nat_alt)
    then show ?thesis by (simp add: IBLOCK_def demo_sb_def IPB_def BSIZE_def DINODE_SIZE_def)
  qed
  have da: "b \<in> data_area s" if "46 \<le> b" "b < 1000" for b
  proof -
    have "b \<noteq> 0" "\<not> b < 32" "b \<noteq> 45" "b \<noteq> 32" using that(1) by (auto simp: word_le_nat_alt word_less_nat_alt)
    then show ?thesis using that assms demo_bitmap(1) I by (auto simp: data_area_def sz)
  qed
  have lt: "96 \<le> b \<Longrightarrow> b < 104 \<Longrightarrow> 46 \<le> b \<and> b < 1000" for b :: uint by (auto simp: word_le_nat_alt word_less_nat_alt)
  show "bitmap_ok s" using assms demo_bitmap da lt by (auto simp: bitmap_ok_def sz)
  show "free_blocks s = {b. 96 \<le> b \<and> b < 104}" using assms demo_bitmap(2) lt by (auto simp: free_blocks_def sz)
  show "bitmap_blocks s = {45}"
    using assms demo_bitmap(1) by (auto simp: bitmap_blocks_def sz intro: exI [of _ 0])
  show "{50, 96, 97} \<subseteq> data_area s" using da by simp
qed

theorem balloc_takes_free_block_witness:
  "\<exists>s b s'. binit demo_fs = Ok () s \<and> balloc 1 s = Ok b s' \<and> 96 \<le> b \<and> b < 104 \<and> blk s' b 100 = 0"
proof -
  obtain s where s: "binit demo_fs = Ok () s" "in_tx s [] Map.empty" "blk s = demo_image" "fsb s = demo_sb"
    "log_area s = {n. 2 \<le> n \<and> n < 32}" "disksize s = 1000" "lg_size s = 30" by (rule demo_fs_boot)
  note ok = demo_fs_ok [OF s(3-6)]
  have "96 \<in> free_blocks s" using ok(2) by simp
  then have "\<exists>b. b < sb_size (fsb s) \<and> \<not> bit_used (blk s) (fsb s) b" by (auto simp: free_blocks_def)
  with balloc_takes_free_block [OF s(2) ok(1)] s(7) obtain b s' where
    b: "balloc 1 s = Ok b s'" "b \<in> data_area s" "\<not> bit_used (blk s) (fsb s) b" "\<forall>x < BSIZE. blk s' b x = 0" by auto
  then have "b \<in> free_blocks s" by (simp add: free_blocks_def data_area_def)
  then show ?thesis using ok(2) b(1,4) s(1) by (auto simp: BSIZE_def)
qed

end
