(* ===== verification/Content.thy ===== *)
theory Content
  imports Blocks
begin

text \<open>
  Reading and writing files (\<open>readi\<close>, \<open>writei\<close>, \<open>iupdate\<close>, \<open>ilock\<close> of src/fs.c): the bytes of a file
  are the ones last written to it, with new blocks allocated on the way, and the inode survives
  the trip to its block and back.
\<close>

section \<open>One block of a write\<close>

definition nblocks :: "nat \<Rightarrow> nat \<Rightarrow> nat" where
  "nblocks off m = (if m = 0 then 0 else (off + m - 1) div BSIZE - off div BSIZE + 1)"

lemma nblocks_step:
  assumes "0 < m"
  shows "nblocks off m = nblocks (off + chunk m off) (m - chunk m off) + 1"
proof (cases "m \<le> BSIZE - off mod BSIZE")
  case True
  have "off mod BSIZE + (m - 1) < BSIZE" using True assms mod_less_divisor [of BSIZE off] by (simp add: BSIZE_def)
  then have "(off div BSIZE * BSIZE + (off mod BSIZE + (m - 1))) div BSIZE = off div BSIZE"
    by (metis add_0_right div_less div_mult_self3 gr_implies_not0)
  then have "(off + m - 1) div BSIZE = off div BSIZE"
    using assms by (simp add: add.assoc [symmetric] div_mult_mod_eq)
  with True assms show ?thesis by (simp add: nblocks_def chunk_def)
next
  case False
  let ?c = "BSIZE - off mod BSIZE"
  have B: "off mod BSIZE < BSIZE" "0 < BSIZE" by (simp_all add: BSIZE_def)
  have off: "off + ?c = (off div BSIZE + 1) * BSIZE"
    using B div_mult_mod_eq [of off BSIZE] unfolding add_mult_distrib by linarith
  have "(off + ?c + (m - ?c) - 1) = off + m - 1" using False by simp
  moreover have "off div BSIZE + 1 \<le> (off + m - 1) div BSIZE"
  proof -
    have "(off div BSIZE + 1) * BSIZE \<le> off + m - 1" using off False by linarith
    then show ?thesis using B(2) by (metis div_le_mono nonzero_mult_div_cancel_right less_numeral_extra(3))
  qed
  moreover have "(off + ?c) div BSIZE = off div BSIZE + 1" unfolding off using B(2) by simp
  ultimately show ?thesis using False assms by (simp add: nblocks_def chunk_def)
qed

lemma in_chunk:
  assumes "off \<le> x" and "x < off + chunk m off"
  shows "x div BSIZE = off div BSIZE" "x mod BSIZE = off mod BSIZE + (x - off)"
proof -
  have "off mod BSIZE + (x - off) < BSIZE"
    using assms mod_less_divisor [of BSIZE off] by (simp add: chunk_def BSIZE_def)
  moreover have "x = off div BSIZE * BSIZE + (off mod BSIZE + (x - off))"
    using assms(1) div_mult_mod_eq [of off BSIZE] by linarith
  ultimately show "x div BSIZE = off div BSIZE" "x mod BSIZE = off mod BSIZE + (x - off)"
    by (metis add_0_right div_less div_mult_self3 gr_implies_not0, metis mod_less mod_mult_self3)
qed

lemma out_of_chunk:
  assumes "x div BSIZE = off div BSIZE"
  shows "off mod BSIZE \<le> x mod BSIZE \<and> x mod BSIZE < off mod BSIZE + c \<longleftrightarrow> off \<le> x \<and> x < off + c"
  using div_mult_mod_eq [of off BSIZE] div_mult_mod_eq [of x BSIZE, unfolded assms]
  by (intro iffI; elim conjE; intro conjI; linarith)

lemma data_write_contents:
  fixes s s' :: "'z kino_scheme"
  assumes inv: "file_inv s hs B ip" and f: "tx_frame s s'" and k: "k < MAXFILE" and a: "refs s ip k = a" "a \<noteq> 0"
    and D: "blk s' = (blk s)(a := d)"
  shows "refs s' ip = refs s ip" "free_blocks s' = free_blocks s" "in_tx s' hs' B \<Longrightarrow> file_inv s' hs' B ip"
    "contents s' ip x = (if x < MAXFILE * BSIZE \<and> x div BSIZE = k then d (x mod BSIZE) else contents s ip x)"
proof -
  note I = file_invD [OF inv] and fk = tx_frame_kino [OF f]
  have "a \<in> data_area s" using refs_used [OF inv, of k] a by (simp add: used_data_def)
  note W = data_write_bitmap [OF f this D]
  have inj: "refs s ip j = a \<Longrightarrow> j = k" for j using I(6) a unfolding refs_ok_def by metis
  have ad: "addrs s' ip = addrs s ip" using fk by (simp add: addrs_def)
  show R: "refs s' ip = refs s ip"
  proof (cases "addrs s ip ! NDIRECT = 0")
    case True
    then show ?thesis unfolding refs_def ad by (simp add: fref_def fun_eq_iff)
  next
    case False
    have "addrs s ip ! NDIRECT \<noteq> a" using inj [of MAXFILE] k by (auto simp: refs_MAXFILE)
    then show ?thesis unfolding refs_def ad by (intro fref_disk) (simp add: D)
  qed
  show "free_blocks s' = free_blocks s" by (rule W(3))
  show "in_tx s' hs' B \<Longrightarrow> file_inv s' hs' B ip" using I W fk R ad by (simp add: file_inv_def)
  show "contents s' ip x = (if x < MAXFILE * BSIZE \<and> x div BSIZE = k then d (x mod BSIZE) else contents s ip x)"
  proof (cases "x div BSIZE = k")
    case True
    then show ?thesis using a by (simp add: contents_def R fbyte_def D)
  next
    case False
    then have "refs s ip (x div BSIZE) \<noteq> a" using inj by blast
    then show ?thesis using False by (simp add: contents_def R fbyte_def D)
  qed
qed

section \<open>Room in the log and on the disk\<close>

text \<open>The blocks a transaction logs for a file, beyond one per block written: the bitmap and the indirect block.\<close>

definition pot :: "'z kino_scheme \<Rightarrow> uint list \<Rightarrow> nat \<Rightarrow> nat" where
  "pot s hs ip = card (set hs \<union> bitmap_blocks s \<union> ({refs s ip MAXFILE} - {0})) + needs s ip"

lemma pot_length:
  assumes "in_tx s hs B"
  shows "length hs \<le> pot s hs ip"
proof -
  have "distinct hs" using in_txD(1) [OF assms] by (simp add: log_ok_def)
  then have "length hs = card (set hs)" by (simp add: distinct_card)
  also have "\<dots> \<le> card (set hs \<union> bitmap_blocks s \<union> ({refs s ip MAXFILE} - {0}))" by (rule card_mono) auto
  finally show ?thesis by (simp add: pot_def)
qed

lemma card_le_insert:
  assumes "V \<subseteq> insert a W" and "finite W"
  shows "card V \<le> card W + 1"
proof -
  have "card V \<le> card (insert a W)" using assms by (intro card_mono) simp_all
  also have "\<dots> \<le> card W + 1" using assms(2) by (simp add: card_insert_if)
  finally show ?thesis .
qed

lemma mapped_pot:
  assumes m: "mapped ip k a s hs s1 hs1"
  shows "pot s1 (absorb a hs1) ip \<le> pot s hs ip + 1"
proof -
  note M = mappedD [OF m]
  let ?U = "set hs \<union> bitmap_blocks s"
  have bm: "bitmap_blocks s1 = bitmap_blocks s" by (rule file_frame_fields(9) [OF M(2)])
  let ?V = "set (absorb a hs1) \<union> bitmap_blocks s1 \<union> ({refs s1 ip MAXFILE} - {0})"
  let ?W = "?U \<union> ({refs s1 ip MAXFILE} - {0})"
  have "?V \<subseteq> insert a ?W" using M(8) unfolding bm by auto
  then have le: "card ?V \<le> card ?W + 1" by (rule card_le_insert) simp
  show ?thesis
  proof (cases "refs s ip MAXFILE = 0")
    case True
    have "card (?U \<union> ({refs s1 ip MAXFILE} - {0})) + needs s1 ip \<le> card ?U + 1"
      by (cases "refs s1 ip MAXFILE = 0") (auto simp: needs_def card_insert_if)
    then show ?thesis using le True by (simp add: pot_def needs_def)
  next
    case False
    then show ?thesis using le M(6) [of MAXFILE] by (simp add: pot_def needs_def)
  qed
qed

lemma mapped_needs:
  assumes m: "mapped ip k a s hs s1 hs1" and k: "k \<noteq> MAXFILE" and free: "needs s ip + (n + 1) \<le> card (free_blocks s)"
  shows "needs s1 ip + n \<le> card (free_blocks s1)"
  using mappedD(9) [OF m] mappedD(6) [OF m, of MAXFILE] k free by (auto simp: needs_def split: if_splits)

section \<open>writei\<close>

lemma writei_step:
  fixes s :: "'z kino_scheme"
  assumes inv: "file_inv s hs Map.empty ip" and tot: "tot < n" and off: "off + (n - tot) \<le> MAXFILE * BSIZE"
    and room: "int (pot s hs ip) + 6 < lg_size s" and free: "needs s ip + (j + 1) \<le> card (free_blocks s)"
  defines "c \<equiv> chunk (n - tot) off"
  obtains s' hs' where "writei_loop ip src off tot n s = writei_loop ip src (off + c) (tot + c) n s'"
    and "file_inv s' hs' Map.empty ip" and "file_frame ip s s'" and "pot s' hs' ip \<le> pot s hs ip + 1"
    and "needs s' ip + j \<le> card (free_blocks s')" and "refs s' ip (off div BSIZE) \<noteq> 0"
    and "\<And>k. refs s ip k \<noteq> 0 \<Longrightarrow> refs s' ip k = refs s ip k"
    and "\<And>x. contents s' ip x = (if off \<le> x \<and> x < off + c then src (tot + (x - off)) else contents s ip x)"
proof -
  let ?k = "off div BSIZE" and ?f = "\<lambda>d. memmove_from d (off mod BSIZE) src tot c"
  have k: "?k < MAXFILE" using off tot by (intro less_mult_imp_div_less) simp
  have "int (length hs) + 5 < lg_size s" using pot_length [OF file_invD(1) [OF inv], of ip] room by linarith
  moreover have "(if refs s ip ?k = 0 then 1 else 0) + needs s ip \<le> card (free_blocks s)" using free by simp
  ultimately obtain a s1 hs1 where
    1: "bmap ip (of_nat ?k) s = Ok a s1" "mapped ip ?k a s hs s1 hs1" "length hs1 \<le> length hs + 5"
    using bmap_spec [OF inv k] by blast
  note M = mappedD [OF 1(2)] and P = mapped_pot [OF 1(2)]
  note I = file_invD [OF inv] file_invD [OF M(1)]
  have a: "a \<notin> log_area s1" "a < disksize s1"
    using refs_used [OF M(1), of ?k] M(4,5) by (auto simp: used_data_def data_area_def)
  have room1: "int (length hs1) + 1 < lg_size s1"
    using pot_length [OF file_invD(1) [OF inv], of ip] room 1(3) file_frame_fields(5) [OF M(2)] by linarith
  obtain i s2 s3 where
    2: "bread 1 a s1 = Ok i s2"
      "stmts [upd_buf i (\<lambda>x. x\<lparr>b_data := ?f (b_data x)\<rparr>), log_write i, brelse i] s2 = Ok () s3"
      "in_tx s3 (absorb a hs1) Map.empty" "blk s3 = (blk s1)(a := ?f (blk s1 a))" "tx_frame s1 s3"
    by (rule tx_change [OF I(7) _ _ a room1, where f = ?f]) auto
  note C = data_write_contents [OF M(1) 2(5) k M(5,4) 2(4)]
  have run: "writei_loop ip src off tot n s = writei_loop ip src (off + c) (tot + c) n s3"
    using 1(1) 2(1,2) I(4) tot
    by (subst writei_loop.simps) (simp add: bnd_def sqn_def the_inode_def gets_def c_def del: stmts.simps)
  have cont: "contents s3 ip x = (if off \<le> x \<and> x < off + c then src (tot + (x - off)) else contents s ip x)" for x
  proof (cases "x < MAXFILE * BSIZE \<and> x div BSIZE = ?k")
    case True
    have "contents s1 ip x = blk s1 a (x mod BSIZE)" using True M(4,5) by (simp add: contents_def fbyte_def)
    then have "blk s1 a (x mod BSIZE) = contents s ip x" using M(3) by simp
    then show ?thesis using C(4) [of x] True out_of_chunk [of x off c] in_chunk(2) [of off x "n - tot"]
      by (auto simp: memmove_from_apply c_def)
  next
    case False
    have "\<not> (off \<le> x \<and> x < off + c)" using in_chunk(1) [of off x "n - tot"] False off
      chunk_le [of "n - tot" off] by (auto simp: c_def)
    then show ?thesis using C(4) [of x] False M(3) by auto
  qed
  have pot: "pot s3 (absorb a hs1) ip \<le> pot s hs ip + 1"
    using P C(1) file_frame_fields(9) [OF tx_file_frame [OF 2(5), of ip]] by (simp add: pot_def needs_def)
  have ne: "needs s3 ip + j \<le> card (free_blocks s3)" using mapped_needs [OF 1(2) _ free] k C(1,2) by (simp add: needs_def)
  show thesis
    by (rule that [OF run C(3) [OF 2(3)] file_frame_trans [OF M(2) tx_file_frame [OF 2(5)]] pot ne _ _ cont])
      (use C(1) M(4,5,6) in simp_all)
qed

lemma writei_loop_spec:
  fixes s :: "'z kino_scheme"
  assumes "file_inv s hs Map.empty ip" and "tot \<le> n" and "off + (n - tot) \<le> MAXFILE * BSIZE"
    and "int (pot s hs ip) + int (nblocks off (n - tot)) + 5 < lg_size s"
    and "needs s ip + nblocks off (n - tot) \<le> card (free_blocks s)"
  shows "\<exists>s' hs'. writei_loop ip src off tot n s = Ok () s' \<and> file_inv s' hs' Map.empty ip \<and> file_frame ip s s' \<and>
    pot s' hs' ip \<le> pot s hs ip + nblocks off (n - tot) \<and>
    (\<forall>k. refs s ip k \<noteq> 0 \<longrightarrow> refs s' ip k = refs s ip k) \<and>
    (\<forall>x. off \<le> x \<and> x < off + (n - tot) \<longrightarrow> refs s' ip (x div BSIZE) \<noteq> 0) \<and>
    (\<forall>x. contents s' ip x = (if off \<le> x \<and> x < off + (n - tot) then src (tot + (x - off)) else contents s ip x))"
  using assms
proof (induction "n - tot" arbitrary: s hs off tot rule: less_induct)
  case less
  show ?case
  proof (cases "tot < n")
    case False
    then have "n - tot = 0" "writei_loop ip src off tot n s = Ok () s" by (simp_all add: ret_def)
    then show ?thesis
      by (intro exI [of _ s] exI [of _ hs]) (use less.prems(1) tx_file_frame [OF tx_frame_refl] in \<open>auto simp: nblocks_def\<close>)
  next
    case True
    let ?c = "chunk (n - tot) off"
    have c: "0 < ?c" "?c \<le> n - tot" using True chunk_pos [of "n - tot" off] chunk_le [of "n - tot" off] by simp_all
    define j where "j = nblocks (off + ?c) (n - (tot + ?c))"
    have nb: "nblocks off (n - tot) = j + 1" using nblocks_step [of "n - tot" off] True by (simp add: j_def)
    have room: "int (pot s hs ip) + 6 < lg_size s" "needs s ip + (j + 1) \<le> card (free_blocks s)" using less.prems(4,5) nb by simp_all
    obtain s1 hs1 where
      1: "writei_loop ip src off tot n s = writei_loop ip src (off + ?c) (tot + ?c) n s1"
      "file_inv s1 hs1 Map.empty ip" "file_frame ip s s1" "pot s1 hs1 ip \<le> pot s hs ip + 1"
      "needs s1 ip + j \<le> card (free_blocks s1)" "refs s1 ip (off div BSIZE) \<noteq> 0"
      "\<And>k. refs s ip k \<noteq> 0 \<Longrightarrow> refs s1 ip k = refs s ip k"
      "\<And>x. contents s1 ip x = (if off \<le> x \<and> x < off + ?c then src (tot + (x - off)) else contents s ip x)"
      using writei_step [OF less.prems(1) True less.prems(3) room] by blast
    have m: "n - (tot + ?c) < n - tot" "tot + ?c \<le> n" "off + ?c + (n - (tot + ?c)) \<le> MAXFILE * BSIZE"
      using c True less.prems(3) by simp_all
    have room1: "int (pot s1 hs1 ip) + int (nblocks (off + ?c) (n - (tot + ?c))) + 5 < lg_size s1"
      using less.prems(4) nb 1(4) file_frame_fields(5) [OF 1(3)] by (simp add: j_def)
    from less.hyps [OF m(1) 1(2) m(2,3) room1 1(5) [unfolded j_def]] obtain s2 hs2 where
      2: "writei_loop ip src (off + ?c) (tot + ?c) n s1 = Ok () s2" "file_inv s2 hs2 Map.empty ip" "file_frame ip s1 s2"
      "pot s2 hs2 ip \<le> pot s1 hs1 ip + j" "\<And>k. refs s1 ip k \<noteq> 0 \<Longrightarrow> refs s2 ip k = refs s1 ip k"
      "\<And>x. off + ?c \<le> x \<Longrightarrow> x < off + ?c + (n - (tot + ?c)) \<Longrightarrow> refs s2 ip (x div BSIZE) \<noteq> 0"
      "\<And>x. contents s2 ip x = (if off + ?c \<le> x \<and> x < off + ?c + (n - (tot + ?c)) then src (tot + ?c + (x - (off + ?c))) else contents s1 ip x)"
      unfolding j_def by blast
    have end_eq: "off + ?c + (n - (tot + ?c)) = off + (n - tot)" using c by simp
    have R: "refs s2 ip (x div BSIZE) \<noteq> 0" if "off \<le> x \<and> x < off + (n - tot)" for x
    proof (cases "x < off + ?c")
      case True
      then have "x div BSIZE = off div BSIZE" using in_chunk(1) that by blast
      then show ?thesis using 1(6) 2(5) by metis
    qed (use 2(6) [of x] that end_eq in simp)
    have C: "contents s2 ip x = (if off \<le> x \<and> x < off + (n - tot) then src (tot + (x - off)) else contents s ip x)" for x
      unfolding 2(7) end_eq 1(8) using c by (auto simp: add.assoc)
    have R2: "refs s2 ip k = refs s ip k" if "refs s ip k \<noteq> 0" for k using 1(7) [OF that] 2(5) [of k] that by simp
    show ?thesis
      by (rule exI [of _ s2], rule exI [of _ hs2]) (use 1(1,4) 2(1,2,4) R R2 C nb file_frame_trans [OF 1(3) 2(3)] in simp)
  qed
qed

section \<open>readi\<close>

definition readable :: "uint set \<Rightarrow> 'z kino_scheme \<Rightarrow> nat \<Rightarrow> bool" where
  "readable L s ip \<longleftrightarrow> bio_ok L Map.empty s \<and> card L < NBUF \<and> i_dev (icache s ! ip) = 1 \<and>
     (\<forall>k. refs s ip k \<noteq> 0 \<longrightarrow> refs s ip k < disksize s)"

text \<open>A file has no holes below its size.\<close>

definition filled :: "'z kino_scheme \<Rightarrow> nat \<Rightarrow> bool" where
  "filled s ip \<longleftrightarrow> unat (i_size (icache s ! ip)) \<le> MAXFILE * BSIZE \<and>
     (\<forall>x < unat (i_size (icache s ! ip)). refs s ip (x div BSIZE) \<noteq> 0)"

lemma readable_frame:
  fixes s s' :: "'z kino_scheme"
  assumes "readable L s ip" and "tx_frame s s'" and "blk s' = blk s" and "bio_ok L Map.empty s'"
  shows "readable L s' ip" "refs s' ip = refs s ip" "contents s' ip = contents s ip"
proof -
  note f = tx_frame_kino [OF assms(2)] tx_frame_fields(3) [OF assms(2)]
  show R: "refs s' ip = refs s ip" using f assms(3) by (simp add: refs_def addrs_def)
  then show "contents s' ip = contents s ip" "readable L s' ip"
    using f assms by (simp_all add: contents_def readable_def)
qed

lemma bio_peek:
  assumes "bio_ok L Map.empty s" and "card L < NBUF" and "n < disksize s"
  obtains i s1 s' where "bread 1 n s = Ok i s1" and "b_data (bufs s1 i) = blk s n" and "tx_frame s s1"
    and "brelse i s1 = Ok () s'" and "bio_ok L Map.empty s'" and "blk s' = blk s" and "tx_frame s s'"
proof -
  from bread_writes [OF assms(1,3)] assms(2) obtain i s1 where
    1: "bread 1 n s = Ok i s1" "writes s [] s1" "bio_ok L [n \<mapsto> i] s1" "blk s1 = blk s" by auto
  note f1 = tx_frame_writes [OF 1(2)]
  have "n \<in> L \<or> blk s1 n = memdisk s1 n"
    using blk_clean [OF assms(1), of n] 1(4) tx_frame_fields(1) [OF f1] by auto
  with brelse_writes [OF 1(3), of n i] obtain s2 where
    2: "brelse i s1 = Ok () s2" "writes s1 [] s2" "bio_ok L (Map.empty(n := None)) s2" "blk s2 = blk s1" by auto
  have "b_data (bufs s1 i) = blk s n" using held_data [OF 1(3), of n i] 1(4) by simp
  then show thesis using that 1 2 f1 tx_frame_trans [OF f1 tx_frame_writes [OF 2(2)]] by simp
qed

lemma bmap_read:
  assumes rd: "readable L s ip" and k: "k < MAXFILE" "refs s ip k \<noteq> 0"
  obtains s' where "bmap ip (of_nat k) s = Ok (refs s ip k) s'" and "tx_frame s s'" and "blk s' = blk s" and "bio_ok L Map.empty s'"
proof (cases "k < NDIRECT")
  case True
  then have u: "unat (of_nat k :: uint) = k" "refs s ip k = addrs s ip ! k" by (simp_all add: NDIRECT_def unat_of_nat_small refs_def fref_def)
  then have "bmap ip (of_nat k) s = Ok (refs s ip k) s"
    using k True by (simp add: bmap_def bmap_addr_def the_inode_def addrs_def bnd_def gets_def ret_def)
  then show thesis using that rd tx_frame_refl by (auto simp: readable_def)
next
  case False
  define j ind where "j = k - NDIRECT" and "ind = refs s ip MAXFILE"
  have j: "k = NDIRECT + j" "j < NINDIRECT" "j < 128" using False k by (simp_all add: j_def MAXFILE_def NINDIRECT_def BSIZE_def)
  have "(of_nat k - of_nat NDIRECT :: uint) = of_nat j" unfolding j(1) by simp
  then have u: "unat (of_nat k - of_nat NDIRECT :: uint) = j" using j(3) by (simp add: unat_of_nat_small)
  have u2: "\<not> unat (of_nat k :: uint) < NDIRECT" using False k by (simp add: unat_of_nat_small MAXFILE_def NDIRECT_def NINDIRECT_def BSIZE_def)
  have ind: "addrs s ip ! NDIRECT = ind" "ind \<noteq> 0" "get32 (blk s ind) (4 * j) = refs s ip k"
    using False k by (auto simp: ind_def refs_MAXFILE refs_def fref_def j_def split: if_splits)
  have rd': "bio_ok L Map.empty s" "card L < NBUF" "ind < disksize s" "i_dev (icache s ! ip) = 1" using rd ind(2) by (auto simp: readable_def ind_def)
  from bio_peek [OF this(1-3)] obtain i s1 s2 where
    p: "bread 1 ind s = Ok i s1" "b_data (bufs s1 i) = blk s ind" "tx_frame s s1" "brelse i s1 = Ok () s2"
      "bio_ok L Map.empty s2" "blk s2 = blk s" "tx_frame s s2" .
  have "bmap ip (of_nat k) s = Ok (refs s ip k) s2"
    using u u2 j(2) ind k(2) p(1,2,4) rd'(4)
    by (simp add: bmap_def bmap_addr_def bmap_ind_def the_inode_def addrs_def bnd_def sqn_def gets_def ret_def)
  then show thesis using that p by blast
qed

lemma readi_loop_spec:
  fixes s :: "'z kino_scheme"
  assumes "readable L s ip" and "tot \<le> n" and "off + (n - tot) \<le> MAXFILE * BSIZE"
    and "\<forall>x. off \<le> x \<and> x < off + (n - tot) \<longrightarrow> refs s ip (x div BSIZE) \<noteq> 0"
  shows "\<exists>s'. readi_loop ip off tot n dst s =
      Ok (\<lambda>x. if tot \<le> x \<and> x < n then contents s ip (off + (x - tot)) else dst x) s' \<and>
    tx_frame s s' \<and> blk s' = blk s \<and> bio_ok L Map.empty s'"
  using assms
proof (induction "n - tot" arbitrary: s off tot dst rule: less_induct)
  case less
  show ?case
  proof (cases "tot < n")
    case False
    then have "readi_loop ip off tot n dst s = Ok dst s" "(\<lambda>x. if tot \<le> x \<and> x < n then contents s ip (off + (x - tot)) else dst x) = dst"
      by (auto simp: ret_def fun_eq_iff)
    then show ?thesis using less.prems(1) by (intro exI [of _ s]) (auto simp: readable_def)
  next
    case True
    let ?c = "chunk (n - tot) off" and ?k = "off div BSIZE"
    have c: "0 < ?c" "?c \<le> n - tot" using True chunk_pos [of "n - tot" off] chunk_le [of "n - tot" off] by simp_all
    have k: "?k < MAXFILE" using less.prems(3) True by (intro less_mult_imp_div_less) simp
    have Rk: "refs s ip ?k \<noteq> 0" using less.prems(4) True by simp
    obtain s1 where 1: "bmap ip (of_nat ?k) s = Ok (refs s ip ?k) s1" "tx_frame s s1" "blk s1 = blk s" "bio_ok L Map.empty s1"
      by (rule bmap_read [OF less.prems(1) k Rk])
    note F1 = readable_frame [OF less.prems(1) 1(2-4)]
    have a: "card L < NBUF" "refs s ip ?k < disksize s1" "i_dev (icache s ! ip) = 1"
      using less.prems(1) Rk tx_frame_fields(3) [OF 1(2)] by (simp_all add: readable_def)
    from bio_peek [OF 1(4) a(1,2)] obtain i s2 s3 where
      2: "bread 1 (refs s ip ?k) s1 = Ok i s2" "b_data (bufs s2 i) = blk s1 (refs s ip ?k)" "tx_frame s1 s2"
        "brelse i s2 = Ok () s3" "bio_ok L Map.empty s3" "blk s3 = blk s1" "tx_frame s1 s3" .
    note F3 = readable_frame [OF F1(1) 2(7,6,5)]
    let ?dst = "memmove_from dst tot (blk s (refs s ip ?k)) (off mod BSIZE) ?c"
    have run: "readi_loop ip off tot n dst s = readi_loop ip (off + ?c) (tot + ?c) n ?dst s3"
      using 1(1,3) 2(1,2,4) a(3) True
      by (subst readi_loop.simps) (simp add: bnd_def sqn_def the_inode_def gets_def)
    have m: "n - (tot + ?c) < n - tot" "tot + ?c \<le> n" "off + ?c + (n - (tot + ?c)) \<le> MAXFILE * BSIZE"
      "\<forall>x. off + ?c \<le> x \<and> x < off + ?c + (n - (tot + ?c)) \<longrightarrow> refs s3 ip (x div BSIZE) \<noteq> 0"
      using c True less.prems(3,4) F1 F3 by simp_all
    from less.hyps [OF m(1) F3(1) m(2-4), of ?dst] obtain s4 where
      4: "readi_loop ip (off + ?c) (tot + ?c) n ?dst s3 =
        Ok (\<lambda>x. if tot + ?c \<le> x \<and> x < n then contents s3 ip (off + ?c + (x - (tot + ?c))) else ?dst x) s4"
        "tx_frame s3 s4" "blk s4 = blk s3" "bio_ok L Map.empty s4" by blast
    have "(if tot + ?c \<le> x \<and> x < n then contents s3 ip (off + ?c + (x - (tot + ?c))) else ?dst x) =
        (if tot \<le> x \<and> x < n then contents s ip (off + (x - tot)) else dst x)" for x
    proof (cases "tot \<le> x \<and> x < tot + ?c")
      case True
      then have y: "off \<le> off + (x - tot)" "off + (x - tot) < off + ?c" by auto
      have "off + (x - tot) < MAXFILE * BSIZE" using True c less.prems(3) by linarith
      then have "contents s ip (off + (x - tot)) = blk s (refs s ip ?k) (off mod BSIZE + (x - tot))"
        using in_chunk [OF y] Rk by (simp add: contents_def fbyte_def)
      moreover have "x < n" using True c \<open>tot < n\<close> by linarith
      ultimately show ?thesis using True c by (simp add: memmove_from_apply)
    next
      case False
      then show ?thesis using F1 F3 c by (auto simp: memmove_from_apply)
    qed
    then show ?thesis
      using run 4 1(3) 2(6) tx_frame_trans [OF 1(2) tx_frame_trans [OF 2(7) 4(2)]] by auto
  qed
qed

section \<open>Inodes on the disk\<close>

lemma upt_NDIRECT: "[0..<NDIRECT + 1] = [0, 1, 2, 3, 4, 5, 6, 7, 8, 9, 10, 11, 12]"
  by (simp add: NDIRECT_def upt_rec)

lemma get_put_addrs:
  assumes "length as = NDIRECT + 1"
  shows "get_addrs (put_addrs d k as) k = as"
proof -
  have "get_addrs (put_addrs d k as) k = map (\<lambda>i. as ! i) [0..<NDIRECT + 1]"
    unfolding get_addrs_def put_addrs_def upt_NDIRECT by (simp add: get32_put32_other)
  then show ?thesis using assms map_nth [of as] by simp
qed

lemma put_addrs_other:
  "j + 2 \<le> k \<or> k + 52 \<le> j \<Longrightarrow> get16 (put_addrs d k as) j = get16 d j"
  "j + 4 \<le> k \<or> k + 52 \<le> j \<Longrightarrow> get32 (put_addrs d k as) j = get32 d j"
  unfolding put_addrs_def upt_NDIRECT by (elim disjE; simp add: get_put_other)+

lemma get_put_dinode:
  "length (d_addrs di) = NDIRECT + 1 \<Longrightarrow> get_dinode (put_dinode d k di) k = di"
  by (simp add: get_dinode_def put_dinode_def get_put_addrs put_addrs_other get_put_other)

lemma get_put_dinode_other:
  assumes "k + DINODE_SIZE \<le> j \<or> j + DINODE_SIZE \<le> k"
  shows "get_dinode (put_dinode d k di) j = get_dinode d j"
proof -
  have "get_addrs (put_addrs e (k + 12) as) (j + 12) = get_addrs e (j + 12)" for e as
    unfolding get_addrs_def using assms
    by (intro map_cong refl) (auto simp: DINODE_SIZE_def NDIRECT_def put_addrs_other)
  moreover have "get_addrs (put32 e (k + 8) v) (j + 12) = get_addrs e (j + 12)" 
     "get_addrs (put16 e k w) (j + 12) = get_addrs e (j + 12)" "get_addrs (put16 e (k + 2) w) (j + 12) = get_addrs e (j + 12)"
     "get_addrs (put16 e (k + 4) w) (j + 12) = get_addrs e (j + 12)" "get_addrs (put16 e (k + 6) w) (j + 12) = get_addrs e (j + 12)" for e v w
    unfolding get_addrs_def using assms
    by (intro map_cong refl; auto simp: DINODE_SIZE_def NDIRECT_def get_put_other)+
  ultimately show ?thesis
    using assms by (auto simp: get_dinode_def put_dinode_def put_addrs_other get_put_other DINODE_SIZE_def)
qed

text \<open>The block of the inode table that holds inode \<open>ip\<close> lies outside the log and the bitmap.\<close>

definition inode_home :: "'z kino_scheme \<Rightarrow> nat \<Rightarrow> bool" where
  "inode_home s ip \<longleftrightarrow> i_inum (icache s ! ip) < sb_ninodes (fsb s) \<and>
     (let n = IBLOCK (i_inum (icache s ! ip)) (fsb s) in
      n < disksize s \<and> n \<notin> log_area s \<and> n \<notin> bitmap_blocks s)"

definition on_disk :: "'z kino_scheme \<Rightarrow> nat \<Rightarrow> dinode" where
  "on_disk s ip = get_dinode (blk s (IBLOCK (i_inum (icache s ! ip)) (fsb s))) (dinode_off (i_inum (icache s ! ip)))"

lemma iupdate_spec:
  fixes s :: "'z kino_scheme"
  assumes inv: "file_inv s hs Map.empty ip" and home: "inode_home s ip" and room: "int (length hs) + 1 < lg_size s"
  defines "n \<equiv> IBLOCK (i_inum (icache s ! ip)) (fsb s)" and "k \<equiv> dinode_off (i_inum (icache s ! ip))"
  obtains s' where "iupdate ip s = Ok () s'" and "tx_frame s s'" and "file_inv s' (absorb n hs) Map.empty ip"
    and "blk s' = (blk s)(n := put_dinode (blk s n) k (to_dinode (icache s ! ip)))"
    and "refs s' ip = refs s ip" and "contents s' ip = contents s ip" and "on_disk s' ip = to_dinode (icache s ! ip)"
proof -
  note I = file_invD [OF inv]
  let ?d = "put_dinode (blk s n) k (to_dinode (icache s ! ip))"
  have n: "n \<notin> log_area s" "n < disksize s" "n \<notin> bitmap_blocks s" "n \<notin> data_area s"
    using home by (auto simp: inode_home_def Let_def n_def data_area_def)
  obtain i s1 s2 where
    1: "bread 1 n s = Ok i s1"
      "stmts [upd_buf i (\<lambda>x. x\<lparr>b_data := put_dinode (b_data x) k (to_dinode (icache s ! ip))\<rparr>), log_write i, brelse i] s1 = Ok () s2"
      "in_tx s2 (absorb n hs) Map.empty" "blk s2 = (blk s)(n := ?d)" "tx_frame s s2"
    by (rule tx_change [OF I(1) _ _ n(1,2) room, where f = "\<lambda>d. put_dinode d k (to_dinode (icache s ! ip))"]) auto
  note f = tx_frame_kino [OF 1(5)] and fa = tx_frame_area [OF 1(5)] and ff = tx_frame_fields [OF 1(5)]
  have bit: "bit_used (blk s2) (fsb s) b = bit_used (blk s) (fsb s) b" if "b < sb_size (fsb s)" for b
    using n(3) that 1(4) by (auto simp: bit_used_def bitmap_blocks_def)
  then have bm: "bitmap_ok s2" "used_data s2 = used_data s"
    using I(2) f fa ff by (auto simp: bitmap_ok_def used_data_def data_area_def)
  have ne: "refs s ip j \<noteq> n" if "refs s ip j \<noteq> 0" for j using refs_used [OF inv that] n(4) by (auto simp: used_data_def)
  have ad: "addrs s2 ip = addrs s ip" using f by (simp add: addrs_def)
  have R: "refs s2 ip = refs s ip"
  proof (cases "addrs s ip ! NDIRECT = 0")
    case False
    then show ?thesis using ne [of MAXFILE] 1(4) unfolding refs_MAXFILE unfolding refs_def ad by (intro fref_disk) simp
  qed (simp add: refs_def ad fref_def fun_eq_iff)
  have "contents s2 ip = contents s ip" using ne 1(4) by (auto simp: contents_def fbyte_def R fun_eq_iff)
  moreover have "file_inv s2 (absorb n hs) Map.empty ip" using I 1(3) bm f R ad by (simp add: file_inv_def)
  moreover have "on_disk s2 ip = to_dinode (icache s ! ip)"
    using f 1(4) I(5) by (simp add: on_disk_def get_put_dinode to_dinode_def addrs_def flip: n_def k_def)
  moreover have "iupdate ip s = Ok () s2"
    using 1(1,2) I(4) by (simp add: iupdate_def bnd_def gets_def the_inode_def del: stmts.simps flip: n_def k_def)
  ultimately show thesis using that 1(4,5) R by blast
qed

lemma sint_unat: "unat w < 2147483648 \<Longrightarrow> sint w = int (unat w)" for w :: uint
  using sint_of_nat [of "unat w"] by simp

lemma unat_add_if:
  fixes a b :: uint
  shows "a + b < a \<longleftrightarrow> 4294967296 \<le> unat a + unat b" "\<not> a + b < a \<Longrightarrow> unat (a + b) = unat a + unat b"
  using unat_less [of a] unat_less [of b]
  by (auto simp: word_less_nat_alt unat_word_ariths mod_if split: if_splits)

lemma upd_size:
  fixes s :: "'z kino_scheme" and sz :: uint
  assumes "file_inv s hs B ip"
  defines "t \<equiv> s\<lparr>icache := (icache s)[ip := (icache s ! ip)\<lparr>i_size := sz\<rparr>]\<rparr>"
  shows "file_inv t hs B ip" "refs t ip = refs s ip" "contents t ip = contents s ip" "icache t ! ip = (icache s ! ip)\<lparr>i_size := sz\<rparr>"
    "inode_home t ip = inode_home s ip" "lg_size t = lg_size s"
proof -
  note I = file_invD [OF assms(1)]
  show x: "icache t ! ip = (icache s ! ip)\<lparr>i_size := sz\<rparr>" using I(3) by (simp add: t_def)
  show "lg_size t = lg_size s" by (simp add: t_def)
  have ad: "addrs t ip = addrs s ip" using x by (simp add: addrs_def)
  show R: "refs t ip = refs s ip" unfolding refs_def ad by (simp add: t_def)
  show "contents t ip = contents s ip" unfolding contents_def R by (simp add: t_def)
  show "file_inv t hs B ip" using I x ad R by (simp add: file_inv_def, simp add: t_def)
  show "inode_home t ip = inode_home s ip" unfolding inode_home_def x by (simp add: t_def bitmap_blocks_def log_area_def)
qed

lemma writei_tail:
  fixes s :: "'z kino_scheme"
  assumes inv: "file_inv s hs Map.empty ip" and home: "inode_home s ip" and room: "int (length hs) + 1 < lg_size s"
  obtains s' hs' where "stmts [upd_inode ip (\<lambda>y. y\<lparr>i_size := sz\<rparr>), iupdate ip] s = Ok () s'"
    and "file_inv s' hs' Map.empty ip" and "refs s' ip = refs s ip" and "contents s' ip = contents s ip"
    and "icache s' ! ip = (icache s ! ip)\<lparr>i_size := sz\<rparr>" and "on_disk s' ip = to_dinode (icache s' ! ip)"
proof -
  let ?t = "s\<lparr>icache := (icache s)[ip := (icache s ! ip)\<lparr>i_size := sz\<rparr>]\<rparr>"
  note U = upd_size [OF inv, of sz]
  have "inode_home ?t ip" "int (length hs) + 1 < lg_size ?t" using U home room by simp_all
  from iupdate_spec [OF U(1) this] obtain s' where
    "iupdate ip ?t = Ok () s'" "tx_frame ?t s'" "refs s' ip = refs ?t ip" "contents s' ip = contents ?t ip"
    "on_disk s' ip = to_dinode (icache ?t ! ip)"
    "file_inv s' (absorb (IBLOCK (i_inum (icache ?t ! ip)) (fsb ?t)) hs) Map.empty ip" by metis
  then show thesis using that U tx_frame_kino(1) [of ?t s'] by (simp add: upd_inode_def modify_def sqn_def bnd_def ret_def)
qed

section \<open>What reading and writing promise\<close>

text \<open>C5: \<open>writei\<close> (src/fs.c) on a file without holes, inside a transaction with room in the log and enough
  free blocks: it writes all \<open>n\<close> bytes at \<open>off\<close>, allocating blocks (the indirect block included) as
  needed; every other byte of the file keeps its value, the size is the maximum of the old size and the
  end of the write, the file still has no holes and shares no block, and when the size changed the inode
  on the disk is the one in memory.\<close>

theorem writei_writes_file:
  fixes s :: "'z kcons_scheme"
  assumes inv: "file_inv s hs Map.empty ip" and home: "inode_home s ip" and full: "filled s ip"
    and ty: "i_type (icache s ! ip) \<noteq> T_DEV"
    and off: "off \<le> i_size (icache s ! ip)" and fits: "unat off + unat n \<le> MAXFILE * BSIZE"
    and room: "int (pot s hs ip) + int (nblocks (unat off) (unat n)) + 5 < lg_size s"
    and free: "needs s ip + nblocks (unat off) (unat n) \<le> card (free_blocks s)"
  shows "\<exists>s' hs'. writei ip src off n s = Ok (int (unat n)) s' \<and> file_inv s' hs' Map.empty ip \<and> filled s' ip \<and>
    unat (i_size (icache s' ! ip)) = max (unat (i_size (icache s ! ip))) (unat off + unat n) \<and>
    (\<forall>x. contents s' ip x = (if unat off \<le> x \<and> x < unat off + unat n then src (x - unat off) else contents s ip x)) \<and>
    (i_size (icache s' ! ip) \<noteq> i_size (icache s ! ip) \<longrightarrow> on_disk s' ip = to_dinode (icache s' ! ip))"
proof -
  have MB: "MAXFILE * BSIZE = 71680" by (simp add: MAXFILE_def NDIRECT_def NINDIRECT_def BSIZE_def)
  have sum: "unat (off + n) = unat off + unat n" "\<not> off + n < off" "\<not> of_nat (MAXFILE * BSIZE) < off + n" "sint n = int (unat n)"
    using unat_add_if [of off n] fits by (simp_all add: MB word_less_nat_alt sint_unat)
  obtain s1 hs1 where
    1: "writei_loop ip src (unat off) 0 (unat n) s = Ok () s1" "file_inv s1 hs1 Map.empty ip" "file_frame ip s s1"
      "pot s1 hs1 ip \<le> pot s hs ip + nblocks (unat off) (unat n)"
      "\<And>k. refs s ip k \<noteq> 0 \<Longrightarrow> refs s1 ip k = refs s ip k"
      "\<And>x. unat off \<le> x \<Longrightarrow> x < unat off + unat n \<Longrightarrow> refs s1 ip (x div BSIZE) \<noteq> 0"
      "\<And>x. contents s1 ip x = (if unat off \<le> x \<and> x < unat off + unat n then src (x - unat off) else contents s ip x)"
    using writei_loop_spec [OF inv, of 0 "unat n" "unat off" src, unfolded add_0 diff_zero, OF zero_le fits room free] by blast
  note F = file_frame_inode [OF 1(3)] file_frame_fields [OF 1(3)]
  have R: "refs s1 ip (x div BSIZE) \<noteq> 0" if "x < max (unat (i_size (icache s ! ip))) (unat off + unat n)" for x
  proof (cases "unat off \<le> x \<and> x < unat off + unat n")
    case False
    then have "x < unat (i_size (icache s ! ip))" using that off by (auto simp: word_le_nat_alt max_def split: if_splits)
    then have "refs s ip (x div BSIZE) \<noteq> 0" using full by (simp add: filled_def)
    then show ?thesis using 1(5) by simp
  qed (use 1(6) in blast)
  have run: "writei ip src off n s = sqn (whenM (n > 0 \<and> off + n > i_size (icache s ! ip)) (stmts [
      upd_inode ip (\<lambda>y. y\<lparr>i_size := off + n\<rparr>), iupdate ip])) (ret (sint n)) s1"
    using 1(1) ty off sum F(4)
    by (simp add: writei_def bnd_def sqn_def the_inode_def gets_def linorder_not_less [symmetric] del: stmts.simps writei_loop.simps)
  show ?thesis
  proof (cases "n > 0 \<and> off + n > i_size (icache s ! ip)")
    case False
    have "n = 0 \<or> unat off + unat n \<le> unat (i_size (icache s ! ip))"
      using False unfolding word_less_nat_alt sum(1) by (auto simp: unat_eq_0)
    then have "max (unat (i_size (icache s ! ip))) (unat off + unat n) = unat (i_size (icache s ! ip))"
      using off by (auto simp: word_le_nat_alt)
    then show ?thesis
      using run False 1(2,7) R full F(4) sum(4) by (intro exI [of _ s1] exI [of _ hs1]) (auto simp: filled_def whenM_def sqn_def bnd_def ret_def)
  next
    case True
    have home1: "inode_home s1 ip" using home F by (simp add: inode_home_def)
    have room1: "int (length hs1) + 1 < lg_size s1"
      using pot_length [OF file_invD(1) [OF 1(2)], of ip] 1(4) room F(9) by linarith
    obtain s2 hs2 where
      2: "stmts [upd_inode ip (\<lambda>y. y\<lparr>i_size := off + n\<rparr>), iupdate ip] s1 = Ok () s2"
        "file_inv s2 hs2 Map.empty ip" "refs s2 ip = refs s1 ip" "contents s2 ip = contents s1 ip"
        "icache s2 ! ip = (icache s1 ! ip)\<lparr>i_size := off + n\<rparr>" "on_disk s2 ip = to_dinode (icache s2 ! ip)"
      by (rule writei_tail [OF 1(2) home1 room1, where sz = "off + n"]) blast
    have mx: "max (unat (i_size (icache s ! ip))) (unat off + unat n) = unat off + unat n"
      using True sum(1) by (simp add: word_less_nat_alt)
    have "writei ip src off n s = Ok (int (unat n)) s2"
      using run 2(1) True sum(4) by (simp add: whenM_def sqn_def bnd_def ret_def del: stmts.simps)
    moreover have "filled s2 ip" using R mx 2(3,5) sum(1) fits by (simp add: filled_def)
    ultimately show ?thesis
      using 1(7) 2 mx sum(1) by (intro exI [of _ s2] exI [of _ hs2]) simp
  qed
qed

text \<open>C11: \<open>readi\<close> (src/fs.c) on a file without holes returns the bytes of the file from \<open>off\<close> on, as many as
  were asked for and the file has, and leaves the rest of the buffer, every block and the inodes as they
  were; it returns -1 exactly when \<open>off\<close> lies beyond the end or \<open>off + n\<close> wraps around.\<close>

theorem readi_returns_contents:
  fixes s :: "'z kcons_scheme"
  assumes rd: "readable L s ip" and full: "filled s ip" and ty: "i_type (icache s ! ip) \<noteq> T_DEV"
  shows "if i_size (icache s ! ip) < off \<or> off + n < off then readi ip dst off n s = Ok (- 1, dst) s
    else let m = min (unat n) (unat (i_size (icache s ! ip)) - unat off) in
      \<exists>s'. readi ip dst off n s = Ok (int m, \<lambda>x. if x < m then contents s ip (unat off + x) else dst x) s' \<and>
        blk s' = blk s \<and> icache s' = icache s \<and> readable L s' ip"
proof (cases "i_size (icache s ! ip) < off \<or> off + n < off")
  case True
  then show ?thesis using ty by (auto simp: readi_def bnd_def the_inode_def gets_def ret_def)
next
  case False
  let ?sz = "i_size (icache s ! ip)"
  define w where "w = (if off + n > ?sz then ?sz - off else n)"
  define m where "m = min (unat n) (unat ?sz - unat off)"
  have MB: "MAXFILE * BSIZE = 71680" by (simp add: MAXFILE_def NDIRECT_def NINDIRECT_def BSIZE_def)
  have le: "off \<le> ?sz" "unat (off + n) = unat off + unat n" using False unat_add_if(2) [of off n] by auto
  have w: "unat w = m"
    using le by (auto simp: w_def m_def word_less_nat_alt word_le_nat_alt unat_sub min_def)
  have mle: "unat off + m \<le> unat ?sz" using le(1) by (simp add: m_def word_le_nat_alt)
  have szle: "unat ?sz \<le> MAXFILE * BSIZE" using full by (simp add: filled_def)
  have "sint w = int m" using w mle szle by (simp add: sint_unat MB)
  moreover have "\<exists>s'. readi_loop ip (unat off) 0 m dst s = Ok (\<lambda>x. if x < m then contents s ip (unat off + x) else dst x) s' \<and>
      tx_frame s s' \<and> blk s' = blk s \<and> bio_ok L Map.empty s'"
  proof -
    have "unat off + m \<le> MAXFILE * BSIZE" "\<forall>x. unat off \<le> x \<and> x < unat off + m \<longrightarrow> refs s ip (x div BSIZE) \<noteq> 0"
      using mle szle full by (auto simp: filled_def)
    from readi_loop_spec [OF rd, of 0 m "unat off" dst, unfolded diff_zero, OF zero_le this] show ?thesis
      by (simp del: readi_loop.simps)
  qed
  ultimately obtain s' where "readi ip dst off n s = Ok (int m, \<lambda>x. if x < m then contents s ip (unat off + x) else dst x) s'"
    "tx_frame s s'" "blk s' = blk s" "bio_ok L Map.empty s'"
    using False ty w
    by (auto simp: readi_def bnd_def the_inode_def gets_def ret_def Let_def simp flip: w_def simp del: readi_loop.simps)
  then show ?thesis
    using False readable_frame(1) [OF rd] tx_frame_kino(1) [of s s'] by (auto simp: Let_def simp flip: m_def)
qed

section \<open>The trip of an inode\<close>

lemma bio_icache [simp]: "bio_ok L B (s\<lparr>icache := c\<rparr>) = bio_ok L B s"
  by (simp add: bio_ok_def no_sleeper_def)

lemma ilock_read_spec:
  fixes s :: "'z kino_scheme"
  assumes bio: "bio_ok L Map.empty s" "card L < NBUF" and ip: "ip < length (icache s)" "i_dev (icache s ! ip) = 1" "\<not> i_valid (icache s ! ip)"
    and n: "IBLOCK (i_inum (icache s ! ip)) (fsb s) < disksize s" and ty: "d_type (on_disk s ip) \<noteq> 0"
  shows "\<exists>s'. ilock_read ip s = Ok () s' \<and> blk s' = blk s \<and>
    icache s' = (icache s)[ip := (of_dinode (on_disk s ip) (icache s ! ip))\<lparr>i_valid := True\<rparr>]"
proof -
  let ?n = "IBLOCK (i_inum (icache s ! ip)) (fsb s)" and ?x = "of_dinode (on_disk s ip) (icache s ! ip)"
  from bread_writes [OF bio(1) n] bio(2) obtain i s1 where
    1: "bread 1 ?n s = Ok i s1" "writes s [] s1" "bio_ok L [?n \<mapsto> i] s1" "blk s1 = blk s" by auto
  note f1 = tx_frame_writes [OF 1(2)]
  note k1 = tx_frame_kino [OF f1]
  let ?t = "s1\<lparr>icache := (icache s)[ip := ?x]\<rparr>"
  have "?n \<in> L \<or> blk ?t ?n = memdisk ?t ?n"
    using blk_clean [OF bio(1), of ?n] 1(4) tx_frame_fields(1) [OF f1] by auto
  with brelse_writes [of L "[?n \<mapsto> i]" ?t ?n i] 1(3) obtain s2 where
    2: "brelse i ?t = Ok () s2" "writes ?t [] s2" "blk s2 = blk ?t" by auto
  have k2: "icache s2 = (icache s)[ip := ?x]" using tx_frame_kino(1) [OF tx_frame_writes [OF 2(2)]] by simp
  have d: "get_dinode (b_data (bufs s1 i)) (dinode_off (i_inum (icache s ! ip))) = on_disk s ip"
    using held_data [OF 1(3), of ?n i] 1(4) by (simp add: on_disk_def)
  let ?s' = "s2\<lparr>icache := (icache s)[ip := ?x\<lparr>i_valid := True\<rparr>]\<rparr>"
  have "ilock_read ip s = Ok () ?s'"
    using 1(1) 2(1) ip ty k1 k2 d
    by (simp add: ilock_read_def bnd_def sqn_def gets_def the_inode_def upd_inode_def modify_def whenM_def ret_def)
  moreover have "blk ?s' = blk s" using 2(3) 1(4) by simp
  ultimately show ?thesis by (intro exI [of _ ?s']) simp
qed

text \<open>C12: \<open>iupdate\<close> and \<open>ilock\<close> (src/fs.c): an inode that is written to its block and later read into the
  same or any other contents of its cache entry comes back as it was; the other inodes of that block and
  all other blocks stay as they are.\<close>

theorem inode_roundtrip:
  fixes s :: "'z kino_scheme"
  assumes inv: "file_inv s hs Map.empty ip" and home: "inode_home s ip" and room: "int (length hs) + 1 < lg_size s"
    and ty: "i_type (icache s ! ip) \<noteq> 0"
  defines "n \<equiv> IBLOCK (i_inum (icache s ! ip)) (fsb s)" and "k \<equiv> dinode_off (i_inum (icache s ! ip))"
  shows "\<exists>s'. iupdate ip s = Ok () s' \<and> (\<forall>m. m \<noteq> n \<longrightarrow> blk s' m = blk s m) \<and>
    (\<forall>i. dinode_off i \<noteq> k \<longrightarrow> get_dinode (blk s' n) (dinode_off i) = get_dinode (blk s n) (dinode_off i)) \<and>
    (\<forall>y. i_dev y = i_dev (icache s ! ip) \<and> i_inum y = i_inum (icache s ! ip) \<and> \<not> i_valid y \<longrightarrow>
      (\<exists>s''. ilock_read ip (s'\<lparr>icache := (icache s')[ip := y]\<rparr>) = Ok () s'' \<and>
        icache s'' ! ip = (icache s ! ip)\<lparr>i_ref := i_ref y, i_valid := True\<rparr>))"
proof -
  note I = file_invD [OF inv]
  obtain s' where
    u: "iupdate ip s = Ok () s'" "tx_frame s s'" "file_inv s' (absorb n hs) Map.empty ip"
      "blk s' = (blk s)(n := put_dinode (blk s n) k (to_dinode (icache s ! ip)))" "on_disk s' ip = to_dinode (icache s ! ip)"
    unfolding n_def k_def by (rule iupdate_spec [OF inv home room]) blast
  note f = tx_frame_kino [OF u(2)] tx_frame_fields [OF u(2)]
  have other: "get_dinode (blk s' n) (dinode_off i) = get_dinode (blk s n) (dinode_off i)" if "dinode_off i \<noteq> k" for i
  proof -
    have "dinode_off i + DINODE_SIZE \<le> k \<or> k + DINODE_SIZE \<le> dinode_off i"
      using that by (cases "unat i mod IPB < unat (i_inum (icache s ! ip)) mod IPB")
        (auto simp: dinode_off_def k_def DINODE_SIZE_def)
    then show ?thesis using u(4) by (auto intro: get_put_dinode_other)
  qed
  have "\<exists>s''. ilock_read ip (s'\<lparr>icache := (icache s')[ip := y]\<rparr>) = Ok () s'' \<and>
      icache s'' ! ip = (icache s ! ip)\<lparr>i_ref := i_ref y, i_valid := True\<rparr>"
    if y: "i_dev y = i_dev (icache s ! ip)" "i_inum y = i_inum (icache s ! ip)" "\<not> i_valid y" for y
  proof -
    let ?t = "s'\<lparr>icache := (icache s')[ip := y]\<rparr>"
    have t: "icache ?t ! ip = y" "ip < length (icache ?t)" using I(3) f by simp_all
    have od: "on_disk ?t ip = to_dinode (icache s ! ip)" using u(5) t y f by (simp add: on_disk_def)
    have len: "length (absorb n hs) < NBUF" using in_txD(1) [OF file_invD(1) [OF u(3)]] by (simp add: log_ok_def)
    have "bio_ok (set (absorb n hs)) Map.empty ?t" using in_txD(2) [OF file_invD(1) [OF u(3)]] by (simp del: absorb_set)
    moreover have "card (set (absorb n hs)) < NBUF" using card_length [of "absorb n hs"] len by linarith
    moreover have "IBLOCK (i_inum (icache ?t ! ip)) (fsb ?t) < disksize ?t"
      using home t y f by (simp add: inode_home_def Let_def)
    ultimately obtain s'' where "ilock_read ip ?t = Ok () s''"
      "icache s'' = (icache ?t)[ip := (of_dinode (on_disk ?t ip) (icache ?t ! ip))\<lparr>i_valid := True\<rparr>]"
      using ilock_read_spec [of "set (absorb n hs)" ?t ip] t y I(4) od ty by (auto simp: to_dinode_def)
    moreover have "(of_dinode (to_dinode (icache s ! ip)) y)\<lparr>i_valid := True\<rparr> = (icache s ! ip)\<lparr>i_ref := i_ref y, i_valid := True\<rparr>"
      using y by (simp add: of_dinode_def to_dinode_def)
    ultimately show ?thesis using t od by (intro exI [of _ s'']) simp
  qed
  then show ?thesis using u(1,4) other by (intro exI [of _ s']) auto
qed

section \<open>Concrete files\<close>

lemma demo_refs:
  fixes s :: "'z kino_scheme"
  assumes "icache s = [demo_inode 1 0 (replicate 13 0), demo_inode 2 3 (50 # replicate 12 0)]"
  shows "refs s 0 k = 0" "refs s (Suc 0) k = (if k = 0 then 50 else 0)"
proof -
  have "replicate 13 (0 :: uint) ! i = 0" "replicate 12 (0 :: uint) ! i = 0" if "i < 12" for i
    using that by simp_all
  moreover have "replicate 13 (0 :: uint) ! 12 = 0" by simp
  ultimately show "refs s 0 k = 0" "refs s (Suc 0) k = (if k = 0 then 50 else 0)"
    using assms by (simp_all add: refs_def fref_def addrs_def demo_inode_def NDIRECT_def MAXFILE_def NINDIRECT_def BSIZE_def
      nth_Cons split: nat.split)
qed

lemma demo_file:
  fixes s :: "'z kino_scheme"
  assumes s: "in_tx s [] Map.empty" "blk s = demo_image"
    "icache s = [demo_inode 1 0 (replicate 13 0), demo_inode 2 3 (50 # replicate 12 0)]" "fsb s = demo_sb"
    "log_area s = {n. 2 \<le> n \<and> n < 32}" "disksize s = 1000"
  shows "file_inv s [] Map.empty 0" "inode_home s 0" "filled s 0" "pot s [] 0 = 2" "needs s 0 = 1" "2 \<le> card (free_blocks s)"
    "readable {} s (Suc 0)" "filled s (Suc 0)"
proof -
  note ok = demo_fs_ok [OF s(2,4-6)] and R = demo_refs [OF s(3)]
  have x: "icache s ! 0 = demo_inode 1 0 (replicate 13 0)" "icache s ! Suc 0 = demo_inode 2 3 (50 # replicate 12 0)" using s(3) by simp_all
  show "file_inv s [] Map.empty 0"
    using s ok(1) R x by (simp add: file_inv_def refs_ok_def addrs_def demo_inode_def NDIRECT_def)
  have "IBLOCK 1 demo_sb = 32" by (simp add: IBLOCK_def demo_sb_def IPB_def BSIZE_def DINODE_SIZE_def)
  then show "inode_home s 0" using s(4-6) ok(3) x by (simp add: inode_home_def demo_inode_def demo_sb_def)
  show "filled s 0" "filled s (Suc 0)"
    using R x by (auto simp: filled_def demo_inode_def MAXFILE_def NDIRECT_def NINDIRECT_def BSIZE_def)
  show n: "needs s 0 = 1" using R by (simp add: needs_def)
  then show "pot s [] 0 = 2" using R ok(3) by (simp add: pot_def)
  have "{96, 97} \<subseteq> free_blocks s" using ok(2) by simp
  then have "card {96, 97 :: uint} \<le> card (free_blocks s)" by (intro card_mono) simp_all
  then show "2 \<le> card (free_blocks s)" by simp
  have "bio_ok {} Map.empty s" using in_txD(2) [OF s(1)] by simp
  then show "readable {} s (Suc 0)" using R x s(6) by (simp add: readable_def NBUF_def demo_inode_def)
qed

theorem writei_writes_file_witness:
  "\<exists>s s'. binit demo_fs = Ok () s \<and> writei 0 (\<lambda>x. of_nat x + 65) 0 3 s = Ok 3 s' \<and>
    unat (i_size (icache s' ! 0)) = 3 \<and> map (contents s' 0) [0, 1, 2, 3] = [65, 66, 67, 0]"
proof -
  obtain s where s: "binit demo_fs = Ok () s" "in_tx s [] Map.empty" "blk s = demo_image"
    "icache s = [demo_inode 1 0 (replicate 13 0), demo_inode 2 3 (50 # replicate 12 0)]" "fsb s = demo_sb"
    "log_area s = {n. 2 \<le> n \<and> n < 32}" "disksize s = 1000" "lg_size s = 30" by (rule demo_fs_boot)
  note d = demo_file [OF s(2-7)] and R = demo_refs [OF s(4)]
  have nb: "nblocks (unat (0 :: uint)) (unat (3 :: uint)) = 1" by (simp add: nblocks_def BSIZE_def)
  have x: "i_type (icache s ! 0) \<noteq> T_DEV" "i_size (icache s ! 0) = 0" using s(4) by (simp_all add: demo_inode_def T_FILE_def T_DEV_def)
  have "0 \<le> i_size (icache s ! 0)" "unat (0 :: uint) + unat (3 :: uint) \<le> MAXFILE * BSIZE"
    "int (pot s [] 0) + int (nblocks (unat (0 :: uint)) (unat (3 :: uint))) + 5 < lg_size s"
    "needs s 0 + nblocks (unat (0 :: uint)) (unat (3 :: uint)) \<le> card (free_blocks s)"
    using d nb s(8) by (simp_all add: MAXFILE_def NDIRECT_def NINDIRECT_def BSIZE_def)
  from writei_writes_file [OF d(1-3) x(1) this, of "\<lambda>x. of_nat x + 65"] obtain s' where
    "writei 0 (\<lambda>x. of_nat x + 65) 0 3 s = Ok 3 s'" "unat (i_size (icache s' ! 0)) = 3"
    "\<forall>y. contents s' 0 y = (if y < 3 then of_nat y + 65 else contents s 0 y)" using x(2) by auto
  moreover have "contents s 0 3 = 0" using R by (simp add: contents_def fbyte_def)
  ultimately show ?thesis using s(1) by (intro exI [of _ s] exI [of _ s']) simp
qed

theorem readi_returns_contents_witness:
  "\<exists>s s' dst. binit demo_fs = Ok () s \<and> readi (Suc 0) (\<lambda>_. 1) 1 10 s = Ok (2, dst) s' \<and> map dst [0, 1, 2] = [7, 7, 1]"
proof -
  obtain s where s: "binit demo_fs = Ok () s" "in_tx s [] Map.empty" "blk s = demo_image"
    "icache s = [demo_inode 1 0 (replicate 13 0), demo_inode 2 3 (50 # replicate 12 0)]" "fsb s = demo_sb"
    "log_area s = {n. 2 \<le> n \<and> n < 32}" "disksize s = 1000" by (rule demo_fs_boot)
  note d = demo_file [OF s(2-7)] and R = demo_refs [OF s(4)]
  have x: "i_type (icache s ! Suc 0) \<noteq> T_DEV" "i_size (icache s ! Suc 0) = 3"
    using s(4) by (simp_all add: demo_inode_def T_FILE_def T_DEV_def)
  have "contents s (Suc 0) (1 + i) = 7" if "i < 2" for i
    using R s(3) that by (simp add: contents_def fbyte_def demo_image_def MAXFILE_def NDIRECT_def NINDIRECT_def BSIZE_def)
  then have c: "contents s (Suc 0) (Suc 0) = 7" "contents s (Suc 0) (Suc (Suc 0)) = 7" by force+
  from readi_returns_contents [OF d(7,8) x(1), of 1 10 "\<lambda>_. 1"] x(2) obtain s' where
    "readi (Suc 0) (\<lambda>_. 1) 1 10 s = Ok (2, \<lambda>y. if y < 2 then contents s (Suc 0) (unat (1 :: uint) + y) else 1) s'" by auto
  then show ?thesis using s(1) c by (intro exI [of _ s] exI [of _ s'] exI) auto
qed

theorem inode_roundtrip_witness:
  "\<exists>s s' s''. binit demo_fs = Ok () s \<and> iupdate 0 s = Ok () s' \<and>
    ilock_read 0 (s'\<lparr>icache := (icache s')[0 := (demo_inode 1 9 [])\<lparr>i_valid := False\<rparr>]\<rparr>) = Ok () s'' \<and>
    icache s'' ! 0 = demo_inode 1 0 (replicate 13 0)"
proof -
  obtain s where s: "binit demo_fs = Ok () s" "in_tx s [] Map.empty" "blk s = demo_image"
    "icache s = [demo_inode 1 0 (replicate 13 0), demo_inode 2 3 (50 # replicate 12 0)]" "fsb s = demo_sb"
    "log_area s = {n. 2 \<le> n \<and> n < 32}" "disksize s = 1000" "lg_size s = 30" by (rule demo_fs_boot)
  note d = demo_file [OF s(2-7)]
  let ?y = "(demo_inode 1 9 [])\<lparr>i_valid := False\<rparr>"
  have x: "icache s ! 0 = demo_inode 1 0 (replicate 13 0)" using s(4) by simp
  have "int (length []) + 1 < lg_size s" "i_type (icache s ! 0) \<noteq> 0" using s(8) x by (simp_all add: demo_inode_def T_FILE_def)
  from inode_roundtrip [OF d(1,2) this] obtain s' where u: "iupdate 0 s = Ok () s'" and
    l: "\<And>y. i_dev y = i_dev (icache s ! 0) \<and> i_inum y = i_inum (icache s ! 0) \<and> \<not> i_valid y \<Longrightarrow>
      \<exists>s''. ilock_read 0 (s'\<lparr>icache := (icache s')[0 := y]\<rparr>) = Ok () s'' \<and> icache s'' ! 0 = (icache s ! 0)\<lparr>i_ref := i_ref y, i_valid := True\<rparr>"
    by blast
  have "i_dev ?y = i_dev (icache s ! 0) \<and> i_inum ?y = i_inum (icache s ! 0) \<and> \<not> i_valid ?y" by (simp add: x demo_inode_def)
  from l [OF this] obtain s'' where "ilock_read 0 (s'\<lparr>icache := (icache s')[0 := ?y]\<rparr>) = Ok () s''"
    "icache s'' ! 0 = (icache s ! 0)\<lparr>i_ref := i_ref ?y, i_valid := True\<rparr>" by blast
  moreover have "(icache s ! 0)\<lparr>i_ref := i_ref ?y, i_valid := True\<rparr> = demo_inode 1 0 (replicate 13 0)"
    unfolding x by (simp add: demo_inode_def)
  ultimately show ?thesis using s(1) u by (intro exI [of _ s] exI [of _ s'] exI [of _ s'']) simp
qed

end
