(* ===== verification/Logspace.thy ===== *)
theory Logspace
  imports Commit
begin

text \<open>
  The space that \<open>begin_op\<close> reserves in the log and the space that \<open>log_write\<close> finds there (src/log.c).
\<close>

lemma begin_op_run:
  assumes "held s = []" and "\<not> lg_committing s" and "lh_n s + (lg_outstanding s + 1) * MAXOPBLOCKS \<le> LOGSIZE"
  shows "begin_op s = Ok () (s\<lparr>lg_outstanding := lg_outstanding s + 1\<rparr>)"
  using assms by (simp add: begin_op_def begin_op_loop_def run_simps)

text \<open>A buffer whose block is not in the log yet takes the next entry.\<close>

lemma log_slot_new:
  assumes "\<forall>i < nat (lh_n s). word_of_int (lh_block s i) \<noteq> n"
  shows "log_slot s n = nat (lh_n s)"
proof -
  have "first_idx (\<lambda>v. word_of_int v = n) (map (lh_block s) [0..<nat (lh_n s)]) = None"
    using assms by (auto simp: first_idx_None_iff)
  then show ?thesis by (simp add: log_slot_def)
qed

text \<open>The log holds \<open>k\<close> blocks, none of them a block of the buffers \<open>bs\<close>.\<close>

definition logged_others :: "'z klog_scheme \<Rightarrow> nat \<Rightarrow> nat list \<Rightarrow> bool" where
  "logged_others s k bs \<longleftrightarrow> held s = [] \<and> lh_n s = int k \<and> lg_size s = 30 \<and> 1 \<le> lg_outstanding s \<and>
     distinct (map (\<lambda>b. b_blockno (bufs s b)) bs) \<and> (\<forall>i < k. \<forall>b \<in> set bs. word_of_int (lh_block s i) \<noteq> b_blockno (bufs s b))"

lemma log_write_next:
  assumes "logged_others s k (b # bs)" and "k < 29"
  shows "\<exists>s'. log_write b s = Ok () s' \<and> logged_others s' (Suc k) bs"
proof -
  let ?n = "b_blockno (bufs s b)"
  let ?s = "s\<lparr>lh_block := (lh_block s)(k := sint ?n), lh_n := int (Suc k), bufs := (bufs s)(b := (bufs s b)\<lparr>b_dirty := True\<rparr>)\<rparr>"
  have "log_slot s ?n = k" using assms(1) log_slot_new [of s ?n] by (simp add: logged_others_def)
  then have "log_write b s = Ok () ?s"
    using log_write_run [of s k b] assms by (simp add: logged_others_def LOGSIZE_def MAXOPBLOCKS_def)
  moreover have "b_blockno (if x = b then (bufs s b)\<lparr>b_dirty := True\<rparr> else bufs s x) = b_blockno (bufs s x)" for x by simp
  then have "logged_others ?s (Suc k) bs"
    using assms(1) by (auto simp: logged_others_def less_Suc_eq image_iff)
  ultimately show ?thesis by blast
qed

lemma log_write_fills:
  assumes "logged_others s k bs" and "k + length bs = 30" and "k \<le> 29"
  shows "forM bs log_write s = Panic ''too big a transaction''"
  using assms
proof (induction bs arbitrary: s k)
  case (Cons b bs)
  show ?case
  proof (cases "k = 29")
    case True
    then show ?thesis using Cons.prems
      by (simp add: logged_others_def log_write_def LOGSIZE_def MAXOPBLOCKS_def run_simps)
  next
    case False
    with Cons.prems have k: "k < 29" by simp
    from log_write_next [OF Cons.prems(1) k] obtain s' where s': "log_write b s = Ok () s'" "logged_others s' (Suc k) bs" by blast
    with Cons.IH [OF s'(2)] Cons.prems k show ?thesis by (simp add: sqn_Ok)
  qed
qed simp

text \<open>C31: The log of a disk made by mkfs has LOGSIZE blocks, of which one is the header. \<open>begin_op\<close> (src/log.c) lets three
  operations in that may write MAXOPBLOCKS blocks each, which is one block more than there is room for: when they write different blocks, as many as
  they are allowed to, \<open>log_write\<close> panics.\<close>

theorem log_reservation_too_large:
  assumes "held s = []" and "\<not> lg_committing s" and "lg_outstanding s = 0" and "lh_n s = 0" and "lg_size s = LOGSIZE"
    and "int (length bs) = 3 * MAXOPBLOCKS" and "distinct (map (\<lambda>b. b_blockno (bufs s b)) bs)"
  shows "\<exists>s'. stmts [begin_op, begin_op, begin_op] s = Ok () s' \<and> forM bs log_write s' = Panic ''too big a transaction''"
proof -
  let ?s = "\<lambda>n. s\<lparr>lg_outstanding := n\<rparr>"
  have b: "begin_op (?s n) = Ok () (?s (n + 1))" if "n \<le> 2" for n
    using assms that by (subst begin_op_run) (auto simp: LOGSIZE_def MAXOPBLOCKS_def)
  have "?s 0 = s" using assms(3) by (metis klog.surjective klog.update_convs(3))
  then have "stmts [begin_op, begin_op, begin_op] s = Ok () (?s 3)" using b [of 0] b [of 1] b [of 2] by (simp add: sqn_Ok ret_run)
  moreover have "logged_others (?s 3) 0 bs" using assms by (simp add: logged_others_def LOGSIZE_def MAXOPBLOCKS_def)
  then have "forM bs log_write (?s 3) = Panic ''too big a transaction''"
    using assms(6) by (intro log_write_fills) (auto simp: MAXOPBLOCKS_def)
  ultimately show ?thesis by blast
qed

definition demo_full_log :: klog where
  "demo_full_log = demo_klog\<lparr>lg_outstanding := 0, bufs := (\<lambda>i. (bufs demo_klog i)\<lparr>b_blockno := of_nat (100 + i)\<rparr>)\<rparr>"

theorem log_reservation_too_large_witness:
  "\<exists>s'. stmts [begin_op, begin_op, begin_op] demo_full_log = Ok () s' \<and> forM [0..<30] log_write s' = Panic ''too big a transaction''"
proof -
  have "map (\<lambda>b. b_blockno (bufs demo_full_log b)) [0..<30] = map (\<lambda>i. of_nat (100 + i)) [0..<30]" by (simp add: demo_full_log_def)
  moreover have "distinct (map (\<lambda>i. of_nat (100 + i) :: uint) [0..<30])" by code_simp
  moreover have "\<not> lg_committing demo_full_log" by (simp add: demo_full_log_def demo_klog_def kbio.defs)
  ultimately show ?thesis
    by (intro log_reservation_too_large) (simp_all add: demo_full_log_def LOGSIZE_def MAXOPBLOCKS_def del: upt_conv_Cons upt_rec_numeral)
qed

end
