(* ===== verification/User.thy ===== *)
theory User
  imports Fs
begin

text \<open>
  User programs and what they call: src/printf.c and the routines of src/ulib.c that make system
  calls (\<open>gets\<close>, \<open>stat\<close>, \<open>ps\<close>).

  A user program is an operation on the list of the system calls it has made (\<open>calls\<close>) and the
  list of the replies the kernel will give (\<open>replies\<close>). A call takes the next reply; when there
  is none, the outcome is \<open>Blocked\<close>: the program is inside the last call of \<open>calls\<close>. \<open>exit\<close> never
  returns, so it ends the same way. A reply carries the value the call returns and what it
  stores through the pointers it is given. A read or write outside an object, and the use of an
  argument that is not there, are the outcome \<open>Panic\<close>.

  A string is the list of its characters before the NUL.
\<close>

section \<open>System calls\<close>

type_synonym ustr = "uchar list"

datatype ucall =
    U_fork | U_exit | U_wait | U_pipe | U_write int ustr | U_read int int | U_close int | U_kill int
  | U_exec ustr "ustr list" | U_open ustr int | U_mknod ustr int int | U_unlink ustr | U_fstat int
  | U_link ustr ustr | U_mkdir ustr | U_chdir ustr | U_dup int | U_getpid | U_sbrk int | U_sleep int
  | U_uptime | U_getpinfo | U_settickets int

record reply =
  r_val :: int
  r_data :: "uchar list"
  r_fds :: "int \<times> int"
  r_stat :: stat
  r_pstat :: "pstat list"

record uproc =
  replies :: "reply list"
  calls :: "ucall list"

definition sys :: "ucall \<Rightarrow> ('z uproc_scheme, reply) kmon" where
  "sys c s = (case replies s of
     [] \<Rightarrow> Blocked (s\<lparr>calls := calls s @ [c]\<rparr>)
   | r # rs \<Rightarrow> Ok r (s\<lparr>replies := rs, calls := calls s @ [c]\<rparr>))"

definition sysv :: "ucall \<Rightarrow> ('z uproc_scheme, int) kmon" where
  "sysv c = bnd (sys c) (\<lambda>r. ret (r_val r))"

definition sysx :: "ucall \<Rightarrow> ('z uproc_scheme, unit) kmon" where
  "sysx c = bnd (sys c) (\<lambda>_. ret ())"

definition uexit :: "('z uproc_scheme, 'a) kmon" where
  "uexit s = Blocked (s\<lparr>calls := calls s @ [U_exit]\<rparr>)"

text \<open>
  A loop whose body makes a system call each time round. \<open>Inl\<close> goes on, \<open>Inr\<close> leaves the loop.
  One turn per reply and one more are enough: the last one finds no reply left.
\<close>

primrec uloop :: "nat \<Rightarrow> ('a \<Rightarrow> ('z uproc_scheme, 'a + 'b) kmon) \<Rightarrow> 'a \<Rightarrow> ('z uproc_scheme, 'b) kmon" where
  "uloop 0 body a = block"
| "uloop (Suc n) body a = bnd (body a) (\<lambda>r. case r of Inl a' \<Rightarrow> uloop n body a' | Inr b \<Rightarrow> ret b)"

definition while_sys :: "('a \<Rightarrow> ('z uproc_scheme, 'a + 'b) kmon) \<Rightarrow> 'a \<Rightarrow> ('z uproc_scheme, 'b) kmon" where
  "while_sys body a s = uloop (Suc (length (replies s))) body a s"

definition consumes :: "('a \<Rightarrow> ('z uproc_scheme, 'a + 'b) kmon) \<Rightarrow> bool" where
  "consumes body \<longleftrightarrow> (\<forall>a s a' s'. body a s = Ok (Inl a') s' \<longrightarrow> length (replies s') < length (replies s))"

lemma uloop_fuel:
  assumes "consumes body" and "length (replies s) < n" and "length (replies s) < m"
  shows "uloop n body a s = uloop m body a s"
  using assms(2,3)
proof (induction n arbitrary: m a s)
  case (Suc n)
  from Suc.prems obtain k where k: "m = Suc k" by (cases m) auto
  have "uloop n body a' s' = uloop k body a' s'" if "body a s = Ok (Inl a') s'" for a' s'
    using Suc.prems assms(1) that k by (intro Suc.IH) (auto simp: consumes_def dest!: spec)
  then show ?case by (auto simp: k bnd_def split: outcome.split sum.split)
qed simp

text \<open>So such a loop is its body followed by the loop.\<close>

lemma while_sys_unfold:
  assumes "consumes body"
  shows "while_sys body a = bnd (body a) (\<lambda>r. case r of Inl a' \<Rightarrow> while_sys body a' | Inr b \<Rightarrow> ret b)"
proof
  fix s
  have "uloop (length (replies s)) body a' s' = uloop (Suc (length (replies s'))) body a' s'" if "body a s = Ok (Inl a') s'" for a' s'
    using assms that by (intro uloop_fuel) (auto simp: consumes_def)
  then show "while_sys body a s = bnd (body a) (\<lambda>r. case r of Inl a' \<Rightarrow> while_sys body a' | Inr b \<Rightarrow> ret b) s"
    by (auto simp: while_sys_def bnd_def split: outcome.split sum.split)
qed

text \<open>How many replies an operation takes at least, when it returns.\<close>

definition takes :: "nat \<Rightarrow> ('z uproc_scheme, 'a) kmon \<Rightarrow> bool" where
  "takes n m \<longleftrightarrow> (\<forall>s x s'. m s = Ok x s' \<longrightarrow> length (replies s') + n \<le> length (replies s))"

named_theorems takes_intros

lemma takes_ret [takes_intros]: "takes 0 (ret x)" and takes_panic [takes_intros]: "takes n (panic e)"
  and takes_block [takes_intros]: "takes n block" and takes_uexit [takes_intros]: "takes n uexit"
  by (simp_all add: takes_def ret_def panic_def block_def uexit_def)

lemma takes_sys: "takes 1 (sys c)"
  by (auto simp: takes_def sys_def split: list.split)

lemma takes_0: "takes n m \<Longrightarrow> takes 0 m"
  by (fastforce simp: takes_def)

lemma takes_bnd: "takes n m \<Longrightarrow> (\<And>x. takes k (f x)) \<Longrightarrow> takes (n + k) (bnd m f)"
  by (fastforce simp: takes_def bnd_def split: outcome.splits)

lemmas takes_sys0 [takes_intros] = takes_0 [OF takes_sys]
lemmas takes_bnd0 [takes_intros] = takes_bnd [of 0 _ 0, simplified]

lemma takes_sys1: "(\<And>r. takes 0 (f r)) \<Longrightarrow> takes 1 (bnd (sys c) f)"
  using takes_bnd [OF takes_sys, of 0 f c] by simp

lemma takes_sqn [takes_intros]: "takes 0 m \<Longrightarrow> takes 0 n \<Longrightarrow> takes 0 (sqn m n)"
  unfolding sqn_def by (intro takes_intros)

lemma takes_stmts [takes_intros]: "takes 0 (stmts [])" "takes 0 m \<Longrightarrow> takes 0 (stmts ms) \<Longrightarrow> takes 0 (stmts (m # ms))"
  unfolding stmts.simps by (intro takes_intros; assumption?)+

lemma takes_forM [takes_intros]:
  assumes "\<And>i. takes 0 (f i)"
  shows "takes 0 (forM is f)"
proof (induction "is")
  case (Cons i "is")
  show ?case unfolding forM.simps by (intro takes_intros assms Cons)
qed (unfold forM.simps, rule takes_ret)

lemma takes_if [takes_intros]: "(b \<Longrightarrow> takes n m) \<Longrightarrow> (\<not> b \<Longrightarrow> takes n m') \<Longrightarrow> takes n (if b then m else m')"
  by simp

lemma takes_let [takes_intros]: "(\<And>x. takes n (f x)) \<Longrightarrow> takes n (Let y f)"
  by (simp add: Let_def)

lemma takes_option [takes_intros]:
  "(x = None \<Longrightarrow> takes n m) \<Longrightarrow> (\<And>y. x = Some y \<Longrightarrow> takes n (f y)) \<Longrightarrow> takes n (case x of None \<Rightarrow> m | Some y \<Rightarrow> f y)"
  by (cases x) auto

lemma takes_list [takes_intros]:
  "takes n m \<Longrightarrow> (\<And>y ys. takes n (f y ys)) \<Longrightarrow> takes n (case x of [] \<Rightarrow> m | y # ys \<Rightarrow> f y ys)"
  by (cases x) auto

lemma takes_prod [takes_intros]: "(\<And>a b. takes n (f a b)) \<Longrightarrow> takes n (case x of (a, b) \<Rightarrow> f a b)"
  by (cases x) auto

lemma takes_sysx [takes_intros]: "takes 0 (sysx c)" "takes 0 (sysv c)"
  unfolding sysx_def sysv_def by (intro takes_intros)+

lemma consumesI: "(\<And>a. takes 1 (body a)) \<Longrightarrow> consumes body"
  by (fastforce simp: takes_def consumes_def)

section \<open>Formatted output (printf.c)\<close>

definition ascii :: "string \<Rightarrow> ustr" where
  "ascii x = map of_char x"

definition putc :: "int \<Rightarrow> uchar \<Rightarrow> ('z uproc_scheme, unit) kmon" where
  "putc fd c = sysx (U_write fd [c])"

definition udigits :: ustr where
  "udigits = ascii ''0123456789ABCDEF''"

text \<open>The digits, last first, as the loop stores them in \<open>buf\<close>. The base is 10 or 16.\<close>

function uprintint_buf :: "nat \<Rightarrow> nat \<Rightarrow> ustr" where
  "uprintint_buf base x = udigits ! (x mod base) #
     (if x div base = 0 \<or> base < 2 then [] else uprintint_buf base (x div base))"
  by pat_completeness auto
termination
  by (relation "measure snd") (auto intro: Nat.gr0I simp: Suc_le_eq div_eq_0_iff)

declare uprintint_buf.simps [simp del]

definition uprintint_chars :: "int \<Rightarrow> nat \<Rightarrow> bool \<Rightarrow> ustr" where
  "uprintint_chars xx base sign =
     (let neg = sign \<and> xx < 0;
          x = (if neg then word_of_int (- xx) else word_of_int xx :: uint)
      in rev (uprintint_buf base (unat x) @ (if neg then ascii ''-'' else [])))"

definition uprintint :: "int \<Rightarrow> int \<Rightarrow> nat \<Rightarrow> bool \<Rightarrow> ('z uproc_scheme, unit) kmon" where
  "uprintint fd xx base sign = forM (uprintint_chars xx base sign) (putc fd)"

text \<open>An argument is a word, or the address of a string, which stands for the string.\<close>

datatype uarg = AW uint | AS ustr

definition arg_word :: "uarg list \<Rightarrow> (uint \<Rightarrow> ('s, 'a) kmon) \<Rightarrow> ('s, 'a) kmon" where
  "arg_word ap k = (case ap of AW w # _ \<Rightarrow> k w | _ \<Rightarrow> panic ''argument'')"

definition arg_str :: "uarg list \<Rightarrow> (ustr \<Rightarrow> ('s, 'a) kmon) \<Rightarrow> ('s, 'a) kmon" where
  "arg_str ap k = (case ap of
     AS x # _ \<Rightarrow> k x
   | AW w # _ \<Rightarrow> if w = 0 then k (ascii ''(null)'') else panic ''argument''
   | [] \<Rightarrow> panic ''argument'')"

text \<open>\<open>st\<close> tells whether the last character was a percent sign.\<close>

fun uprintf_loop :: "int \<Rightarrow> bool \<Rightarrow> string \<Rightarrow> uarg list \<Rightarrow> ('z uproc_scheme, unit) kmon" where
  "uprintf_loop fd st [] ap = ret ()"
| "uprintf_loop fd False (c # fmt) ap =
     (if c = CHR ''%'' then uprintf_loop fd True fmt ap
      else sqn (putc fd (of_char c)) (uprintf_loop fd False fmt ap))"
| "uprintf_loop fd True (c # fmt) ap =
     (if c = CHR ''d'' then arg_word ap (\<lambda>w. sqn (uprintint fd (sint w) 10 True) (uprintf_loop fd False fmt (tl ap)))
      else if c = CHR ''x'' \<or> c = CHR ''p'' then arg_word ap (\<lambda>w. sqn (uprintint fd (sint w) 16 False) (uprintf_loop fd False fmt (tl ap)))
      else if c = CHR ''s'' then arg_str ap (\<lambda>x. sqn (forM x (putc fd)) (uprintf_loop fd False fmt (tl ap)))
      else if c = CHR ''c'' then arg_word ap (\<lambda>w. sqn (putc fd (ucast w)) (uprintf_loop fd False fmt (tl ap)))
      else if c = CHR ''%'' then sqn (putc fd (of_char c)) (uprintf_loop fd False fmt ap)
      else sqn (putc fd (of_char (CHR ''%''))) (sqn (putc fd (of_char c)) (uprintf_loop fd False fmt ap)))"

definition uprintf :: "int \<Rightarrow> string \<Rightarrow> uarg list \<Rightarrow> ('z uproc_scheme, unit) kmon" where
  "uprintf fd fmt ap = uprintf_loop fd False fmt ap"

lemma takes_uprintint [takes_intros]: "takes 0 (putc fd c)" "takes 0 (uprintint fd x b g)"
  unfolding putc_def uprintint_def by (intro takes_intros)+

lemma takes_arg [takes_intros]:
  "(\<And>w. takes n (k w)) \<Longrightarrow> takes n (arg_word ap k)" "(\<And>x. takes n (h x)) \<Longrightarrow> takes n (arg_str ap h)"
  by (auto simp: arg_word_def arg_str_def takes_panic split: list.split uarg.split)

lemma takes_uprintf_loop [takes_intros]: "takes 0 (uprintf_loop fd st fmt ap)"
proof (induction fmt arbitrary: st ap)
  case (Cons c fmt)
  show ?case by (cases st; simp only: uprintf_loop.simps; intro takes_intros Cons.IH)
qed (cases "st"; simp only: uprintf_loop.simps; rule takes_ret)

lemma takes_uprintf [takes_intros]: "takes 0 (uprintf fd fmt ap)"
  unfolding uprintf_def by (rule takes_uprintf_loop)

lemma takes_first:
  "takes 1 m \<Longrightarrow> (\<And>x. takes 0 (f x)) \<Longrightarrow> takes 1 (bnd m f)" "takes 1 m \<Longrightarrow> takes 0 m' \<Longrightarrow> takes 1 (sqn m m')"
  using takes_bnd [of 1 m 0 f] takes_bnd [of 1 m 0 "\<lambda>_. m'"] by (simp_all add: sqn_def)

lemma takes_one: "takes 1 (sysv c)" "takes 1 (sysx c)" "takes 1 (sys c)"
  unfolding sysv_def sysx_def by (intro takes_first takes_sys takes_intros)+

lemma takes_uprintf1: "c \<noteq> CHR ''%'' \<Longrightarrow> takes 1 (uprintf fd (c # fmt) ap)"
  using takes_first(2) [OF takes_one(2) takes_uprintf_loop] by (simp add: uprintf_def putc_def)

section \<open>Library routines with system calls (ulib.c)\<close>

text \<open>The characters \<open>gets\<close> stores, at most \<open>k\<close>.\<close>

primrec ugets_loop :: "nat \<Rightarrow> ('z uproc_scheme, ustr) kmon" where
  "ugets_loop 0 = ret []"
| "ugets_loop (Suc k) = bnd (sys (U_read 0 1)) (\<lambda>r.
     if r_val r < 1 then ret []
     else case r_data r of
       [] \<Rightarrow> panic ''read''
     | c # _ \<Rightarrow>
         if c = 10 \<or> c = 13 then ret [c]
         else bnd (ugets_loop k) (\<lambda>cs. ret (c # cs)))"

definition ugets :: "nat \<Rightarrow> ('z uproc_scheme, ustr) kmon" where
  "ugets mx = ugets_loop (mx - 1)"

definition ustat :: "ustr \<Rightarrow> ('z uproc_scheme, int \<times> stat option) kmon" where
  "ustat n = bnd (sysv (U_open n O_RDONLY)) (\<lambda>fd.
     if fd < 0 then ret (- 1, None)
     else bnd (sys (U_fstat fd)) (\<lambda>r. sqn (sysx (U_close fd)) (ret (r_val r, Some (r_stat r)))))"

definition name_str :: "bytes \<Rightarrow> ustr" where
  "name_str nm = cstr nm 0 16"

fun ps_loop :: "pstat list \<Rightarrow> ('z uproc_scheme, unit) kmon" where
  "ps_loop [] = panic ''out of bounds''"
| "ps_loop (e # es) =
     (if ps_pid e \<noteq> 0 then
        sqn (uprintf 1 (''%d'' @ [CHR 0x09] @ ''%d'' @ [CHR 0x09] @ ''%d'' @ [CHR 0x09] @ ''%c'' @ [CHR 0x09] @ ''%s'' @ [CHR 0x0A])
          [AW (word_of_int (ps_pid e)), AW (word_of_int (ps_tickets e)), AW (word_of_int (ps_ticks e)), AW (scast (ps_state e)), AS (name_str (ps_name e))])
        (ps_loop es)
      else ret ())"

definition ups :: "('z uproc_scheme, unit) kmon" where
  "ups = sqn (uprintf 1 (''PID'' @ [CHR 0x09] @ ''TKTS'' @ [CHR 0x09] @ ''TCKS'' @ [CHR 0x09] @ ''STAT'' @ [CHR 0x09] @ ''NAME'' @ [CHR 0x0A]) [])
     (bnd (sys U_getpinfo) (\<lambda>r. ps_loop (r_pstat r)))"

section \<open>Reading back what was printed\<close>

lemma udigit:
  assumes "d < 10"
  shows "sint (udigits ! d) = int d + 48"
proof -
  have "list_all (\<lambda>d. sint (udigits ! d) = int d + 48) [0..<10]" by code_simp
  with assms show ?thesis by (simp add: list_all_iff del: upt_conv_Cons)
qed

lemma i32_step: "i32 (i32 (i32 (n * 10) + c) - 48) = i32 (n * 10 + c - 48)"
  using i32_plus_left [of "i32 (n * 10) + c" "- 48"] i32_plus_left [of "n * 10" "c - 48"] by (simp add: algebra_simps)

definition digits_value :: "ustr \<Rightarrow> int" where
  "digits_value ds = foldl (\<lambda>n d. n * 10 + (sint d - 48)) 0 ds"

definition is_digit :: "uchar \<Rightarrow> bool" where
  "is_digit c \<longleftrightarrow> 48 \<le> sint c \<and> sint c \<le> 57"

lemma uprintint_buf_digits: "\<forall>c \<in> set (uprintint_buf 10 x). is_digit c"
proof (induction x rule: less_induct)
  case (less x)
  have "is_digit (udigits ! (x mod 10))" using udigit [of "x mod 10"] by (simp add: is_digit_def)
  moreover have "\<forall>c \<in> set (uprintint_buf 10 (x div 10)). is_digit c" if "x div 10 \<noteq> 0"
    using that by (intro less) auto
  ultimately show ?case by (subst uprintint_buf.simps) auto
qed

lemma digits_value_buf: "digits_value (rev (uprintint_buf 10 x)) = int x"
proof (induction x rule: less_induct)
  case (less x)
  have d: "sint (udigits ! (x mod 10)) - 48 = int (x mod 10)" by (simp add: udigit)
  show ?case
  proof (cases "x div 10 = 0")
    case True
    then show ?thesis using d by (subst uprintint_buf.simps) (simp add: digits_value_def)
  next
    case False
    then have "digits_value (rev (uprintint_buf 10 (x div 10))) = int (x div 10)" by (intro less) auto
    moreover have "int (x div 10) * 10 + int (x mod 10) = int x"
      by (metis div_mult_mod_eq of_nat_add of_nat_mult of_nat_numeral)
    ultimately show ?thesis using d False by (subst uprintint_buf.simps) (simp add: digits_value_def)
  qed
qed

lemma foldl_digits_nonneg: "\<forall>c \<in> set ds. is_digit c \<Longrightarrow> 0 \<le> n \<Longrightarrow> n \<le> foldl (\<lambda>n d. n * 10 + (sint d - 48)) n ds"
proof (induction ds arbitrary: n)
  case (Cons d ds)
  then have "n \<le> n * 10 + (sint d - 48)" by (simp add: is_digit_def)
  with Cons.IH [of "n * 10 + (sint d - 48)"] Cons.prems show ?case by simp
qed simp

lemma atoi_loop_digits:
  assumes "\<forall>c \<in> set ds. is_digit c" and "\<forall>i < length ds. m (s + i) = ds ! i" and "\<not> is_digit (m (s + length ds))"
    and "0 \<le> n" and "foldl (\<lambda>n d. n * 10 + (sint d - 48)) n ds < 2147483648"
  shows "atoi_loop m s n = Some (foldl (\<lambda>n d. n * 10 + (sint d - 48)) n ds)"
  using assms
proof (induction ds arbitrary: s n)
  case Nil
  then show ?case by (subst atoi_loop.simps) (auto simp: is_digit_def)
next
  case (Cons d ds)
  let ?n = "n * 10 + (sint d - 48)"
  have d: "m s = d" "is_digit d" using Cons.prems by (auto dest: spec [of _ 0])
  have n: "0 \<le> ?n" "?n < 2147483648"
    using Cons.prems d foldl_digits_nonneg [of ds ?n] by (auto simp: is_digit_def)
  have "i32 (n * 10 + sint d - 48) = ?n" using n by (simp add: i32_id)
  then have "atoi_loop m s n = atoi_loop m (s + 1) ?n"
    using d by (subst atoi_loop.simps) (simp add: is_digit_def i32_step)
  also have "\<dots> = Some (foldl (\<lambda>n d. n * 10 + (sint d - 48)) ?n ds)"
    using Cons.prems n by (intro Cons.IH) (auto dest: spec [of _ "Suc _"])
  finally show ?case by simp
qed

text \<open>What \<open>printf("%d")\<close> (src/printf.c) prints for a number that is not negative, \<open>atoi\<close>
  (src/ulib.c) reads back, whatever follows that is not a digit; 2147483647 included.\<close>

theorem atoi_reads_printed_number:
  assumes "0 \<le> x" and "x < 2147483648" and "\<forall>i < length (uprintint_chars x 10 True). m (s + i) = uprintint_chars x 10 True ! i"
    and "\<not> is_digit (m (s + length (uprintint_chars x 10 True)))"
  shows "atoi m s = Some x"
proof -
  have "unat (word_of_int x :: uint) = nat x" using assms(1,2) by (simp add: unsigned_of_int take_bit_int_eq_self)
  then have c: "uprintint_chars x 10 True = rev (uprintint_buf 10 (nat x))" using assms(1) by (simp add: uprintint_chars_def Let_def)
  have v: "foldl (\<lambda>n d. n * 10 + (sint d - 48)) 0 (uprintint_chars x 10 True) = x"
    using digits_value_buf [of "nat x"] assms(1) unfolding c digits_value_def by simp
  have "\<forall>k \<in> set (uprintint_chars x 10 True). is_digit k" using uprintint_buf_digits [of "nat x"] unfolding c by simp
  from atoi_loop_digits [OF this assms(3,4)] v assms(2) show ?thesis by (simp add: atoi_def)
qed

definition demo_reply :: "int \<Rightarrow> ustr \<Rightarrow> reply" where
  "demo_reply v xs = \<lparr>r_val = v, r_data = xs, r_fds = (0, 0), r_stat = \<lparr>st_type = 0, st_dev = 0, st_ino = 0, st_nlink = 0, st_size = 0\<rparr>, r_pstat = []\<rparr>"

definition demo_number :: bytes where
  "demo_number = (\<lambda>_. 0)(5 := 52, 6 := 48, 7 := 55)"

theorem atoi_reads_printed_number_witness:
  "uprintint_chars 407 10 True = [52, 48, 55] \<and> atoi demo_number 5 = Some 407"
proof -
  have c: "uprintint_chars 407 10 True = [52, 48, 55]" by code_simp
  moreover have "\<forall>i < length (uprintint_chars 407 10 True). demo_number (5 + i) = uprintint_chars 407 10 True ! i"
    unfolding c by (auto simp: demo_number_def less_Suc_eq)
  moreover have "\<not> is_digit (demo_number (5 + length (uprintint_chars 407 10 True)))"
    unfolding c by (simp add: demo_number_def is_digit_def)
  ultimately show ?thesis using atoi_reads_printed_number [of 407 demo_number 5] by simp
qed

end
