(* ===== verification/Grep.thy ===== *)
theory Grep
  imports User
begin

text \<open>
  The program \<open>grep\<close> (src/grep.c): the matcher of Kernighan and Pike with the operators
  \<open>^ . * $\<close>, and the loop that reads a file through a buffer of 1024 bytes.
\<close>

section \<open>The matcher\<close>

definition CARET :: uchar where "CARET = of_char (CHR ''^'')"
definition DOT :: uchar where "DOT = of_char (CHR ''.'')"
definition STAR :: uchar where "STAR = of_char (CHR ''*'')"
definition DOLLAR :: uchar where "DOLLAR = of_char (CHR ''$'')"
definition NEWLINE :: uchar where "NEWLINE = 10"

function matchhere :: "ustr \<Rightarrow> ustr \<Rightarrow> bool" and matchstar :: "uchar \<Rightarrow> ustr \<Rightarrow> ustr \<Rightarrow> bool" where
  "matchhere [] tx = True"
| "matchhere [c] tx =
     (if c = DOLLAR then tx = []
      else case tx of [] \<Rightarrow> False | t # ts \<Rightarrow> (c = DOT \<or> c = t) \<and> matchhere [] ts)"
| "matchhere (c # d # re) tx =
     (if d = STAR then matchstar c re tx
      else case tx of [] \<Rightarrow> False | t # ts \<Rightarrow> (c = DOT \<or> c = t) \<and> matchhere (d # re) ts)"
| "matchstar c re tx =
     (matchhere re tx \<or> (case tx of [] \<Rightarrow> False | t # ts \<Rightarrow> (t = c \<or> c = DOT) \<and> matchstar c re ts))"
  by pat_completeness auto
termination
  by (relation "measures [\<lambda>x. case x of Inl (re, t) \<Rightarrow> length re | Inr (c, re, t) \<Rightarrow> length re + 1,
      \<lambda>x. case x of Inl (re, t) \<Rightarrow> length t | Inr (c, re, t) \<Rightarrow> length t]") auto

declare matchstar.simps [simp del]

fun match_from :: "ustr \<Rightarrow> ustr \<Rightarrow> bool" where
  "match_from re [] = matchhere re []"
| "match_from re (t # ts) = (matchhere re (t # ts) \<or> match_from re ts)"

definition match :: "ustr \<Rightarrow> ustr \<Rightarrow> bool" where
  "match re tx = (case re of
     [] \<Rightarrow> match_from re tx
   | c # re' \<Rightarrow> if c = CARET then matchhere re' tx else match_from re tx)"

section \<open>The language of a pattern\<close>

datatype item = One uchar | Many uchar

fun pattern_items :: "ustr \<Rightarrow> item list \<times> bool" where
  "pattern_items [] = ([], False)"
| "pattern_items [c] = (if c = DOLLAR then ([], True) else ([One c], False))"
| "pattern_items (c # d # re) =
     (if d = STAR then apfst (Cons (Many c)) (pattern_items re)
      else apfst (Cons (One c)) (pattern_items (d # re)))"

definition fits :: "uchar \<Rightarrow> uchar \<Rightarrow> bool" where
  "fits c t \<longleftrightarrow> c = DOT \<or> c = t"

fun words_of :: "item list \<Rightarrow> ustr set" where
  "words_of [] = {[]}"
| "words_of (One c # is) = {t # w | t w. fits c t \<and> w \<in> words_of is}"
| "words_of (Many c # is) = {u @ w | u w. (\<forall>t \<in> set u. fits c t) \<and> w \<in> words_of is}"

text \<open>A prefix of the text is a word of the pattern, and the whole text is when the pattern ends in a dollar sign.\<close>

definition prefix_fits :: "item list \<times> bool \<Rightarrow> ustr \<Rightarrow> bool" where
  "prefix_fits p tx \<longleftrightarrow> (\<exists>u v. tx = u @ v \<and> u \<in> words_of (fst p) \<and> (snd p \<longrightarrow> v = []))"

lemma prefix_fits_Nil: "prefix_fits ([], b) tx \<longleftrightarrow> (b \<longrightarrow> tx = [])"
  by (auto simp: prefix_fits_def)

lemma prefix_fits_One:
  "prefix_fits (One c # is, b) tx \<longleftrightarrow> (case tx of [] \<Rightarrow> False | t # ts \<Rightarrow> fits c t \<and> prefix_fits (is, b) ts)"
  by (cases tx) (auto simp: prefix_fits_def Cons_eq_append_conv)

lemma prefix_fits_ManyI:
  assumes "\<forall>t \<in> set u. fits c t" and "w \<in> words_of is" and "b \<longrightarrow> v = []"
  shows "prefix_fits (Many c # is, b) (u @ w @ v)"
proof -
  have "u @ w \<in> words_of (Many c # is)" using assms by auto
  then show ?thesis using assms(3) unfolding prefix_fits_def by (metis append.assoc fst_conv snd_conv)
qed

lemma prefix_fits_Many:
  "prefix_fits (Many c # is, b) tx \<longleftrightarrow>
    prefix_fits (is, b) tx \<or> (case tx of [] \<Rightarrow> False | t # ts \<Rightarrow> fits c t \<and> prefix_fits (Many c # is, b) ts)"
proof
  assume "prefix_fits (Many c # is, b) tx"
  then obtain y v where y: "tx = y @ v" "y \<in> words_of (Many c # is)" "b \<longrightarrow> v = []" by (auto simp: prefix_fits_def)
  then obtain u w where "y = u @ w" "\<forall>t \<in> set u. fits c t" "w \<in> words_of is" by auto
  with y have t: "tx = (u @ w) @ v" "\<forall>t \<in> set u. fits c t" "w \<in> words_of is" "b \<longrightarrow> v = []" by simp_all
  show "prefix_fits (is, b) tx \<or> (case tx of [] \<Rightarrow> False | t # ts \<Rightarrow> fits c t \<and> prefix_fits (Many c # is, b) ts)"
  proof (cases u)
    case Nil
    then show ?thesis using t by (auto simp: prefix_fits_def)
  next
    case (Cons x xs)
    then have "prefix_fits (Many c # is, b) (xs @ w @ v)" using t by (intro prefix_fits_ManyI) auto
    then show ?thesis using t Cons by simp
  qed
next
  assume "prefix_fits (is, b) tx \<or> (case tx of [] \<Rightarrow> False | t # ts \<Rightarrow> fits c t \<and> prefix_fits (Many c # is, b) ts)"
  then show "prefix_fits (Many c # is, b) tx"
  proof
    assume "prefix_fits (is, b) tx"
    then obtain u v where "tx = u @ v" "u \<in> words_of is" "b \<longrightarrow> v = []" by (auto simp: prefix_fits_def)
    then show ?thesis using prefix_fits_ManyI [of "[]" c u] by simp
  next
    assume "case tx of [] \<Rightarrow> False | t # ts \<Rightarrow> fits c t \<and> prefix_fits (Many c # is, b) ts"
    then obtain t ts where t: "tx = t # ts" "fits c t" "prefix_fits (Many c # is, b) ts" by (cases tx) auto
    then obtain y v where "ts = y @ v" "y \<in> words_of (Many c # is)" "b \<longrightarrow> v = []" by (auto simp: prefix_fits_def)
    with t obtain u w where "tx = t # (u @ w) @ v" "fits c t" "\<forall>t \<in> set u. fits c t" "w \<in> words_of is" "b \<longrightarrow> v = []" by auto
    then show ?thesis using prefix_fits_ManyI [of "t # u" c w] by simp
  qed
qed

lemma matchhere_iff:
  "matchhere re tx \<longleftrightarrow> prefix_fits (pattern_items re) tx"
  "matchstar c re tx \<longleftrightarrow> prefix_fits (apfst (Cons (Many c)) (pattern_items re)) tx"
proof (induction re tx and c re tx rule: matchhere_matchstar.induct)
  case (1 tx)
  then show ?case by (simp add: prefix_fits_Nil)
next
  case (2 c tx)
  then show ?case by (cases tx) (auto simp: prefix_fits_One fits_def prefix_fits_Nil)
next
  case (3 c d re tx)
  show ?case
  proof (cases "d = STAR")
    case True
    then show ?thesis using 3 by simp
  next
    case False
    obtain "is" b where "pattern_items (d # re) = (is, b)" by (cases "pattern_items (d # re)")
    then show ?thesis using 3 False by (cases tx) (simp_all add: prefix_fits_One fits_def)
  qed
next
  case (4 c re tx)
  obtain "is" b where "pattern_items re = (is, b)" by (cases "pattern_items re")
  then show ?case
    using 4 prefix_fits_Many [of c "is" b tx]
    by (cases tx) (auto simp: fits_def matchstar.simps [of c re "[]"] matchstar.simps [of c re "_ # _"])
qed

lemma match_from_iff: "match_from re tx \<longleftrightarrow> (\<exists>u v. tx = u @ v \<and> matchhere re v)"
  by (induction tx) (auto simp: Cons_eq_append_conv)

text \<open>C37: The recursive matcher of \<open>grep\<close> (src/grep.c) decides the language of the pattern: some part of the
  tx is a word of it, at the start of the tx after a caret and at its end before a dollar sign, where
  a dot stands for any character and a starred character for any number of copies.\<close>

theorem match_finds_language:
  "match re tx \<longleftrightarrow>
    (if re \<noteq> [] \<and> hd re = CARET then prefix_fits (pattern_items (tl re)) tx
     else \<exists>u v. tx = u @ v \<and> prefix_fits (pattern_items re) v)"
  by (cases re) (simp_all add: match_def matchhere_iff match_from_iff)

section \<open>The program\<close>

definition BUFSIZE :: nat where "BUFSIZE = 1024"

text \<open>
  The loop over the lines in the buffer, from \<open>p\<close> on. Each turn passes a newline of the buffer, so
  \<open>BUFSIZE\<close> turns are enough. A line is the string at \<open>p\<close> once its newline is overwritten.
\<close>

primrec grep_lines :: "nat \<Rightarrow> ustr \<Rightarrow> bytes \<Rightarrow> nat \<Rightarrow> ('z uproc_scheme, bytes \<times> nat) kmon" where
  "grep_lines 0 pat buf p = ret (buf, p)"
| "grep_lines (Suc k) pat buf p = (case strchr buf p NEWLINE of
     None \<Rightarrow> panic ''out of bounds''
   | Some None \<Rightarrow> ret (buf, p)
   | Some (Some q) \<Rightarrow>
       let buf1 = buf(q := 0) in
       if match pat (cstr buf1 p (q + 1 - p)) then
         let buf2 = buf1(q := NEWLINE) in
         sqn (sysx (U_write 1 (span buf2 p (q + 1 - p)))) (grep_lines k pat buf2 (q + 1))
       else grep_lines k pat buf1 (q + 1))"

definition grep_body :: "ustr \<Rightarrow> int \<Rightarrow> bytes \<times> nat \<Rightarrow> ('z uproc_scheme, (bytes \<times> nat) + unit) kmon" where
  "grep_body pat fd = (\<lambda>(buf, m). bnd (sys (U_read fd (int BUFSIZE - int m - 1))) (\<lambda>r.
     if r_val r \<le> 0 then ret (Inr ())
     else
       let m1 = m + nat (r_val r);
           buf1 = (memmove_from buf m (list_bytes (r_data r)) 0 (length (r_data r)))(m1 := 0)
       in bnd (grep_lines BUFSIZE pat buf1 0) (\<lambda>(buf2, p).
         let m2 = (if p = 0 then 0 else m1) in
         if m2 > 0 then ret (Inl (ulib_memmove buf2 0 p (int m2 - int p), m2 - p))
         else ret (Inl (buf2, m2)))))"

definition grep :: "ustr \<Rightarrow> int \<Rightarrow> bytes \<Rightarrow> ('z uproc_scheme, unit) kmon" where
  "grep pat fd buf = while_sys (grep_body pat fd) (buf, 0)"

text \<open>The buffer is static: a second file starts with what the first one left; \<open>grep\<close> overwrites it before use.\<close>

fun grep_files :: "ustr \<Rightarrow> ustr list \<Rightarrow> ('z uproc_scheme, unit) kmon" where
  "grep_files pat [] = ret ()"
| "grep_files pat (f # fs) = bnd (sysv (U_open f 0)) (\<lambda>fd.
     if fd < 0 then sqn (uprintf 1 (''grep: cannot open %s'' @ [CHR 0x0A]) [AS f]) uexit
     else stmts [grep pat fd (\<lambda>_. 0), sysx (U_close fd), grep_files pat fs])"

definition grep_main :: "ustr list \<Rightarrow> ('z uproc_scheme, unit) kmon" where
  "grep_main argv =
     (if length argv \<le> 1 then sqn (uprintf 2 (''usage: grep pattern [file ...]'' @ [CHR 0x0A]) []) uexit
      else if length argv \<le> 2 then sqn (grep (argv ! 1) 0 (\<lambda>_. 0)) uexit
      else sqn (grep_files (argv ! 1) (drop 2 argv)) uexit)"

section \<open>Lines in the buffer\<close>

lemma strchr_from:
  assumes "p \<le> q" and "\<forall>j. p \<le> j \<and> j < q \<longrightarrow> m j \<noteq> 0 \<and> m j \<noteq> c"
  shows "m q = c \<Longrightarrow> c \<noteq> 0 \<Longrightarrow> strchr m p c = Some (Some q)" and "m q = 0 \<Longrightarrow> strchr m p c = Some None"
proof -
  have "strchr m p c = strchr m q c"
    using assms
  proof (induction "q - p" arbitrary: p)
    case (Suc n)
    then have "m p \<noteq> 0" "m p \<noteq> c" by auto
    then have "strchr m p c = strchr m (p + 1) c" by (subst strchr.simps) simp
    also have "\<dots> = strchr m q c" using Suc.hyps(2) Suc.prems by (intro Suc.hyps(1)) auto
    finally show ?case .
  qed simp
  then show "m q = c \<Longrightarrow> c \<noteq> 0 \<Longrightarrow> strchr m p c = Some (Some q)" "m q = 0 \<Longrightarrow> strchr m p c = Some None"
    by (simp_all add: strchr.simps [of m q c])
qed

lemma takes_grep_lines [takes_intros]: "takes 0 (grep_lines k pat buf p)"
proof (induction k arbitrary: buf p)
  case (Suc k)
  show ?case unfolding grep_lines.simps by (intro takes_intros Suc)
qed (unfold grep_lines.simps, rule takes_ret)

lemma grep_body_consumes: "consumes (grep_body pat fd)"
  unfolding grep_body_def by (intro consumesI takes_prod takes_sys1 takes_intros)

text \<open>A line has no newline and no NUL.\<close>

definition plain :: "ustr \<Rightarrow> bool" where
  "plain l \<longleftrightarrow> NEWLINE \<notin> set l \<and> 0 \<notin> set l"

definition join_lines :: "ustr list \<Rightarrow> ustr" where
  "join_lines ls = concat (map (\<lambda>l. l @ [NEWLINE]) ls)"

fun holds_at :: "bytes \<Rightarrow> nat \<Rightarrow> ustr \<Rightarrow> bool" where
  "holds_at m p [] = True"
| "holds_at m p (x # xs) = (m p = x \<and> holds_at m (p + 1) xs)"

lemma holds_at_append: "holds_at m p (xs @ ys) \<longleftrightarrow> holds_at m p xs \<and> holds_at m (p + length xs) ys"
  by (induction xs arbitrary: p) auto

lemma holds_at_span: "holds_at m p xs \<Longrightarrow> span m p (length xs) = xs"
  by (induction xs arbitrary: p) (auto simp: span_Suc)

lemma holds_at_cong: "(\<And>x. p \<le> x \<Longrightarrow> x < p + length xs \<Longrightarrow> m x = m' x) \<Longrightarrow> holds_at m p xs = holds_at m' p xs"
  by (induction xs arbitrary: p) auto

lemma holds_at_shift:
  "holds_at m p xs \<Longrightarrow> (\<And>x. x < length xs \<Longrightarrow> m' (q + x) = m (p + x)) \<Longrightarrow> holds_at m' q xs"
proof (induction xs arbitrary: p q)
  case (Cons y xs)
  have "holds_at m' (q + 1) xs"
    by (rule Cons.IH [of "p + 1"]) (use Cons.prems(1) Cons.prems(2) [of "Suc _"] in auto)
  then show ?case using Cons.prems(1) Cons.prems(2) [of 0] by simp
qed simp

lemma plain_at:
  assumes "plain l" and "holds_at m p l" and "p \<le> j" and "j < p + length l"
  shows "m j \<noteq> 0" "m j \<noteq> NEWLINE"
proof -
  have "m j \<in> set l" using assms(2-4)
  proof (induction l arbitrary: p)
    case (Cons x l)
    then show ?case using Cons.IH [of "p + 1"] by (cases "j = p") auto
  qed simp
  then show "m j \<noteq> 0" "m j \<noteq> NEWLINE" using assms(1) by (auto simp: plain_def)
qed

lemma cstr_line:
  assumes "plain l" and "holds_at m p l" and "m (p + length l) = 0"
  shows "cstr m p (length l + 1) = l"
proof -
  have "span m p (length l + 1) = l @ [0]"
    using holds_at_span [of m p "l @ [0]"] assms by (simp add: holds_at_append)
  moreover have "takeWhile (\<lambda>c. c \<noteq> 0) (l @ [0]) = l" using assms(1) by (subst takeWhile_append2) (auto simp: plain_def)
  ultimately show ?thesis by (simp add: cstr_def)
qed

lemma grep_lines_prints:
  assumes "\<forall>l \<in> set ls. plain l" and "plain rest" and "holds_at buf p (join_lines ls @ rest)"
    and "buf (p + length (join_lines ls @ rest)) = 0" and "length ls < k"
    and "replies s = ws @ rs" and "length ws = length (filter (match pat) ls)"
  shows "\<exists>buf'. grep_lines k pat buf p s = Ok (buf', p + length (join_lines ls))
    (s\<lparr>replies := rs, calls := calls s @ map (\<lambda>l. U_write 1 (l @ [NEWLINE])) (filter (match pat) ls)\<rparr>) \<and>
    (\<forall>x \<ge> p + length (join_lines ls). buf' x = buf x)"
  using assms
proof (induction ls arbitrary: buf p k s ws)
  case Nil
  then obtain j where "k = Suc j" by (cases k) auto
  moreover have "strchr buf p NEWLINE = Some None"
    by (rule strchr_from(2) [of p "p + length rest"]) (use Nil plain_at [of rest buf p] in \<open>auto simp: join_lines_def\<close>)
  ultimately show ?case using Nil by (auto simp: join_lines_def ret_def)
next
  case (Cons l ls)
  obtain j where k: "k = Suc j" using Cons.prems(5) by (cases k) auto
  let ?q = "p + length l"
  have l: "plain l" using Cons.prems(1) by simp
  have j: "join_lines (l # ls) = (l @ [NEWLINE]) @ join_lines ls" by (simp add: join_lines_def)
  have h: "holds_at buf p (l @ [NEWLINE])" "holds_at buf (?q + 1) (join_lines ls @ rest)"
    using Cons.prems(3) unfolding j append_assoc holds_at_append by (auto simp: add.assoc)
  then have hl: "holds_at buf p l" "buf ?q = NEWLINE" by (simp_all add: holds_at_append)
  have q: "strchr buf p NEWLINE = Some (Some ?q)"
    by (rule strchr_from(1)) (use hl plain_at [OF l hl(1)] in \<open>auto simp: NEWLINE_def\<close>)
  let ?b1 = "buf(?q := 0)" and ?b2 = "(buf(?q := 0))(?q := NEWLINE)"
  have c: "cstr ?b1 p (?q + 1 - p) = l"
    using cstr_line [OF l, of ?b1 p] hl holds_at_cong [of p l buf ?b1] by simp
  have sp: "span ?b2 p (?q + 1 - p) = l @ [NEWLINE]"
    using holds_at_span [OF h(1)] hl(2) by (simp add: fun_upd_idem)
  have IH: "\<exists>buf'. grep_lines j pat b (?q + 1) t = Ok (buf', ?q + 1 + length (join_lines ls))
      (t\<lparr>replies := rs, calls := calls t @ map (\<lambda>l. U_write 1 (l @ [NEWLINE])) (filter (match pat) ls)\<rparr>) \<and>
      (\<forall>x \<ge> ?q + 1 + length (join_lines ls). buf' x = b x)"
    if "\<forall>x \<ge> ?q + 1. b x = buf x" "replies t = vs @ rs" "length vs = length (filter (match pat) ls)" for b vs and t :: "'a uproc_scheme"
  proof (rule Cons.IH)
    show "holds_at b (?q + 1) (join_lines ls @ rest)" using h(2) that(1) holds_at_cong [of "?q + 1" _ b buf] by simp
    show "b (?q + 1 + length (join_lines ls @ rest)) = 0" using Cons.prems(4) that(1) j by (simp add: add.assoc)
  qed (use Cons.prems k that in auto)
  show ?case
  proof (cases "match pat l")
    case True
    then obtain v vs where ws: "ws = v # vs" "length vs = length (filter (match pat) ls)" using Cons.prems(7) by (cases ws) auto
    let ?t = "s\<lparr>replies := vs @ rs, calls := calls s @ [U_write 1 (l @ [NEWLINE])]\<rparr>"
    have "sysx (U_write 1 (l @ [NEWLINE])) s = Ok () ?t" using Cons.prems(6) ws by (simp add: sysx_def sys_def bnd_def ret_def)
    then have "grep_lines k pat buf p s = grep_lines j pat ?b2 (?q + 1) ?t"
      unfolding k grep_lines.simps q using True c sp by (simp add: Let_def sqn_def bnd_def)
    with IH [of ?b2 ?t vs] ws(2) True hl(2) j show ?thesis by (auto simp: add.assoc fun_upd_idem)
  next
    case False
    have "grep_lines k pat buf p s = grep_lines j pat ?b1 (?q + 1) s"
      unfolding k grep_lines.simps q using False c by (simp add: Let_def)
    with IH [of ?b1 s ws] Cons.prems(6,7) False j show ?thesis by (auto simp: add.assoc)
  qed
qed

section \<open>A file read in pieces\<close>

fun split_lines :: "ustr \<Rightarrow> ustr list \<times> ustr" where
  "split_lines [] = ([], [])"
| "split_lines (x # xs) = (case split_lines xs of (ls, rest) \<Rightarrow>
     if x = NEWLINE then ([] # ls, rest)
     else case ls of [] \<Rightarrow> ([], x # rest) | l # ls' \<Rightarrow> ((x # l) # ls', rest))"

lemma split_lines_join:
  "split_lines xs = (ls, rest) \<Longrightarrow> xs = join_lines ls @ rest"
  by (induction xs arbitrary: ls rest) (auto simp: join_lines_def split: prod.splits if_splits list.splits)

lemma split_lines_plain:
  "split_lines xs = (ls, rest) \<Longrightarrow> 0 \<notin> set xs \<Longrightarrow> (\<forall>l \<in> set ls. plain l) \<and> plain rest"
  by (induction xs arbitrary: ls rest) (fastforce simp: plain_def split: prod.splits if_splits list.splits)+

lemma split_lines_newline: "split_lines xs = (ls, rest) \<Longrightarrow> ls = [] \<longleftrightarrow> NEWLINE \<notin> set xs"
  by (induction xs arbitrary: ls rest) (auto split: prod.splits if_splits list.splits)

lemma split_lines_rest: "split_lines xs = (ls, rest) \<Longrightarrow> NEWLINE \<notin> set rest"
  by (induction xs arbitrary: ls rest) (auto split: prod.splits if_splits list.splits)

lemma split_lines_append:
  "split_lines (xs @ ys) = (let (ls, rest) = split_lines xs; (ls', rest') = split_lines (rest @ ys) in (ls @ ls', rest'))"
  by (induction xs) (auto simp: Let_def split: prod.splits if_splits list.splits)

text \<open>What is kept for the next read: the rest after the last newline, and nothing when there is none.\<close>

definition carried :: "ustr \<Rightarrow> ustr" where
  "carried xs = (if fst (split_lines xs) = [] then [] else snd (split_lines xs))"

fun grep_out :: "ustr \<Rightarrow> ustr \<Rightarrow> ustr list \<Rightarrow> ustr list" where
  "grep_out pat c [] = []"
| "grep_out pat c (d # ds) = filter (match pat) (fst (split_lines (c @ d))) @ grep_out pat (carried (c @ d)) ds"

text \<open>
  The replies of a kernel that delivers the pieces \<open>ds\<close> of a file and then its end: a read
  returns at least one byte and no more than asked for, and every write returns.
\<close>

fun fed :: "ustr \<Rightarrow> ustr \<Rightarrow> ustr list \<Rightarrow> reply list \<Rightarrow> bool" where
  "fed pat c [] rs \<longleftrightarrow> (\<exists>r rs'. rs = r # rs' \<and> r_val r \<le> 0)"
| "fed pat c (d # ds) rs \<longleftrightarrow> d \<noteq> [] \<and> length c + length d < BUFSIZE \<and> (\<exists>r ws rs'. rs = r # ws @ rs' \<and>
     r_val r = int (length d) \<and> r_data r = d \<and> length ws = length (filter (match pat) (fst (split_lines (c @ d)))) \<and>
     fed pat (carried (c @ d)) ds rs')"

lemma fedI:
  assumes "d \<noteq> []" and "length c + length d < BUFSIZE" and "r_val r = int (length d)" and "r_data r = d"
    and "length ws = length (filter (match pat) (fst (split_lines (c @ d))))" and "fed pat (carried (c @ d)) ds rs"
  shows "fed pat c (d # ds) (r # ws @ rs)"
  using assms unfolding fed.simps by blast

definition written :: "'z uproc_scheme \<Rightarrow> ustr list" where
  "written s = concat (map (\<lambda>c. case c of U_write fd xs \<Rightarrow> [xs] | _ \<Rightarrow> []) (calls s))"

lemma holds_at_list_bytes: "holds_at (memmove_from m p (list_bytes xs) 0 (length xs)) p xs"
proof -
  have "holds_at (\<lambda>x. if p \<le> x \<and> x < p + length xs then xs ! (x - p) else m x) p xs"
  proof (induction xs arbitrary: p)
    case (Cons x xs)
    have "holds_at (\<lambda>y. if p + 1 \<le> y \<and> y < p + 1 + length xs then xs ! (y - (p + 1)) else m y) (p + 1) xs" by (rule Cons)
    then show ?case by (auto simp: nth_Cons' elim!: iffD1 [OF holds_at_cong, rotated])
  qed simp
  moreover have "holds_at (memmove_from m p (list_bytes xs) 0 (length xs)) p xs =
      holds_at (\<lambda>x. if p \<le> x \<and> x < p + length xs then xs ! (x - p) else m x) p xs"
    by (rule holds_at_cong) (auto simp: memmove_from_apply list_bytes_def)
  ultimately show ?thesis by simp
qed

lemma join_lines_length: "length ls \<le> length (join_lines ls)" "join_lines ls = [] \<longleftrightarrow> ls = []"
  by (induction ls) (auto simp: join_lines_def)

lemma grep_body_step:
  assumes c: "holds_at buf 0 c" "plain c" and d: "d \<noteq> []" "0 \<notin> set d" "length c + length d < BUFSIZE"
    and r: "replies s = r # ws @ rs" "r_val r = int (length d)" "r_data r = d"
      "length ws = length (filter (match pat) (fst (split_lines (c @ d))))"
  shows "\<exists>buf'. grep_body pat fd (buf, length c) s = Ok (Inl (buf', length (carried (c @ d))))
      (s\<lparr>replies := rs, calls := calls s @ U_read fd (int BUFSIZE - int (length c) - 1) #
        map (\<lambda>l. U_write 1 (l @ [NEWLINE])) (filter (match pat) (fst (split_lines (c @ d))))\<rparr>) \<and>
    holds_at buf' 0 (carried (c @ d)) \<and> plain (carried (c @ d))"
proof -
  obtain ls rest where sp: "split_lines (c @ d) = (ls, rest)" by (cases "split_lines (c @ d)")
  have pl: "\<forall>l \<in> set ls. plain l" "plain rest"
    using split_lines_plain [OF sp] c(2) d(2) by (auto simp: plain_def)
  note j = split_lines_join [OF sp]
  let ?m = "length c + length d"
  let ?b = "(memmove_from buf (length c) (list_bytes d) 0 (length d))(?m := 0)"
  have "holds_at ?b 0 c" using c(1) holds_at_cong [of 0 c buf ?b] by (simp add: memmove_from_apply)
  moreover have "holds_at ?b (length c) d"
    using holds_at_list_bytes [of buf "length c" d] holds_at_cong [of "length c" d ?b] by simp
  ultimately have h: "holds_at ?b 0 (join_lines ls @ rest)" unfolding j [symmetric] holds_at_append by simp
  have z: "?b (0 + length (join_lines ls @ rest)) = 0" unfolding j [symmetric] by simp
  have fuel: "length ls < BUFSIZE" using join_lines_length(1) [of ls] arg_cong [OF j, of length] d(3) by simp
  let ?t = "s\<lparr>replies := ws @ rs, calls := calls s @ [U_read fd (int BUFSIZE - int (length c) - 1)]\<rparr>"
  have "replies ?t = ws @ rs" "length ws = length (filter (match pat) ls)" using r(4) sp by simp_all
  from grep_lines_prints [OF pl h z fuel this, unfolded add_0] obtain b' where
    b': "grep_lines BUFSIZE pat ?b 0 ?t = Ok (b', length (join_lines ls))
      (?t\<lparr>replies := rs, calls := calls ?t @ map (\<lambda>l. U_write 1 (l @ [NEWLINE])) (filter (match pat) ls)\<rparr>)"
      "\<forall>x \<ge> length (join_lines ls). b' x = ?b x" by blast
  let ?k = "length (join_lines ls)"
  have m: "?m = ?k + length rest" using arg_cong [OF j, of length] by simp
  have run: "sys (U_read fd (int BUFSIZE - int (length c) - 1)) s = Ok r ?t" using r(1) by (simp add: sys_def)
  have "holds_at b' ?k rest"
    using h holds_at_cong [of ?k rest b' ?b] b'(2) unfolding holds_at_append by simp
  then have moved: "holds_at (ulib_memmove b' 0 ?k (int (length rest))) 0 rest"
    by (rule holds_at_shift) (simp add: ulib_memmove_def copy_up_apply)
  show ?thesis
  proof (cases "ls = []")
    case True
    then have "grep_body pat fd (buf, length c) s = Ok (Inl (b', 0)) (?t\<lparr>replies := rs, calls := calls ?t\<rparr>)"
      using run b'(1) d(1) r(2,3) by (simp add: grep_body_def bnd_def Let_def nat_int_add ret_def join_lines_def)
    then show ?thesis using True sp by (simp add: carried_def plain_def)
  next
    case False
    then have "?k \<noteq> 0" using join_lines_length(2) by simp
    then have "grep_body pat fd (buf, length c) s = Ok (Inl (ulib_memmove b' 0 ?k (int (length rest)), length rest))
      (?t\<lparr>replies := rs, calls := calls ?t @ map (\<lambda>l. U_write 1 (l @ [NEWLINE])) (filter (match pat) ls)\<rparr>)"
      using run b'(1) d(1) r(2,3) m by (simp add: grep_body_def bnd_def Let_def ret_def)
    then show ?thesis using False sp pl moved by (simp add: carried_def)
  qed
qed

lemma written_append: "written (s\<lparr>replies := rs, calls := calls s @ cs\<rparr>) = written s @ written (s\<lparr>calls := cs\<rparr>)"
  by (simp add: written_def)

lemma written_writes: "written (s\<lparr>replies := rs, calls := calls s @ U_read fd n # map (\<lambda>l. U_write 1 (l @ [NEWLINE])) ls\<rparr>) =
    written s @ map (\<lambda>l. l @ [NEWLINE]) ls"
proof -
  have "concat (map (\<lambda>c. case c of U_write fd xs \<Rightarrow> [xs] | _ \<Rightarrow> []) (map (\<lambda>l. U_write 1 (l @ [NEWLINE])) ls)) = map (\<lambda>l. l @ [NEWLINE]) ls"
    by (induction ls) auto
  then show ?thesis by (simp add: written_def)
qed

lemma grep_loop_out:
  assumes "holds_at buf 0 c" and "plain c" and "\<forall>d \<in> set ds. 0 \<notin> set d" and "fed pat c ds (replies s)"
  shows "\<exists>s'. while_sys (grep_body pat fd) (buf, length c) s = Ok () s' \<and>
    written s' = written s @ map (\<lambda>l. l @ [NEWLINE]) (grep_out pat c ds)"
  using assms
proof (induction ds arbitrary: buf c s)
  case Nil
  then obtain r rs where r: "replies s = r # rs" "r_val r \<le> 0" by auto
  then have "grep_body pat fd (buf, length c) s = Ok (Inr ()) (s\<lparr>replies := rs, calls := calls s @ [U_read fd (int BUFSIZE - int (length c) - 1)]\<rparr>)"
    by (simp add: grep_body_def bnd_def sys_def ret_def)
  then show ?case
    by (subst while_sys_unfold [OF grep_body_consumes]) (simp add: bnd_def ret_def written_def)
next
  case (Cons d ds)
  obtain r ws rs where r: "replies s = r # ws @ rs" "r_val r = int (length d)" "r_data r = d"
    "length ws = length (filter (match pat) (fst (split_lines (c @ d))))" "fed pat (carried (c @ d)) ds rs"
    and d: "d \<noteq> []" "length c + length d < BUFSIZE" using Cons.prems(4) by auto
  let ?w = "filter (match pat) (fst (split_lines (c @ d)))"
  let ?t = "s\<lparr>replies := rs, calls := calls s @ U_read fd (int BUFSIZE - int (length c) - 1) # map (\<lambda>l. U_write 1 (l @ [NEWLINE])) ?w\<rparr>"
  obtain buf' where b: "grep_body pat fd (buf, length c) s = Ok (Inl (buf', length (carried (c @ d)))) ?t"
    "holds_at buf' 0 (carried (c @ d))" "plain (carried (c @ d))"
    using grep_body_step [OF Cons.prems(1,2) d(1) _ d(2) r(1-4), of fd] Cons.prems(3) by auto
  have "\<exists>s'. while_sys (grep_body pat fd) (buf', length (carried (c @ d))) ?t = Ok () s' \<and>
      written s' = written ?t @ map (\<lambda>l. l @ [NEWLINE]) (grep_out pat (carried (c @ d)) ds)"
    by (rule Cons.IH [OF b(2,3)]) (use Cons.prems(3) r(5) in simp_all)
  then show ?case
    using b(1) by (subst while_sys_unfold [OF grep_body_consumes]) (simp add: bnd_def written_writes)
qed

lemma grep_out_whole:
  assumes "\<forall>d \<in> set ds. NEWLINE \<in> set d"
  shows "grep_out pat c ds = (if ds = [] then [] else filter (match pat) (fst (split_lines (c @ concat ds))))"
  using assms
proof (induction ds arbitrary: c)
  case (Cons d ds)
  obtain ls rest where sp: "split_lines (c @ d) = (ls, rest)" by (cases "split_lines (c @ d)")
  have "ls \<noteq> []" using split_lines_newline [OF sp] Cons.prems by simp
  then have c: "carried (c @ d) = rest" using sp by (simp add: carried_def)
  obtain ls' rest' where sp': "split_lines (rest @ concat ds) = (ls', rest')" by (cases "split_lines (rest @ concat ds)")
  have all: "split_lines (c @ concat (d # ds)) = (ls @ ls', rest')"
    using split_lines_append [of "c @ d" "concat ds"] sp sp' by (simp add: Let_def)
  have "NEWLINE \<notin> set rest" using split_lines_rest [OF sp] .
  then show ?case
    using Cons.IH [of rest] Cons.prems sp sp' all c by (cases "ds = []") (auto dest: split_lines_newline)
qed simp

text \<open>C38: \<open>grep\<close> (src/grep.c) on a file that arrives in pieces of which each has a newline writes
  exactly the lines that match the pattern, in order and with their newlines, whatever the lines cut
  by the ends of the pieces; a last line without a newline is not looked at.\<close>

theorem grep_prints_matching_lines:
  assumes "fed pat [] ds (replies s)" and "\<forall>d \<in> set ds. NEWLINE \<in> set d \<and> 0 \<notin> set d"
  shows "\<exists>s'. grep pat fd buf s = Ok () s' \<and>
    written s' = written s @ map (\<lambda>l. l @ [NEWLINE]) (filter (match pat) (fst (split_lines (concat ds))))"
  using grep_loop_out [of buf "[]" ds pat s fd] grep_out_whole [of ds pat "[]"] assms
  by (cases "ds = []") (auto simp: grep_def plain_def)

theorem grep_prints_matching_lines_witness:
  "\<exists>s'. grep (ascii ''b*c$'') 3 (\<lambda>_. 0) \<lparr>replies = [demo_reply 6 [97, 98, 99, 10, 97, 98], demo_reply 4 [], demo_reply 3 [98, 99, 10],
      demo_reply 5 [], demo_reply 0 []], calls = []\<rparr> = Ok () s' \<and> written s' = [[97, 98, 99, 10], [97, 98, 98, 99, 10]]"
proof -
  let ?s = "\<lparr>replies = [demo_reply 6 [97, 98, 99, 10, 97, 98], demo_reply 4 [], demo_reply 3 [98, 99, 10], demo_reply 5 [], demo_reply 0 []], calls = []\<rparr>"
  let ?ds = "[[97, 98, 99, 10, 97, 98], [98, 99, 10]] :: ustr list"
  have m: "match (ascii ''b*c$'') [97, 98, 99]" "match (ascii ''b*c$'') [97, 98, 98, 99]"
    by code_simp+
  have sp: "split_lines [97, 98, 99, 10, 97, 98] = ([[97, 98, 99]], [97, 98])" "split_lines [97, 98, 98, 99, 10] = ([[97, 98, 98, 99]], [])"
    "split_lines [97, 98, 99, 10, 97, 98, 98, 99, 10] = ([[97, 98, 99], [97, 98, 98, 99]], [])" by (simp_all add: NEWLINE_def)
  have "fed (ascii ''b*c$'') (carried [97, 98, 98, 99, 10]) [] [demo_reply 0 []]" by (simp add: demo_reply_def)
  then have "fed (ascii ''b*c$'') [97, 98] [[98, 99, 10]] (demo_reply 3 [98, 99, 10] # [demo_reply 5 []] @ [demo_reply 0 []])"
    by (intro fedI) (simp_all add: sp m demo_reply_def BUFSIZE_def del: split_lines.simps)
  then have "fed (ascii ''b*c$'') [] ?ds (demo_reply 6 [97, 98, 99, 10, 97, 98] # [demo_reply 4 []] @
      demo_reply 3 [98, 99, 10] # [demo_reply 5 []] @ [demo_reply 0 []])"
    by (intro fedI) (simp_all add: sp m carried_def demo_reply_def BUFSIZE_def del: split_lines.simps)
  then have "fed (ascii ''b*c$'') [] ?ds (replies ?s)" by simp
  from grep_prints_matching_lines [OF this, of 3 "\<lambda>_. 0"] show ?thesis
    using m sp by (simp add: NEWLINE_def written_def del: split_lines.simps)
qed

text \<open>A piece without a newline is dropped (src/grep.c): of a line that arrives in two reads, as from a
  pipe, \<open>grep\<close> sees only the second part.\<close>

theorem grep_loses_short_read:
  "\<exists>s'. grep (ascii ''ab'') 0 (\<lambda>_. 0) \<lparr>replies = [demo_reply 2 [97, 98], demo_reply 2 [99, 10], demo_reply 0 []], calls = []\<rparr> = Ok () s' \<and>
    written s' = [] \<and> match (ascii ''ab'') [97, 98, 99]"
proof -
  let ?s = "\<lparr>replies = [demo_reply 2 [97, 98], demo_reply 2 [99, 10], demo_reply 0 []], calls = []\<rparr>"
  have m: "match (ascii ''ab'') [97, 98, 99]" "\<not> match (ascii ''ab'') [99]" by code_simp+
  have sp: "split_lines [97, 98] = ([], [97, 98])" "split_lines [99, 10] = ([[99]], [])" by (simp_all add: NEWLINE_def)
  have "fed (ascii ''ab'') (carried [99, 10]) [] [demo_reply 0 []]" by (simp add: demo_reply_def)
  then have "fed (ascii ''ab'') [] [[99, 10]] (demo_reply 2 [99, 10] # [] @ [demo_reply 0 []])"
    by (intro fedI) (simp_all add: sp m demo_reply_def BUFSIZE_def del: split_lines.simps)
  then have "fed (ascii ''ab'') [] [[97, 98], [99, 10]] (demo_reply 2 [97, 98] # [] @ demo_reply 2 [99, 10] # [] @ [demo_reply 0 []])"
    by (intro fedI) (simp_all add: sp m carried_def demo_reply_def BUFSIZE_def del: split_lines.simps)
  then have f: "fed (ascii ''ab'') [] [[97, 98], [99, 10]] (replies ?s)" by simp
  have "\<exists>s'. while_sys (grep_body (ascii ''ab'') 0) ((\<lambda>_. 0), length ([] :: ustr)) ?s = Ok () s' \<and>
      written s' = written ?s @ map (\<lambda>l. l @ [NEWLINE]) (grep_out (ascii ''ab'') [] [[97, 98], [99, 10]])"
    by (rule grep_loop_out [OF _ _ _ f]) (auto simp: plain_def)
  then show ?thesis using m sp by (simp add: grep_def carried_def written_def del: split_lines.simps)
qed

end
