(* ===== verification/Shell.thy ===== *)
theory Shell
  imports User
begin

text \<open>
  The shell (src/sh.c): the tokenizer, the recursive-descent parser, \<open>nulterminate\<close>, \<open>runcmd\<close> and
  the main loop.

  A pointer into the command line is the rest of the line from there on, up to the NUL; \<open>es\<close> is
  the empty rest. The parser functions call each other on what is left of the line; their first
  argument bounds the depth of these calls, and \<open>Running\<close> is the result when it is used up.
  \<open>parsecmd\<close> starts with a bound that the length of the line determines. A command that
  \<open>panic\<close> reports is \<open>Syntax\<close>. The memory a command takes is not part of the model: \<open>malloc\<close> is taken
  to succeed, which the shell does not check, and its calls of \<open>sbrk\<close> are not among the \<open>calls\<close>.
\<close>

section \<open>Commands\<close>

definition MAXARGS :: nat where "MAXARGS = 10"

datatype cmd =
    EXEC "(ustr \<times> ustr) list"
  | REDIR cmd ustr ustr int int
  | PIPE cmd cmd
  | LIST cmd cmd
  | BACK cmd

section \<open>Tokens\<close>

definition is_white :: "uchar \<Rightarrow> bool" where
  "is_white c \<longleftrightarrow> c \<in> {32, 9, 13, 10, 11}"

definition is_symbol :: "uchar \<Rightarrow> bool" where
  "is_symbol c \<longleftrightarrow> c \<in> set (ascii ''<|>&;()'')"

definition tok :: "char \<Rightarrow> uchar" where
  "tok c = of_char c"

text \<open>The kind of the token at \<open>s\<close> and where it ends.\<close>

definition scan_token :: "ustr \<Rightarrow> uchar \<times> ustr" where
  "scan_token s = (case s of
     [] \<Rightarrow> (0, [])
   | c # cs \<Rightarrow>
       if c \<in> set (ascii ''|();&<'') then (c, cs)
       else if c = tok (CHR ''>'') then
         (if cs \<noteq> [] \<and> hd cs = tok (CHR ''>'') then (tok (CHR ''+''), tl cs) else (c, cs))
       else (tok (CHR ''a''), dropWhile (\<lambda>c. \<not> is_white c \<and> \<not> is_symbol c) s))"

text \<open>The kind of a token, its start and end, and where the next one starts.\<close>

definition gettoken :: "ustr \<Rightarrow> uchar \<times> ustr \<times> ustr \<times> ustr" where
  "gettoken s0 =
     (let q = dropWhile is_white s0; (rt, eq) = scan_token q
      in (rt, q, eq, dropWhile is_white eq))"

definition peek :: "ustr \<Rightarrow> string \<Rightarrow> ustr \<times> bool" where
  "peek s0 toks = (let s = dropWhile is_white s0 in (s, s \<noteq> [] \<and> hd s \<in> set (ascii toks)))"

section \<open>The parser\<close>

datatype 'a parsed = Running | Syntax string | Parsed 'a ustr

definition pbind :: "'a parsed \<Rightarrow> ('a \<Rightarrow> ustr \<Rightarrow> 'b parsed) \<Rightarrow> 'b parsed" where
  "pbind r k = (case r of Running \<Rightarrow> Running | Syntax e \<Rightarrow> Syntax e | Parsed x s \<Rightarrow> k x s)"

primrec parseredirs :: "nat \<Rightarrow> cmd \<Rightarrow> ustr \<Rightarrow> cmd parsed" where
  "parseredirs 0 c s = Running"
| "parseredirs (Suc n) c s = (case peek s ''<>'' of (s, p) \<Rightarrow>
     if \<not> p then Parsed c s
     else case gettoken s of (t, _, _, s) \<Rightarrow> case gettoken s of (u, q, eq, s) \<Rightarrow>
       if u \<noteq> tok (CHR ''a'') then Syntax ''missing file for redirection''
       else if t = tok (CHR ''<'') then parseredirs n (REDIR c q eq O_RDONLY 0) s
       else if t = tok (CHR ''>'') then parseredirs n (REDIR c q eq (O_WRONLY OR O_CREATE) 1) s
       else if t = tok (CHR ''+'') then parseredirs n (REDIR c q eq (O_WRONLY OR O_CREATE) 1) s
       else parseredirs n c s)"

text \<open>
  The command that \<open>parseexec\<close> builds is shared: the redirections are wrapped around it while its
  arguments are still being stored. \<open>set_args\<close> stores them in the innermost command.
\<close>

primrec set_args :: "(ustr \<times> ustr) list \<Rightarrow> cmd \<Rightarrow> cmd" where
  "set_args as (EXEC _) = EXEC as"
| "set_args as (REDIR c q eq m fd) = REDIR (set_args as c) q eq m fd"
| "set_args as (PIPE l r) = PIPE l r"
| "set_args as (LIST l r) = LIST l r"
| "set_args as (BACK c) = BACK c"

primrec parseargs :: "nat \<Rightarrow> (ustr \<times> ustr) list \<Rightarrow> cmd \<Rightarrow> ustr \<Rightarrow> cmd parsed" where
  "parseargs 0 as rt s = Running"
| "parseargs (Suc n) as rt s = (case peek s ''|)&;'' of (s, p) \<Rightarrow>
     if p then Parsed (set_args as rt) s
     else case gettoken s of (t, q, eq, s) \<Rightarrow>
       if t = 0 then Parsed (set_args as rt) s
       else if t \<noteq> tok (CHR ''a'') then Syntax ''syntax''
       else if length as + 1 \<ge> MAXARGS then Syntax ''too many args''
       else pbind (parseredirs n rt s) (\<lambda>rt s. parseargs n (as @ [(q, eq)]) rt s))"

primrec parseback :: "nat \<Rightarrow> cmd \<Rightarrow> ustr \<Rightarrow> cmd parsed" where
  "parseback 0 c s = Running"
| "parseback (Suc n) c s = (case peek s ''&'' of (s, p) \<Rightarrow>
     if p then case gettoken s of (_, _, _, s) \<Rightarrow> parseback n (BACK c) s else Parsed c s)"

fun parseline :: "nat \<Rightarrow> ustr \<Rightarrow> cmd parsed"
  and parsepipe :: "nat \<Rightarrow> ustr \<Rightarrow> cmd parsed"
  and parseexec :: "nat \<Rightarrow> ustr \<Rightarrow> cmd parsed"
  and parseblock :: "nat \<Rightarrow> ustr \<Rightarrow> cmd parsed" where
  "parseline 0 s = Running"
| "parseline (Suc n) s = pbind (parsepipe n s) (\<lambda>c s. pbind (parseback n c s) (\<lambda>c s.
     case peek s '';'' of (s, p) \<Rightarrow>
       if p then case gettoken s of (_, _, _, s) \<Rightarrow> pbind (parseline n s) (\<lambda>r s. Parsed (LIST c r) s)
       else Parsed c s))"
| "parsepipe 0 s = Running"
| "parsepipe (Suc n) s = pbind (parseexec n s) (\<lambda>c s.
     case peek s ''|'' of (s, p) \<Rightarrow>
       if p then case gettoken s of (_, _, _, s) \<Rightarrow> pbind (parsepipe n s) (\<lambda>r s. Parsed (PIPE c r) s)
       else Parsed c s)"
| "parseexec 0 s = Running"
| "parseexec (Suc n) s = (case peek s ''('' of (s, p) \<Rightarrow>
     if p then parseblock n s
     else pbind (parseredirs n (EXEC []) s) (\<lambda>rt s. parseargs n [] rt s))"
| "parseblock 0 s = Running"
| "parseblock (Suc n) s = (case peek s ''('' of (s, p) \<Rightarrow>
     if \<not> p then Syntax ''parseblock''
     else case gettoken s of (_, _, _, s) \<Rightarrow> pbind (parseline n s) (\<lambda>c s.
       case peek s '')'' of (s, p) \<Rightarrow>
         if \<not> p then Syntax ''syntax - missing )''
         else case gettoken s of (_, _, _, s) \<Rightarrow> parseredirs n c s))"

definition parse_fuel :: "ustr \<Rightarrow> nat" where
  "parse_fuel s = 4 * length s + 4"

text \<open>The parse and what is left of the line after it; \<open>parsecmd\<close> reports a rest that is not empty.\<close>

definition parse :: "ustr \<Rightarrow> cmd parsed" where
  "parse s = pbind (parseline (parse_fuel s) s) (\<lambda>c s. Parsed c (fst (peek s '''')))"

section \<open>Terminating the strings\<close>

text \<open>The line is \<open>buf\<close>; the place a pointer denotes in it is given by how much is left from there.\<close>

definition place :: "ustr \<Rightarrow> ustr \<Rightarrow> nat" where
  "place buf p = length buf - length p"

fun nulterminate :: "cmd \<Rightarrow> ustr \<Rightarrow> ustr" where
  "nulterminate (EXEC as) b = foldl (\<lambda>b a. b[place b (snd a) := 0]) b as"
| "nulterminate (REDIR c q eq m fd) b = (let b = nulterminate c b in b[place b eq := 0])"
| "nulterminate (PIPE l r) b = nulterminate r (nulterminate l b)"
| "nulterminate (LIST l r) b = nulterminate r (nulterminate l b)"
| "nulterminate (BACK c) b = nulterminate c b"

definition string_at :: "ustr \<Rightarrow> ustr \<Rightarrow> ustr" where
  "string_at buf p = takeWhile (\<lambda>c. c \<noteq> 0) (drop (place buf p) buf)"

section \<open>Running commands\<close>

definition sh_panic :: "string \<Rightarrow> ('z uproc_scheme, 'a) kmon" where
  "sh_panic msg = sqn (uprintf 2 (''%s'' @ [CHR 0x0A]) [AS (ascii msg)]) uexit"

definition fork1 :: "('z uproc_scheme, int) kmon" where
  "fork1 = bnd (sysv U_fork) (\<lambda>pid. if pid = - 1 then sh_panic ''fork'' else ret pid)"

primrec runcmd :: "ustr \<Rightarrow> cmd \<Rightarrow> ('z uproc_scheme, 'a) kmon" where
  "runcmd buf (EXEC as) =
     (if as = [] then uexit
      else
        let argv = map (\<lambda>a. string_at buf (fst a)) as
        in sqn (sysx (U_exec (hd argv) argv)) (sqn (uprintf 2 (''exec %s failed'' @ [CHR 0x0A]) [AS (hd argv)]) uexit))"
| "runcmd buf (REDIR c q eq m fd) = sqn (sysx (U_close fd)) (bnd (sysv (U_open (string_at buf q) m)) (\<lambda>r.
     if r < 0 then sqn (uprintf 2 (''open %s failed'' @ [CHR 0x0A]) [AS (string_at buf q)]) uexit
     else runcmd buf c))"
| "runcmd buf (LIST l r) = bnd fork1 (\<lambda>pid.
     if pid = 0 then runcmd buf l else sqn (sysx U_wait) (runcmd buf r))"
| "runcmd buf (PIPE l r) = bnd (sys U_pipe) (\<lambda>rp.
     if r_val rp < 0 then sh_panic ''pipe''
     else case r_fds rp of (p0, p1) \<Rightarrow> bnd fork1 (\<lambda>pid.
       if pid = 0 then sqn (stmts [sysx (U_close 1), sysx (U_dup p1), sysx (U_close p0), sysx (U_close p1)]) (runcmd buf l)
       else bnd fork1 (\<lambda>pid.
         if pid = 0 then sqn (stmts [sysx (U_close 0), sysx (U_dup p0), sysx (U_close p0), sysx (U_close p1)]) (runcmd buf r)
         else sqn (stmts [sysx (U_close p0), sysx (U_close p1), sysx U_wait, sysx U_wait]) uexit)))"
| "runcmd buf (BACK c) = bnd fork1 (\<lambda>pid. if pid = 0 then runcmd buf c else uexit)"

section \<open>The main loop\<close>

text \<open>\<open>gets\<close> may store NULs it reads; the line is what comes before the first.\<close>

definition getcmd :: "('z uproc_scheme, ustr) kmon" where
  "getcmd = sqn (uprintf 2 ''$ '' []) (bnd (ugets 100) (\<lambda>b. ret (takeWhile (\<lambda>c. c \<noteq> 0) b)))"

definition parsecmd :: "ustr \<Rightarrow> (cmd \<Rightarrow> ustr \<Rightarrow> ('z uproc_scheme, 'a) kmon) \<Rightarrow> ('z uproc_scheme, 'a) kmon" where
  "parsecmd s k = (case parse s of
     Running \<Rightarrow> block
   | Syntax e \<Rightarrow> sh_panic e
   | Parsed c rest \<Rightarrow>
       if rest \<noteq> [] then sqn (uprintf 2 (''leftovers: %s'' @ [CHR 0x0A]) [AS rest]) (sh_panic ''syntax'')
       else k c (nulterminate c s))"

definition sh_body :: "unit \<Rightarrow> ('z uproc_scheme, unit + unit) kmon" where
  "sh_body _ = bnd getcmd (\<lambda>buf.
     if buf = [] then ret (Inr ())
     else if take 3 buf = ascii ''cd '' then
       let dir = drop 3 (butlast buf) in
       bnd (sysv (U_chdir dir)) (\<lambda>r.
         sqn (whenM (r < 0) (uprintf 2 (''cannot cd %s'' @ [CHR 0x0A]) [AS dir])) (ret (Inl ())))
     else bnd fork1 (\<lambda>pid.
       if pid = 0 then parsecmd buf (\<lambda>c b. runcmd b c)
       else sqn (sysx U_wait) (ret (Inl ()))))"

definition sh_open :: "unit \<Rightarrow> ('z uproc_scheme, unit + unit) kmon" where
  "sh_open _ = bnd (sysv (U_open (ascii ''console'') O_RDWR)) (\<lambda>fd.
     if fd < 0 then ret (Inr ())
     else if fd \<ge> 3 then sqn (sysx (U_close fd)) (ret (Inr ()))
     else ret (Inl ()))"

definition sh_main :: "('z uproc_scheme, unit) kmon" where
  "sh_main = stmts [while_sys sh_open (), while_sys sh_body (), uexit]"

section \<open>The loops\<close>

text \<open>Each turn of the two loops of \<open>main\<close> takes a reply, so \<open>while_sys\<close> is the loop of the source.\<close>

lemma takes_fork1 [takes_intros]: "takes n (sh_panic msg)" "takes 0 fork1"
proof -
  show p: "takes n (sh_panic msg)" for n msg
    using takes_bnd [where n = 0 and k = n, OF takes_uprintf takes_uexit] by (simp add: sh_panic_def sqn_def)
  show "takes 0 fork1" unfolding fork1_def by (intro takes_intros p)
qed

lemma takes_runcmd [takes_intros]: "takes 0 (runcmd buf c)"
  by (induction c) (simp_all only: runcmd.simps, (intro takes_intros; assumption)+)

lemma takes_whenM [takes_intros]: "takes 0 m \<Longrightarrow> takes 0 (whenM b m)"
  by (simp add: whenM_def takes_ret)

lemma takes_ugets [takes_intros]: "takes 0 (ugets mx)"
proof -
  have "takes 0 (ugets_loop k)" for k
    by (induction k) (simp_all only: ugets_loop.simps, (intro takes_intros; assumption)+)
  then show ?thesis by (simp add: ugets_def)
qed

lemma takes_parsecmd [takes_intros]: "(\<And>c b. takes 0 (k c b)) \<Longrightarrow> takes 0 (parsecmd s k)"
  unfolding parsecmd_def by (cases "parse s") (simp_all only: parsed.case, (intro takes_intros; assumption?)+)

lemma sh_open_consumes: "consumes sh_open"
  unfolding sh_open_def by (rule consumesI) (intro takes_first takes_one takes_intros)

lemma sh_body_consumes: "consumes sh_body"
proof (rule consumesI)
  have "takes 1 (uprintf 2 ''$ '' [])" by (rule takes_uprintf1) simp
  then have "takes 1 getcmd" unfolding getcmd_def by (rule takes_first(2)) (intro takes_intros)
  then show "takes 1 (sh_body a)" for a unfolding sh_body_def by (rule takes_first(1)) (intro takes_intros)
qed

end
