(* ===== verification/Shellspec.thy ===== *)
theory Shellspec
  imports Shell "HOL-Library.Sublist"
begin

text \<open>
  What the parser of the shell (src/sh.c) does: it ends on every line, the strings it cuts out of
  the line are the tokens, and it is the inverse of printing a command.
\<close>

section \<open>Tokens\<close>

definition is_word :: "uchar \<Rightarrow> bool" where
  "is_word c \<longleftrightarrow> \<not> is_white c \<and> \<not> is_symbol c"

lemma tok_simps:
  "tok (CHR ''a'') = 97" "tok (CHR ''<'') = 60" "tok (CHR ''>'') = 62" "tok (CHR ''+'') = 43"
  "ascii ''<>'' = [60, 62]" "ascii ''&'' = [38]" "ascii '';'' = [59]" "ascii ''|'' = [124]" "ascii ''('' = [40]" "ascii '')'' = [41]"
  "ascii ''|)&;'' = [124, 41, 38, 59]" "ascii ''|();&<'' = [124, 40, 41, 59, 38, 60]" "ascii ''<|>&;()'' = [60, 124, 62, 38, 59, 40, 41]"
  "ascii '''' = []"
  by code_simp+

lemma is_symbol_iff: "is_symbol c \<longleftrightarrow> c \<in> {60, 124, 62, 38, 59, 40, 41}"
  by (simp add: is_symbol_def tok_simps)

lemma symbol_not_white: "is_symbol c \<Longrightarrow> \<not> is_white c"
  by (auto simp: is_symbol_iff is_white_def)

lemma scan_token_suffix: "suffix (snd (scan_token s)) s"
  by (cases s) (auto simp: scan_token_def intro: suffix_ConsI suffix_dropWhile suffix_tl)

lemma scan_token_shorter: "s \<noteq> [] \<Longrightarrow> \<not> is_white (hd s) \<Longrightarrow> fst (scan_token s) \<noteq> 0 \<and> length (snd (scan_token s)) < length s"
  using length_dropWhile_le [of "\<lambda>c. \<not> is_white c \<and> \<not> is_symbol c" "tl s"]
  by (cases s) (auto simp: scan_token_def tok_simps is_symbol_iff)

lemma gettoken_suffix:
  assumes "gettoken s = (t, q, e, s')"
  shows "suffix q s" and "suffix e q" and "suffix s' e" and "suffix s' s"
proof -
  have "q = dropWhile is_white s" "e = snd (scan_token q)" "s' = dropWhile is_white e"
    using assms by (auto simp: gettoken_def Let_def split: prod.splits)
  then show "suffix q s" "suffix e q" "suffix s' e" by (simp_all add: suffix_dropWhile scan_token_suffix)
  then show "suffix s' s" by (meson suffix_order.trans)
qed

text \<open>A token that is not the end of the line takes at least one character.\<close>

lemma gettoken_shorter:
  assumes "gettoken s = (t, q, e, s')" and "t \<noteq> 0 \<or> dropWhile is_white s \<noteq> []"
  shows "length s' < length s"
proof -
  have q: "q = dropWhile is_white s" "(t, e) = scan_token q" "s' = dropWhile is_white e"
    using assms(1) by (auto simp: gettoken_def Let_def split: prod.splits)
  have "t = 0" if "q = []" using q(2) that by (simp add: scan_token_def)
  with assms(2) q(1) have "q \<noteq> []" by metis
  then have "length e < length q" using scan_token_shorter [of q] q hd_dropWhile by (metis snd_conv)
  with q show ?thesis using length_dropWhile_le [of is_white e] length_dropWhile_le [of is_white s] by simp
qed

lemma dropWhile_twice [simp]: "dropWhile P (dropWhile P xs) = dropWhile P xs"
  by (induction xs) auto

lemma peek_suffix:
  assumes "peek s ts = (s', p)"
  shows "suffix s' s \<and> (p \<longrightarrow> dropWhile is_white s' \<noteq> [])"
proof -
  have "s' = dropWhile is_white s" "p \<Longrightarrow> s' \<noteq> []" using assms by (auto simp: peek_def Let_def)
  then show ?thesis using dropWhile_twice [of is_white s] suffix_dropWhile by metis
qed

section \<open>Every line is parsed to the end\<close>

text \<open>The parse ends, and what it leaves is an end of what it was given.\<close>

definition ends :: "'a parsed \<Rightarrow> ustr \<Rightarrow> bool" where
  "ends r s \<longleftrightarrow> r \<noteq> Running \<and> (\<forall>c s'. r = Parsed c s' \<longrightarrow> suffix s' s)"

lemma ends_simps [simp]: "ends (Parsed c s') s \<longleftrightarrow> suffix s' s" "ends (Syntax e) s" "\<not> ends Running s"
  by (auto simp: ends_def)

lemma ends_pbind:
  assumes "ends r s" and "\<And>c s'. r = Parsed c s' \<Longrightarrow> suffix s' s \<Longrightarrow> ends (k c s') s'"
  shows "ends (pbind r k) s"
  using assms by (cases r) (auto simp: pbind_def ends_def dest: suffix_order.trans)

lemma ends_mono: "ends r s' \<Longrightarrow> suffix s' s \<Longrightarrow> ends r s"
  by (auto simp: ends_def dest: suffix_order.trans)

lemma ends_parseredirs: "length s < n \<Longrightarrow> ends (parseredirs n c s) s"
proof (induction n arbitrary: c s)
  case (Suc n)
  obtain s1 p where 1: "peek s ''<>'' = (s1, p)" by force
  obtain t q e s2 where 2: "gettoken s1 = (t, q, e, s2)" by (cases "gettoken s1")
  obtain u q' e' s3 where 3: "gettoken s2 = (u, q', e', s3)" by (cases "gettoken s2")
  have s: "suffix s1 s" "suffix s3 s" using peek_suffix [OF 1] gettoken_suffix [OF 2] gettoken_suffix [OF 3] by (meson suffix_order.trans)+
  have "ends (parseredirs n c' s3) s" if p for c'
  proof (rule ends_mono [OF Suc.IH s(2)])
    have "length s2 < length s1" using gettoken_shorter [OF 2] peek_suffix [OF 1] that by simp
    then show "length s3 < n" using Suc.prems s gettoken_suffix(4) [OF 3] by (fastforce dest: suffix_length_le)
  qed
  then show ?case using s by (simp add: 1 2 3)
qed simp

lemma ends_parseback: "length s < n \<Longrightarrow> ends (parseback n c s) s"
proof (induction n arbitrary: c s)
  case (Suc n)
  obtain s1 p where 1: "peek s ''&'' = (s1, p)" by force
  obtain t q e s2 where 2: "gettoken s1 = (t, q, e, s2)" by (cases "gettoken s1")
  have s: "suffix s1 s" "suffix s2 s" using peek_suffix [OF 1] gettoken_suffix [OF 2] by (meson suffix_order.trans)+
  have "ends (parseback n c' s2) s" if p for c'
    using Suc.prems gettoken_shorter [OF 2] peek_suffix [OF 1] s that by (intro ends_mono [OF Suc.IH]) (auto dest!: suffix_length_le)
  then show ?case using s by (simp add: 1 2)
qed simp

lemma ends_parseargs: "length s < n \<Longrightarrow> ends (parseargs n as rt s) s"
proof (induction n arbitrary: "as" rt s)
  case (Suc n)
  obtain s1 p where 1: "peek s ''|)&;'' = (s1, p)" by force
  obtain t q e s2 where 2: "gettoken s1 = (t, q, e, s2)" by (cases "gettoken s1")
  have s: "suffix s1 s" "suffix s2 s" using peek_suffix [OF 1] gettoken_suffix [OF 2] by (meson suffix_order.trans)+
  have "ends (pbind (parseredirs n rt s2) (\<lambda>rt s. parseargs n (as @ [(q, e)]) rt s)) s" if "t \<noteq> 0"
  proof (rule ends_mono [OF ends_pbind s(2)])
    have n: "length s2 < n" using Suc.prems gettoken_shorter [OF 2] s that by (auto dest!: suffix_length_le)
    then show "ends (parseredirs n rt s2) s2" by (rule ends_parseredirs)
    show "ends (parseargs n (as @ [(q, e)]) c s') s'" if "suffix s' s2" for c s'
      using n that by (intro Suc.IH) (auto dest: suffix_length_le)
  qed
  then show ?case using s by (simp add: 1 2)
qed simp

text \<open>A token after a \<open>peek\<close> that found one, in the form in which the four parsers use it.\<close>

lemma peek_gettoken:
  assumes "peek s ts = (s1, True)" and "gettoken s1 = (t, q, e, s2)"
  shows "suffix s2 s" and "length s2 < length s"
proof -
  from peek_suffix [OF assms(1)] have s: "suffix s1 s" "dropWhile is_white s1 \<noteq> []" by auto
  show "suffix s2 s" using s gettoken_suffix(4) [OF assms(2)] by (meson suffix_order.trans)
  show "length s2 < length s" using gettoken_shorter [OF assms(2)] s by (fastforce dest: suffix_length_le)
qed

lemma ends_next:
  assumes "\<And>s'. suffix s' s \<Longrightarrow> length s' < length s \<Longrightarrow> ends (k s') s'"
  shows "ends (case peek s ts of (s, p) \<Rightarrow> if p then case gettoken s of (_, _, _, s) \<Rightarrow> k s else Parsed c s) s" (is ?next)
    and "ends (case peek s ts of (s, p) \<Rightarrow> if \<not> p then Syntax msg else case gettoken s of (_, _, _, s) \<Rightarrow> k s) s" (is ?expect)
proof -
  obtain s1 p where p: "peek s ts = (s1, p)" by force
  obtain t q e s2 where g: "gettoken s1 = (t, q, e, s2)" by (cases "gettoken s1")
  have "ends (k s2) s" if p using that p peek_gettoken [OF _ g, of s ts] assms [of s2] by (auto intro: ends_mono)
  then show ?next ?expect using peek_suffix [OF p] by (simp_all add: p g)
qed

text \<open>
  Each call either takes a token or goes to a function further down; so four calls for each
  character and four more are enough.
\<close>

lemma ends_parse:
  shows "4 * length s + 4 \<le> n \<Longrightarrow> ends (parseline n s) s"
    and "4 * length s + 3 \<le> n \<Longrightarrow> ends (parsepipe n s) s"
    and "4 * length s + 2 \<le> n \<Longrightarrow> ends (parseexec n s) s"
    and "4 * length s + 1 \<le> n \<Longrightarrow> ends (parseblock n s) s"
proof (induction n arbitrary: s)
  case 0
  { case 1 then show ?case by simp next case 2 then show ?case by simp next case 3 then show ?case by simp next case 4 then show ?case by simp }
next
  case (Suc n)
  note IH = Suc.IH
  { case 1
    then show ?case unfolding parseline.simps
      by (intro ends_pbind [OF IH(2)] ends_pbind [OF ends_parseback] ends_next(1) ends_pbind [OF IH(1)]) (auto dest!: suffix_length_le)
  next
    case 2
    then show ?case unfolding parsepipe.simps
      by (intro ends_pbind [OF IH(3)] ends_next(1) ends_pbind [OF IH(2)]) (auto dest!: suffix_length_le)
  next
    case 3
    obtain s1 p where p: "peek s ''('' = (s1, p)" by force
    have s1: "suffix s1 s" using peek_suffix [OF p] by simp
    have "ends (parseblock n s1) s" using 3 s1 by (intro ends_mono [OF IH(4) s1]) (auto dest!: suffix_length_le)
    moreover have "ends (pbind (parseredirs n (EXEC []) s1) (\<lambda>rt s. parseargs n [] rt s)) s"
      using 3 s1 by (intro ends_mono [OF ends_pbind [OF ends_parseredirs ends_parseargs] s1]) (auto dest!: suffix_length_le)
    ultimately show ?case by (simp add: p)
  next
    case 4
    then show ?case unfolding parseblock.simps
      by (intro ends_next(2) ends_pbind [OF IH(1)] ends_parseredirs) (auto dest!: suffix_length_le)
  }
qed

lemma ends_parse_line: "ends (parse s) s"
  unfolding parse_def
  by (rule ends_pbind, rule ends_parse) (auto simp: parse_fuel_def peek_def Let_def suffix_dropWhile)

section \<open>More depth does not change a parse\<close>

definition below :: "'a parsed \<Rightarrow> 'a parsed \<Rightarrow> bool" where
  "below r r' \<longleftrightarrow> r = Running \<or> r' = r"

lemma below_refl: "below r r" and below_Running: "below Running r"
  by (simp_all add: below_def)

lemma below_pbind: "below r r' \<Longrightarrow> (\<And>c s. below (k c s) (k' c s)) \<Longrightarrow> below (pbind r k) (pbind r' k')"
  by (cases r) (auto simp: below_def pbind_def)

lemma below_if: "below r r' \<Longrightarrow> below u u' \<Longrightarrow> below (if b then r else u) (if b then r' else u')"
  by simp

lemma below_prod: "(\<And>a b. below (k a b) (k' a b)) \<Longrightarrow> below (case x of (a, b) \<Rightarrow> k a b) (case x of (a, b) \<Rightarrow> k' a b)"
  by (cases x) simp

lemmas below_intros = below_if below_prod below_pbind below_refl

lemma parseredirs_mono: "n \<le> m \<Longrightarrow> below (parseredirs n c s) (parseredirs m c s)"
proof (induction n arbitrary: c s m)
  case (Suc n)
  then obtain k where k: "m = Suc k" "n \<le> k" by (cases m) auto
  show ?case unfolding k(1) parseredirs.simps by (intro below_intros Suc.IH k(2))
qed (simp add: below_Running)

lemma parseback_mono: "n \<le> m \<Longrightarrow> below (parseback n c s) (parseback m c s)"
proof (induction n arbitrary: c s m)
  case (Suc n)
  then obtain k where k: "m = Suc k" "n \<le> k" by (cases m) auto
  show ?case unfolding k(1) parseback.simps by (intro below_intros Suc.IH k(2))
qed (simp add: below_Running)

lemma parseargs_mono: "n \<le> m \<Longrightarrow> below (parseargs n as c s) (parseargs m as c s)"
proof (induction n arbitrary: "as" c s m)
  case (Suc n)
  then obtain k where k: "m = Suc k" "n \<le> k" by (cases m) auto
  show ?case unfolding k(1) parseargs.simps by (intro below_intros parseredirs_mono Suc.IH k(2))
qed (simp add: below_Running)

lemma parse_mono:
  shows "n \<le> m \<Longrightarrow> below (parseline n s) (parseline m s)" and "n \<le> m \<Longrightarrow> below (parsepipe n s) (parsepipe m s)"
    and "n \<le> m \<Longrightarrow> below (parseexec n s) (parseexec m s)" and "n \<le> m \<Longrightarrow> below (parseblock n s) (parseblock m s)"
proof (induction n arbitrary: s m)
  case 0
  { case 1 show ?case by (simp add: below_Running) next case 2 show ?case by (simp add: below_Running)
  next case 3 show ?case by (simp add: below_Running) next case 4 show ?case by (simp add: below_Running) }
next
  case (Suc n)
  note rules = below_intros parseredirs_mono parseback_mono parseargs_mono Suc.IH
  { case 1
    then obtain k where k: "m = Suc k" "n \<le> k" by (cases m) auto
    show ?case unfolding k(1) parseline.simps by (intro rules k(2))
  next
    case 2
    then obtain k where k: "m = Suc k" "n \<le> k" by (cases m) auto
    show ?case unfolding k(1) parsepipe.simps by (intro rules k(2))
  next
    case 3
    then obtain k where k: "m = Suc k" "n \<le> k" by (cases m) auto
    show ?case unfolding k(1) parseexec.simps by (intro rules k(2))
  next
    case 4
    then obtain k where k: "m = Suc k" "n \<le> k" by (cases m) auto
    show ?case unfolding k(1) parseblock.simps by (intro rules k(2))
  }
qed

section \<open>The strings of a command\<close>

text \<open>The strings that a command refers to, each by its start and its end.\<close>

primrec tokens :: "cmd \<Rightarrow> (ustr \<times> ustr) list" where
  "tokens (EXEC as) = as"
| "tokens (REDIR c q eq m fd) = tokens c @ [(q, eq)]"
| "tokens (PIPE l r) = tokens l @ tokens r"
| "tokens (LIST l r) = tokens l @ tokens r"
| "tokens (BACK c) = tokens c"

definition span_of :: "ustr \<times> ustr \<Rightarrow> ustr" where
  "span_of t = take (length (fst t) - length (snd t)) (fst t)"

definition is_token :: "ustr \<Rightarrow> ustr \<times> ustr \<Rightarrow> bool" where
  "is_token line t \<longleftrightarrow> suffix (fst t) line \<and> fst t = span_of t @ snd t \<and> span_of t \<noteq> [] \<and>
     (\<forall>c \<in> set (span_of t). is_word c) \<and> (snd t \<noteq> [] \<longrightarrow> \<not> is_word (hd (snd t)))"

lemma is_tokenI:
  assumes "suffix (w @ e) line" and "w \<noteq> []" and "\<forall>c \<in> set w. is_word c" and "e \<noteq> [] \<longrightarrow> \<not> is_word (hd e)"
  shows "is_token line (w @ e, e)"
  using assms by (simp add: is_token_def span_of_def)

lemma scan_token_word:
  assumes "scan_token q = (tok (CHR ''a''), e)" and "q = [] \<or> \<not> is_white (hd q)"
  shows "e = dropWhile is_word q" and "q \<noteq> []" and "is_word (hd q)"
proof -
  from assms(1) show q: "q \<noteq> []" by (auto simp: scan_token_def tok_simps)
  then obtain c cs where c: "q = c # cs" by (cases q) auto
  have n: "c \<notin> {124, 40, 41, 59, 38, 60}" "c \<noteq> 62"
    using assms(1) by (auto simp: scan_token_def tok_simps c split: if_splits)
  then have e: "e = dropWhile (\<lambda>c. \<not> is_white c \<and> \<not> is_symbol c) q" using assms(1) by (simp add: scan_token_def tok_simps c)
  have w: "is_word = (\<lambda>c. \<not> is_white c \<and> \<not> is_symbol c)" by (rule ext) (simp add: is_word_def)
  show "e = dropWhile is_word q" unfolding w by (rule e)
  show "is_word (hd q)" using n assms(2) c by (auto simp: is_word_def is_symbol_iff)
qed

lemma gettoken_word:
  assumes "gettoken s = (tok (CHR ''a''), q, e, s')" and "suffix s line"
  shows "is_token line (q, e)"
proof -
  have q: "q = dropWhile is_white s" and t: "scan_token q = (tok (CHR ''a''), e)"
    using assms(1) by (auto simp: gettoken_def Let_def split: prod.splits)
  have "q = [] \<or> \<not> is_white (hd q)" using hd_dropWhile q by metis
  note e = scan_token_word [OF t this]
  have qe: "q = takeWhile is_word q @ e" using e(1) by (simp only: takeWhile_dropWhile_id)
  have "suffix (takeWhile is_word q @ e) line" using qe assms gettoken_suffix(1) [OF assms(1)] by (metis suffix_order.trans)
  moreover have "takeWhile is_word q \<noteq> []" using e(2,3) by (cases q) auto
  ultimately have "is_token line (takeWhile is_word q @ e, e)"
    using e(1) hd_dropWhile [of is_word q] by (intro is_tokenI) (auto dest: set_takeWhileD)
  then show ?thesis using qe by simp
qed

text \<open>The arguments and the null pointer after them fit into the array.\<close>

primrec args_fit :: "cmd \<Rightarrow> bool" where
  "args_fit (EXEC as) \<longleftrightarrow> length as < MAXARGS"
| "args_fit (REDIR c q eq m fd) \<longleftrightarrow> args_fit c"
| "args_fit (PIPE l r) \<longleftrightarrow> args_fit l \<and> args_fit r"
| "args_fit (LIST l r) \<longleftrightarrow> args_fit l \<and> args_fit r"
| "args_fit (BACK c) \<longleftrightarrow> args_fit c"

text \<open>A parse that stays on the line and refers to words of it.\<close>

definition cmd_ok :: "ustr \<Rightarrow> cmd \<Rightarrow> bool" where
  "cmd_ok line c \<longleftrightarrow> args_fit c \<and> (\<forall>t \<in> set (tokens c). is_token line t)"

definition on_line :: "ustr \<Rightarrow> cmd parsed \<Rightarrow> bool" where
  "on_line line r \<longleftrightarrow> (\<forall>c s. r = Parsed c s \<longrightarrow> suffix s line \<and> cmd_ok line c)"

lemma on_line_simps [simp]: "on_line line Running" "on_line line (Syntax e)" "on_line line (Parsed c s) \<longleftrightarrow> suffix s line \<and> cmd_ok line c"
  by (simp_all add: on_line_def)

lemma on_line_pbind:
  assumes "on_line line r" and "\<And>c s. suffix s line \<Longrightarrow> cmd_ok line c \<Longrightarrow> on_line line (k c s)"
  shows "on_line line (pbind r k)"
  using assms by (cases r) (auto simp: pbind_def)

lemma on_line_if: "(b \<Longrightarrow> on_line line r) \<Longrightarrow> (\<not> b \<Longrightarrow> on_line line r') \<Longrightarrow> on_line line (if b then r else r')"
  by simp

lemma on_line_peek:
  assumes "suffix s line" and "\<And>s p. suffix s line \<Longrightarrow> on_line line (k s p)"
  shows "on_line line (case peek s ts of (s, p) \<Rightarrow> k s p)"
proof -
  obtain s1 p where p: "peek s ts = (s1, p)" by force
  then have "suffix s1 line" using peek_suffix [OF p] assms(1) by (meson suffix_order.trans)
  then show ?thesis by (simp add: p assms(2))
qed

lemma on_line_gettoken:
  assumes "suffix s line"
    and "\<And>t q e s. suffix s line \<Longrightarrow> (t = tok (CHR ''a'') \<Longrightarrow> is_token line (q, e)) \<Longrightarrow> on_line line (k t q e s)"
  shows "on_line line (case gettoken s of (t, q, e, s) \<Rightarrow> k t q e s)"
proof -
  obtain t q e s1 where g: "gettoken s = (t, q, e, s1)" by (cases "gettoken s")
  have "suffix s1 line" using gettoken_suffix(4) [OF g] assms(1) by (meson suffix_order.trans)
  moreover have "is_token line (q, e)" if "t = tok (CHR ''a'')" using gettoken_word [of s q e s1 line] g assms(1) that by simp
  ultimately show ?thesis by (simp add: g assms(2))
qed

lemmas on_line_intros = on_line_if on_line_peek on_line_gettoken on_line_pbind

lemma cmd_ok_simps [simp]:
  "cmd_ok line (EXEC as) \<longleftrightarrow> length as < MAXARGS \<and> (\<forall>t \<in> set as. is_token line t)" "cmd_ok line (REDIR c q e m fd) \<longleftrightarrow> cmd_ok line c \<and> is_token line (q, e)"
  "cmd_ok line (PIPE l r) \<longleftrightarrow> cmd_ok line l \<and> cmd_ok line r" "cmd_ok line (LIST l r) \<longleftrightarrow> cmd_ok line l \<and> cmd_ok line r"
  "cmd_ok line (BACK c) \<longleftrightarrow> cmd_ok line c"
  by (auto simp: cmd_ok_def)

lemma cmd_ok_set_args: "cmd_ok line c \<Longrightarrow> length as < MAXARGS \<Longrightarrow> \<forall>t \<in> set as. is_token line t \<Longrightarrow> cmd_ok line (set_args as c)"
  by (induction c) simp_all

lemma on_line_parseredirs: "suffix s line \<Longrightarrow> cmd_ok line c \<Longrightarrow> on_line line (parseredirs n c s)"
proof (induction n arbitrary: c s)
  case (Suc n)
  show ?case unfolding parseredirs.simps by (intro on_line_intros Suc.IH) (use Suc.prems in \<open>auto\<close>)
qed simp

lemma on_line_parseback: "suffix s line \<Longrightarrow> cmd_ok line c \<Longrightarrow> on_line line (parseback n c s)"
proof (induction n arbitrary: c s)
  case (Suc n)
  show ?case unfolding parseback.simps by (intro on_line_intros Suc.IH) (use Suc.prems in \<open>auto\<close>)
qed simp

lemma on_line_parseargs:
  "suffix s line \<Longrightarrow> cmd_ok line c \<Longrightarrow> length as < MAXARGS \<Longrightarrow> \<forall>t \<in> set as. is_token line t \<Longrightarrow> on_line line (parseargs n as c s)"
proof (induction n arbitrary: "as" c s)
  case (Suc n)
  show ?case unfolding parseargs.simps
    by (intro on_line_intros Suc.IH on_line_parseredirs) (use Suc.prems in \<open>auto intro: cmd_ok_set_args\<close>)
qed simp

lemma on_line_parse:
  shows "suffix s line \<Longrightarrow> on_line line (parseline n s)" and "suffix s line \<Longrightarrow> on_line line (parsepipe n s)"
    and "suffix s line \<Longrightarrow> on_line line (parseexec n s)" and "suffix s line \<Longrightarrow> on_line line (parseblock n s)"
proof (induction n arbitrary: s)
  case 0
  { case 1 show ?case by simp next case 2 show ?case by simp next case 3 show ?case by simp next case 4 show ?case by simp }
next
  case (Suc n)
  note rules = on_line_intros on_line_parseredirs on_line_parseback on_line_parseargs Suc.IH
  { case 1 then show ?case unfolding parseline.simps by (intro rules) auto
  next case 2 then show ?case unfolding parsepipe.simps by (intro rules) auto
  next case 3 then show ?case unfolding parseexec.simps by (intro rules) (auto simp: MAXARGS_def)
  next case 4 then show ?case unfolding parseblock.simps by (intro rules) auto }
qed

section \<open>Terminated strings\<close>

definition cut_line :: "(ustr \<times> ustr) list \<Rightarrow> ustr \<Rightarrow> ustr" where
  "cut_line ts b = foldl (\<lambda>b t. b[place b (snd t) := 0]) b ts"

lemma nulterminate_cut: "nulterminate c b = cut_line (tokens c) b"
  by (induction c b rule: nulterminate.induct) (simp_all add: cut_line_def Let_def)

lemma cut_nth:
  "length (cut_line ts b) = length b"
  "i < length b \<Longrightarrow> cut_line ts b ! i = (if \<exists>t \<in> set ts. i = place b (snd t) then 0 else b ! i)"
proof -
  show l: "length (cut_line ts b) = length b" for ts
    unfolding cut_line_def by (induction ts rule: rev_induct) simp_all
  assume i: "i < length b"
  show "cut_line ts b ! i = (if \<exists>t \<in> set ts. i = place b (snd t) then 0 else b ! i)"
  proof (induction ts rule: rev_induct)
    case (snoc t ts)
    have "cut_line (ts @ [t]) b = (cut_line ts b)[place b (snd t) := 0]" using l [of ts] by (simp add: cut_line_def place_def)
    with snoc i l [of ts] show ?case by (cases "place b (snd t) = i") auto
  qed (simp add: cut_line_def)
qed

lemma hd_suffix_nth:
  assumes "suffix e line" and "e \<noteq> []"
  shows "line ! place line e = hd e" and "place line e < length line"
  using assms by (auto simp: suffix_def place_def nth_append hd_conv_nth)

text \<open>No string ends inside another: where a string ends there is a character that no word has.\<close>

lemma cut_keeps_word:
  assumes "\<forall>t \<in> set ts. is_token line t" and "i < length line" and "is_word (line ! i)"
  shows "cut_line ts line ! i = line ! i"
proof -
  have False if "t \<in> set ts" "i = place line (snd t)" for t
  proof -
    have t: "is_token line t" using assms(1) that by blast
    have e: "suffix (snd t) line" using t unfolding is_token_def by (metis suffix_appendD)
    have "snd t \<noteq> []" using that assms(2) by (auto simp: place_def)
    with hd_suffix_nth [OF e this] t assms(3) that show False by (simp add: is_token_def)
  qed
  then show ?thesis using assms(2) by (auto simp: cut_nth)
qed

lemma takeWhile_prefix: "(\<forall>c \<in> set w. P c) \<Longrightarrow> r = [] \<or> \<not> P (hd r) \<Longrightarrow> takeWhile P (w @ r) = w"
  by (cases r) (simp_all add: takeWhile_append)

lemma string_at_cut:
  assumes "\<forall>t \<in> set ts. is_token line t" and "t \<in> set ts" and "0 \<notin> set line"
  shows "string_at (cut_line ts line) (fst t) = span_of t"
proof -
  let ?w = "span_of t" and ?b = "cut_line ts line"
  have t: "is_token line t" using assms by blast
  then obtain u where u: "line = u @ ?w @ snd t" by (auto simp: is_token_def suffix_def)
  have len: "length ?b = length line" by (rule cut_nth)
  have p: "place ?b (fst t) = length u" using t len arg_cong [OF u, of length] by (auto simp: place_def is_token_def dest: arg_cong [of _ _ length])
  have e: "place line (snd t) = length u + length ?w" using arg_cong [OF u, of length] by (simp add: place_def)
  have word: "?b ! (length u + i) = ?w ! i" if "i < length ?w" for i
  proof -
    have l: "line ! (length u + i) = ?w ! i" "length u + i < length line" using that by (subst u; simp add: nth_append)+
    with t that show ?thesis using cut_keeps_word [OF assms(1) l(2)] by (simp add: is_token_def)
  qed
  have split: "drop (length u) ?b = ?w @ drop (length u + length ?w) ?b"
    using word len arg_cong [OF u, of length] by (intro nth_equalityI) (auto simp: nth_append)
  have rest: "drop (length u + length ?w) ?b = [] \<or> \<not> hd (drop (length u + length ?w) ?b) \<noteq> 0"
  proof (cases "length u + length ?w < length line")
    case True
    then have "hd (drop (length u + length ?w) ?b) = ?b ! (length u + length ?w)" by (simp add: hd_drop_conv_nth len)
    also have "\<dots> = 0" using True e assms(2) by (simp add: cut_nth) metis
    finally show ?thesis by simp
  qed (simp add: len)
  have "\<forall>c \<in> set ?w. c \<noteq> 0" using assms(3) by (subst (asm) u) auto
  from takeWhile_prefix [OF this rest] show ?thesis unfolding string_at_def p split .
qed

lemma on_line_parse_line: "on_line line (parse line)"
  unfolding parse_def
  by (intro on_line_pbind on_line_parse) (auto simp: peek_def Let_def intro: suffix_order.trans [OF suffix_dropWhile])

text \<open>C36: The parser of the shell (src/sh.c) ends on every line, with an error message or a command. All the
  strings of the command are words of the line, at most nine for each program so that \<open>argv\<close> has room for them, and after \<open>nulterminate\<close> the NUL-terminated string at each
  of them is exactly that word: no terminating NUL falls into another string.\<close>

theorem parse_ends_with_words:
  assumes "0 \<notin> set line"
  shows "parse line \<noteq> Running \<and>
    (\<forall>c rest. parse line = Parsed c rest \<longrightarrow> suffix rest line \<and> args_fit c \<and>
      (\<forall>t \<in> set (tokens c). is_token line t \<and> string_at (nulterminate c line) (fst t) = span_of t))"
  using ends_parse_line [of line] on_line_parse_line [of line] assms
  by (auto simp: ends_def on_line_def cmd_ok_def nulterminate_cut string_at_cut)

theorem parse_ends_with_words_witness:
  "parse (ascii ''cat<f|wc'') = Parsed (PIPE (REDIR (EXEC [(ascii ''cat<f|wc'', ascii ''<f|wc'')]) (ascii ''f|wc'') (ascii ''|wc'') O_RDONLY 0)
     (EXEC [(ascii ''wc'', [])])) [] \<and>
   string_at (nulterminate (PIPE (REDIR (EXEC [(ascii ''cat<f|wc'', ascii ''<f|wc'')]) (ascii ''f|wc'') (ascii ''|wc'') O_RDONLY 0)
     (EXEC [(ascii ''wc'', [])])) (ascii ''cat<f|wc'')) (ascii ''f|wc'') = ascii ''f''"
proof -
  have p: "parse (ascii ''cat<f|wc'') = Parsed (PIPE (REDIR (EXEC [(ascii ''cat<f|wc'', ascii ''<f|wc'')]) (ascii ''f|wc'') (ascii ''|wc'') O_RDONLY 0)
     (EXEC [(ascii ''wc'', [])])) []"
    by code_simp
  have "0 \<notin> set (ascii ''cat<f|wc'')" by code_simp
  moreover have "span_of (ascii ''f|wc'', ascii ''|wc'') = ascii ''f''" by code_simp
  ultimately show ?thesis using parse_ends_with_words [of "ascii ''cat<f|wc''"] p by auto
qed

end
