(* ===== verification/Shellprint.thy ===== *)
theory Shellprint
  imports Shellspec
begin

text \<open>
  Commands as trees, how they are written, and that the parser of the shell (src/sh.c) reads back
  what is written.
\<close>

section \<open>Written commands\<close>

datatype ast =
    AExec "ustr list"
  | ARedir ast ustr int int
  | APipe ast ast
  | AList ast ast
  | ABack ast

text \<open>The tree of a command; \<open>f\<close> reads the strings.\<close>

primrec view :: "(ustr \<times> ustr \<Rightarrow> ustr) \<Rightarrow> cmd \<Rightarrow> ast" where
  "view f (EXEC as) = AExec (map f as)"
| "view f (REDIR c q eq m fd) = ARedir (view f c) (f (q, eq)) m fd"
| "view f (PIPE l r) = APipe (view f l) (view f r)"
| "view f (LIST l r) = AList (view f l) (view f r)"
| "view f (BACK c) = ABack (view f c)"

definition word_ok :: "ustr \<Rightarrow> bool" where
  "word_ok w \<longleftrightarrow> w \<noteq> [] \<and> (\<forall>c \<in> set w. is_word c \<and> c \<noteq> 0)"

definition redir_ok :: "ustr \<times> int \<times> int \<Rightarrow> bool" where
  "redir_ok = (\<lambda>(f, m, fd). word_ok f \<and> (m, fd) \<in> {(O_RDONLY, 0), (O_WRONLY OR O_CREATE, 1)})"

primrec ast_ok :: "ast \<Rightarrow> bool" where
  "ast_ok (AExec ws) \<longleftrightarrow> length ws < MAXARGS \<and> (\<forall>w \<in> set ws. word_ok w)"
| "ast_ok (ARedir c f m fd) \<longleftrightarrow> ast_ok c \<and> redir_ok (f, m, fd)"
| "ast_ok (APipe l r) \<longleftrightarrow> ast_ok l \<and> ast_ok r"
| "ast_ok (AList l r) \<longleftrightarrow> ast_ok l \<and> ast_ok r"
| "ast_ok (ABack c) \<longleftrightarrow> ast_ok c"

definition pr_words :: "ustr list \<Rightarrow> ustr" where
  "pr_words ws = concat (map (\<lambda>w. w @ [32]) ws)"

definition pr_redirs :: "(ustr \<times> int \<times> int) list \<Rightarrow> ustr" where
  "pr_redirs rs = concat (map (\<lambda>(f, m, fd). (if fd = 0 then [60] else [62]) @ f @ [32]) rs)"

definition paren :: "bool \<Rightarrow> ustr \<Rightarrow> ustr" where
  "paren b s = (if b then [40] @ s @ [41] else s)"

text \<open>In a list, before an ampersand, in a pipeline, and alone: each place allows fewer commands without parentheses.\<close>

primrec pr :: "nat \<Rightarrow> ast \<Rightarrow> ustr" where
  "pr k (AExec ws) = pr_words ws"
| "pr k (ARedir c f m fd) = pr 3 c @ pr_redirs [(f, m, fd)]"
| "pr k (APipe l r) = paren (2 < k) (pr 3 l @ [124] @ pr 2 r)"
| "pr k (AList l r) = paren (0 < k) (pr 1 l @ [59] @ pr 0 r)"
| "pr k (ABack c) = paren (1 < k) (pr 1 c @ [38])"

section \<open>One token\<close>

definition starts :: "uchar set \<Rightarrow> ustr \<Rightarrow> bool" where
  "starts C s \<longleftrightarrow> s = [] \<or> hd s \<in> C"

lemma peek_at: "starts (- Collect is_white) s \<Longrightarrow> peek s ts = (s, s \<noteq> [] \<and> hd s \<in> set (ascii ts))"
  by (cases s) (auto simp: peek_def Let_def starts_def)

lemma skip_at: "starts (- Collect is_white) s \<Longrightarrow> dropWhile is_white s = s"
  by (cases s) (auto simp: starts_def)

lemma gettoken_symbol:
  assumes "c \<in> {124, 40, 41, 59, 38, 60} \<or> c = 62 \<and> starts (- {62}) s" and "starts (- Collect is_white) s"
  shows "gettoken (c # s) = (c, c # s, s, s)"
proof -
  have "\<not> is_white c" using assms(1) by (auto simp: is_white_def)
  moreover have "scan_token (c # s) = (c, s)" using assms(1) by (auto simp: scan_token_def tok_simps starts_def)
  ultimately show ?thesis using skip_at [OF assms(2)] by (simp add: gettoken_def)
qed

lemma gettoken_word_at:
  assumes "word_ok w" and "starts (- Collect is_white) s"
  shows "gettoken (w @ 32 # s) = (tok (CHR ''a''), w @ 32 # s, 32 # s, s)"
proof -
  obtain c cs where w: "w = c # cs" "is_word c" using assms(1) by (cases w) (auto simp: word_ok_def)
  have n: "\<not> is_white c" "c \<notin> {124, 40, 41, 59, 38, 60}" "c \<noteq> 62" using w by (auto simp: is_word_def is_symbol_iff)
  have sp: "is_white 32" "\<not> is_word 32" by (auto simp: is_white_def is_word_def)
  have iw: "(\<lambda>c. \<not> is_white c \<and> \<not> is_symbol c) = is_word" by (rule ext) (simp add: is_word_def)
  have "dropWhile is_word (w @ 32 # s) = 32 # s" using assms(1) sp by (simp add: word_ok_def dropWhile_append2)
  then have "scan_token (w @ 32 # s) = (tok (CHR ''a''), 32 # s)"
    using n by (simp add: scan_token_def tok_simps w(1) iw)
  then show ?thesis using n sp skip_at [OF assms(2)] by (simp add: gettoken_def w(1))
qed

lemma span_of_at [simp]: "span_of (w @ e, e) = w"
  by (simp add: span_of_def)

section \<open>Redirections\<close>

definition wrap :: "(ustr \<times> ustr \<times> int \<times> int) list \<Rightarrow> cmd \<Rightarrow> cmd" where
  "wrap rs c = foldl (\<lambda>c (q, e, m, fd). REDIR c q e m fd) c rs"

definition awrap :: "(ustr \<times> int \<times> int) list \<Rightarrow> ast \<Rightarrow> ast" where
  "awrap rs c = foldl (\<lambda>c (f, m, fd). ARedir c f m fd) c rs"

definition reads_redirs :: "(ustr \<times> ustr \<times> int \<times> int) list \<Rightarrow> (ustr \<times> int \<times> int) list" where
  "reads_redirs rs = map (\<lambda>(q, e, m, fd). (span_of (q, e), m, fd)) rs"

lemma view_wrap: "view span_of (wrap rs c) = awrap (reads_redirs rs) (view span_of c)"
  by (induction rs arbitrary: c) (auto simp: wrap_def awrap_def reads_redirs_def)

lemma set_args_wrap: "set_args as (wrap rs c) = wrap rs (set_args as c)"
  by (induction rs arbitrary: c) (auto simp: wrap_def)

text \<open>With enough depth the parser \<open>f\<close> reads the command \<open>c\<close> and leaves \<open>t\<close>.\<close>

definition settles :: "(nat \<Rightarrow> 'a parsed) \<Rightarrow> 'a \<Rightarrow> ustr \<Rightarrow> bool" where
  "settles f c t \<longleftrightarrow> (\<exists>N. \<forall>n \<ge> N. f n = Parsed c t)"

lemma settles_Suc:
  assumes "settles f c t" and "\<And>n. f n = Parsed c t \<Longrightarrow> g (Suc n) = Parsed d u"
  shows "settles g d u"
proof -
  from assms(1) obtain N where N: "\<And>n. N \<le> n \<Longrightarrow> f n = Parsed c t" by (auto simp: settles_def)
  have "g n = Parsed d u" if "Suc N \<le> n" for n
    using that N [of "n - 1"] assms(2) [of "n - 1"] by (cases n) auto
  then show ?thesis unfolding settles_def by blast
qed

lemma settles_pbind:
  assumes "settles f c t" and "settles (\<lambda>n. k n c t) d u"
  shows "settles (\<lambda>n. pbind (f n) (k n)) d u"
proof -
  from assms obtain N M where "\<And>n. N \<le> n \<Longrightarrow> f n = Parsed c t" "\<And>n. M \<le> n \<Longrightarrow> k n c t = Parsed d u"
    by (auto simp: settles_def)
  then have "\<And>n. max N M \<le> n \<Longrightarrow> pbind (f n) (k n) = Parsed d u" by (simp add: pbind_def)
  then show ?thesis unfolding settles_def by blast
qed

lemma settles_const: "settles (\<lambda>n. Parsed c t) c t"
  by (simp add: settles_def)

lemma settles_shift: "settles f c t \<Longrightarrow> (\<And>n. g (Suc n) = f n) \<Longrightarrow> settles g c t"
  by (erule settles_Suc) simp

definition stop3 :: "uchar set" where "stop3 = {124, 41, 38, 59}"
definition stop2 :: "uchar set" where "stop2 = {41, 38, 59}"
definition stop1 :: "uchar set" where "stop1 = {41, 59}"
definition stop0 :: "uchar set" where "stop0 = {41}"

lemmas stops = stop3_def stop2_def stop1_def stop0_def

lemma starts_stop:
  "starts stop0 t \<Longrightarrow> starts stop1 t" "starts stop1 t \<Longrightarrow> starts stop2 t" "starts stop2 t \<Longrightarrow> starts stop3 t"
  "starts stop3 t \<Longrightarrow> starts (- Collect is_white) t" "starts stop3 t \<Longrightarrow> starts (- {60, 62}) t"
  by (auto simp: starts_def stops is_white_def)

lemma starts_word: "word_ok w \<Longrightarrow> starts (Collect is_word) (w @ s)" "word_ok w \<Longrightarrow> w @ s \<noteq> []"
  by (auto simp: word_ok_def starts_def)

lemma starts_word_white: "starts (Collect is_word) s \<Longrightarrow> starts (- Collect is_white) s"
  "starts (Collect is_word) s \<Longrightarrow> starts (- {62}) s"
  by (auto simp: starts_def is_word_def is_symbol_iff)

lemma pr_redirs_simps:
  "pr_redirs [] = []" "pr_redirs ((f, m, fd) # rs) = (if fd = 0 then 60 else 62) # f @ 32 # pr_redirs rs"
  by (simp_all add: pr_redirs_def)

lemma starts_redirs_in: "starts C t \<Longrightarrow> 60 \<in> C \<Longrightarrow> 62 \<in> C \<Longrightarrow> starts C (pr_redirs rs @ t)"
  by (cases rs) (auto simp: pr_redirs_simps starts_def split: if_splits)

lemma starts_redirs: "starts (- Collect is_white) t \<Longrightarrow> starts (- Collect is_white) (pr_redirs rs @ t)"
  by (rule starts_redirs_in) (auto simp: is_white_def)

lemma parseredirs_none:
  assumes "starts (- Collect is_white) t" and "starts (- {60, 62}) t"
  shows "settles (\<lambda>n. parseredirs n c t) c t"
  by (rule settles_Suc [OF settles_const [of c t]]) (use assms in \<open>auto simp: peek_at tok_simps starts_def\<close>)

lemma parseredirs_reads:
  assumes "\<forall>r \<in> set rs. redir_ok r" and "starts (- Collect is_white) t" and "starts (- {60, 62}) t"
  shows "\<exists>rs'. reads_redirs rs' = rs \<and> (\<forall>c. settles (\<lambda>n. parseredirs n c (pr_redirs rs @ t)) (wrap rs' c) t)"
  using assms(1)
proof (induction rs)
  case Nil
  then show ?case using parseredirs_none [OF assms(2,3)] by (intro exI [of _ "[]"]) (simp add: reads_redirs_def wrap_def pr_redirs_simps)
next
  case (Cons r rs)
  obtain f m fd where r: "r = (f, m, fd)" by (cases r)
  have ok: "word_ok f" "(m, fd) = (O_RDONLY, 0) \<or> (m, fd) = (O_WRONLY OR O_CREATE, 1)" using Cons.prems by (auto simp: r redir_ok_def)
  from Cons obtain rs' where rs': "reads_redirs rs' = rs" "\<And>c. settles (\<lambda>n. parseredirs n c (pr_redirs rs @ t)) (wrap rs' c) t" by auto
  let ?u = "pr_redirs rs @ t"
  let ?q = "f @ 32 # ?u" and ?s = "if fd = 0 then 60 else 62 :: uchar"
  have g2: "gettoken ?q = (tok (CHR ''a''), ?q, 32 # ?u, ?u)" by (rule gettoken_word_at [OF ok(1) starts_redirs [OF assms(2)]])
  have w: "starts (Collect is_word) ?q" by (rule starts_word [OF ok(1)])
  have g1: "gettoken (?s # ?q) = (?s, ?s # ?q, ?q, ?q)" by (rule gettoken_symbol) (use starts_word_white [OF w] in auto)
  have p: "peek (?s # ?q) ''<>'' = (?s # ?q, True)" by (subst peek_at) (auto simp: starts_def is_white_def tok_simps)
  have "parseredirs (Suc n) c (?s # ?q) = parseredirs n (REDIR c ?q (32 # ?u) m fd) ?u" for n c
    using ok(2) unfolding parseredirs.simps p prod.case g1 g2 by (auto simp: tok_simps)
  then have "settles (\<lambda>n. parseredirs n c (?s # ?q)) (wrap rs' (REDIR c ?q (32 # ?u) m fd)) t" for c
    by (rule settles_shift [OF rs'(2)])
  then show ?case using rs'(1)
    by (intro exI [of _ "(?q, 32 # ?u, m, fd) # rs'"]) (simp add: r pr_redirs_simps reads_redirs_def wrap_def)
qed

section \<open>Arguments\<close>

lemma pr_words_simps: "pr_words [] = []" "pr_words (w # ws) = w @ 32 # pr_words ws"
  by (simp_all add: pr_words_def)

lemma parseargs_none: "starts stop3 t \<Longrightarrow> settles (\<lambda>n. parseargs n as rt t) (set_args as rt) t"
proof (rule settles_Suc [OF settles_const [of "set_args as rt" t]])
  assume t: "starts stop3 t"
  have "peek t ''|)&;'' = (t, t \<noteq> [])" using t by (subst peek_at [OF starts_stop(4) [OF t]]) (auto simp: tok_simps starts_def stops)
  moreover have "gettoken [] = (0, [], [], [])" by (simp add: gettoken_def scan_token_def)
  ultimately show "parseargs (Suc n) as rt t = Parsed (set_args as rt) t" for n by (cases "t = []") auto
qed

lemma parseargs_word:
  assumes "word_ok w" and "starts (- Collect is_white) u" and "length as + 1 < MAXARGS"
  shows "parseargs (Suc n) as rt (w @ 32 # u) = pbind (parseredirs n rt u) (\<lambda>rt s. parseargs n (as @ [(w @ 32 # u, 32 # u)]) rt s)"
proof -
  let ?q = "w @ 32 # u"
  have w: "starts (Collect is_word) ?q" "?q \<noteq> []" using starts_word [OF assms(1)] by auto
  have "peek ?q ''|)&;'' = (?q, False)"
    using w by (subst peek_at [OF starts_word_white(1) [OF w(1)]]) (auto simp: tok_simps starts_def is_word_def is_symbol_iff)
  then show ?thesis using assms(3) by (simp add: gettoken_word_at [OF assms(1,2)] tok_simps)
qed

lemma parseargs_word_settles:
  assumes "word_ok w" and "starts (- Collect is_white) u" and "length as + 1 < MAXARGS"
    and "settles (\<lambda>n. parseredirs n rt u) rt' u'" and "settles (\<lambda>n. parseargs n (as @ [(w @ 32 # u, 32 # u)]) rt' u') d t"
  shows "settles (\<lambda>n. parseargs n as rt (w @ 32 # u)) d t"
  using settles_pbind [where k = "\<lambda>n rt s. parseargs n (as @ [(w @ 32 # u, 32 # u)]) rt s", OF assms(4,5)]
    parseargs_word [OF assms(1-3)] by (rule settles_shift)

text \<open>The redirections come after the last word.\<close>

lemma parseargs_reads:
  assumes "\<forall>w \<in> set ws. word_ok w" and "ws \<noteq> []" and "\<forall>r \<in> set rs. redir_ok r" and "starts stop3 t"
  shows "\<exists>as' rs'. map span_of as' = ws \<and> reads_redirs rs' = rs \<and> (\<forall>as rt. length as + length ws < MAXARGS \<longrightarrow>
    settles (\<lambda>n. parseargs n as rt (pr_words ws @ pr_redirs rs @ t)) (set_args (as @ as') (wrap rs' rt)) t)"
  using assms(1,2)
proof (induction ws)
  case (Cons w ws)
  note t = starts_stop(4,5) [OF assms(4)]
  have w: "word_ok w" using Cons.prems by simp
  show ?case
  proof (cases "ws = []")
    case True
    let ?u = "pr_redirs rs @ t"
    obtain rs' where rs': "reads_redirs rs' = rs" "\<And>c. settles (\<lambda>n. parseredirs n c ?u) (wrap rs' c) t"
      using parseredirs_reads [OF assms(3) t] by auto
    have "settles (\<lambda>n. parseargs n as rt (w @ 32 # ?u)) (set_args (as @ [(w @ 32 # ?u, 32 # ?u)]) (wrap rs' rt)) t"
      if "length as + 1 < MAXARGS" for "as" rt
      by (rule parseargs_word_settles [OF w starts_redirs [OF t(1)] that rs'(2) parseargs_none [OF assms(4)]])
    then show ?thesis using rs'(1) True
      by (intro exI [of _ "[(w @ 32 # ?u, 32 # ?u)]"] exI [of _ rs']) (simp add: pr_words_simps)
  next
    case False
    let ?u = "pr_words ws @ pr_redirs rs @ t"
    have "\<forall>w \<in> set ws. word_ok w" using Cons.prems by simp
    from Cons.IH [OF this False] obtain as' rs' where IH: "map span_of as' = ws" "reads_redirs rs' = rs"
      "\<And>as rt. length as + length ws < MAXARGS \<Longrightarrow> settles (\<lambda>n. parseargs n as rt ?u) (set_args (as @ as') (wrap rs' rt)) t"
      by blast
    obtain v vs where v: "ws = v # vs" "word_ok v" using False Cons.prems by (cases ws) auto
    have u: "starts (Collect is_word) ?u" using starts_word(1) [OF v(2)] by (simp add: v(1) pr_words_simps)
    have none: "settles (\<lambda>n. parseredirs n rt ?u) rt ?u" for rt
      using u by (intro parseredirs_none starts_word_white) (auto simp: starts_def is_word_def is_symbol_iff)
    have "settles (\<lambda>n. parseargs n as rt (w @ 32 # ?u)) (set_args ((as @ [(w @ 32 # ?u, 32 # ?u)]) @ as') (wrap rs' rt)) t"
      if "length as + length (w # ws) < MAXARGS" for "as" rt
      using that by (intro parseargs_word_settles [OF w starts_word_white(1) [OF u] _ none] IH(3)) auto
    then show ?thesis using IH(1,2)
      by (intro exI [of _ "(w @ 32 # ?u, 32 # ?u) # as'"] exI [of _ rs']) (simp add: pr_words_simps)
  qed
qed simp

section \<open>The levels of the grammar\<close>

definition reads_exec :: "ast \<Rightarrow> bool" where
  "reads_exec c \<longleftrightarrow> (\<forall>rs t. (\<forall>r \<in> set rs. redir_ok r) \<longrightarrow> starts stop3 t \<longrightarrow>
     (\<exists>c'. view span_of c' = awrap rs c \<and> settles (\<lambda>n. parseexec n (pr 3 c @ pr_redirs rs @ t)) c' t))"

definition reads_pipe :: "ast \<Rightarrow> bool" where
  "reads_pipe c \<longleftrightarrow> (\<forall>t. starts stop2 t \<longrightarrow> (\<exists>c'. view span_of c' = c \<and> settles (\<lambda>n. parsepipe n (pr 2 c @ t)) c' t))"

definition reads_back :: "ast \<Rightarrow> bool" where
  "reads_back c \<longleftrightarrow> (\<forall>k t. starts stop1 t \<longrightarrow> (\<exists>c'. view span_of c' = (ABack ^^ k) c \<and>
     settles (\<lambda>n. pbind (parsepipe n (pr 1 c @ replicate k 38 @ t)) (parseback n)) c' t))"

definition reads_line :: "ast \<Rightarrow> bool" where
  "reads_line c \<longleftrightarrow> (\<forall>t. starts stop0 t \<longrightarrow> (\<exists>c'. view span_of c' = c \<and> settles (\<lambda>n. parseline n (pr 0 c @ t)) c' t))"

lemma starts_symbol: "is_symbol c \<Longrightarrow> starts (- Collect is_white) (c # s)"
  using symbol_not_white by (simp add: starts_def)

lemma starts_symbols:
  "starts (- Collect is_white) (40 # s)" "starts (- Collect is_white) (41 # s)" "starts (- Collect is_white) (124 # s)"
  "starts (- Collect is_white) (59 # s)" "starts (- Collect is_white) (38 # s)"
  by (simp_all add: starts_symbol is_symbol_iff)

lemma starts_pr: "ast_ok c \<Longrightarrow> starts (- Collect is_white) t \<Longrightarrow> starts (- Collect is_white) (pr k c @ t)"
proof (induction c arbitrary: k t)
  case (AExec ws)
  then show ?case using starts_word_white(1) [OF starts_word(1)] by (cases ws) (auto simp: pr_words_simps)
next
  case (ARedir c f m fd)
  then show ?case using starts_redirs [of t "[(f, m, fd)]"] by simp
next
  case (APipe l r)
  then show ?case by (simp add: paren_def starts_symbols)
next
  case (AList l r)
  then show ?case by (simp add: paren_def starts_symbols)
next
  case (ABack c)
  then show ?case by (simp add: paren_def starts_symbols)
qed

text \<open>A symbol that is expected, and one that is not there.\<close>

lemma symbol_found: "c \<in> {124, 40, 41, 59, 38} \<Longrightarrow> peek (c # s) ts = (c # s, c \<in> set (ascii ts))"
  by (subst peek_at) (auto simp: starts_def is_white_def)

lemma symbol_taken: "c \<in> {124, 40, 41, 59, 38} \<Longrightarrow> starts (- Collect is_white) s \<Longrightarrow> gettoken (c # s) = (c, c # s, s, s)"
  by (rule gettoken_symbol) auto

lemma symbol_absent: "starts (- Collect is_white) s \<Longrightarrow> starts (- set (ascii ts)) s \<Longrightarrow> peek s ts = (s, False)"
  by (auto simp: peek_at starts_def)

lemma exec_words:
  assumes "ast_ok (AExec ws)"
  shows "reads_exec (AExec ws)"
  unfolding reads_exec_def
proof (intro allI impI)
  fix rs t assume rs: "\<forall>r \<in> set rs. redir_ok r" and t: "starts stop3 t"
  let ?s = "pr_words ws @ pr_redirs rs @ t"
  note tt = starts_stop(4,5) [OF t]
  have s: "starts (- Collect is_white) ?s" using starts_pr [OF assms starts_redirs [OF tt(1)], of _ rs] by simp
  have h: "starts (Collect is_word) ?s" if "ws \<noteq> []"
    using assms that starts_word(1) by (cases ws) (auto simp: pr_words_simps)
  have "peek ?s ''('' = (?s, False)"
  proof (rule symbol_absent [OF s])
    have "starts (- {40}) t" using t by (auto simp: starts_def stops)
    then have "starts (- {40}) (pr_redirs rs @ t)" by (rule starts_redirs_in) auto
    moreover have "starts (- {40}) ?s" if "ws \<noteq> []" using h [OF that] by (auto simp: starts_def is_word_def is_symbol_iff)
    ultimately show "starts (- set (ascii ''('')) ?s" by (cases "ws = []") (simp_all add: tok_simps pr_words_simps)
  qed
  then have p: "parseexec (Suc n) ?s = pbind (parseredirs n (EXEC []) ?s) (\<lambda>rt s. parseargs n [] rt s)" for n by simp
  have E: "settles (\<lambda>n. parseexec n ?s) d t"
    if "settles (\<lambda>n. parseredirs n (EXEC []) ?s) rt u" and "settles (\<lambda>n. parseargs n [] rt u) d t" for rt u d
    using settles_pbind [where k = "\<lambda>n rt s. parseargs n [] rt s", OF that] by (rule settles_shift) (rule p)
  show "\<exists>c'. view span_of c' = awrap rs (AExec ws) \<and> settles (\<lambda>n. parseexec n (pr 3 (AExec ws) @ pr_redirs rs @ t)) c' t"
  proof (cases "ws = []")
    case True
    obtain rs' where rs': "reads_redirs rs' = rs" "\<And>c. settles (\<lambda>n. parseredirs n c (pr_redirs rs @ t)) (wrap rs' c) t"
      using parseredirs_reads [OF rs tt] by auto
    have "settles (\<lambda>n. parseexec n ?s) (set_args [] (wrap rs' (EXEC []))) t"
      using rs'(2) [of "EXEC []"] True by (intro E [OF _ parseargs_none [OF t]]) (simp add: pr_words_simps)
    then have "settles (\<lambda>n. parseexec n ?s) (wrap rs' (EXEC [])) t" by (simp add: set_args_wrap)
    then show ?thesis using rs'(1) True by (intro exI [of _ "wrap rs' (EXEC [])"]) (simp add: view_wrap)
  next
    case False
    have len: "length ([] :: (ustr \<times> ustr) list) + length ws < MAXARGS" and w: "\<forall>w \<in> set ws. word_ok w" using assms by auto
    obtain as' rs' where r: "map span_of as' = ws" "reads_redirs rs' = rs"
      "settles (\<lambda>n. parseargs n [] (EXEC []) ?s) (set_args ([] @ as') (wrap rs' (EXEC []))) t"
      using parseargs_reads [OF w False rs t] len by blast
    have none: "settles (\<lambda>n. parseredirs n (EXEC []) ?s) (EXEC []) ?s"
      using h [OF False] by (intro parseredirs_none s) (auto simp: starts_def is_word_def is_symbol_iff)
    have "settles (\<lambda>n. parseexec n ?s) (wrap rs' (EXEC as')) t" using E [OF none r(3)] by (simp add: set_args_wrap)
    then show ?thesis using r(1,2) by (intro exI [of _ "wrap rs' (EXEC as')"]) (simp add: view_wrap)
  qed
qed

lemma exec_paren:
  assumes "reads_line c" and "ast_ok c" and "pr 3 c = [40] @ pr 0 c @ [41]"
  shows "reads_exec c"
  unfolding reads_exec_def
proof (intro allI impI)
  fix rs t assume rs: "\<forall>r \<in> set rs. redir_ok r" and t: "starts stop3 t"
  note tt = starts_stop(4,5) [OF t]
  let ?u = "pr_redirs rs @ t"
  have st: "starts stop0 (41 # ?u)" by (simp add: starts_def stops)
  have w41: "starts (- Collect is_white) (41 # ?u)" by (rule starts_symbols)
  have u: "starts (- Collect is_white) ?u" by (rule starts_redirs [OF tt(1)])
  from assms(1) st obtain c' where c': "view span_of c' = c" "settles (\<lambda>n. parseline n (pr 0 c @ 41 # ?u)) c' (41 # ?u)"
    unfolding reads_line_def by blast
  obtain rs' where rs': "reads_redirs rs' = rs" "\<And>c. settles (\<lambda>n. parseredirs n c ?u) (wrap rs' c) t"
    using parseredirs_reads [OF rs tt] by auto
  let ?k = "\<lambda>n c s. case peek s '')'' of (s, p) \<Rightarrow> if \<not> p then Syntax ''syntax - missing )''
         else case gettoken s of (_, _, _, s) \<Rightarrow> parseredirs n c s"
  let ?s = "40 # pr 0 c @ 41 # ?u"
  have "settles (\<lambda>n. ?k n c' (41 # ?u)) (wrap rs' c') t"
    using rs'(2) by (simp add: symbol_found symbol_taken u tok_simps)
  from settles_pbind [where k = ?k, OF c'(2) this]
  have "settles (\<lambda>n. parseblock n ?s) (wrap rs' c') t"
    by (rule settles_shift) (simp add: symbol_found symbol_taken starts_pr [OF assms(2) w41] tok_simps)
  then have "settles (\<lambda>n. parseexec n ?s) (wrap rs' c') t"
    by (rule settles_shift) (simp add: symbol_found symbol_taken starts_pr [OF assms(2) w41] tok_simps)
  then show "\<exists>c'. view span_of c' = awrap rs c \<and> settles (\<lambda>n. parseexec n (pr 3 c @ pr_redirs rs @ t)) c' t"
    using rs'(1) c'(1) assms(3) by (intro exI [of _ "wrap rs' c'"]) (simp add: view_wrap)
qed

lemma exec_redir:
  assumes "reads_exec c" and "redir_ok (f, m, fd)"
  shows "reads_exec (ARedir c f m fd)"
  unfolding reads_exec_def
proof (intro allI impI)
  fix rs t assume rs: "\<forall>r \<in> set rs. redir_ok r" and t: "starts stop3 t"
  have "\<forall>r \<in> set ((f, m, fd) # rs). redir_ok r" using rs assms(2) by simp
  with assms(1) t obtain c' where "view span_of c' = awrap ((f, m, fd) # rs) c" "settles (\<lambda>n. parseexec n (pr 3 c @ pr_redirs ((f, m, fd) # rs) @ t)) c' t"
    unfolding reads_exec_def by blast
  then show "\<exists>c'. view span_of c' = awrap rs (ARedir c f m fd) \<and> settles (\<lambda>n. parseexec n (pr 3 (ARedir c f m fd) @ pr_redirs rs @ t)) c' t"
    by (intro exI [of _ c']) (simp add: awrap_def pr_redirs_simps)
qed

lemma reads_execD:
  assumes "reads_exec c" and "starts stop3 t"
  obtains c' where "view span_of c' = c" and "settles (\<lambda>n. parseexec n (pr 3 c @ t)) c' t"
  using assms unfolding reads_exec_def by (metis append_Nil awrap_def empty_iff empty_set foldl_Nil pr_redirs_simps(1))

lemma pipe_alone:
  assumes "reads_exec c" and "pr 2 c = pr 3 c"
  shows "reads_pipe c"
  unfolding reads_pipe_def
proof (intro allI impI)
  fix t assume t: "starts stop2 t"
  from reads_execD [OF assms(1) starts_stop(3) [OF t]] obtain c'
    where c': "view span_of c' = c" "settles (\<lambda>n. parseexec n (pr 3 c @ t)) c' t" .
  have "peek t ''|'' = (t, False)"
    using t by (intro symbol_absent starts_stop(4) starts_stop(3)) (auto simp: starts_def stops tok_simps)
  then have "settles (\<lambda>n. parsepipe n (pr 2 c @ t)) c' t"
    by (intro settles_Suc [OF c'(2)]) (simp add: assms(2) pbind_def)
  then show "\<exists>c'. view span_of c' = c \<and> settles (\<lambda>n. parsepipe n (pr 2 c @ t)) c' t" using c'(1) by blast
qed

text \<open>Two commands with a symbol between them, as \<open>parsepipe\<close> and \<open>parseline\<close> read them.\<close>

lemma settles_two:
  assumes "settles f l (x # u)" and "settles g r t" and "x \<in> {124, 59}" and "x \<in> set (ascii ts)" and "starts (- Collect is_white) u"
    and "\<And>n. h (Suc n) = pbind (f n) (\<lambda>c s. case peek s ts of (s, p) \<Rightarrow>
        if p then case gettoken s of (_, _, _, s) \<Rightarrow> pbind (g' n s) (\<lambda>r s. Parsed (mk c r) s) else Parsed c s)"
    and "\<And>n. g' n u = g n"
  shows "settles h (mk l r) t"
proof -
  let ?k = "\<lambda>n c s. case peek s ts of (s, p) \<Rightarrow>
        if p then case gettoken s of (_, _, _, s) \<Rightarrow> pbind (g' n s) (\<lambda>r s. Parsed (mk c r) s) else Parsed c s"
  have "settles (\<lambda>n. pbind (g n) (\<lambda>r s. Parsed (mk l r) s)) (mk l r) t"
    by (rule settles_pbind [where k = "\<lambda>n r s. Parsed (mk l r) s", OF assms(2) settles_const])
  moreover have "?k n l (x # u) = pbind (g n) (\<lambda>r s. Parsed (mk l r) s)" for n
    using assms(3,4,5,7) by (auto simp: symbol_found symbol_taken)
  ultimately have "settles (\<lambda>n. ?k n l (x # u)) (mk l r) t" by simp
  from settles_pbind [where k = ?k, OF assms(1) this] show ?thesis by (rule settles_shift) (rule assms(6))
qed

lemma pipe_two:
  assumes "reads_exec l" and "reads_pipe r" and "ast_ok r"
  shows "reads_pipe (APipe l r)"
  unfolding reads_pipe_def
proof (intro allI impI)
  fix t assume t: "starts stop2 t"
  let ?u = "pr 2 r @ t"
  have u: "starts (- Collect is_white) ?u" using t by (intro starts_pr [OF assms(3)] starts_stop(4) starts_stop(3))
  have "starts stop3 (124 # ?u)" by (simp add: starts_def stops)
  from reads_execD [OF assms(1) this] obtain l' where l': "view span_of l' = l" "settles (\<lambda>n. parseexec n (pr 3 l @ 124 # ?u)) l' (124 # ?u)" .
  from assms(2) t obtain r' where r': "view span_of r' = r" "settles (\<lambda>n. parsepipe n ?u) r' t" unfolding reads_pipe_def by blast
  have "settles (\<lambda>n. parsepipe n (pr 3 l @ 124 # ?u)) (PIPE l' r') t"
    by (rule settles_two [OF l'(2) r'(2), where g' = parsepipe and ts = "''|''"]) (use u in \<open>simp_all add: tok_simps\<close>)
  then show "\<exists>c'. view span_of c' = APipe l r \<and> settles (\<lambda>n. parsepipe n (pr 2 (APipe l r) @ t)) c' t"
    using l'(1) r'(1) by (intro exI [of _ "PIPE l' r'"]) (simp add: paren_def)
qed

lemma parseback_reads:
  assumes "starts stop1 t"
  shows "settles (\<lambda>n. parseback n c (replicate k 38 @ t)) ((BACK ^^ k) c) t"
proof (induction k arbitrary: c)
  case 0
  have "peek t ''&'' = (t, False)"
    using assms by (intro symbol_absent starts_stop(4) starts_stop(3) starts_stop(2)) (auto simp: starts_def stops tok_simps)
  then show ?case by (intro settles_Suc [OF settles_const]) simp
next
  case (Suc k)
  have "starts (- Collect is_white) (replicate k 38 @ t)"
    using starts_stop(4) [OF starts_stop(3) [OF starts_stop(2) [OF assms]]] starts_symbols(5) by (cases k) auto
  then have "parseback (Suc n) c (replicate (Suc k) 38 @ t) = parseback n (BACK c) (replicate k 38 @ t)" for n
    by (simp add: symbol_found symbol_taken tok_simps)
  from settles_shift [where g = "\<lambda>n. parseback n c (replicate (Suc k) 38 @ t)", OF Suc [of "BACK c"] this]
  show ?case by (simp add: funpow_swap1)
qed

lemma view_BACK: "view f ((BACK ^^ k) c) = (ABack ^^ k) (view f c)"
  by (induction k) simp_all

lemma back_none:
  assumes "reads_pipe c" and "pr 1 c = pr 2 c"
  shows "reads_back c"
  unfolding reads_back_def
proof (intro allI impI)
  fix k t assume t: "starts stop1 t"
  have "starts stop2 (replicate k 38 @ t)" using starts_stop(2) [OF t] by (cases k) (auto simp: starts_def stops)
  with assms(1) obtain c' where c': "view span_of c' = c" "settles (\<lambda>n. parsepipe n (pr 2 c @ replicate k 38 @ t)) c' (replicate k 38 @ t)"
    unfolding reads_pipe_def by blast
  from settles_pbind [where k = parseback, OF c'(2) parseback_reads [OF t]]
  show "\<exists>c'. view span_of c' = (ABack ^^ k) c \<and> settles (\<lambda>n. pbind (parsepipe n (pr 1 c @ replicate k 38 @ t)) (parseback n)) c' t"
    using c'(1) assms(2) by (intro exI [of _ "(BACK ^^ k) c'"]) (simp add: view_BACK)
qed

lemma back_more:
  assumes "reads_back c"
  shows "reads_back (ABack c)"
  unfolding reads_back_def
proof (intro allI impI)
  fix k t assume t: "starts stop1 t"
  with assms obtain c' where "view span_of c' = (ABack ^^ Suc k) c"
    "settles (\<lambda>n. pbind (parsepipe n (pr 1 c @ replicate (Suc k) 38 @ t)) (parseback n)) c' t"
    unfolding reads_back_def by blast
  then show "\<exists>c'. view span_of c' = (ABack ^^ k) (ABack c) \<and> settles (\<lambda>n. pbind (parsepipe n (pr 1 (ABack c) @ replicate k 38 @ t)) (parseback n)) c' t"
    by (intro exI [of _ c']) (simp add: paren_def funpow_swap1)
qed

lemma reads_backD:
  assumes "reads_back c" and "starts stop1 t"
  obtains c' where "view span_of c' = c" and "settles (\<lambda>n. pbind (parsepipe n (pr 1 c @ t)) (parseback n)) c' t"
proof -
  from assms obtain c' where "view span_of c' = (ABack ^^ 0) c"
    "settles (\<lambda>n. pbind (parsepipe n (pr 1 c @ replicate 0 38 @ t)) (parseback n)) c' t"
    unfolding reads_back_def by blast
  then show thesis using that [of c'] by simp
qed

lemma pbind_assoc: "pbind r (\<lambda>c s. pbind (k c s) h) = pbind (pbind r k) h"
  by (cases r) (simp_all add: pbind_def)

lemma line_alone:
  assumes "reads_back c" and "pr 0 c = pr 1 c"
  shows "reads_line c"
  unfolding reads_line_def
proof (intro allI impI)
  fix t assume t: "starts stop0 t"
  from reads_backD [OF assms(1) starts_stop(1) [OF t]] obtain c'
    where c': "view span_of c' = c" "settles (\<lambda>n. pbind (parsepipe n (pr 1 c @ t)) (parseback n)) c' t" .
  have "peek t '';'' = (t, False)"
    using t by (intro symbol_absent starts_stop(4) starts_stop(3) starts_stop(2) starts_stop(1)) (auto simp: starts_def stops tok_simps)
  then have "settles (\<lambda>n. parseline n (pr 0 c @ t)) c' t"
    by (intro settles_Suc [OF c'(2)]) (simp add: assms(2) pbind_assoc, simp add: pbind_def)
  then show "\<exists>c'. view span_of c' = c \<and> settles (\<lambda>n. parseline n (pr 0 c @ t)) c' t" using c'(1) by blast
qed

lemma line_two:
  assumes "reads_back l" and "reads_line r" and "ast_ok r"
  shows "reads_line (AList l r)"
  unfolding reads_line_def
proof (intro allI impI)
  fix t assume t: "starts stop0 t"
  let ?u = "pr 0 r @ t"
  have u: "starts (- Collect is_white) ?u" using t by (intro starts_pr [OF assms(3)] starts_stop(4) starts_stop(3) starts_stop(2) starts_stop(1))
  have "starts stop1 (59 # ?u)" by (simp add: starts_def stops)
  from reads_backD [OF assms(1) this] obtain l'
    where l': "view span_of l' = l" "settles (\<lambda>n. pbind (parsepipe n (pr 1 l @ 59 # ?u)) (parseback n)) l' (59 # ?u)" .
  from assms(2) t obtain r' where r': "view span_of r' = r" "settles (\<lambda>n. parseline n ?u) r' t" unfolding reads_line_def by blast
  have "settles (\<lambda>n. parseline n (pr 1 l @ 59 # ?u)) (LIST l' r') t"
    by (rule settles_two [OF l'(2) r'(2), where g' = parseline and ts = "'';''"]) (use u in \<open>simp_all add: tok_simps pbind_assoc\<close>)
  then show "\<exists>c'. view span_of c' = AList l r \<and> settles (\<lambda>n. parseline n (pr 0 (AList l r) @ t)) c' t"
    using l'(1) r'(1) by (intro exI [of _ "LIST l' r'"]) (simp add: paren_def)
qed

lemma reads_all: "ast_ok c \<Longrightarrow> reads_exec c \<and> reads_pipe c \<and> reads_back c \<and> reads_line c"
proof (induction c)
  case (AExec ws)
  have "reads_exec (AExec ws)" by (rule exec_words [OF AExec])
  moreover from this have "reads_pipe (AExec ws)" by (rule pipe_alone) simp
  moreover from this have "reads_back (AExec ws)" by (rule back_none) simp
  moreover from this have "reads_line (AExec ws)" by (rule line_alone) simp
  ultimately show ?case by blast
next
  case (ARedir c f m fd)
  then have "reads_exec (ARedir c f m fd)" by (intro exec_redir) auto
  moreover from this have "reads_pipe (ARedir c f m fd)" by (rule pipe_alone) simp
  moreover from this have "reads_back (ARedir c f m fd)" by (rule back_none) simp
  moreover from this have "reads_line (ARedir c f m fd)" by (rule line_alone) simp
  ultimately show ?case by blast
next
  case (APipe l r)
  then have "reads_pipe (APipe l r)" by (intro pipe_two) auto
  moreover from this have "reads_back (APipe l r)" by (rule back_none) (simp add: paren_def)
  moreover from this have "reads_line (APipe l r)" by (rule line_alone) (simp add: paren_def)
  moreover from this have "reads_exec (APipe l r)" by (rule exec_paren [OF _ APipe.prems]) (simp add: paren_def)
  ultimately show ?case by blast
next
  case (AList l r)
  then have "reads_line (AList l r)" by (intro line_two) auto
  moreover from this have "reads_exec (AList l r)" by (rule exec_paren [OF _ AList.prems]) (simp add: paren_def)
  moreover from this have "reads_pipe (AList l r)" by (rule pipe_alone) (simp add: paren_def)
  moreover from this have "reads_back (AList l r)" by (rule back_none) (simp add: paren_def)
  ultimately show ?case by blast
next
  case (ABack c)
  then have "reads_back (ABack c)" by (intro back_more) auto
  moreover from this have "reads_line (ABack c)" by (rule line_alone) (simp add: paren_def)
  moreover from this have "reads_exec (ABack c)" by (rule exec_paren [OF _ ABack.prems]) (simp add: paren_def)
  moreover from this have "reads_pipe (ABack c)" by (rule pipe_alone) (simp add: paren_def)
  ultimately show ?case by blast
qed

section \<open>Reading back\<close>

lemma no_nul: "ast_ok c \<Longrightarrow> 0 \<notin> set (pr k c)"
  by (induction c arbitrary: k) (auto simp: pr_words_def pr_redirs_def paren_def word_ok_def redir_ok_def)

lemma view_cong: "(\<And>t. t \<in> set (tokens c) \<Longrightarrow> f t = g t) \<Longrightarrow> view f c = view g c"
  by (induction c) auto

lemma parse_reads:
  assumes "ast_ok c"
  obtains c' where "parse (pr 0 c) = Parsed c' []" and "view span_of c' = c"
proof -
  have "reads_line c" using reads_all [OF assms] by simp
  then obtain c' where c': "view span_of c' = c" "settles (\<lambda>n. parseline n (pr 0 c @ [])) c' []"
    unfolding reads_line_def by (auto simp: starts_def)
  then obtain N where N: "\<And>n. N \<le> n \<Longrightarrow> parseline n (pr 0 c) = Parsed c' []" by (auto simp: settles_def)
  let ?F = "parse_fuel (pr 0 c)"
  have "parseline ?F (pr 0 c) \<noteq> Running" using ends_parse(1) [of "pr 0 c" ?F] by (auto simp: parse_fuel_def ends_def)
  then have "parseline ?F (pr 0 c) = parseline (max N ?F) (pr 0 c)"
    using parse_mono(1) [of ?F "max N ?F" "pr 0 c"] by (simp add: below_def)
  then have "parse (pr 0 c) = Parsed c' []" using N [of "max N ?F"] by (simp add: parse_def pbind_def peek_def)
  then show thesis using that c'(1) by blast
qed

text \<open>C35: The shell reads back every command that is written down (src/sh.c): for a tree of programs with at most nine
  arguments, redirections, pipes, lists and background commands, \<open>parsecmd\<close> on the written line goes on with a command that is that tree, each string
  read up to its NUL in the line that \<open>nulterminate\<close> leaves. Parentheses, \<open>&\<close> after \<open>&\<close> and empty commands are included.\<close>

theorem shell_reads_written_command:
  fixes k :: "cmd \<Rightarrow> ustr \<Rightarrow> (uproc, 'a) kmon"
  assumes "ast_ok c"
  shows "\<exists>c' b. parsecmd (pr 0 c) k = k c' b \<and> b = nulterminate c' (pr 0 c) \<and> view (\<lambda>t. string_at b (fst t)) c' = c"
proof -
  from parse_reads [OF assms] obtain c' where p: "parse (pr 0 c) = Parsed c' []" "view span_of c' = c" .
  let ?b = "nulterminate c' (pr 0 c)"
  have "string_at ?b (fst t) = span_of t" if "t \<in> set (tokens c')" for t
    using that on_line_parse_line [of "pr 0 c"] p(1) no_nul [OF assms, of 0]
    by (simp add: on_line_def cmd_ok_def nulterminate_cut string_at_cut)
  then have "view (\<lambda>t. string_at ?b (fst t)) c' = view span_of c'" by (rule view_cong)
  then show ?thesis using p by (auto simp: parsecmd_def)
qed

theorem shell_reads_written_command_witness:
  "pr 0 (ABack (APipe (ARedir (AExec [ascii ''cat'']) (ascii ''f'') O_RDONLY 0) (AList (AExec [ascii ''wc'']) (AExec [])))) = ascii ''cat <f |(wc ;)&'' \<and>
   (\<exists>c' b. parsecmd (ascii ''cat <f |(wc ;)&'') (\<lambda>c b. ret (c, b)) = (ret (c', b) :: (uproc, cmd \<times> ustr) kmon) \<and>
     view (\<lambda>t. string_at b (fst t)) c' = ABack (APipe (ARedir (AExec [ascii ''cat'']) (ascii ''f'') O_RDONLY 0) (AList (AExec [ascii ''wc'']) (AExec []))))"
proof -
  let ?c = "ABack (APipe (ARedir (AExec [ascii ''cat'']) (ascii ''f'') O_RDONLY 0) (AList (AExec [ascii ''wc'']) (AExec [])))"
  have p: "pr 0 ?c = ascii ''cat <f |(wc ;)&''" by code_simp
  have "ast_ok ?c" by code_simp
  from shell_reads_written_command [OF this, of "\<lambda>c b. ret (c, b)"] p show ?thesis by auto
qed

end
