(* ===== verification/Tools.thy ===== *)
theory Tools
  imports User
begin

text \<open>
  The small user programs: src/cat.c, echo.c, kill.c, ln.c, ls.c, mkdir.c, rm.c, wc.c, zombie.c,
  init.c, ps.c, and the test programs src/forktest.c, stressfs.c, schedtest.c and tickettest.c.

  A program gets the list of its arguments, its own name first. A loop without system calls that
  never ends is \<open>block\<close>. The buffers that programs read into are functions from places to bytes.
\<close>

section \<open>Shared parts\<close>

definition nl :: string where
  "nl = [CHR 0x0A]"

text \<open>What is in a buffer after a read into its start.\<close>

definition read_into :: "bytes \<Rightarrow> uchar list \<Rightarrow> bytes" where
  "read_into buf xs = memmove_from buf 0 (list_bytes xs) 0 (length xs)"

definition uatoi :: "ustr \<Rightarrow> (int \<Rightarrow> ('s, 'a) kmon) \<Rightarrow> ('s, 'a) kmon" where
  "uatoi s k = (case atoi (list_bytes s) 0 of None \<Rightarrow> panic ''out of bounds'' | Some n \<Rightarrow> k n)"

section \<open>cat\<close>

text \<open>The loop leaves with what the last \<open>read\<close> returned.\<close>

definition cat_body :: "int \<Rightarrow> bytes \<Rightarrow> ('z uproc_scheme, bytes + int) kmon" where
  "cat_body fd buf = bnd (sys (U_read fd 512)) (\<lambda>r.
     if r_val r > 0 then
       let buf = read_into buf (r_data r) in
       bnd (sysv (U_write 1 (span buf 0 (nat (r_val r))))) (\<lambda>w.
         if w \<noteq> r_val r then sqn (uprintf 1 (''cat: write error'' @ nl) []) uexit
         else ret (Inl buf))
     else ret (Inr (r_val r)))"

definition cat :: "int \<Rightarrow> ('z uproc_scheme, unit) kmon" where
  "cat fd = bnd (while_sys (cat_body fd) (\<lambda>_. 0)) (\<lambda>n.
     if n < 0 then sqn (uprintf 1 (''cat: read error'' @ nl) []) uexit else ret ())"

fun cat_files :: "ustr list \<Rightarrow> ('z uproc_scheme, unit) kmon" where
  "cat_files [] = ret ()"
| "cat_files (f # fs) = bnd (sysv (U_open f 0)) (\<lambda>fd.
     if fd < 0 then sqn (uprintf 1 (''cat: cannot open %s'' @ nl) [AS f]) uexit
     else stmts [cat fd, sysx (U_close fd), cat_files fs])"

definition cat_main :: "ustr list \<Rightarrow> ('z uproc_scheme, unit) kmon" where
  "cat_main argv = (if length argv \<le> 1 then sqn (cat 0) uexit else sqn (cat_files (drop 1 argv)) uexit)"

section \<open>echo, kill, ln, mkdir, rm, zombie, ps\<close>

fun echo_args :: "ustr list \<Rightarrow> ('z uproc_scheme, unit) kmon" where
  "echo_args [] = ret ()"
| "echo_args (a # as) = sqn (uprintf 1 ''%s%s'' [AS a, AS (if as \<noteq> [] then ascii '' '' else ascii nl)]) (echo_args as)"

definition echo_main :: "ustr list \<Rightarrow> ('z uproc_scheme, unit) kmon" where
  "echo_main argv = sqn (echo_args (drop 1 argv)) uexit"

definition kill_main :: "ustr list \<Rightarrow> ('z uproc_scheme, unit) kmon" where
  "kill_main argv =
     (if length argv < 2 then sqn (uprintf 2 (''usage: kill pid...'' @ nl) []) uexit
      else sqn (forM (drop 1 argv) (\<lambda>a. uatoi a (\<lambda>n. sysx (U_kill n)))) uexit)"

definition ln_main :: "ustr list \<Rightarrow> ('z uproc_scheme, unit) kmon" where
  "ln_main argv =
     (if length argv \<noteq> 3 then sqn (uprintf 2 (''Usage: ln old new'' @ nl) []) uexit
      else bnd (sysv (U_link (argv ! 1) (argv ! 2))) (\<lambda>r.
        sqn (whenM (r < 0) (uprintf 2 (''link %s %s: failed'' @ nl) [AS (argv ! 1), AS (argv ! 2)])) uexit))"

fun mkdir_args :: "ustr list \<Rightarrow> ('z uproc_scheme, unit) kmon" where
  "mkdir_args [] = ret ()"
| "mkdir_args (a # as) = bnd (sysv (U_mkdir a)) (\<lambda>r.
     if r < 0 then uprintf 2 (''mkdir: %s failed to create'' @ nl) [AS a] else mkdir_args as)"

definition mkdir_main :: "ustr list \<Rightarrow> ('z uproc_scheme, unit) kmon" where
  "mkdir_main argv =
     (if length argv < 2 then sqn (uprintf 2 (''Usage: mkdir files...'' @ nl) []) uexit
      else sqn (mkdir_args (drop 1 argv)) uexit)"

fun rm_args :: "ustr list \<Rightarrow> ('z uproc_scheme, unit) kmon" where
  "rm_args [] = ret ()"
| "rm_args (a # as) = bnd (sysv (U_unlink a)) (\<lambda>r.
     if r < 0 then uprintf 2 (''rm: %s failed to delete'' @ nl) [AS a] else rm_args as)"

definition rm_main :: "ustr list \<Rightarrow> ('z uproc_scheme, unit) kmon" where
  "rm_main argv =
     (if length argv < 2 then sqn (uprintf 2 (''Usage: rm files...'' @ nl) []) uexit
      else sqn (rm_args (drop 1 argv)) uexit)"

definition zombie_main :: "('z uproc_scheme, unit) kmon" where
  "zombie_main = bnd (sysv U_fork) (\<lambda>pid. sqn (whenM (pid > 0) (sysx (U_sleep 5))) uexit)"

definition ps_main :: "('z uproc_scheme, unit) kmon" where
  "ps_main = sqn ups uexit"

section \<open>ls\<close>

definition fmtname :: "ustr \<Rightarrow> ustr" where
  "fmtname pth =
     (let p = rev (takeWhile (\<lambda>c. c \<noteq> slash) (rev pth))
      in if length p \<ge> DIRSIZ then p else p @ replicate (DIRSIZ - length p) 32)"

definition ls_entry :: "ustr \<Rightarrow> stat \<Rightarrow> ('z uproc_scheme, unit) kmon" where
  "ls_entry pth st = uprintf 1 (''%s %d %d %d'' @ nl)
     [AS (fmtname pth), AW (scast (st_type st)), AW (st_ino st), AW (st_size st)]"

text \<open>One directory entry: the name has up to \<open>DIRSIZ\<close> characters after the inode number.\<close>

definition ls_body :: "ustr \<Rightarrow> int \<Rightarrow> unit \<Rightarrow> ('z uproc_scheme, unit + unit) kmon" where
  "ls_body pth fd _ = bnd (sys (U_read fd (int DIRENT_SIZE))) (\<lambda>r.
     if r_val r \<noteq> int DIRENT_SIZE then ret (Inr ())
     else
       let de = list_bytes (r_data r);
           buf = pth @ slash # cstr de 2 DIRSIZ
       in if de_inum de = 0 then ret (Inl ())
          else bnd (ustat buf) (\<lambda>(rc, st).
            if rc < 0 then sqn (uprintf 1 (''ls: cannot stat %s'' @ nl) [AS buf]) (ret (Inl ()))
            else case st of
              None \<Rightarrow> panic ''stat''
            | Some st \<Rightarrow> sqn (ls_entry buf st) (ret (Inl ()))))"

definition ls :: "ustr \<Rightarrow> ('z uproc_scheme, unit) kmon" where
  "ls pth = bnd (sysv (U_open pth 0)) (\<lambda>fd.
     if fd < 0 then uprintf 2 (''ls: cannot open %s'' @ nl) [AS pth]
     else bnd (sys (U_fstat fd)) (\<lambda>r.
       if r_val r < 0 then sqn (uprintf 2 (''ls: cannot stat %s'' @ nl) [AS pth]) (sysx (U_close fd))
       else sqn
         (if st_type (r_stat r) = T_FILE then ls_entry pth (r_stat r)
          else if st_type (r_stat r) = T_DIR then
            (if length pth + 1 + DIRSIZ + 1 > 512 then uprintf 1 (''ls: path too long'' @ nl) []
             else while_sys (ls_body pth fd) ())
          else ret ())
         (sysx (U_close fd))))"

definition ls_main :: "ustr list \<Rightarrow> ('z uproc_scheme, unit) kmon" where
  "ls_main argv = (if length argv < 2 then sqn (ls (ascii ''.'')) uexit else sqn (forM (drop 1 argv) ls) uexit)"

section \<open>wc\<close>

text \<open>Lines, words, characters, and whether the last character was in a word.\<close>

type_synonym wc_counts = "int \<times> int \<times> int \<times> bool"

definition wc_char :: "uchar \<Rightarrow> wc_counts \<Rightarrow> wc_counts" where
  "wc_char ch = (\<lambda>(l, w, c, inword).
     let c = i32 (c + 1);
         l = (if ch = 10 then i32 (l + 1) else l)
     in if ch \<in> {32, 13, 9, 10, 11} then (l, w, c, False)
        else if \<not> inword then (l, i32 (w + 1), c, True)
        else (l, w, c, inword))"

definition wc_body :: "int \<Rightarrow> bytes \<times> wc_counts \<Rightarrow> ('z uproc_scheme, (bytes \<times> wc_counts) + (int \<times> wc_counts)) kmon" where
  "wc_body fd = (\<lambda>(buf, cnt). bnd (sys (U_read fd 512)) (\<lambda>r.
     if r_val r > 0 then
       let buf = read_into buf (r_data r)
       in ret (Inl (buf, fold wc_char (span buf 0 (nat (r_val r))) cnt))
     else ret (Inr (r_val r, cnt))))"

definition wc :: "int \<Rightarrow> ustr \<Rightarrow> ('z uproc_scheme, unit) kmon" where
  "wc fd name = bnd (while_sys (wc_body fd) (\<lambda>_. 0, (0, 0, 0, False))) (\<lambda>(n, l, w, c, inword).
     if n < 0 then sqn (uprintf 1 (''wc: read error'' @ nl) []) uexit
     else uprintf 1 (''%d %d %d %s'' @ nl) [AW (word_of_int l), AW (word_of_int w), AW (word_of_int c), AS name])"

fun wc_files :: "ustr list \<Rightarrow> ('z uproc_scheme, unit) kmon" where
  "wc_files [] = ret ()"
| "wc_files (f # fs) = bnd (sysv (U_open f 0)) (\<lambda>fd.
     if fd < 0 then sqn (uprintf 1 (''wc: cannot open %s'' @ nl) [AS f]) uexit
     else stmts [wc fd f, sysx (U_close fd), wc_files fs])"

definition wc_main :: "ustr list \<Rightarrow> ('z uproc_scheme, unit) kmon" where
  "wc_main argv = (if length argv \<le> 1 then sqn (wc 0 []) uexit else sqn (wc_files (drop 1 argv)) uexit)"

section \<open>init\<close>

definition init_wait :: "int \<Rightarrow> unit \<Rightarrow> ('z uproc_scheme, unit + unit) kmon" where
  "init_wait pid _ = bnd (sysv U_wait) (\<lambda>wpid.
     if wpid \<ge> 0 \<and> wpid \<noteq> pid then sqn (uprintf 1 (''zombie!'' @ nl) []) (ret (Inl ()))
     else ret (Inr ()))"

definition init_body :: "unit \<Rightarrow> ('z uproc_scheme, unit + unit) kmon" where
  "init_body _ = sqn (uprintf 1 (''init: starting sh'' @ nl) []) (bnd (sysv U_fork) (\<lambda>pid.
     if pid < 0 then sqn (uprintf 1 (''init: fork failed'' @ nl) []) uexit
     else if pid = 0 then
       sqn (sysx (U_exec (ascii ''sh'') [ascii ''sh''])) (sqn (uprintf 1 (''init: exec sh failed'' @ nl) []) uexit)
     else sqn (while_sys (init_wait pid) ()) (ret (Inl ()))))"

definition init_main :: "('z uproc_scheme, unit) kmon" where
  "init_main = bnd (sysv (U_open (ascii ''console'') O_RDWR)) (\<lambda>fd.
     stmts [whenM (fd < 0) (stmts [sysx (U_mknod (ascii ''console'') 1 1), sysx (U_open (ascii ''console'') O_RDWR)]),
       sysx (U_dup 0), sysx (U_dup 0), while_sys init_body ()])"

section \<open>forktest\<close>

text \<open>forktest has a \<open>printf\<close> of its own.\<close>

definition ft_printf :: "int \<Rightarrow> string \<Rightarrow> ('z uproc_scheme, unit) kmon" where
  "ft_printf fd s = sysx (U_write fd (ascii s))"

definition FT_N :: nat where "FT_N = 1000"

text \<open>How many forks worked, of \<open>k\<close> more.\<close>

primrec ft_forks :: "nat \<Rightarrow> nat \<Rightarrow> ('z uproc_scheme, nat) kmon" where
  "ft_forks 0 n = ret n"
| "ft_forks (Suc k) n = bnd (sysv U_fork) (\<lambda>pid.
     if pid < 0 then ret n else if pid = 0 then uexit else ft_forks k (n + 1))"

primrec ft_waits :: "nat \<Rightarrow> ('z uproc_scheme, unit) kmon" where
  "ft_waits 0 = ret ()"
| "ft_waits (Suc n) = bnd (sysv U_wait) (\<lambda>r.
     if r < 0 then sqn (ft_printf 1 (''wait stopped early'' @ nl)) uexit else ft_waits n)"

definition forktest :: "('z uproc_scheme, unit) kmon" where
  "forktest = sqn (ft_printf 1 (''fork test'' @ nl)) (bnd (ft_forks FT_N 0) (\<lambda>n.
     if n = FT_N then sqn (ft_printf 1 (''fork claimed to work N times!'' @ nl)) uexit
     else sqn (ft_waits n) (bnd (sysv U_wait) (\<lambda>r.
       if r \<noteq> - 1 then sqn (ft_printf 1 (''wait got too many'' @ nl)) uexit
       else ft_printf 1 (''fork test OK'' @ nl)))))"

definition forktest_main :: "('z uproc_scheme, unit) kmon" where
  "forktest_main = sqn forktest uexit"

section \<open>stressfs\<close>

primrec sf_forks :: "nat \<Rightarrow> nat \<Rightarrow> ('z uproc_scheme, nat) kmon" where
  "sf_forks 0 i = ret i"
| "sf_forks (Suc k) i = bnd (sysv U_fork) (\<lambda>pid. if pid > 0 then ret i else sf_forks k (i + 1))"

definition stressfs_main :: "('z uproc_scheme, unit) kmon" where
  "stressfs_main = sqn (uprintf 1 (''stressfs starting'' @ nl) []) (bnd (sf_forks 4 0) (\<lambda>i.
     let pth = ascii ''stressfs'' @ [48 + of_nat i] in
     sqn (uprintf 1 (''write %d'' @ nl) [AW (of_nat i)]) (bnd (sysv (U_open pth (O_CREATE OR O_RDWR))) (\<lambda>fd.
       stmts [forM [0..<20] (\<lambda>_. sysx (U_write fd (replicate 512 97))), sysx (U_close fd), uprintf 1 (''read'' @ nl) [],
         bnd (sysv (U_open pth O_RDONLY)) (\<lambda>fd.
           stmts [forM [0..<20] (\<lambda>_. sysx (U_read fd 512)), sysx (U_close fd), sysx U_wait, uexit])]))))"

section \<open>schedtest\<close>

fun st_tickets :: "ustr list \<Rightarrow> int list \<Rightarrow> ('z uproc_scheme, int list) kmon" where
  "st_tickets [] ts = ret ts"
| "st_tickets (a # as) ts = uatoi a (\<lambda>t.
     if t < 10 then sqn (uprintf 1 (''tickets must be greater than or equal to 10'' @ nl) []) uexit
     else st_tickets as (ts @ [t]))"

fun st_children :: "int list \<Rightarrow> int list \<Rightarrow> ('z uproc_scheme, int list) kmon" where
  "st_children [] pids = ret pids"
| "st_children (t # ts) pids = bnd (sysv U_fork) (\<lambda>pid.
     if pid = 0 then sqn (sysx (U_settickets t)) block else st_children ts (pids @ [pid]))"

definition schedtest_main :: "ustr list \<Rightarrow> ('z uproc_scheme, unit) kmon" where
  "schedtest_main argv =
     (if length argv \<le> 3 then
        stmts [uprintf 1 (''usage: schedtest loops tickets1 [ tickets2 ... ticketsN ]'' @ nl) [],
          uprintf 1 (''      loops must be greater than 0'' @ nl) [],
          uprintf 1 (''      tickets must be greater than or equal to 10'' @ nl) [],
          uprintf 1 (''      up to 7 tickets can be provided'' @ nl) [], uexit]
      else uatoi (argv ! 1) (\<lambda>loops.
        if loops \<le> 0 then sqn (uprintf 1 (''loops must be greater than 0'' @ nl) []) uexit
        else if length argv > 9 then sqn (uprintf 1 (''up to 7 tickets can be provided'' @ nl) []) uexit
        else bnd (st_tickets (drop 2 argv) []) (\<lambda>tickets. bnd (st_children tickets []) (\<lambda>pids.
          stmts [forM [0..<nat loops] (\<lambda>_. sqn ups (sysx (U_sleep 3))),
            forM pids (\<lambda>pid. sysx (U_kill pid)), forM pids (\<lambda>_. sysx U_wait), uexit]))))"

section \<open>tickettest\<close>

definition print_pid :: "string \<Rightarrow> ('z uproc_scheme, unit) kmon" where
  "print_pid fmt = bnd (sysv U_getpid) (\<lambda>pid. uprintf 1 (fmt @ nl) [AW (word_of_int pid)])"

text \<open>The second message of the second child has a conversion and no argument.\<close>

definition tt_second_child :: "('z uproc_scheme, unit) kmon" where
  "tt_second_child = stmts [print_pid ''second child pid: %d; tickets should be 20'', ups, sysx (U_settickets 30),
     uprintf 1 (''second child pid: %d; tickets should now be 30'' @ nl) [], ups,
     bnd (sysv U_fork) (\<lambda>pid.
       if pid = 0 then sqn (print_pid ''child of second child pid: %d; tickets should be 30'') ups
       else sqn (sysx U_wait) uexit)]"

definition tickettest_main :: "('z uproc_scheme, unit) kmon" where
  "tickettest_main = stmts [print_pid ''parent pid: %d; tickets should be 10'', ups,
     bnd (sysv U_fork) (\<lambda>pid. whenM (pid = 0)
       (stmts [print_pid ''first child pid: %d; tickets should be 10'', ups, uexit])),
     sysx U_wait, print_pid ''parent pid: %d; setting tickets to 20'', sysx (U_settickets 20), ups,
     bnd (sysv U_fork) (\<lambda>pid. whenM (pid = 0) tt_second_child),
     sysx U_wait, uexit]"

section \<open>The loops take replies\<close>

lemma takes_stat [takes_intros]: "takes 0 (ustat n)"
  unfolding ustat_def by (intro takes_intros)

lemma takes_ls_entry [takes_intros]: "takes 0 (ls_entry p st)"
  unfolding ls_entry_def by (intro takes_intros)

lemma cat_body_consumes: "consumes (cat_body fd)"
  unfolding cat_body_def by (rule consumesI) (intro takes_first takes_one takes_intros)

lemma wc_body_consumes: "consumes (wc_body fd)"
  unfolding wc_body_def by (rule consumesI) (simp only: case_prod_unfold, intro takes_first takes_one takes_intros)

lemma ls_body_consumes: "consumes (ls_body p fd)"
  unfolding ls_body_def by (rule consumesI) (intro takes_first takes_one takes_intros)

lemma init_wait_consumes: "consumes (init_wait pid)"
  unfolding init_wait_def by (rule consumesI) (intro takes_first takes_one takes_intros)

lemma takes_while_sys [takes_intros]:
  assumes "\<And>a. takes 0 (body a)"
  shows "takes 0 (while_sys body a)"
proof -
  have "takes 0 (uloop n body a)" for n a
  proof (induction n arbitrary: a)
    case (Suc n)
    have "takes 0 (case r of Inl a' \<Rightarrow> uloop n body a' | Inr b \<Rightarrow> ret b)" for r by (cases r) (simp_all add: Suc takes_ret)
    then show ?case by (simp add: takes_bnd0 assms)
  qed (simp add: takes_block)
  then show ?thesis by (simp add: takes_def while_sys_def del: uloop.simps)
qed

lemma init_body_consumes: "consumes init_body"
proof (rule consumesI)
  have w: "takes 0 (init_wait pid a)" for pid a unfolding init_wait_def by (intro takes_intros)
  have "takes 1 (uprintf 1 (''init: starting sh'' @ nl) [])" using takes_uprintf1 [of "CHR ''i''"] by simp
  then show "takes 1 (init_body a)" for a unfolding init_body_def by (rule takes_first(2)) (intro takes_intros w)
qed

section \<open>Counting\<close>

text \<open>A word starts at a character that is not white space and comes first or after white space.\<close>

definition wc_white :: "uchar \<Rightarrow> bool" where
  "wc_white c \<longleftrightarrow> c \<in> {32, 13, 9, 10, 11}"

definition word_starts :: "ustr \<Rightarrow> nat list" where
  "word_starts xs = filter (\<lambda>i. \<not> wc_white (xs ! i) \<and> (i = 0 \<or> wc_white (xs ! (i - 1)))) [0..<length xs]"

definition wc_of :: "ustr \<Rightarrow> wc_counts" where
  "wc_of xs = (i32 (int (length (filter (\<lambda>c. c = 10) xs))), i32 (int (length (word_starts xs))), i32 (int (length xs)),
     xs \<noteq> [] \<and> \<not> wc_white (last xs))"

lemma word_starts_snoc:
  "word_starts (xs @ [x]) = word_starts xs @ (if \<not> wc_white x \<and> (xs = [] \<or> wc_white (last xs)) then [length xs] else [])"
proof -
  have "filter (\<lambda>i. \<not> wc_white ((xs @ [x]) ! i) \<and> (i = 0 \<or> wc_white ((xs @ [x]) ! (i - 1)))) [0..<length xs] = word_starts xs"
    unfolding word_starts_def by (rule filter_cong) (auto simp: nth_append)
  then show ?thesis by (cases "xs = []") (auto simp: word_starts_def nth_append last_conv_nth)
qed

lemma i32_inc: "i32 (i32 n + 1) = i32 (n + 1)"
  by (rule i32_plus_left)

lemma wc_of_snoc: "wc_of (xs @ [x]) = wc_char x (wc_of xs)"
  by (simp add: wc_of_def wc_char_def word_starts_snoc i32_inc Let_def wc_white_def [symmetric])
    (auto simp: wc_white_def i32_inc add.commute)

lemma wc_of_append: "fold wc_char ys (wc_of xs) = wc_of (xs @ ys)"
proof (induction ys arbitrary: xs)
  case (Cons y ys)
  show ?case using Cons [of "xs @ [y]"] by (simp add: wc_of_snoc)
qed simp

lemma read_into_span: "span (read_into buf xs) 0 (length xs) = xs"
  unfolding read_into_def by (rule nth_equalityI) (auto simp: span_def memmove_from_apply list_bytes_def)

lemma word_i32: "word_of_int (i32 x) = (word_of_int x :: uint)"
proof -
  have "i32 x = x - 4294967296 * ((x + 2147483648) div 4294967296)"
    unfolding i32_def by (simp add: minus_mult_div_eq_mod [symmetric])
  then have "word_of_int (i32 x) = (word_of_int x :: uint) - word_of_int 4294967296 * word_of_int ((x + 2147483648) div 4294967296)"
    by (simp only: wi_hom_sub [symmetric] wi_hom_mult [symmetric])
  moreover have "word_of_int 4294967296 = (0 :: uint)" by (simp add: word_of_int_eq_0_iff)
  ultimately show ?thesis by (simp only: mult_zero_left diff_zero)
qed

definition brings :: "reply \<Rightarrow> ustr \<Rightarrow> bool" where
  "brings r xs \<longleftrightarrow> r_val r = int (length xs) \<and> r_data r = xs \<and> xs \<noteq> []"

lemma wc_loop:
  assumes "list_all2 brings rs xs" and "r_val r \<le> 0" and "replies s = rs @ r # rest"
  shows "while_sys (wc_body fd) (buf, wc_of pre) s = Ok (r_val r, wc_of (pre @ concat xs))
    (s\<lparr>replies := rest, calls := calls s @ replicate (Suc (length rs)) (U_read fd 512)\<rparr>)"
  using assms
proof (induction rs xs arbitrary: s buf pre rule: list_all2_induct)
  case Nil
  then show ?case
    by (subst while_sys_unfold [OF wc_body_consumes]) (simp add: wc_body_def bnd_def sys_def ret_def)
next
  case (Cons q rs x xs)
  let ?s = "s\<lparr>replies := rs @ r # rest, calls := calls s @ [U_read fd 512]\<rparr>"
  have q: "r_val q = int (length x)" "r_data q = x" "x \<noteq> []" using Cons.hyps(1) by (auto simp: brings_def)
  have "wc_body fd (buf, wc_of pre) s = Ok (Inl (read_into buf x, wc_of (pre @ x))) ?s"
    using q Cons.prems(2) by (simp add: wc_body_def bnd_def sys_def ret_def Let_def read_into_span wc_of_append)
  then have "while_sys (wc_body fd) (buf, wc_of pre) s = while_sys (wc_body fd) (read_into buf x, wc_of (pre @ x)) ?s"
    by (subst while_sys_unfold [OF wc_body_consumes]) (simp add: bnd_def)
  also have "\<dots> = Ok (r_val r, wc_of ((pre @ x) @ concat xs)) (?s\<lparr>replies := rest, calls := calls ?s @ replicate (Suc (length rs)) (U_read fd 512)\<rparr>)"
    using Cons.prems by (intro Cons.IH) simp_all
  finally show ?case by simp
qed

text \<open>C39: \<open>wc\<close> (src/wc.c) prints the number of newlines, of words and of characters of the file, as 32-bit numbers, in whatever
  pieces the file is read; a word that two reads bring in parts counts once.\<close>

theorem wc_counts_file:
  assumes "list_all2 brings rs xs" and "r_val r = 0" and "replies s = rs @ r # rest"
  shows "wc fd name s = uprintf 1 (''%d %d %d %s'' @ nl)
      [AW (of_nat (length (filter (\<lambda>c. c = 10) (concat xs)))), AW (of_nat (length (word_starts (concat xs)))), AW (of_nat (length (concat xs))), AS name]
      (s\<lparr>replies := rest, calls := calls s @ replicate (Suc (length rs)) (U_read fd 512)\<rparr>)"
proof -
  have "wc_of [] = (0, 0, 0, False)" by (simp add: wc_of_def word_starts_def i32_id)
  with wc_loop [OF assms(1) _ assms(3), of fd "\<lambda>_. 0" "[]"] assms(2)
  have "while_sys (wc_body fd) (\<lambda>_. 0, (0, 0, 0, False)) s = Ok (0, wc_of (concat xs))
    (s\<lparr>replies := rest, calls := calls s @ replicate (Suc (length rs)) (U_read fd 512)\<rparr>)" by simp
  moreover have "word_of_int (i32 (int n)) = (of_nat n :: uint)" for n by (simp add: word_i32)
  ultimately show ?thesis by (simp add: wc_def bnd_def wc_of_def)
qed

theorem wc_counts_file_witness:
  "wc 3 (ascii ''f'') \<lparr>replies = [demo_reply 4 (ascii ''ab c''), demo_reply 2 [100, 10], demo_reply 0 []], calls = []\<rparr> =
     (uprintf 1 (''%d %d %d %s'' @ nl) [AW 1, AW 2, AW 6, AS (ascii ''f'')]
       \<lparr>replies = [], calls = [U_read 3 512, U_read 3 512, U_read 3 512]\<rparr> :: (unit, uproc) outcome)"
proof -
  let ?xs = "[ascii ''ab c'', [100, 10]]" and ?rs = "[demo_reply 4 (ascii ''ab c''), demo_reply 2 [100, 10]]"
  have "list_all2 brings ?rs ?xs" by (simp add: brings_def demo_reply_def ascii_def)
  moreover have "concat ?xs = ascii ''ab c'' @ [100, 10]" by simp
  moreover have "length (word_starts (ascii ''ab c'' @ [100, 10])) = 2" "length (filter (\<lambda>c. c = 10) (ascii ''ab c'' @ [100, 10])) = 1"
    "length (ascii ''ab c'' @ [100, 10]) = 6" by code_simp+
  moreover have "r_val (demo_reply 0 []) = 0" by (simp add: demo_reply_def)
  ultimately show ?thesis
    using wc_counts_file [of ?rs ?xs "demo_reply 0 []" "\<lparr>replies = ?rs @ demo_reply 0 [] # [], calls = []\<rparr>" "[]" 3 "ascii ''f''"]
    by (simp add: numeral_2_eq_2 del: concat.simps)
qed

section \<open>What ps shows\<close>

lemma ps_loop_hole:
  "\<forall>e \<in> set pre. ps_pid e \<noteq> 0 \<Longrightarrow> ps_pid h = 0 \<Longrightarrow> ps_loop (pre @ h # post) = ps_loop (pre @ [h])"
  by (induction pre) simp_all

lemma ps_loop_full: "\<forall>e \<in> set es. ps_pid e \<noteq> 0 \<Longrightarrow> ps_loop es s \<noteq> Ok () s'"
proof (induction es arbitrary: s)
  case (Cons e es)
  have "sqn m (ps_loop es) s \<noteq> Ok () s'" for m :: "('a uproc_scheme, unit) kmon"
    using Cons by (auto simp: sqn_Ok_iff)
  then show ?case using Cons.prems by (simp del: append.simps)
qed (simp add: panic_def)

lemma plain_printf:
  assumes "CHR ''%'' \<notin> set fmt" and "replies s = hs @ rest" and "length hs = length fmt"
  shows "uprintf fd fmt ap s = Ok () (s\<lparr>replies := rest, calls := calls s @ map (\<lambda>c. U_write fd [of_char c]) fmt\<rparr>)"
  using assms unfolding uprintf_def
proof (induction fmt arbitrary: s hs)
  case (Cons c fmt)
  then obtain h hs' where h: "hs = h # hs'" by (cases hs) auto
  let ?s = "s\<lparr>replies := hs' @ rest, calls := calls s @ [U_write fd [of_char c]]\<rparr>"
  have "putc fd (of_char c) s = Ok () ?s" using Cons.prems h by (simp add: putc_def sysx_def bnd_def sys_def ret_def)
  moreover have "uprintf_loop fd False fmt ap ?s = Ok () (?s\<lparr>replies := rest, calls := calls ?s @ map (\<lambda>c. U_write fd [of_char c]) fmt\<rparr>)"
    using Cons.prems h by (intro Cons.IH [of _ hs']) simp_all
  ultimately show ?case using Cons.prems(1) by (auto simp: sqn_Ok)
qed (simp add: ret_def)

definition ps_head :: string where
  "ps_head = ''PID'' @ [CHR 0x09] @ ''TKTS'' @ [CHR 0x09] @ ''TCKS'' @ [CHR 0x09] @ ''STAT'' @ [CHR 0x09] @ ''NAME'' @ [CHR 0x0A]"

lemma ups_run:
  assumes "replies s = hs @ r # rs" and "length hs = length ps_head"
  shows "ups s = ps_loop (r_pstat r) (s\<lparr>replies := rs, calls := calls s @ map (\<lambda>c. U_write 1 [of_char c]) ps_head @ [U_getpinfo]\<rparr>)"
proof -
  have "CHR ''%'' \<notin> set ps_head" by (simp add: ps_head_def)
  from plain_printf [OF this assms, of 1 "[]"] show ?thesis
    unfolding ups_def ps_head_def [symmetric] by (simp add: sqn_def bnd_def sys_def)
qed


definition demo_pstat :: "int \<Rightarrow> pstat" where
  "demo_pstat pid = \<lparr>ps_inuse = 1, ps_tickets = 10, ps_pid = pid, ps_ticks = 0, ps_name = (\<lambda>_. 0), ps_state = 83\<rparr>"


end
