(* ===== verification/Umalloc.thy ===== *)
theory Umalloc
  imports User
begin

text \<open>
  The memory allocator of user programs (src/umalloc.c): a circular list of free blocks in the
  order of their addresses. A block starts with a header of eight bytes; sizes count headers.

  The headers are two functions of the address. The two loops without system calls are partial
  functions; a loop that does not end is \<open>block\<close>. \<open>h_base\<close> is where the linker put \<open>base\<close>.
\<close>

section \<open>Free blocks\<close>

record uheap = uproc +
  h_ptr :: "uint \<Rightarrow> uint"
  h_size :: "uint \<Rightarrow> uint"
  h_freep :: uint
  h_base :: uint

text \<open>The loop of \<open>free\<close> that looks for the place of the block \<open>bp\<close>.\<close>

partial_function (option) free_place :: "(uint \<Rightarrow> uint) \<Rightarrow> uint \<Rightarrow> uint \<Rightarrow> uint option" where
  "free_place nx bp p =
     (if bp > p \<and> bp < nx p then Some p
      else if p \<ge> nx p \<and> (bp > p \<or> bp < nx p) then Some p
      else free_place nx bp (nx p))"

text \<open>The block \<open>bp\<close> comes between \<open>p\<close> and the one after it, and is joined with its neighbours.\<close>

definition join_upper :: "uint \<Rightarrow> uint \<Rightarrow> 'z uheap_scheme \<Rightarrow> 'z uheap_scheme" where
  "join_upper bp p s =
     (let q = h_ptr s p in
      if bp + 8 * h_size s bp = q
      then s\<lparr>h_size := (h_size s)(bp := h_size s bp + h_size s q), h_ptr := (h_ptr s)(bp := h_ptr s q)\<rparr>
      else s\<lparr>h_ptr := (h_ptr s)(bp := q)\<rparr>)"

definition join_lower :: "uint \<Rightarrow> uint \<Rightarrow> 'z uheap_scheme \<Rightarrow> 'z uheap_scheme" where
  "join_lower bp p s =
     (if p + 8 * h_size s p = bp
      then s\<lparr>h_size := (h_size s)(p := h_size s p + h_size s bp), h_ptr := (h_ptr s)(p := h_ptr s bp)\<rparr>
      else s\<lparr>h_ptr := (h_ptr s)(p := bp)\<rparr>)"

definition ufree :: "uint \<Rightarrow> ('z uheap_scheme, unit) kmon" where
  "ufree ap = bnd (gets (\<lambda>s. s)) (\<lambda>s.
     let bp = ap - 8 in
     case free_place (h_ptr s) bp (h_freep s) of
       None \<Rightarrow> block
     | Some p \<Rightarrow> stmts [modify (join_upper bp p), modify (join_lower bp p), modify (\<lambda>s. s\<lparr>h_freep := p\<rparr>)])"

section \<open>More memory\<close>

text \<open>What \<open>sbrk\<close> returns is an address; all ones stand for failure. The result 0 is the null pointer.\<close>

definition morecore :: "uint \<Rightarrow> ('z uheap_scheme, uint) kmon" where
  "morecore nu0 =
     (let nu = (if nu0 < 4096 then 4096 else nu0) in
      bnd (sys (U_sbrk (sint (nu * 8)))) (\<lambda>r.
        let hp = word_of_int (r_val r) in
        if hp = - 1 then ret 0
        else sqn (modify (\<lambda>s. s\<lparr>h_size := (h_size s)(hp := nu)\<rparr>)) (sqn (ufree (hp + 8)) (gets h_freep))))"

section \<open>Allocation\<close>

definition nunits_of :: "uint \<Rightarrow> uint" where
  "nunits_of nbytes = (nbytes + 8 - 1) div 8 + 1"

text \<open>
  The loop of \<open>malloc\<close> as far as it makes no system call: it ends at a block that is large enough
  (\<open>Inl\<close>, with the block before it), or after a round (\<open>Inr\<close>).
\<close>

partial_function (option) malloc_scan :: "(uint \<Rightarrow> uint) \<Rightarrow> (uint \<Rightarrow> uint) \<Rightarrow> uint \<Rightarrow> uint \<Rightarrow> uint \<Rightarrow> uint \<Rightarrow> (uint \<times> uint + unit) option" where
  "malloc_scan nx sz fp n prevp p =
     (if sz p \<ge> n then Some (Inl (prevp, p))
      else if p = fp then Some (Inr ())
      else malloc_scan nx sz fp n p (nx p))"

definition malloc_take :: "uint \<Rightarrow> uint \<Rightarrow> uint \<Rightarrow> ('z uheap_scheme, uint) kmon" where
  "malloc_take n prevp p = bnd (gets (\<lambda>s. s)) (\<lambda>s.
     if h_size s p = n then
       sqn (stmts [modify (\<lambda>s. s\<lparr>h_ptr := (h_ptr s)(prevp := h_ptr s p)\<rparr>), modify (\<lambda>s. s\<lparr>h_freep := prevp\<rparr>)]) (ret (p + 8))
     else
       let sz = h_size s p - n; p' = p + 8 * sz in
       sqn (stmts [modify (\<lambda>s. s\<lparr>h_size := (h_size s)(p := sz)\<rparr>), modify (\<lambda>s. s\<lparr>h_size := (h_size s)(p' := n)\<rparr>),
         modify (\<lambda>s. s\<lparr>h_freep := prevp\<rparr>)]) (ret (p' + 8)))"

definition malloc_body :: "uint \<Rightarrow> uint \<times> uint \<Rightarrow> ('z uheap_scheme, (uint \<times> uint) + uint) kmon" where
  "malloc_body n = (\<lambda>(prevp, p). bnd (gets (\<lambda>s. s)) (\<lambda>s.
     case malloc_scan (h_ptr s) (h_size s) (h_freep s) n prevp p of
       None \<Rightarrow> block
     | Some (Inl (prevp, p)) \<Rightarrow> bnd (malloc_take n prevp p) (\<lambda>x. ret (Inr x))
     | Some (Inr _) \<Rightarrow> bnd (morecore n) (\<lambda>p.
         if p = 0 then ret (Inr 0) else bnd (gets (\<lambda>s. h_ptr s p)) (\<lambda>q. ret (Inl (p, q))))))"

definition malloc :: "uint \<Rightarrow> ('z uheap_scheme, uint) kmon" where
  "malloc nbytes =
     sqn (bnd (gets h_freep) (\<lambda>fp. whenM (fp = 0) (modify (\<lambda>s. s\<lparr>h_ptr := (h_ptr s)(h_base s := h_base s),
        h_size := (h_size s)(h_base s := 0), h_freep := h_base s\<rparr>))))
     (bnd (gets h_freep) (\<lambda>prevp. bnd (gets (\<lambda>s. h_ptr s prevp)) (\<lambda>p.
        while_sys (malloc_body (nunits_of nbytes)) (prevp, p))))"

end
