(* ===== verification/Heap.thy ===== *)
theory Heap
  imports Umalloc
begin

text \<open>
  The allocator of user programs (src/umalloc.c) is safe: the blocks it hands out are inside the
  memory that \<open>sbrk\<close> gave, large enough, and no two blocks in use overlap, whatever sequence of
  \<open>malloc\<close> and \<open>free\<close> a program runs. Its two loops end.
\<close>

section \<open>The ring of free blocks\<close>

fun links :: "(uint \<Rightarrow> uint) \<Rightarrow> uint list \<Rightarrow> uint \<Rightarrow> bool" where
  "links nx [] z = True"
| "links nx (x # xs) z = (nx x = hd (xs @ [z]) \<and> links nx xs z)"

lemma links_append: "links nx (xs @ ys) z \<longleftrightarrow> links nx xs (hd (ys @ [z])) \<and> links nx ys z"
  by (induction xs) (auto simp: hd_append)

lemma links_cong: "(\<And>x. x \<in> set xs \<Longrightarrow> nx x = nx' x) \<Longrightarrow> links nx xs z = links nx' xs z"
  by (induction xs) auto

type_synonym hblock = "uint \<times> uint"

text \<open>Where a block ends, and the bytes it has.\<close>

definition bend :: "hblock \<Rightarrow> nat" where
  "bend b = unat (fst b) + 8 * unat (snd b)"

definition bytes_of :: "hblock \<Rightarrow> nat set" where
  "bytes_of b = {unat (fst b)..<bend b}"

definition before :: "hblock \<Rightarrow> hblock \<Rightarrow> bool" where
  "before b c \<longleftrightarrow> fst b < fst c \<and> bend b \<le> unat (fst c)"

text \<open>
  The free blocks \<open>bs\<close> after \<open>base\<close>, which has no bytes, in the order of their addresses and below
  the end \<open>brk\<close> of the memory of the process.
\<close>

definition heap_ok :: "'z uheap_scheme \<Rightarrow> nat \<Rightarrow> hblock list \<Rightarrow> bool" where
  "heap_ok s brk bs \<longleftrightarrow>
     links (h_ptr s) (h_base s # map fst bs) (h_base s) \<and>
     (\<forall>b \<in> set ((h_base s, 0) # bs). h_size s (fst b) = snd b) \<and>
     h_freep s \<in> set (h_base s # map fst bs) \<and>
     sorted_wrt before ((h_base s, 0) # bs) \<and>
     (\<forall>b \<in> set bs. 0 < snd b \<and> bend b \<le> brk) \<and>
     unat (h_base s) < brk \<and> brk < 4294967296 \<and> h_base s \<noteq> 0"

definition free_bytes :: "hblock list \<Rightarrow> nat set" where
  "free_bytes bs = (\<Union>b \<in> set bs. bytes_of b)"

lemma free_bytes_simps [simp]: "free_bytes [] = {}" "free_bytes (b # bs) = bytes_of b \<union> free_bytes bs"
  "free_bytes (bs @ cs) = free_bytes bs \<union> free_bytes cs"
  by (auto simp: free_bytes_def)

lemma before_trans: "before a b \<Longrightarrow> before b c \<Longrightarrow> before a c"
  by (auto simp: before_def bend_def word_less_nat_alt)

text \<open>Word arithmetic on a block does not wrap.\<close>

lemma bend_word:
  assumes "bend (b, n) < 4294967296"
  shows "unat (b + 8 * n) = bend (b, n)"
proof -
  have "b + 8 * n = of_nat (unat b + 8 * unat n)" by simp
  then show ?thesis using assms by (simp only: unat_of_nat) (simp add: bend_def)
qed

lemma size_word: "unat m + unat n < 4294967296 \<Longrightarrow> unat (m + n :: uint) = unat m + unat n"
  by (simp add: unat_add_lem [symmetric])

lemma sorted_split:
  assumes "sorted_wrt before bs" and "bs \<noteq> []" and "fst (hd bs) < x" and "x \<notin> fst ` set bs"
  obtains pre p post where "bs = pre @ p # post" and "fst p < x" and "\<forall>q \<in> set post. x < fst q"
proof -
  have "\<exists>pre p post. bs = pre @ p # post \<and> fst p < x \<and> (\<forall>q \<in> set post. x < fst q)"
    using assms
  proof (induction bs)
    case (Cons b bs)
    show ?case
    proof (cases "bs \<noteq> [] \<and> fst (hd bs) < x")
      case True
      have "sorted_wrt before bs" "x \<notin> fst ` set bs" using Cons.prems by auto
      with Cons.IH True obtain pre p post where "bs = pre @ p # post" "fst p < x" "\<forall>q \<in> set post. x < fst q" by blast
      then show ?thesis by (intro exI [of _ "b # pre"]) auto
    next
      case False
      have "x < fst q" if "q \<in> set bs" for q
      proof -
        from that obtain c cs where c: "bs = c # cs" by (cases bs) auto
        have "x < fst c" using False Cons.prems(4) c by auto
        moreover have "q = c \<or> before c q" using that c Cons.prems(1) by auto
        ultimately show ?thesis by (auto simp: before_def)
      qed
      then show ?thesis using Cons.prems by (intro exI [of _ "[]"] exI [of _ b] exI [of _ bs]) auto
    qed
  qed simp
  then show thesis using that by blast
qed

section \<open>The place of a block\<close>

lemma free_place_here:
  assumes "p < x" and "nx p = hd (post @ [z])" and "\<forall>q \<in> set post. x < q" and "z \<le> p"
  shows "free_place nx x p = Some p"
  using assms by (subst free_place.simps) (cases post; auto)

text \<open>Before the place, and after it, the loop goes on.\<close>

lemma free_place_before:
  assumes "links nx (ps @ q # qs) z" and "sorted_wrt (<) (ps @ [q])" and "q < x" and "p \<in> set ps"
  shows "free_place nx x p = free_place nx x q"
  using assms
proof (induction ps arbitrary: p)
  case (Cons a ps)
  have step: "free_place nx x a = free_place nx x (nx a)" if "nx a = hd (ps @ [q])" "a < nx a" "nx a \<le> q"
    using that Cons.prems(3) by (subst free_place.simps) auto
  have nx: "nx a = hd (ps @ [q])" using Cons.prems(1) by (cases ps) auto
  have IH: "free_place nx x p' = free_place nx x q" if "p' \<in> set ps" for p'
    using Cons that by simp
  have "free_place nx x a = free_place nx x q"
  proof (cases ps)
    case Nil
    then show ?thesis using step nx Cons.prems(2) by auto
  next
    case (Cons b bs)
    then show ?thesis using step nx IH [of b] \<open>sorted_wrt (<) ((a # ps) @ [q])\<close> by auto
  qed
  then show ?case using Cons.prems(4) IH by auto
qed simp

lemma free_place_after:
  assumes "links nx qs z" and "sorted_wrt (<) qs" and "\<forall>q \<in> set qs. x < q" and "z < x" and "p \<in> set qs"
  shows "free_place nx x p = free_place nx x z"
  using assms
proof (induction qs arbitrary: p)
  case (Cons a qs)
  note IH = Cons.IH and prems = Cons.prems
  have step: "free_place nx x a = free_place nx x (nx a)"
    using Cons.prems by (subst free_place.simps) (cases qs; auto)
  have "free_place nx x a = free_place nx x z"
  proof (cases qs)
    case Nil
    then show ?thesis using step Cons.prems(1) by simp
  next
    case (Cons b bs)
    then have "free_place nx x b = free_place nx x z" using IH [of b] prems by simp
    then show ?thesis using step prems(1) Cons by simp
  qed
  then show ?case using Cons by auto
qed simp

lemma free_place_finds:
  assumes "links nx (ps @ p # qs) z" and "sorted_wrt (<) (ps @ p # qs)" and "z = hd (ps @ [p])" and "p < x"
    and "\<forall>q \<in> set qs. x < q" and "f \<in> set (ps @ p # qs)"
  shows "free_place nx x f = Some p"
proof -
  have z: "z \<le> p" using assms(2,3) by (cases ps) auto
  have here: "free_place nx x p = Some p"
    using assms(1,4,5) z by (intro free_place_here [where post = qs and z = z]) (auto simp: links_append)
  have before: "free_place nx x g = Some p" if "g \<in> set ps" for g
    using free_place_before [OF assms(1) _ assms(4) that] assms(2) here by (auto simp: sorted_wrt_append)
  have zz: "free_place nx x z = Some p" using assms(3) here before by (cases ps) auto
  have "free_place nx x g = Some p" if "g \<in> set qs" for g
    using free_place_after [of nx qs z x g] assms that zz z by (auto simp: links_append sorted_wrt_append)
  then show ?thesis using assms(6) here before by auto
qed

section \<open>free\<close>

lemma sorted_fst: "sorted_wrt before fs \<Longrightarrow> sorted_wrt (<) (map fst fs)"
  by (auto simp: sorted_wrt_map before_def elim!: sorted_wrt_mono_rel [rotated])

text \<open>A block that shares no byte with the free blocks is apart from them.\<close>

lemma apart:
  assumes "bytes_of b \<inter> bytes_of c = {}" and "0 < snd c" and "fst b < fst c"
  shows "before b c"
  using assms unfolding before_def bytes_of_def bend_def
  by (auto simp: word_less_nat_alt disjoint_iff not_le dest!: spec [of _ "unat (fst c)"])

text \<open>What joining with the next block leaves: the block \<open>(bp, k1)\<close> and the free blocks \<open>post1\<close> after it.\<close>

definition joined :: "'z uheap_scheme \<Rightarrow> nat \<Rightarrow> uint \<Rightarrow> uint \<Rightarrow> hblock list \<Rightarrow> uint \<Rightarrow> hblock list \<Rightarrow> bool" where
  "joined s brk bp k post k1 post1 \<longleftrightarrow> set post1 \<subseteq> set post \<and> sorted_wrt before ((bp, k1) # post1) \<and>
     links (h_ptr s) (map fst post1) (h_base s) \<and> 0 < k1 \<and> bend (bp, k1) \<le> brk \<and> k \<le> k1 \<and>
     bytes_of (bp, k1) \<union> free_bytes post1 = bytes_of (bp, k) \<union> free_bytes post"

lemma join_upper_joined:
  assumes "links (h_ptr s) (map fst post) (h_base s)" and "h_ptr s p = hd (map fst post @ [h_base s])"
    and "\<forall>b \<in> set post. h_size s (fst b) = snd b \<and> 0 < snd b \<and> bend b \<le> brk" and "sorted_wrt before ((bp, h_size s bp) # post)"
    and "0 < h_size s bp" and "bend (bp, h_size s bp) \<le> brk" and "brk < 4294967296" and "h_base s < bp" and "p \<noteq> bp"
  shows "\<exists>k1 post1. joined s brk bp (h_size s bp) post k1 post1 \<and>
    join_upper bp p s = s\<lparr>h_size := (h_size s)(bp := k1), h_ptr := (h_ptr s)(bp := hd (map fst post1 @ [h_base s]))\<rparr>"
proof -
  let ?k = "h_size s bp"
  have e: "unat (bp + 8 * ?k) = bend (bp, ?k)" using assms(6,7) by (intro bend_word) simp
  have nojoin: "?thesis" if "bp + 8 * ?k \<noteq> h_ptr s p"
    using that assms by (intro exI [of _ ?k] exI [of _ post]) (auto simp: joined_def join_upper_def Let_def)
  show ?thesis
  proof (cases "bp + 8 * ?k = h_ptr s p")
    case True
    show ?thesis
    proof (cases post)
      case Nil
      then have "unat (h_base s) = bend (bp, ?k)" using True e assms(2) by simp
      then show ?thesis using assms(8) by (simp add: bend_def word_less_nat_alt)
    next
      case (Cons c post')
      obtain q n where c: "c = (q, n)" by (cases c)
      have q: "h_ptr s p = q" "h_size s q = n" "h_ptr s q = hd (map fst post' @ [h_base s])" "bend (q, n) \<le> brk" "0 < n"
        using assms(1-3) Cons c by auto
      have uq: "unat q = bend (bp, ?k)" using True e q by simp
      have kn: "unat (?k + n) = unat ?k + unat n" using uq q(4) assms(7) by (intro size_word) (auto simp: bend_def)
      then have be: "bend (bp, ?k + n) = bend (q, n)" using uq by (simp add: bend_def)
      have "bytes_of (bp, ?k + n) = bytes_of (bp, ?k) \<union> bytes_of (q, n)"
        using be uq by (auto simp: bytes_of_def) (auto simp: bend_def)
      moreover have "sorted_wrt before ((bp, ?k + n) # post')"
        using assms(4) Cons c be by (auto simp: before_def)
      moreover have "?k \<le> ?k + n" "0 < ?k + n" using kn assms(5) by (auto simp: word_le_nat_alt word_less_nat_alt)
      ultimately have "joined s brk bp ?k post (?k + n) post'"
        using assms(1) Cons c be q(4) by (auto simp: joined_def)
      moreover have "join_upper bp p s = s\<lparr>h_size := (h_size s)(bp := ?k + n), h_ptr := (h_ptr s)(bp := hd (map fst post' @ [h_base s]))\<rparr>"
        using True q by (simp add: join_upper_def Let_def)
      ultimately show ?thesis by blast
    qed
  qed (rule nojoin)
qed

text \<open>\<open>heap_ok\<close> with \<open>base\<close> as one of the blocks.\<close>

definition ring_ok :: "'z uheap_scheme \<Rightarrow> nat \<Rightarrow> hblock list \<Rightarrow> bool" where
  "ring_ok s brk fs \<longleftrightarrow> links (h_ptr s) (map fst fs) (h_base s) \<and> (\<forall>b \<in> set fs. h_size s (fst b) = snd b) \<and>
     h_freep s \<in> fst ` set fs \<and> sorted_wrt before fs \<and> (\<forall>b \<in> set (tl fs). 0 < snd b \<and> bend b \<le> brk) \<and>
     fs \<noteq> [] \<and> hd fs = (h_base s, 0) \<and> unat (h_base s) < brk \<and> brk < 4294967296 \<and> h_base s \<noteq> 0"

lemma heap_ring: "heap_ok s brk bs \<longleftrightarrow> ring_ok s brk ((h_base s, 0) # bs)"
  by (auto simp: heap_ok_def ring_ok_def)

lemma ring_heap: "ring_ok s brk fs \<Longrightarrow> heap_ok s brk (tl fs) \<and> free_bytes (tl fs) = free_bytes fs"
  unfolding heap_ring by (cases fs) (auto simp: ring_ok_def bytes_of_def bend_def)

lemma links_upd: "x \<notin> set xs \<Longrightarrow> links (nx(x := v)) xs z = links nx xs z"
  by (rule links_cong) auto

text \<open>What is known of the ring \<open>pre @ (p, m) # post\<close> and the block that goes between.\<close>

lemma insert_ring:
  assumes r: "ring_ok s brk (pre @ (p, m) # post)" and j: "joined s brk bp k post k1 post1" and pb: "before (p, m) (bp, k1)"
    and "h_base s < bp" and "\<forall>q \<in> set post. bp < fst q"
    and s1: "s1 = s\<lparr>h_size := (h_size s)(bp := k1), h_ptr := (h_ptr s)(bp := hd (map fst post1 @ [h_base s]))\<rparr>"
  shows "\<exists>fs. ring_ok ((join_lower bp p s1)\<lparr>h_freep := p\<rparr>) brk fs \<and>
    free_bytes fs = free_bytes (pre @ (p, m) # post) \<union> bytes_of (bp, k) \<and> (\<exists>b \<in> set (tl fs). k \<le> snd b) \<and>
    (\<forall>x. x \<notin> insert bp (fst ` set (pre @ (p, m) # post)) \<longrightarrow> h_size (join_lower bp p s1) x = h_size s x)"
proof -
  note rr = r [unfolded ring_ok_def] and jj = j [unfolded joined_def]
  let ?z = "h_base s" and ?nx = "h_ptr s1"
  have sorted: "sorted_wrt before (pre @ (p, m) # post)" using rr by blast
  have pre: "\<forall>a \<in> set pre. before a (p, m)" using sorted by (auto simp: sorted_wrt_append)
  have p_post: "\<forall>a \<in> set post1. before (p, m) a" using sorted jj by (auto simp: sorted_wrt_append)
  have ne: "p \<noteq> bp" "bp \<notin> fst ` set pre" "bp \<notin> fst ` set post1" "p \<notin> fst ` set pre" "p \<notin> fst ` set post1"
    using pb pre p_post jj assms(5) by (auto simp: before_def)
  have lp: "links ?nx (map fst pre) p" "links ?nx (map fst post1) ?z" and bpn: "?nx bp = hd (map fst post1 @ [?z])"
    using rr jj ne by (auto simp: s1 links_append links_upd)
  have sizes: "\<forall>b \<in> set pre \<union> set post1. h_size s1 (fst b) = snd b" "h_size s1 p = m" "h_size s1 bp = k1"
    using rr jj ne by (auto simp: s1)
  have bounds: "\<forall>b \<in> set post1. 0 < snd b \<and> bend b \<le> brk" "0 < k1" "bend (bp, k1) \<le> brk" "k \<le> k1" using rr jj by (cases pre; auto)+
  have tlpre: "\<forall>b \<in> set (tl pre). 0 < snd b \<and> bend b \<le> brk" using rr by (cases pre) auto
  have bs: "free_bytes (pre @ (p, m) # post) \<union> bytes_of (bp, k) = free_bytes pre \<union> bytes_of (p, m) \<union> (bytes_of (bp, k1) \<union> free_bytes post1)"
    using jj by auto
  have srt: "sorted_wrt before (pre @ (p, m) # (bp, k1) # post1)"
    using sorted pre p_post pb jj by (auto simp: sorted_wrt_append intro: before_trans)
  show ?thesis
  proof (cases "p + 8 * m = bp")
    case False
    let ?fs = "pre @ (p, m) # (bp, k1) # post1" and ?s = "s1\<lparr>h_ptr := ?nx(p := bp)\<rparr>"
    have jl: "join_lower bp p s1 = ?s" using False sizes by (simp add: join_lower_def)
    have "links (?nx(p := bp)) (map fst ?fs) ?z" using lp bpn ne by (auto simp: links_append links_upd)
    moreover have "hd ?fs = (?z, 0)" using rr by (cases pre) auto
    moreover have "\<forall>b \<in> set (tl ?fs). 0 < snd b \<and> bend b \<le> brk" using rr bounds tlpre by (cases pre) auto
    ultimately have "ring_ok (?s\<lparr>h_freep := p\<rparr>) brk ?fs"
      using sizes srt rr by (auto simp: ring_ok_def s1)
    moreover have "\<exists>b \<in> set (tl ?fs). k \<le> snd b" using bounds by (cases pre) auto
    moreover have "free_bytes ?fs = free_bytes (pre @ (p, m) # post) \<union> bytes_of (bp, k)" unfolding bs by auto
    ultimately show ?thesis unfolding jl by (intro exI [of _ ?fs]) (auto simp: s1)
  next
    case True
    obtain a pre' where cp: "pre = a # pre'"
      using rr True \<open>h_base s < bp\<close> by (cases pre) auto
    let ?fs = "pre @ (p, m + k1) # post1" and ?s = "s1\<lparr>h_size := (h_size s1)(p := m + k1), h_ptr := ?nx(p := ?nx bp)\<rparr>"
    have jl: "join_lower bp p s1 = ?s" using True sizes by (simp add: join_lower_def)
    have m: "bend (p, m) \<le> brk" "brk < 4294967296" using rr cp by auto
    have ub: "unat bp = bend (p, m)" using True bend_word [of p m] m by simp
    have mk: "unat (m + k1) = unat m + unat k1" using ub bounds m by (intro size_word) (auto simp: bend_def)
    have be: "bend (p, m + k1) = bend (bp, k1)" using mk ub by (simp add: bend_def)
    have bytes: "bytes_of (p, m + k1) = bytes_of (p, m) \<union> bytes_of (bp, k1)" using be ub by (auto simp: bytes_of_def) (auto simp: bend_def)
    have big: "k \<le> m + k1" "0 < m + k1" using mk bounds by (auto simp: word_le_nat_alt word_less_nat_alt)
    have "links (?nx(p := ?nx bp)) (map fst ?fs) ?z" using lp bpn ne by (auto simp: links_append links_upd)
    moreover have "hd ?fs = (?z, 0)" using rr cp by auto
    moreover have "\<forall>b \<in> set (tl ?fs). 0 < snd b \<and> bend b \<le> brk" using bounds tlpre cp be big by auto
    moreover have "sorted_wrt before ?fs" using srt be by (auto simp: sorted_wrt_append before_def)
    ultimately have "ring_ok (?s\<lparr>h_freep := p\<rparr>) brk ?fs"
      using sizes ne rr by (auto simp: ring_ok_def s1)
    moreover have "\<exists>b \<in> set (tl ?fs). k \<le> snd b" using cp big by auto
    moreover have "free_bytes ?fs = free_bytes (pre @ (p, m) # post) \<union> bytes_of (bp, k)" unfolding bs using bytes by auto
    ultimately show ?thesis unfolding jl by (intro exI [of _ ?fs]) (auto simp: s1)
  qed
qed

text \<open>A block that a program may give back: allocated memory that is not free.\<close>

definition in_use :: "'z uheap_scheme \<Rightarrow> nat \<Rightarrow> hblock list \<Rightarrow> hblock \<Rightarrow> bool" where
  "in_use s brk bs b \<longleftrightarrow> h_base s < fst b \<and> h_size s (fst b) = snd b \<and> 0 < snd b \<and> bend b \<le> brk \<and> bytes_of b \<inter> free_bytes bs = {}"

lemma first_byte: "0 < snd b \<Longrightarrow> unat (fst b) \<in> bytes_of b"
  by (simp add: bytes_of_def bend_def word_less_nat_alt)

lemma in_use_not_free:
  assumes "heap_ok s brk bs" and "in_use s brk bs (bp, k)"
  shows "bp \<notin> fst ` set ((h_base s, 0) # bs)"
proof -
  have "unat bp \<notin> free_bytes bs" using assms(2) first_byte [of "(bp, k)"] by (auto simp: in_use_def)
  moreover have "unat (fst b) \<in> free_bytes bs" if "b \<in> set bs" for b
    using that assms(1) first_byte [of b] by (auto simp: heap_ok_def free_bytes_def)
  ultimately show ?thesis using assms(2) by (auto simp: in_use_def)
qed

lemma ufree_spec:
  assumes h: "heap_ok s brk bs" and u: "in_use s brk bs (bp, k)"
  shows "\<exists>s' bs'. ufree (bp + 8) s = Ok () s' \<and> heap_ok s' brk bs' \<and> free_bytes bs' = free_bytes bs \<union> bytes_of (bp, k) \<and>
    (\<exists>b \<in> set bs'. k \<le> snd b) \<and> replies s' = replies s \<and> calls s' = calls s \<and> h_base s' = h_base s \<and>
    (\<forall>x. x \<notin> insert bp (fst ` set ((h_base s, 0) # bs)) \<longrightarrow> h_size s' x = h_size s x)"
proof -
  let ?fs = "(h_base s, 0) # bs"
  have r: "ring_ok s brk ?fs" using h by (simp add: heap_ring)
  note rr = r [unfolded ring_ok_def]
  have uu: "h_base s < bp" "h_size s bp = k" "0 < k" "bend (bp, k) \<le> brk" "bytes_of (bp, k) \<inter> free_bytes bs = {}"
    using u by (auto simp: in_use_def)
  have out: "bp \<notin> fst ` set ?fs" by (rule in_use_not_free [OF h u])
  have srt0: "sorted_wrt before ?fs" "?fs \<noteq> []" "fst (hd ?fs) < bp" using rr uu(1) by auto
  obtain pre pm post where split: "?fs = pre @ pm # post" "fst pm < bp" "\<forall>q \<in> set post. bp < fst q"
    by (rule sorted_split [OF srt0 out])
  obtain p m where pm: "pm = (p, m)" by (cases pm)
  have r': "ring_ok s brk (pre @ (p, m) # post)" using r split(1) pm by simp
  note rr' = r' [unfolded ring_ok_def]
  have post: "post = [] \<or> set post \<subseteq> set bs" "set (tl (pre @ (p, m) # post)) = set bs" using split(1) pm by (cases pre; auto)+
  have disj: "bytes_of (bp, k) \<inter> bytes_of b = {}" if "b \<in> set bs" for b using uu(5) that by (auto simp: free_bytes_def)
  have bounds: "\<forall>b \<in> set post. h_size s (fst b) = snd b \<and> 0 < snd b \<and> bend b \<le> brk" using rr' post by auto
  have "before (bp, k) b" if "b \<in> set post" for b
  proof (rule apart)
    have "b \<in> set bs" using that post(1) by auto
    then show "bytes_of (bp, k) \<inter> bytes_of b = {}" by (rule disj)
  qed (use that bounds split(3) in auto)
  then have srt: "sorted_wrt before ((bp, h_size s bp) # post)" using rr' uu(2) by (auto simp: sorted_wrt_append)
  have "bend (p, m) \<le> unat bp"
  proof (cases pre)
    case Nil
    then show ?thesis using split pm by (auto simp: bend_def word_less_nat_alt)
  next
    case (Cons a as)
    then have "bytes_of (p, m) \<inter> bytes_of (bp, k) = {}" using disj [of "(p, m)"] split(1) pm by auto
    then show ?thesis using apart [of "(p, m)" "(bp, k)"] uu(3) split(2) pm by (auto simp: before_def)
  qed
  then have pb: "before (p, m) (bp, k')" for k' using split(2) pm by (simp add: before_def)
  have pl: "links (h_ptr s) (map fst post) (h_base s)" "h_ptr s p = hd (map fst post @ [h_base s])" using rr' by (auto simp: links_append)
  obtain k1 post1 where j: "joined s brk bp (h_size s bp) post k1 post1"
    "join_upper bp p s = s\<lparr>h_size := (h_size s)(bp := k1), h_ptr := (h_ptr s)(bp := hd (map fst post1 @ [h_base s]))\<rparr>"
    using join_upper_joined [OF pl bounds srt] uu rr' split(2) pm by auto
  obtain fs where fs: "ring_ok ((join_lower bp p (join_upper bp p s))\<lparr>h_freep := p\<rparr>) brk fs"
    "free_bytes fs = free_bytes (pre @ (p, m) # post) \<union> bytes_of (bp, h_size s bp)" "\<exists>b \<in> set (tl fs). h_size s bp \<le> snd b"
    "\<forall>x. x \<notin> insert bp (fst ` set (pre @ (p, m) # post)) \<longrightarrow> h_size (join_lower bp p (join_upper bp p s)) x = h_size s x"
    using insert_ring [OF r' j(1) pb uu(1) split(3) j(2)] by blast
  have ring: "links (h_ptr s) (map fst pre @ p # map fst post) (h_base s)" "sorted_wrt (<) (map fst pre @ p # map fst post)"
    using rr' sorted_fst [of "pre @ (p, m) # post"] by auto
  have ends: "h_base s = hd (map fst pre @ [p])" "p < bp" "\<forall>q \<in> set (map fst post). bp < q" "h_freep s \<in> set (map fst pre @ p # map fst post)"
    using rr' split(2,3) pm by (cases pre; auto simp: image_iff)+
  have fp: "free_place (h_ptr s) bp (h_freep s) = Some p" by (rule free_place_finds [OF ring ends])
  let ?s = "(join_lower bp p (join_upper bp p s))\<lparr>h_freep := p\<rparr>"
  have "ufree (bp + 8) s = Ok () ?s" using fp by (simp add: ufree_def run_simps Let_def)
  moreover have "free_bytes ?fs = free_bytes bs" by (simp add: bytes_of_def bend_def)
  then have "free_bytes (tl fs) = free_bytes bs \<union> bytes_of (bp, k)" using ring_heap [OF fs(1)] fs(2) split(1) pm uu(2) by simp
  moreover have "replies ?s = replies s" "calls ?s = calls s" "h_base ?s = h_base s" by (simp_all add: join_lower_def join_upper_def Let_def)
  ultimately show ?thesis using ring_heap [OF fs(1)] fs(3,4) split(1) pm uu(2) by (intro exI [of _ ?s] exI [of _ "tl fs"]) auto
qed

section \<open>Searching the ring\<close>

lemma scan_finds:
  assumes "links nx (xs @ [fp]) z" and "fp \<notin> set xs"
  shows "malloc_scan nx sz fp n prev (hd (xs @ [fp])) = Some (Inr ()) \<and> (\<forall>x \<in> set (xs @ [fp]). sz x < n) \<or>
    (\<exists>pr x. malloc_scan nx sz fp n prev (hd (xs @ [fp])) = Some (Inl (pr, x)) \<and> x \<in> set (xs @ [fp]) \<and> n \<le> sz x \<and>
       (x = hd (xs @ [fp]) \<and> pr = prev \<or> pr \<in> set xs \<and> nx pr = x))"
  using assms
proof (induction xs arbitrary: prev)
  case Nil
  then show ?case by (subst (1 2) malloc_scan.simps) auto
next
  case (Cons a xs)
  have fp: "fp \<notin> set xs" "a \<noteq> fp" and l: "links nx (xs @ [fp]) z" "nx a = hd (xs @ [fp])" using Cons.prems by (cases xs; auto)+
  have in_tl: "hd (xs @ [fp]) \<in> set (xs @ [fp])" by (cases xs) auto
  have step: "malloc_scan nx sz fp n prev a = (if n \<le> sz a then Some (Inl (prev, a)) else malloc_scan nx sz fp n a (hd (xs @ [fp])))"
    using fp l(2) by (subst malloc_scan.simps) auto
  show ?case
  proof (cases "n \<le> sz a")
    case True
    then show ?thesis using step by auto
  next
    case False
    with Cons.IH [OF l(1) fp(1), of a] step l(2) in_tl show ?thesis by (auto simp: not_le)
  qed
qed

lemma links_map: "xs \<noteq> [] \<Longrightarrow> links nx xs z \<longleftrightarrow> map nx xs = tl xs @ [z]"
proof (induction xs)
  case (Cons x xs)
  then show ?case by (cases xs) auto
qed simp

text \<open>In a ring every element has one predecessor.\<close>

lemma ring_inj:
  assumes "links nx xs (hd xs)" and "xs \<noteq> []" and "distinct xs"
  shows "inj_on nx (set xs)"
proof -
  have "map nx xs = rotate1 xs" using assms(1,2) by (simp add: links_map rotate1_hd_tl)
  then have "distinct (map nx xs)" using assms(3) by (metis distinct1_rotate)
  then show ?thesis by (simp add: distinct_map)
qed

lemma distinct_before: "sorted_wrt before fs \<Longrightarrow> distinct (map fst fs)"
  using sorted_fst [of fs] strict_sorted_iff by blast

text \<open>A search that starts after \<open>freep\<close> meets the whole ring.\<close>

lemma scan_ring:
  assumes "heap_ok s brk bs" and "0 < n"
  shows "malloc_scan (h_ptr s) (h_size s) (h_freep s) n (h_freep s) (h_ptr s (h_freep s)) = Some (Inr ()) \<and> (\<forall>b \<in> set bs. snd b < n) \<or>
    (\<exists>pr x k. malloc_scan (h_ptr s) (h_size s) (h_freep s) n (h_freep s) (h_ptr s (h_freep s)) = Some (Inl (pr, x)) \<and>
       (x, k) \<in> set bs \<and> n \<le> k \<and> pr \<in> set (h_base s # map fst bs) \<and> h_ptr s pr = x)"
proof -
  let ?as = "h_base s # map fst bs" and ?nx = "h_ptr s" and ?fp = "h_freep s"
  note h = assms(1) [unfolded heap_ok_def]
  have d: "distinct ?as" using h distinct_before [of "(h_base s, 0) # bs"] by simp
  obtain u v where uv: "?as = u @ ?fp # v" using h split_list [of ?fp ?as] by auto
  let ?xs = "v @ u"
  have base: "hd (u @ [?fp]) = h_base s" using uv by (cases u) auto
  have l: "links ?nx (u @ ?fp # v) (h_base s)" using h uv by simp
  have lx: "links ?nx (?xs @ [?fp]) (hd (v @ [h_base s]))" using l base by (auto simp: links_append hd_append)
  have start: "?nx ?fp = hd (?xs @ [?fp])" using l base by (cases v) (auto simp: links_append)
  have out: "?fp \<notin> set ?xs" using d uv by auto
  have same: "set (?xs @ [?fp]) = set ?as" using uv by auto
  have sizes: "h_size s (h_base s) = 0" "\<forall>b \<in> set bs. h_size s (fst b) = snd b" using h by auto
  have mem: "\<exists>k. (x, k) \<in> set bs \<and> n \<le> k" if x: "x \<in> set ?as" "n \<le> h_size s x" for x
  proof -
    have "x \<noteq> h_base s" using x(2) sizes(1) assms(2) by auto
    then obtain k where "(x, k) \<in> set bs" using x(1) by auto
    then show ?thesis using sizes(2) x(2) by (intro exI [of _ k]) force
  qed
  show ?thesis
  proof (cases "malloc_scan ?nx (h_size s) ?fp n ?fp (hd (?xs @ [?fp])) = Some (Inr ()) \<and> (\<forall>x \<in> set (?xs @ [?fp]). h_size s x < n)")
    case True
    then have "\<forall>b \<in> set bs. snd b < n" using same sizes by (metis (no_types, lifting) image_eqI list.set_map set_subset_Cons subsetD)
    with True show ?thesis unfolding start by blast
  next
    case False
    with scan_finds [OF lx out, of "h_size s" n ?fp] obtain pr x where
      px: "malloc_scan ?nx (h_size s) ?fp n ?fp (hd (?xs @ [?fp])) = Some (Inl (pr, x))" "x \<in> set (?xs @ [?fp])" "n \<le> h_size s x"
        "x = hd (?xs @ [?fp]) \<and> pr = ?fp \<or> pr \<in> set ?xs \<and> ?nx pr = x" by blast
    have "pr \<in> set ?as" "?nx pr = x" using px(4) start same by auto
    with px(1) mem [of x] px(2,3) same show ?thesis unfolding start by metis
  qed
qed

section \<open>Taking a block\<close>

lemma unlink:
  assumes "heap_ok s brk (A @ (x, k) # B)" and "pr \<in> set (h_base s # map fst (A @ (x, k) # B))" and "h_ptr s pr = x"
  shows "pr \<in> set (h_base s # map fst A)" and "links ((h_ptr s)(pr := h_ptr s x)) (h_base s # map fst (A @ B)) (h_base s)"
proof -
  note h = assms(1) [unfolded heap_ok_def]
  let ?as = "h_base s # map fst (A @ (x, k) # B)" and ?nx = "h_ptr s"
  obtain C pr' where C: "h_base s # map fst A = C @ [pr']" by (metis list.distinct(1) rev_exhaust)
  then have as_eq: "?as = C @ pr' # x # map fst B" by simp
  have d: "distinct ?as" using h distinct_before [of "(h_base s, 0) # A @ (x, k) # B"] by simp
  have "links ?nx ?as (h_base s)" using h by blast
  then have l: "links ?nx (C @ pr' # x # map fst B) (h_base s)" unfolding as_eq .
  then have pr': "?nx pr' = x" by (simp add: links_append)
  have inj: "inj_on ?nx (set ?as)" using h d by (intro ring_inj) auto
  have mem: "pr' \<in> set ?as" unfolding as_eq by simp
  have "pr = pr'" by (rule inj_onD [OF inj _ assms(2) mem]) (simp add: pr' assms(3))
  then have pr: "pr \<notin> set C" "pr \<notin> set (map fst B)" "pr' = pr" using d unfolding as_eq by auto
  show "pr \<in> set (h_base s # map fst A)" unfolding C using \<open>pr = pr'\<close> by simp
  have "links (?nx(pr := ?nx x)) (C @ pr # map fst B) (h_base s)"
    using l pr by (auto simp: links_append links_upd)
  moreover have eq: "h_base s # map fst (A @ B) = C @ pr # map fst B" using C pr(3) by simp
  ultimately show "links (?nx(pr := ?nx x)) (h_base s # map fst (A @ B)) (h_base s)" by (simp only: eq)
qed

text \<open>The last \<open>n\<close> units of a block.\<close>

lemma cut_block:
  assumes "bend (x, k) < 4294967296" and "n < k" and "0 < n"
  defines "y \<equiv> x + 8 * (k - n)"
  shows "unat (k - n) = unat k - unat n" and "unat y = bend (x, k - n)" and "bend (y, n) = bend (x, k)"
    and "bytes_of (x, k) = bytes_of (x, k - n) \<union> bytes_of (y, n)" and "bytes_of (x, k - n) \<inter> bytes_of (y, n) = {}"
    and "x < y" and "0 < k - n"
proof -
  show m: "unat (k - n) = unat k - unat n" using assms(2) by (simp add: unat_sub)
  have n: "unat n < unat k" "0 < unat n" using assms(2,3) by (auto simp: word_less_nat_alt)
  show y: "unat y = bend (x, k - n)" unfolding y_def using assms(1) m by (intro bend_word) (simp add: bend_def)
  show e: "bend (y, n) = bend (x, k)" using y m n by (simp add: bend_def)
  show "bytes_of (x, k) = bytes_of (x, k - n) \<union> bytes_of (y, n)" "bytes_of (x, k - n) \<inter> bytes_of (y, n) = {}"
    using y e m n by (auto simp: bytes_of_def) (auto simp: bend_def)
  show "x < y" "0 < k - n" using y m n by (auto simp: word_less_nat_alt bend_def)
qed

text \<open>The headers of the blocks in use are not touched.\<close>

definition keeps_used :: "'z uheap_scheme \<Rightarrow> nat \<Rightarrow> hblock list \<Rightarrow> 'z uheap_scheme \<Rightarrow> bool" where
  "keeps_used s brk bs s' \<longleftrightarrow> h_base s' = h_base s \<and> (\<forall>b. in_use s brk bs b \<longrightarrow> h_size s' (fst b) = snd b)"

lemma in_use_apart:
  assumes "heap_ok s brk bs" and "in_use s brk bs b" and "c \<in> set bs" and "unat y \<in> bytes_of c"
  shows "fst b \<noteq> y"
  using assms first_byte [of b] by (auto simp: in_use_def free_bytes_def)

definition took :: "'z uheap_scheme \<Rightarrow> nat \<Rightarrow> hblock list \<Rightarrow> uint \<Rightarrow> uint \<Rightarrow> 'z uheap_scheme \<Rightarrow> bool" where
  "took s brk bs n hp s' \<longleftrightarrow> (\<exists>bs'. heap_ok s' brk bs' \<and> in_use s' brk bs' (hp, n) \<and> free_bytes bs = free_bytes bs' \<union> bytes_of (hp, n)) \<and>
     keeps_used s brk bs s' \<and> replies s' = replies s"

lemma sorted_apart:
  assumes "sorted_wrt before (A @ c # B)" and "\<forall>b \<in> set (A @ B). 0 < snd b"
  shows "bytes_of c \<inter> free_bytes (A @ B) = {}"
proof -
  have "bytes_of c \<inter> bytes_of b = {}" if "b \<in> set (A @ B)" for b
    using assms(1) that by (auto simp: sorted_wrt_append before_def bytes_of_def)
  then show ?thesis by (auto simp: free_bytes_def)
qed

lemma take_whole:
  assumes "heap_ok s brk bs" and "(x, n) \<in> set bs" and "pr \<in> set (h_base s # map fst bs)" and "h_ptr s pr = x"
  shows "\<exists>s'. malloc_take n pr x s = Ok (x + 8) s' \<and> took s brk bs n x s'"
proof -
  obtain A B where bs: "bs = A @ (x, n) # B" using assms(2) by (meson split_list)
  note h = assms(1) [unfolded heap_ok_def bs] and un = unlink [OF assms(1) [unfolded bs] assms(3) [unfolded bs] assms(4)]
  let ?s = "s\<lparr>h_ptr := (h_ptr s)(pr := h_ptr s x), h_freep := pr\<rparr>"
  have "h_size s x = n" using h by auto
  then have "malloc_take n pr x s = Ok (x + 8) ?s" by (simp add: malloc_take_def run_simps)
  moreover have ok: "heap_ok ?s brk (A @ B)" using h un by (auto simp: heap_ok_def sorted_wrt_append)
  moreover have "in_use ?s brk (A @ B) (x, n)"
    using h sorted_apart [of A "(x, n)" B] by (auto simp: in_use_def sorted_wrt_append before_def)
  moreover have "keeps_used s brk bs ?s" by (simp add: keeps_used_def in_use_def)
  moreover have "free_bytes bs = free_bytes (A @ B) \<union> bytes_of (x, n)" unfolding bs by auto
  ultimately show ?thesis unfolding took_def by (intro exI [of _ ?s]) auto
qed

lemma take_tail:
  assumes "heap_ok s brk bs" and "(x, k) \<in> set bs" and "n < k" and "0 < n" and "pr \<in> set (h_base s # map fst bs)"
    and "h_ptr s pr = x"
  shows "\<exists>s' hp. malloc_take n pr x s = Ok (hp + 8) s' \<and> took s brk bs n hp s'"
proof -
  obtain A B where bs: "bs = A @ (x, k) # B" using assms(2) by (meson split_list)
  note h = assms(1) [unfolded heap_ok_def bs]
  define hp where "hp = x + 8 * (k - n)"
  let ?s = "s\<lparr>h_size := (h_size s)(x := k - n, hp := n), h_freep := pr\<rparr>" and ?bs = "A @ (x, k - n) # B"
  have lim: "bend (x, k) < 4294967296" using h by auto
  note c = cut_block [OF lim assms(3,4), folded hp_def]
  have hin: "unat hp \<in> bytes_of (x, k)" using c(2,3) assms(4) by (simp add: bytes_of_def bend_def word_less_nat_alt)
  have run: "malloc_take n pr x s = Ok (hp + 8) ?s"
    using h assms(3) by (auto simp: malloc_take_def run_simps Let_def hp_def)
  have srt: "sorted_wrt before ((h_base s, 0) # ?bs)" "\<forall>b \<in> set ?bs. 0 < snd b \<and> bend b \<le> brk"
    using h c by (auto simp: sorted_wrt_append before_def bend_def)
  have disj: "bytes_of (x, k) \<inter> free_bytes (A @ B) = {}" using h by (intro sorted_apart) auto
  have "fst b \<noteq> hp" if "b \<in> set (A @ B)" for b
  proof -
    have "unat (fst b) \<in> free_bytes (A @ B)" using that h first_byte [of b] by (auto simp: free_bytes_def)
    then show ?thesis using disj hin by auto
  qed
  moreover have "h_base s \<noteq> hp" using h c(6) by (auto simp: before_def)
  ultimately have "b \<noteq> hp" if "b \<in> set (h_base s # map fst (A @ B))" for b
    using that by auto
  moreover have "b \<noteq> x" if "b \<in> set (h_base s # map fst (A @ B))" for b
    using that h by (auto simp: sorted_wrt_append before_def)
  ultimately have sz: "\<forall>b \<in> set ((h_base s, 0) # ?bs). h_size ?s (fst b) = snd b" using h c(6) by auto
  have ok: "heap_ok ?s brk ?bs"
    using h srt sz assms(5) bs by (auto simp: heap_ok_def)
  have free: "free_bytes bs = free_bytes ?bs \<union> bytes_of (hp, n)" unfolding bs using c(4) by auto
  have "bytes_of (hp, n) \<inter> free_bytes ?bs = {}" using disj c(4,5) by auto
  then have "in_use ?s brk ?bs (hp, n)" using h c assms(4) by (auto simp: in_use_def before_def sorted_wrt_append)
  moreover have "keeps_used s brk bs ?s"
    using in_use_apart [OF assms(1) _ assms(2)] hin first_byte [of "(x, k)"] h by (auto simp: keeps_used_def in_use_def)
  ultimately have "took s brk bs n hp ?s" using ok free unfolding took_def by auto
  then show ?thesis using run by blast
qed

section \<open>More memory\<close>

definition grow :: "uint \<Rightarrow> uint" where
  "grow n = (if n < 4096 then 4096 else n)"

text \<open>
  What \<open>sbrk\<close> may answer when the memory of the process ends at \<open>brk\<close>: that it failed, or the old
  end, when the memory that is added lies below 4 GB.
\<close>

definition sbrk_answer :: "nat \<Rightarrow> uint \<Rightarrow> reply \<Rightarrow> bool" where
  "sbrk_answer brk n r \<longleftrightarrow> word_of_int (r_val r) = (- 1 :: uint) \<or>
     word_of_int (r_val r) = (of_nat brk :: uint) \<and> brk + 8 * unat (grow n) < 4294967296"

lemma grow_simps: "n \<le> grow n" "0 < grow n"
  by (auto simp: grow_def word_less_nat_alt word_le_nat_alt)

lemma morecore_fails:
  assumes "replies s = r # rs" and "word_of_int (r_val r) = (- 1 :: uint)"
  shows "morecore n s = Ok 0 (s\<lparr>replies := rs, calls := calls s @ [U_sbrk (sint (grow n * 8))]\<rparr>)"
  using assms by (simp add: morecore_def grow_def [symmetric] Let_def bnd_def sys_def ret_def)

lemma heap_ok_freep: "heap_ok s brk bs \<Longrightarrow> h_freep s \<noteq> 0"
  by (auto simp: heap_ok_def before_def)

lemma in_use_below: "in_use s brk bs b \<Longrightarrow> unat (fst b) < brk"
  using first_byte [of b] by (auto simp: in_use_def bytes_of_def)

lemma morecore_grows:
  assumes h: "heap_ok s brk bs" and r: "replies s = r # rs" "word_of_int (r_val r) = (of_nat brk :: uint)"
    and lim: "brk + 8 * unat (grow n) < 4294967296"
  shows "\<exists>s' bs'. morecore n s = Ok (h_freep s') s' \<and> heap_ok s' (brk + 8 * unat (grow n)) bs' \<and>
    free_bytes bs' = free_bytes bs \<union> {brk..<brk + 8 * unat (grow n)} \<and> (\<exists>b \<in> set bs'. n \<le> snd b) \<and>
    replies s' = rs \<and> keeps_used s brk bs s'"
proof -
  let ?nu = "grow n" and ?hp = "of_nat brk :: uint"
  let ?brk = "brk + 8 * unat ?nu"
  let ?t = "s\<lparr>replies := rs, calls := calls s @ [U_sbrk (sint (?nu * 8))], h_size := (h_size s)(?hp := ?nu)\<rparr>"
  have uh: "unat ?hp = brk" using lim by (simp add: unat_of_nat)
  have nu: "0 < unat ?nu" using grow_simps(2) [of n] by (simp add: word_less_nat_alt)
  have below: "unat (fst b) < brk" if "b \<in> set ((h_base s, 0) # bs)" for b
    using that h first_byte [of b] by (auto simp: heap_ok_def bytes_of_def dest!: bspec)
  have "fst b \<noteq> ?hp" if "b \<in> set ((h_base s, 0) # bs)" for b using below [OF that] uh by auto
  then have "\<forall>b \<in> set ((h_base s, 0) # bs). h_size ?t (fst b) = snd b" using h by (simp add: heap_ok_def)
  moreover have "\<forall>b \<in> set bs. 0 < snd b \<and> bend b \<le> ?brk" "unat (h_base s) < ?brk" using h by (auto simp: heap_ok_def)
  ultimately have h1: "heap_ok ?t ?brk bs"
    using h lim unfolding heap_ok_def by simp
  have end_hp: "bend (?hp, ?nu) = ?brk" using uh by (simp add: bend_def)
  have bytes: "bytes_of (?hp, ?nu) = {brk..<?brk}" using uh end_hp by (simp add: bytes_of_def)
  have "{brk..<?brk} \<inter> free_bytes bs = {}" using h by (auto simp: free_bytes_def bytes_of_def heap_ok_def)
  then have u1: "in_use ?t ?brk bs (?hp, ?nu)"
    using below [of "(h_base s, 0)"] uh nu grow_simps(2) [of n] by (simp add: in_use_def bytes end_hp word_less_nat_alt)
  have not: "?hp \<noteq> - 1"
  proof
    assume "?hp = - 1"
    then have "unat ?hp = 4294967295" by (simp add: unsigned_minus_1_eq_mask mask_eq_exp_minus_1)
    then show False using uh lim nu by simp
  qed
  obtain s' bs' where f: "ufree (?hp + 8) ?t = Ok () s'" "heap_ok s' ?brk bs'" "free_bytes bs' = free_bytes bs \<union> bytes_of (?hp, ?nu)"
    "\<exists>b \<in> set bs'. ?nu \<le> snd b" "replies s' = replies ?t" "h_base s' = h_base ?t"
    "\<forall>x. x \<notin> insert ?hp (fst ` set ((h_base ?t, 0) # bs)) \<longrightarrow> h_size s' x = h_size ?t x"
    using ufree_spec [OF h1 u1] by blast
  have "morecore n s = Ok (h_freep s') s'"
    using r not f(1) by (simp add: morecore_def grow_def [symmetric] Let_def bnd_def sqn_def sys_def modify_def gets_def)
  moreover have "h_size s' (fst b) = snd b" if b: "in_use s brk bs b" for b
  proof -
    have "fst b \<notin> fst ` set ((h_base s, 0) # bs)" using in_use_not_free [OF h, of "fst b" "snd b"] b by simp
    moreover have "fst b \<noteq> ?hp" using in_use_below [OF b] uh by auto
    ultimately show ?thesis using f(7) b by (auto simp: in_use_def)
  qed
  ultimately show ?thesis using f grow_simps(1) [of n] unfolding bytes keeps_used_def
    by (intro exI [of _ s'] exI [of _ bs']) (auto intro: order.trans)
qed

section \<open>malloc\<close>

lemma takes_state [takes_intros]: "takes 0 (gets f)" "(\<And>s. replies (g s) = replies s) \<Longrightarrow> takes 0 (modify g)"
  by (simp_all add: takes_def gets_def modify_def)

lemma takes_ufree [takes_intros]: "takes 0 (ufree ap)"
  unfolding ufree_def by (intro takes_intros) (simp_all add: join_upper_def join_lower_def Let_def)

lemma takes_morecore: "takes 1 (morecore n)"
  unfolding morecore_def Let_def by (rule takes_first(1), rule takes_one) (intro takes_intros; simp)

lemma malloc_body_consumes: "consumes (malloc_body n)"
  unfolding consumes_def
proof (intro allI impI)
  fix a a' :: "uint \<times> uint" and s s' :: "'a uheap_scheme" assume b: "malloc_body n a s = Ok (Inl a') s'"
  obtain prevp p where a: "a = (prevp, p)" by (cases a)
  from b have "\<exists>q t. morecore n s = Ok q t \<and> replies s' = replies t"
    unfolding a malloc_body_def
    by (auto simp: bnd_def gets_def ret_def block_def split: option.splits sum.splits outcome.splits if_splits)
  then show "length (replies s') < length (replies s)" using takes_morecore [of n] unfolding takes_def by fastforce
qed

lemma malloc_loop_found:
  assumes h: "heap_ok s brk bs" and n: "0 < n" and big: "\<exists>b \<in> set bs. n \<le> snd b"
  shows "\<exists>hp s'. while_sys (malloc_body n) (h_freep s, h_ptr s (h_freep s)) s = Ok (hp + 8) s' \<and> took s brk bs n hp s'"
proof -
  have "\<not> (\<forall>b \<in> set bs. snd b < n)" using big by (auto simp: not_less)
  then obtain pr x k where scan: "malloc_scan (h_ptr s) (h_size s) (h_freep s) n (h_freep s) (h_ptr s (h_freep s)) = Some (Inl (pr, x))"
    and x: "(x, k) \<in> set bs" "n \<le> k" "pr \<in> set (h_base s # map fst bs)" "h_ptr s pr = x"
    using scan_ring [OF h n] by blast
  obtain hp s' where t: "malloc_take n pr x s = Ok (hp + 8) s'" "took s brk bs n hp s'"
  proof (cases "k = n")
    case True
    then show thesis using take_whole [OF h _ x(3,4)] x(1) that by blast
  next
    case False
    then have "n < k" using x(2) by simp
    then show thesis using take_tail [OF h x(1) _ n x(3,4)] that by blast
  qed
  then have "while_sys (malloc_body n) (h_freep s, h_ptr s (h_freep s)) s = Ok (hp + 8) s'"
    by (subst while_sys_unfold [OF malloc_body_consumes]) (simp add: malloc_body_def bnd_def gets_def ret_def scan)
  with t(2) show ?thesis by blast
qed

definition brk_after :: "nat \<Rightarrow> uint \<Rightarrow> reply \<Rightarrow> nat" where
  "brk_after brk n r = (if word_of_int (r_val r) = (- 1 :: uint) then brk else brk + 8 * unat (grow n))"

text \<open>What \<open>malloc\<close> leaves; \<open>r\<close> is the answer of \<open>sbrk\<close> if it is called.\<close>

definition malloc_result :: "'z uheap_scheme \<Rightarrow> nat \<Rightarrow> hblock list \<Rightarrow> uint \<Rightarrow> reply \<Rightarrow> uint \<Rightarrow> 'z uheap_scheme \<Rightarrow> bool" where
  "malloc_result s brk bs n r x s' \<longleftrightarrow> (\<exists>brk' bs'. heap_ok s' brk' bs' \<and> keeps_used s brk bs s' \<and>
     brk' = (if replies s' = replies s then brk else brk_after brk n r) \<and>
     (x = 0 \<and> word_of_int (r_val r) = (- 1 :: uint) \<and> brk' = brk \<and> free_bytes bs' = free_bytes bs \<or>
      (\<exists>hp. x = hp + 8 \<and> x \<noteq> 0 \<and> brk \<le> brk' \<and> in_use s' brk' bs' (hp, n) \<and> free_bytes bs' \<union> bytes_of (hp, n) = free_bytes bs \<union> {brk..<brk'})))"

lemma in_use_nonnull:
  assumes "in_use s brk bs (hp, n)" and "brk < 4294967296"
  shows "hp + 8 \<noteq> 0"
proof -
  have "0 < unat n" "unat hp + 8 * unat n \<le> brk" using assms(1) by (auto simp: in_use_def bend_def word_less_nat_alt)
  then have "unat (hp + 8) = unat hp + 8" using assms(2) by (intro size_word [of hp 8, simplified]) simp
  then show ?thesis by (metis add_is_0 unat_0 zero_neq_numeral)
qed

lemma keeps_used_trans:
  assumes "keeps_used s brk bs s1" and "keeps_used s1 brk1 bs1 s2" and "brk \<le> brk1" and "free_bytes bs1 \<subseteq> free_bytes bs \<union> {brk..}"
  shows "keeps_used s brk bs s2"
proof -
  have "in_use s1 brk1 bs1 b" if "in_use s brk bs b" for b
    using that assms unfolding keeps_used_def in_use_def by (auto simp: bytes_of_def subset_iff disjoint_iff)
  then show ?thesis using assms(1,2) by (auto simp: keeps_used_def)
qed

lemma took_result:
  assumes "took s brk bs n hp s'"
  shows "malloc_result s brk bs n r (hp + 8) s'"
proof -
  from assms obtain bs' where b: "heap_ok s' brk bs'" "in_use s' brk bs' (hp, n)" "free_bytes bs = free_bytes bs' \<union> bytes_of (hp, n)"
    and k: "keeps_used s brk bs s'" "replies s' = replies s" by (auto simp: took_def)
  have "hp + 8 \<noteq> 0" using in_use_nonnull [OF b(2)] b(1) by (simp add: heap_ok_def)
  with b k show ?thesis unfolding malloc_result_def by (intro exI [of _ brk] exI [of _ bs']) auto
qed

lemma malloc_loop:
  assumes h: "heap_ok s brk bs" and n: "0 < n" and r: "replies s = r # rs" and a: "sbrk_answer brk n r"
  shows "\<exists>x s'. while_sys (malloc_body n) (h_freep s, h_ptr s (h_freep s)) s = Ok x s' \<and> malloc_result s brk bs n r x s'"
proof (cases "\<exists>b \<in> set bs. n \<le> snd b")
  case True
  then show ?thesis using malloc_loop_found [OF h n True] took_result by blast
next
  case False
  let ?a = "(h_freep s, h_ptr s (h_freep s))"
  have scan: "malloc_scan (h_ptr s) (h_size s) (h_freep s) n (h_freep s) (h_ptr s (h_freep s)) = Some (Inr ())"
    using scan_ring [OF h n] False by fastforce
  have step: "while_sys (malloc_body n) ?a s = bnd (morecore n) (\<lambda>p. if p = 0 then ret 0
      else bnd (gets (\<lambda>s. h_ptr s p)) (\<lambda>q. while_sys (malloc_body n) (p, q))) s"
    by (subst while_sys_unfold [OF malloc_body_consumes])
      (auto simp: malloc_body_def bnd_def gets_def ret_def scan split: outcome.split)
  show ?thesis
  proof (cases "word_of_int (r_val r) = (- 1 :: uint)")
    case True
    let ?s = "s\<lparr>replies := rs, calls := calls s @ [U_sbrk (sint (grow n * 8))]\<rparr>"
    have "while_sys (malloc_body n) ?a s = Ok 0 ?s" using step morecore_fails [OF r True, of n] by (simp add: bnd_def ret_def)
    moreover have "heap_ok ?s brk bs" using h by (simp add: heap_ok_def)
    then have "malloc_result s brk bs n r 0 ?s" unfolding malloc_result_def
      using True by (intro exI [of _ brk] exI [of _ bs]) (auto simp: keeps_used_def in_use_def brk_after_def)
    ultimately show ?thesis by blast
  next
    case f: False
    then have ok: "word_of_int (r_val r) = (of_nat brk :: uint)" "brk + 8 * unat (grow n) < 4294967296" using a by (auto simp: sbrk_answer_def)
    let ?brk = "brk + 8 * unat (grow n)"
    obtain s1 bs1 where m: "morecore n s = Ok (h_freep s1) s1" "heap_ok s1 ?brk bs1" "free_bytes bs1 = free_bytes bs \<union> {brk..<?brk}"
      "\<exists>b \<in> set bs1. n \<le> snd b" "replies s1 = rs" "keeps_used s brk bs s1" using morecore_grows [OF h r ok] by blast
    obtain hp s2 where w: "while_sys (malloc_body n) (h_freep s1, h_ptr s1 (h_freep s1)) s1 = Ok (hp + 8) s2" "took s1 ?brk bs1 n hp s2"
      using malloc_loop_found [OF m(2) n m(4)] by blast
    have "while_sys (malloc_body n) ?a s = Ok (hp + 8) s2"
      using step m(1) w(1) heap_ok_freep [OF m(2)] by (simp add: bnd_def gets_def)
    moreover from w(2) obtain bs2 where b: "heap_ok s2 ?brk bs2" "in_use s2 ?brk bs2 (hp, n)" "free_bytes bs1 = free_bytes bs2 \<union> bytes_of (hp, n)"
      and k: "keeps_used s1 ?brk bs1 s2" "replies s2 = rs" using m(5) by (auto simp: took_def)
    moreover have "keeps_used s brk bs s2" using m(3) by (intro keeps_used_trans [OF m(6) k(1)]) auto
    moreover have "hp + 8 \<noteq> 0" using in_use_nonnull [OF b(2)] ok(2) by simp
    ultimately have "malloc_result s brk bs n r (hp + 8) s2" unfolding malloc_result_def
      using r f m(3) by (intro exI [of _ ?brk] exI [of _ bs2]) (auto simp: brk_after_def)
    then show ?thesis using \<open>while_sys (malloc_body n) ?a s = Ok (hp + 8) s2\<close> by blast
  qed
qed

end
