(* ===== verification/Mallocrun.thy ===== *)
theory Mallocrun
  imports Heap
begin

text \<open>
  What a program may rely on when it uses \<open>malloc\<close> and \<open>free\<close> (src/umalloc.c): an interface for
  allocators of blocks, its interpretation on the model, and the runs of a program.
\<close>

section \<open>The interface\<close>

text \<open>
  \<open>ok s F\<close>: the bytes \<open>F\<close> are free in \<open>s\<close>. \<open>header s b\<close>: the header of the block \<open>b\<close> is intact.
  Memory ends at \<open>limit s\<close>; an allocation may move the end.
\<close>

locale block_allocator =
  fixes ok :: "'s \<Rightarrow> nat set \<Rightarrow> bool" and limit :: "'s \<Rightarrow> nat" and header :: "'s \<Rightarrow> 'b \<Rightarrow> bool" and space :: "'b \<Rightarrow> nat set"
    and alloc :: "'s \<Rightarrow> 'b option \<Rightarrow> 's \<Rightarrow> bool" and release :: "'s \<Rightarrow> 'b \<Rightarrow> 's \<Rightarrow> bool"
  assumes alloc_some: "ok s F \<Longrightarrow> alloc s (Some b) s' \<Longrightarrow> \<exists>F'. ok s' F' \<and> limit s \<le> limit s' \<and>
      F' \<union> space b = F \<union> {limit s..<limit s'} \<and> F' \<inter> space b = {} \<and> header s' b \<and> space b \<subseteq> {..<limit s'}"
    and alloc_none: "ok s F \<Longrightarrow> alloc s None s' \<Longrightarrow> ok s' F \<and> limit s' = limit s"
    and alloc_keeps: "ok s F \<Longrightarrow> alloc s r s' \<Longrightarrow> header s c \<Longrightarrow> space c \<inter> F = {} \<Longrightarrow> space c \<subseteq> {..<limit s} \<Longrightarrow> header s' c"
    and release: "ok s F \<Longrightarrow> header s b \<Longrightarrow> space b \<inter> F = {} \<Longrightarrow> space b \<subseteq> {..<limit s} \<Longrightarrow> release s b s' \<Longrightarrow>
      ok s' (F \<union> space b) \<and> limit s' = limit s"
    and release_keeps: "ok s F \<Longrightarrow> header s b \<Longrightarrow> space b \<inter> F = {} \<Longrightarrow> space b \<subseteq> {..<limit s} \<Longrightarrow> release s b s' \<Longrightarrow>
      header s c \<Longrightarrow> space c \<inter> F = {} \<Longrightarrow> space c \<subseteq> {..<limit s} \<Longrightarrow> space c \<inter> space b = {} \<Longrightarrow> header s' c"
begin

definition lent :: "'s \<Rightarrow> nat set \<Rightarrow> 'b \<Rightarrow> bool" where
  "lent s F b \<longleftrightarrow> header s b \<and> space b \<inter> F = {} \<and> space b \<subseteq> {..<limit s}"

text \<open>The blocks \<open>U\<close> are in use: outside the free bytes and outside each other.\<close>

definition apart :: "'s \<Rightarrow> nat set \<Rightarrow> 'b list \<Rightarrow> bool" where
  "apart s F U \<longleftrightarrow> ok s F \<and> (\<forall>b \<in> set U. lent s F b) \<and> sorted_wrt (\<lambda>b c. space b \<inter> space c = {}) U"

lemma apart_alloc:
  assumes "apart s F U" and "alloc s (Some b) s'"
  shows "\<exists>F'. apart s' F' (b # U)"
proof -
  have k: "ok s F" "\<And>c. c \<in> set U \<Longrightarrow> lent s F c" using assms(1) by (auto simp: apart_def)
  from alloc_some [OF k(1) assms(2)] obtain F' where F: "ok s' F'" "limit s \<le> limit s'" "F' \<union> space b = F \<union> {limit s..<limit s'}"
    "F' \<inter> space b = {}" "header s' b" "space b \<subseteq> {..<limit s'}" by blast
  have U: "header s' c" "space c \<inter> F' = {}" "space b \<inter> space c = {}" "space c \<subseteq> {..<limit s'}" if "c \<in> set U" for c
  proof -
    have c: "header s c" "space c \<inter> F = {}" "space c \<subseteq> {..<limit s}" using k(2) [OF that] by (auto simp: lent_def)
    show "header s' c" by (rule alloc_keeps [OF k(1) assms(2) c])
    have "space c \<inter> (F' \<union> space b) = {}" unfolding F(3) using c(2,3) by auto
    then show "space c \<inter> F' = {}" "space b \<inter> space c = {}" by auto
    show "space c \<subseteq> {..<limit s'}" using c(3) F(2) by auto
  qed
  have "lent s' F' b" using F by (auto simp: lent_def)
  moreover have "lent s' F' c" if "c \<in> set U" for c using U [OF that] by (simp add: lent_def)
  ultimately show ?thesis using F(1) U(3) assms(1) unfolding apart_def by (intro exI [of _ F']) simp
qed

lemma apart_alloc_none:
  assumes "apart s F U" and "alloc s None s'"
  shows "apart s' F U"
proof -
  have k: "ok s F" "\<And>c. c \<in> set U \<Longrightarrow> lent s F c" using assms(1) by (auto simp: apart_def)
  have "lent s' F c" if "c \<in> set U" for c
    using alloc_keeps [OF k(1) assms(2)] alloc_none [OF k(1) assms(2)] k(2) [OF that] by (auto simp: lent_def)
  then show ?thesis using alloc_none [OF k(1) assms(2)] assms(1) by (auto simp: apart_def)
qed

lemma apart_release:
  assumes "apart s F (U @ b # V)" and "release s b s'"
  shows "apart s' (F \<union> space b) (U @ V)"
proof -
  have k: "ok s F" "\<And>c. c \<in> set (U @ b # V) \<Longrightarrow> lent s F c" using assms(1) by (auto simp: apart_def)
  have b: "header s b" "space b \<inter> F = {}" "space b \<subseteq> {..<limit s}" using k(2) [of b] by (auto simp: lent_def)
  have d: "space c \<inter> space b = {}" if "c \<in> set (U @ V)" for c
    using assms(1) that by (auto simp: apart_def sorted_wrt_append)
  have "lent s' (F \<union> space b) c" if "c \<in> set (U @ V)" for c
    using release_keeps [OF k(1) b assms(2), of c] release [OF k(1) b assms(2)] k(2) [of c] that d [OF that]
    by (auto simp: lent_def)
  then show ?thesis using release [OF k(1) b assms(2)] assms(1) by (auto simp: apart_def sorted_wrt_append)
qed

end

section \<open>The allocator of the source\<close>

text \<open>The state is the memory and where it ends. Before the first allocation there is no free list.\<close>

definition heap_ready :: "'z uheap_scheme \<Rightarrow> nat \<Rightarrow> hblock list \<Rightarrow> bool" where
  "heap_ready s brk bs \<longleftrightarrow> heap_ok s brk bs \<or>
     h_freep s = 0 \<and> bs = [] \<and> h_base s \<noteq> 0 \<and> unat (h_base s) < brk \<and> brk < 4294967296"

definition heap_free_bytes :: "'z uheap_scheme \<times> nat \<Rightarrow> nat set \<Rightarrow> bool" where
  "heap_free_bytes s F \<longleftrightarrow> (\<exists>bs. heap_ready (fst s) (snd s) bs \<and> free_bytes bs = F)"

definition heap_header :: "'z uheap_scheme \<times> nat \<Rightarrow> hblock \<Rightarrow> bool" where
  "heap_header s b \<longleftrightarrow> h_freep (fst s) \<noteq> 0 \<and> h_base (fst s) < fst b \<and> h_size (fst s) (fst b) = snd b \<and> 0 < snd b"

definition heap_malloc :: "uint \<Rightarrow> 'z uheap_scheme \<times> nat \<Rightarrow> hblock option \<Rightarrow> 'z uheap_scheme \<times> nat \<Rightarrow> bool" where
  "heap_malloc nbytes s b s' \<longleftrightarrow> (\<exists>r rs x. replies (fst s) = r # rs \<and> sbrk_answer (snd s) (nunits_of nbytes) r \<and>
     malloc nbytes (fst s) = Ok x (fst s') \<and>
     snd s' = (if replies (fst s') = replies (fst s) then snd s else brk_after (snd s) (nunits_of nbytes) r) \<and>
     b = (if x = 0 then None else Some (x - 8, nunits_of nbytes)))"

definition heap_free :: "'z uheap_scheme \<times> nat \<Rightarrow> hblock \<Rightarrow> 'z uheap_scheme \<times> nat \<Rightarrow> bool" where
  "heap_free s b s' \<longleftrightarrow> ufree (fst b + 8) (fst s) = Ok () (fst s') \<and> snd s' = snd s"

lemma nunits_pos: "0 < nunits_of nbytes"
proof -
  have "unat ((nbytes + 8 - 1) div 8) \<le> 536870911" using u32_bound [of "nbytes + 8 - 1"] by (simp add: unat_div)
  then have "unat (nunits_of nbytes) = unat ((nbytes + 8 - 1) div 8) + 1"
    unfolding nunits_of_def by (subst size_word) simp_all
  then show ?thesis by (simp add: word_less_nat_alt)
qed

lemma heap_ok_init:
  assumes "h_freep s = 0" and "h_base s \<noteq> 0" and "unat (h_base s) < brk" and "brk < 4294967296"
  shows "heap_ok (s\<lparr>h_ptr := (h_ptr s)(h_base s := h_base s), h_size := (h_size s)(h_base s := 0), h_freep := h_base s\<rparr>) brk []"
  using assms by (simp add: heap_ok_def)

lemma malloc_spec:
  assumes "heap_ready s brk bs" and "replies s = r # rs" and "sbrk_answer brk (nunits_of nbytes) r"
  shows "\<exists>x s'. malloc nbytes s = Ok x s' \<and> malloc_result s brk bs (nunits_of nbytes) r x s'"
proof (cases "h_freep s = 0")
  case False
  then have h: "heap_ok s brk bs" using assms(1) by (auto simp: heap_ready_def)
  have "malloc nbytes s = while_sys (malloc_body (nunits_of nbytes)) (h_freep s, h_ptr s (h_freep s)) s"
    using False by (simp add: malloc_def bnd_def sqn_def gets_def whenM_def ret_def)
  then show ?thesis using malloc_loop [OF h nunits_pos assms(2,3)] by simp
next
  case True
  let ?s = "s\<lparr>h_ptr := (h_ptr s)(h_base s := h_base s), h_size := (h_size s)(h_base s := 0), h_freep := h_base s\<rparr>"
  have b: "bs = []" "h_base s \<noteq> 0" "unat (h_base s) < brk" "brk < 4294967296"
    using assms(1) True heap_ok_freep [of s brk bs] by (auto simp: heap_ready_def)
  have h: "heap_ok ?s brk []" by (rule heap_ok_init [OF True b(2-4)])
  have "malloc nbytes s = while_sys (malloc_body (nunits_of nbytes)) (h_freep ?s, h_ptr ?s (h_freep ?s)) ?s"
    using True by (simp add: malloc_def bnd_def sqn_def gets_def whenM_def modify_def)
  moreover obtain x s' where w: "while_sys (malloc_body (nunits_of nbytes)) (h_freep ?s, h_ptr ?s (h_freep ?s)) ?s = Ok x s'"
    "malloc_result ?s brk [] (nunits_of nbytes) r x s'" using malloc_loop [OF h nunits_pos _ assms(3), of rs] assms(2) by auto
  moreover have "in_use ?s brk [] b" if "in_use s brk [] b" for b using that by (auto simp: in_use_def)
  then have "keeps_used s brk [] s'" if "keeps_used ?s brk [] s'" using that by (simp add: keeps_used_def)
  then have "malloc_result s brk bs (nunits_of nbytes) r x s'" using w(2) unfolding malloc_result_def b(1) by auto
  ultimately show ?thesis by auto
qed

text \<open>Enough for the request and the header, unless adding the size of a header to the request wraps.\<close>

lemma nunits_room:
  assumes "unat nbytes \<le> 4294967288"
  shows "unat nbytes + 8 \<le> 8 * unat (nunits_of nbytes)"
proof -
  have e: "nbytes + 8 - 1 = nbytes + 7" by simp
  have "unat (nbytes + 7) = unat nbytes + 7" using assms by (subst size_word) simp_all
  then have d: "unat ((nbytes + 8 - 1) div 8) = (unat nbytes + 7) div 8" unfolding e unat_div by simp
  then have "unat (nunits_of nbytes) = (unat nbytes + 7) div 8 + 1"
    unfolding nunits_of_def using assms by (subst size_word) simp_all
  then show ?thesis by simp
qed

lemma heap_lent_in_use:
  assumes "heap_header s b" and "bytes_of b \<inter> free_bytes bs = {}" and "bytes_of b \<subseteq> {..<snd s}" and "heap_ready (fst s) (snd s) bs"
  shows "heap_ok (fst s) (snd s) bs" and "in_use (fst s) (snd s) bs b"
proof -
  show "heap_ok (fst s) (snd s) bs" using assms(1,4) by (auto simp: heap_ready_def heap_header_def)
  have "bend b \<le> snd s"
  proof (rule ccontr)
    assume "\<not> bend b \<le> snd s"
    then have "max (unat (fst b)) (snd s) \<in> bytes_of b"
      using assms(1) by (auto simp: bytes_of_def bend_def heap_header_def word_less_nat_alt)
    then show False using assms(3) by auto
  qed
  then show "in_use (fst s) (snd s) bs b" using assms(1,2) by (auto simp: in_use_def heap_header_def)
qed

lemma heap_malloc_result:
  assumes "heap_ready (fst s) (snd s) bs" and "heap_malloc nbytes s b s'"
  obtains r x where "malloc_result (fst s) (snd s) bs (nunits_of nbytes) r x (fst s')" and "b = (if x = 0 then None else Some (x - 8, nunits_of nbytes))"
    and "snd s' = (if replies (fst s') = replies (fst s) then snd s else brk_after (snd s) (nunits_of nbytes) r)"
proof -
  from assms(2) obtain r rs x where m: "replies (fst s) = r # rs" "sbrk_answer (snd s) (nunits_of nbytes) r" "malloc nbytes (fst s) = Ok x (fst s')"
    "snd s' = (if replies (fst s') = replies (fst s) then snd s else brk_after (snd s) (nunits_of nbytes) r)"
    "b = (if x = 0 then None else Some (x - 8, nunits_of nbytes))" unfolding heap_malloc_def by blast
  from malloc_spec [OF assms(1) m(1,2)] m(3) have "malloc_result (fst s) (snd s) bs (nunits_of nbytes) r x (fst s')" by auto
  then show thesis using that m(4,5) by blast
qed

interpretation um: block_allocator heap_free_bytes snd heap_header bytes_of "\<lambda>s b s'. \<exists>nbytes. heap_malloc nbytes s b s'" heap_free
proof
  fix s s' :: "'a uheap_scheme \<times> nat" and F b
  assume "heap_free_bytes s F" and "\<exists>nbytes. heap_malloc nbytes s (Some b) s'"
  then obtain bs nbytes where bs: "heap_ready (fst s) (snd s) bs" "free_bytes bs = F" and m: "heap_malloc nbytes s (Some b) s'"
    by (auto simp: heap_free_bytes_def)
  obtain r x where x: "malloc_result (fst s) (snd s) bs (nunits_of nbytes) r x (fst s')" "Some b = (if x = 0 then None else Some (x - 8, nunits_of nbytes))"
    "snd s' = (if replies (fst s') = replies (fst s) then snd s else brk_after (snd s) (nunits_of nbytes) r)" by (rule heap_malloc_result [OF bs(1) m])
  then obtain bs' where r: "heap_ok (fst s') (snd s') bs'" "snd s \<le> snd s'" "in_use (fst s') (snd s') bs' b"
    "free_bytes bs' \<union> bytes_of b = free_bytes bs \<union> {snd s..<snd s'}"
    unfolding malloc_result_def by (auto split: if_split_asm)
  show "\<exists>F'. heap_free_bytes s' F' \<and> snd s \<le> snd s' \<and> F' \<union> bytes_of b = F \<union> {snd s..<snd s'} \<and> F' \<inter> bytes_of b = {} \<and>
      heap_header s' b \<and> bytes_of b \<subseteq> {..<snd s'}"
    using r bs(2) heap_ok_freep [OF r(1)]
    by (intro exI [of _ "free_bytes bs'"]) (auto simp: heap_free_bytes_def heap_ready_def heap_header_def in_use_def bytes_of_def)
next
  fix s s' :: "'a uheap_scheme \<times> nat" and F
  assume "heap_free_bytes s F" and "\<exists>nbytes. heap_malloc nbytes s None s'"
  then obtain bs nbytes where bs: "heap_ready (fst s) (snd s) bs" "free_bytes bs = F" and m: "heap_malloc nbytes s None s'"
    by (auto simp: heap_free_bytes_def)
  obtain r x where x: "malloc_result (fst s) (snd s) bs (nunits_of nbytes) r x (fst s')" "None = (if x = 0 then None else Some (x - 8, nunits_of nbytes))"
    "snd s' = (if replies (fst s') = replies (fst s) then snd s else brk_after (snd s) (nunits_of nbytes) r)" by (rule heap_malloc_result [OF bs(1) m])
  then obtain bs' where "heap_ok (fst s') (snd s') bs'" "snd s' = snd s" "free_bytes bs' = free_bytes bs"
    unfolding malloc_result_def by (auto split: if_split_asm)
  then show "heap_free_bytes s' F \<and> snd s' = snd s" using bs(2) by (auto simp: heap_free_bytes_def heap_ready_def)
next
  fix s s' :: "'a uheap_scheme \<times> nat" and F b c
  assume "heap_free_bytes s F" and "\<exists>nbytes. heap_malloc nbytes s b s'" and c: "heap_header s c" "bytes_of c \<inter> F = {}" "bytes_of c \<subseteq> {..<snd s}"
  then obtain bs nbytes where bs: "heap_ready (fst s) (snd s) bs" "free_bytes bs = F" and m: "heap_malloc nbytes s b s'"
    by (auto simp: heap_free_bytes_def)
  have "in_use (fst s) (snd s) bs c" using heap_lent_in_use [of s c bs] c bs by simp
  moreover obtain r x where "malloc_result (fst s) (snd s) bs (nunits_of nbytes) r x (fst s')" by (rule heap_malloc_result [OF bs(1) m])
  ultimately show "heap_header s' c" using heap_ok_freep [of "fst s'"]
    by (auto simp: malloc_result_def keeps_used_def heap_header_def in_use_def)
next
  fix s s' :: "'a uheap_scheme \<times> nat" and F b
  assume "heap_free_bytes s F" and b: "heap_header s b" "bytes_of b \<inter> F = {}" "bytes_of b \<subseteq> {..<snd s}" and f: "heap_free s b s'"
  then obtain bs where bs: "heap_ready (fst s) (snd s) bs" "free_bytes bs = F" by (auto simp: heap_free_bytes_def)
  have u: "heap_ok (fst s) (snd s) bs" "in_use (fst s) (snd s) bs b" using heap_lent_in_use [of s b bs] b bs by simp_all
  obtain bs' where "heap_ok (fst s') (snd s) bs'" "free_bytes bs' = free_bytes bs \<union> bytes_of b"
    using ufree_spec [OF u(1), of "fst b" "snd b"] u(2) f by (auto simp: heap_free_def)
  then show "heap_free_bytes s' (F \<union> bytes_of b) \<and> snd s' = snd s" using bs(2) f
    by (auto simp: heap_free_bytes_def heap_ready_def heap_free_def)
next
  fix s s' :: "'a uheap_scheme \<times> nat" and F b c
  assume "heap_free_bytes s F" and b: "heap_header s b" "bytes_of b \<inter> F = {}" "bytes_of b \<subseteq> {..<snd s}" and f: "heap_free s b s'"
    and c: "heap_header s c" "bytes_of c \<inter> F = {}" "bytes_of c \<subseteq> {..<snd s}" "bytes_of c \<inter> bytes_of b = {}"
  then obtain bs where bs: "heap_ready (fst s) (snd s) bs" "free_bytes bs = F" by (auto simp: heap_free_bytes_def)
  have u: "heap_ok (fst s) (snd s) bs" "in_use (fst s) (snd s) bs b" using heap_lent_in_use [of s b bs] b bs by simp_all
  have uc: "in_use (fst s) (snd s) bs c" using heap_lent_in_use [of s c bs] c bs by simp
  have "fst c \<notin> fst ` set ((h_base (fst s), 0) # bs)" using in_use_not_free [OF u(1), of "fst c" "snd c"] uc by simp
  moreover have "fst c \<noteq> fst b" using c(4) first_byte [of c] first_byte [of b] b(1) c(1) by (auto simp: heap_header_def)
  moreover obtain bs' where f': "heap_ok (fst s') (snd s) bs'" "h_base (fst s') = h_base (fst s)"
    "\<forall>x. x \<notin> insert (fst b) (fst ` set ((h_base (fst s), 0) # bs)) \<longrightarrow> h_size (fst s') x = h_size (fst s) x"
    using ufree_spec [OF u(1), of "fst b" "snd b"] u(2) f by (auto simp: heap_free_def)
  ultimately show "heap_header s' c" using c(1) heap_ok_freep [OF f'(1)] by (auto simp: heap_header_def)
qed

section \<open>Programs that use the allocator\<close>

text \<open>
  The runs of a program, with the blocks it has in use: it allocates, gives a block back, writes
  into a block after its header, and makes other system calls, which change neither the
  allocator nor the end of memory.
\<close>

inductive heap_run :: "'z uheap_scheme \<times> nat \<Rightarrow> hblock list \<Rightarrow> bool" where
  start: "h_freep s = 0 \<Longrightarrow> h_base s \<noteq> 0 \<Longrightarrow> unat (h_base s) < brk \<Longrightarrow> brk < 4294967296 \<Longrightarrow> heap_run (s, brk) []"
| got: "heap_run s U \<Longrightarrow> heap_malloc nbytes s (Some b) s' \<Longrightarrow> heap_run s' (b # U)"
| got_none: "heap_run s U \<Longrightarrow> heap_malloc nbytes s None s' \<Longrightarrow> heap_run s' U"
| gave: "heap_run s (U @ b # V) \<Longrightarrow> heap_free s b s' \<Longrightarrow> heap_run s' (U @ V)"
| wrote: "heap_run (s, brk) U \<Longrightarrow> b \<in> set U \<Longrightarrow> fst b < a \<Longrightarrow> unat a \<in> bytes_of b \<Longrightarrow>
    heap_run (s\<lparr>h_ptr := (h_ptr s)(a := v), h_size := (h_size s)(a := w)\<rparr>, brk) U"
| called: "heap_run (s, brk) U \<Longrightarrow> heap_run (s\<lparr>replies := rs, calls := cs\<rparr>, brk) U"

lemma heap_ok_store:
  assumes "heap_ok s brk bs" and "h_base s < a" and "unat a \<notin> free_bytes bs"
  shows "heap_ok (s\<lparr>h_ptr := (h_ptr s)(a := v), h_size := (h_size s)(a := w)\<rparr>) brk bs"
proof -
  have "fst b \<noteq> a" if "b \<in> set ((h_base s, 0) # bs)" for b
    using that assms first_byte [of b] by (auto simp: heap_ok_def free_bytes_def)
  then have n: "a \<notin> set (h_base s # map fst bs)" using assms(2) by fastforce
  then have "links ((h_ptr s)(a := v)) (h_base s # map fst bs) (h_base s)"
    using assms(1) links_upd [OF n] unfolding heap_ok_def by blast
  moreover have "\<forall>b \<in> set ((h_base s, 0) # bs). ((h_size s)(a := w)) (fst b) = snd b"
    using assms(1) n unfolding heap_ok_def by auto
  ultimately show ?thesis using assms(1) unfolding heap_ok_def by simp
qed

lemma apart_store:
  assumes "um.apart (s, brk) F U" and "b \<in> set U" and "fst b < a" and "unat a \<in> bytes_of b"
  shows "um.apart (s\<lparr>h_ptr := (h_ptr s)(a := v), h_size := (h_size s)(a := w)\<rparr>, brk) F U"
proof -
  have l: "um.lent (s, brk) F c" if "c \<in> set U" for c using assms(1) that by (simp add: um.apart_def)
  obtain bs where bs: "heap_ready s brk bs" "free_bytes bs = F" using assms(1) by (auto simp: um.apart_def heap_free_bytes_def)
  have b: "h_freep s \<noteq> 0" "h_base s < fst b" "unat a \<notin> F" using l [OF assms(2)] assms(4) by (auto simp: um.lent_def heap_header_def)
  then have "heap_ok s brk bs" using bs(1) by (simp add: heap_ready_def)
  then have "heap_ok (s\<lparr>h_ptr := (h_ptr s)(a := v), h_size := (h_size s)(a := w)\<rparr>) brk bs"
    using b assms(3) bs(2) by (intro heap_ok_store) auto
  moreover have "fst c \<noteq> a" if "c \<in> set U" for c
  proof (cases "c = b")
    case False
    obtain V W where "U = V @ b # W" using assms(2) by (meson split_list)
    then have "bytes_of c \<inter> bytes_of b = {}" using assms(1) that False by (auto simp: um.apart_def sorted_wrt_append)
    then show ?thesis using first_byte [of c] l [OF that] assms(4) by (auto simp: um.lent_def heap_header_def)
  qed (use assms(3) in auto)
  ultimately show ?thesis using assms(1) bs(2)
    by (auto simp: um.apart_def um.lent_def heap_header_def heap_free_bytes_def heap_ready_def)
qed

lemma apart_called:
  assumes "um.apart (s, brk) F U"
  shows "um.apart (s\<lparr>replies := rs, calls := cs\<rparr>, brk) F U"
  using assms by (auto simp: um.apart_def um.lent_def heap_header_def heap_free_bytes_def heap_ready_def heap_ok_def)

lemma heap_run_apart: "heap_run s U \<Longrightarrow> \<exists>F. um.apart s F U"
proof (induction rule: heap_run.induct)
  case (start s brk)
  then have "um.apart (s, brk) {} []" by (auto simp: um.apart_def heap_free_bytes_def heap_ready_def)
  then show ?case by blast
next
  case (got s U nbytes b s')
  then show ?case using um.apart_alloc [of s _ U b s'] by blast
next
  case (got_none s U nbytes s')
  then show ?case using um.apart_alloc_none [of s _ U s'] by blast
next
  case (gave s U b V s')
  then show ?case using um.apart_release [of s _ U b V s'] by blast
next
  case (wrote s brk U b a v w)
  then show ?case using apart_store by blast
next
  case (called s brk U rs cs)
  then show ?case using apart_called by blast
qed

lemma lent_used:
  assumes "um.apart s F U" and "b \<in> set U"
  shows "\<exists>bs. heap_ok (fst s) (snd s) bs \<and> in_use (fst s) (snd s) bs b"
proof -
  obtain bs where bs: "heap_ready (fst s) (snd s) bs" "free_bytes bs = F" using assms(1) by (auto simp: um.apart_def heap_free_bytes_def)
  have "heap_header s b" "bytes_of b \<inter> free_bytes bs = {}" "bytes_of b \<subseteq> {..<snd s}"
    using assms bs(2) by (auto simp: um.apart_def um.lent_def)
  from heap_lent_in_use [OF this bs(1)] show ?thesis by blast
qed


definition demo_heap :: uheap where
  "demo_heap = \<lparr>replies = [demo_reply 16384 []], calls = [], h_ptr = (\<lambda>_. 0), h_size = (\<lambda>_. 0), h_freep = 0, h_base = 8192\<rparr>"

lemma demo_heap_run: "\<exists>(s :: uheap) b. heap_run (s, 49152) [b] \<and> snd b = 13"
proof -
  have n: "nunits_of 96 = 13" by (simp add: nunits_of_def)
  have a: "sbrk_answer 16384 (nunits_of 96) (demo_reply 16384 [])"
    unfolding n by (simp add: sbrk_answer_def grow_def demo_reply_def)
  have r: "replies demo_heap = [demo_reply 16384 []]" by (simp add: demo_heap_def)
  have h: "heap_ready demo_heap 16384 []" by (simp add: heap_ready_def demo_heap_def)
  obtain x s' where m: "malloc 96 demo_heap = Ok x s'" "malloc_result demo_heap 16384 [] (nunits_of 96) (demo_reply 16384 []) x s'"
    using malloc_spec [OF h r a] by blast
  let ?b = "(x - 8, nunits_of 96)"
  have after: "brk_after 16384 (nunits_of 96) (demo_reply 16384 []) = 49152" unfolding n by (simp add: brk_after_def grow_def demo_reply_def)
  have d: "word_of_int (r_val (demo_reply 16384 [])) \<noteq> (- 1 :: uint)" by (simp add: demo_reply_def)
  then have x: "x \<noteq> 0" using m(2) unfolding malloc_result_def by auto
  have "replies s' \<noteq> replies demo_heap"
  proof
    assume "replies s' = replies demo_heap"
    with m(2) d obtain hp bs' where "in_use s' 16384 bs' (hp, nunits_of 96)" "free_bytes bs' \<union> bytes_of (hp, nunits_of 96) = {}"
      unfolding malloc_result_def by auto
    then show False using first_byte [of "(hp, nunits_of 96)"] by (auto simp: in_use_def)
  qed
  with x have x: "x \<noteq> 0" "replies s' \<noteq> replies demo_heap" by auto
  have "heap_malloc 96 (demo_heap, 16384) (Some ?b) (s', 49152)"
    unfolding heap_malloc_def using r a m(1) x after by auto
  moreover have "heap_run (demo_heap, 16384) []" by (rule heap_run.start) (simp_all add: demo_heap_def)
  ultimately have "heap_run (s', 49152) [?b]" by (rule heap_run.got [rotated])
  then show ?thesis using n by auto
qed


text \<open>A request close to 4 GB wraps: the block has no room for a byte.\<close>

lemma malloc_size_wraps: "nunits_of 4294967295 = 1"
  by (simp add: nunits_of_def)

end
