(* ===== verification/Device.thy ===== *)
theory Device
  imports Console
begin

text \<open>
  The devices below the kernel: ports and memory-mapped registers (src/x86.h), the interrupt
  controllers (src/picirq.c, src/ioapic.c, src/lapic.c), the clock chip (src/lapic.c) and the serial
  port (src/uart.c).

  What a device answers is not the kernel's to decide: \<open>port_in s p n\<close> is the byte that the \<open>n\<close>-th of
  the coming reads of port \<open>p\<close> gives, \<open>mmio_in\<close> the same for the 32-bit registers in memory, and
  \<open>insl_in\<close> for the blocks read with \<open>insl\<close>. Every statement below holds for all answers. What the
  kernel tells the devices is the list \<open>dev_out\<close>, in the order of the writes. A loop that polls a
  device is a partial function over the answers; a device that never gives the answer leaves the CPU
  in the loop, with the outcome \<open>Blocked\<close>. \<open>lapic\<close> is the address in mp.c's variable, 0 when it is null.
\<close>

section \<open>Ports and registers (x86.h)\<close>

datatype devop = Outb ushort uchar | Outsl ushort bytes | Mmio uint uint

record kdev = kcons +
  port_in :: "ushort \<Rightarrow> nat \<Rightarrow> uchar"
  mmio_in :: "uint \<Rightarrow> nat \<Rightarrow> uint"
  insl_in :: "nat \<Rightarrow> bytes"
  dev_out :: "devop list"
  lapic :: uint
  ioapicid :: uchar
  ncpu :: nat
  apicids :: "uchar list"
  idequeue :: "nat option"
  qnext :: "nat \<Rightarrow> nat option"
  havedisk1 :: bool

definition after :: "nat \<Rightarrow> (nat \<Rightarrow> 'a) \<Rightarrow> nat \<Rightarrow> 'a" where
  "after k f n = f (k + n)"

definition dev_emit :: "devop \<Rightarrow> ('z kdev_scheme, unit) kmon" where
  "dev_emit d = modify (\<lambda>s. s\<lparr>dev_out := dev_out s @ [d]\<rparr>)"

definition outb :: "ushort \<Rightarrow> uchar \<Rightarrow> ('z kdev_scheme, unit) kmon" where
  "outb port data = dev_emit (Outb port data)"

definition outsl :: "ushort \<Rightarrow> bytes \<Rightarrow> ('z kdev_scheme, unit) kmon" where
  "outsl port addr = dev_emit (Outsl port addr)"

definition mmio_write :: "uint \<Rightarrow> uint \<Rightarrow> ('z kdev_scheme, unit) kmon" where
  "mmio_write a v = dev_emit (Mmio a v)"

definition skip_port :: "ushort \<Rightarrow> nat \<Rightarrow> ('z kdev_scheme, unit) kmon" where
  "skip_port port k = modify (\<lambda>s. s\<lparr>port_in := (port_in s)(port := after k (port_in s port))\<rparr>)"

definition skip_mmio :: "uint \<Rightarrow> nat \<Rightarrow> ('z kdev_scheme, unit) kmon" where
  "skip_mmio a k = modify (\<lambda>s. s\<lparr>mmio_in := (mmio_in s)(a := after k (mmio_in s a))\<rparr>)"

definition inb :: "ushort \<Rightarrow> ('z kdev_scheme, uchar) kmon" where
  "inb port = bnd (gets (\<lambda>s. port_in s port 0)) (\<lambda>data. sqn (skip_port port 1) (ret data))"

definition mmio_read :: "uint \<Rightarrow> ('z kdev_scheme, uint) kmon" where
  "mmio_read a = bnd (gets (\<lambda>s. mmio_in s a 0)) (\<lambda>v. sqn (skip_mmio a 1) (ret v))"

definition insl :: "('z kdev_scheme, bytes) kmon" where
  "insl = bnd (gets (\<lambda>s. insl_in s 0)) (\<lambda>b.
     sqn (modify (\<lambda>s. s\<lparr>insl_in := after 1 (insl_in s)\<rparr>)) (ret b))"

text \<open>The number of the first answer, from the \<open>n\<close>-th on, that ends a polling loop.\<close>

partial_function (option) poll :: "('a \<Rightarrow> bool) \<Rightarrow> (nat \<Rightarrow> 'a) \<Rightarrow> nat \<Rightarrow> nat option" where
  "poll ok f n = (if ok (f n) then Some n else poll ok f (Suc n))"

declare poll.simps [code]

section \<open>Interrupt controllers (picirq.c, ioapic.c)\<close>

definition irq_vector :: "nat \<Rightarrow> uint" where
  "irq_vector irq = 32 + of_nat irq"

definition picinit :: "('z kdev_scheme, unit) kmon" where
  "picinit = stmts [outb 0x21 0xFF, outb 0xA1 0xFF]"

definition IOAPIC :: uint where "IOAPIC = 0xFEC00000"
definition INT_DISABLED :: uint where "INT_DISABLED = 0x00010000"

text \<open>The two registers of an interrupt line, from \<open>REG_TABLE\<close> on.\<close>

definition reg_lo :: "nat \<Rightarrow> uint" where "reg_lo i = 0x10 + 2 * of_nat i"
definition reg_hi :: "nat \<Rightarrow> uint" where "reg_hi i = 0x10 + 2 * of_nat i + 1"

definition ioapicread :: "uint \<Rightarrow> ('z kdev_scheme, uint) kmon" where
  "ioapicread reg = sqn (mmio_write IOAPIC reg) (mmio_read (IOAPIC + 16))"

definition ioapicwrite :: "uint \<Rightarrow> uint \<Rightarrow> ('z kdev_scheme, unit) kmon" where
  "ioapicwrite reg data = stmts [mmio_write IOAPIC reg, mmio_write (IOAPIC + 16) data]"

definition not_mp_msg :: string where
  "not_mp_msg = ''ioapicinit: id isn'' @ [CHR 0x27] @ ''t equal to ioapicid; not a MP'' @ [CHR 0x0A]"

definition ioapic_mask :: "nat \<Rightarrow> ('z kdev_scheme, unit) kmon" where
  "ioapic_mask i = stmts [
     ioapicwrite (reg_lo i) (INT_DISABLED OR irq_vector i),
     ioapicwrite (reg_hi i) 0]"

definition ioapicinit :: "('z kdev_scheme, unit) kmon" where
  "ioapicinit = bnd (ioapicread 1) (\<lambda>ver. bnd (ioapicread 0) (\<lambda>ident. bnd (gets ioapicid) (\<lambda>apic.
     let maxintr = unat (drop_bit 16 ver AND 0xFF) in stmts [
       whenM (drop_bit 24 ident \<noteq> ucast apic) (cprintf (\<lambda>_. []) not_mp_msg []),
       forM [0..<maxintr + 1] ioapic_mask])))"

definition ioapicenable :: "nat \<Rightarrow> nat \<Rightarrow> ('z kdev_scheme, unit) kmon" where
  "ioapicenable irq cpunum = stmts [
     ioapicwrite (reg_lo irq) (irq_vector irq),
     ioapicwrite (reg_hi irq) (push_bit 24 (of_nat cpunum))]"

section \<open>The local APIC (lapic.c)\<close>

text \<open>A register is given by its byte offset, which the source divides by four to index \<open>lapic\<close>.\<close>

definition lapic_at :: "uint \<Rightarrow> ('z kdev_scheme, uint) kmon" where
  "lapic_at off = bnd (gets lapic) (\<lambda>base. mmio_read (base + off))"

definition lapicw :: "uint \<Rightarrow> uint \<Rightarrow> ('z kdev_scheme, unit) kmon" where
  "lapicw off val = bnd (gets lapic) (\<lambda>base.
     sqn (mmio_write (base + off) val) (bnd (lapic_at 0x20) (\<lambda>_. ret ())))"

definition delivered :: "uint \<Rightarrow> bool" where
  "delivered v \<longleftrightarrow> v AND 0x1000 = 0"

definition lapic_wait :: "('z kdev_scheme, unit) kmon" where
  "lapic_wait s = (case poll delivered (mmio_in s (lapic s + 0x300)) 0 of
     None \<Rightarrow> Blocked s
   | Some n \<Rightarrow> skip_mmio (lapic s + 0x300) (Suc n) s)"

definition lapicinit :: "('z kdev_scheme, unit) kmon" where
  "lapicinit = bnd (gets lapic) (\<lambda>base. whenM (base \<noteq> 0) (stmts [
     lapicw 0xF0 (0x100 OR irq_vector 31),
     lapicw 0x3E0 0xB,
     lapicw 0x320 (0x20000 OR irq_vector 0),
     lapicw 0x380 10000000,
     lapicw 0x350 0x10000,
     lapicw 0x360 0x10000,
     bnd (lapic_at 0x30) (\<lambda>ver. whenM (drop_bit 16 ver AND 0xFF \<ge> 4) (lapicw 0x340 0x10000)),
     lapicw 0x370 (irq_vector 19),
     lapicw 0x280 0,
     lapicw 0x280 0,
     lapicw 0xB0 0,
     lapicw 0x310 0,
     lapicw 0x300 (0x80000 OR 0x500 OR 0x8000),
     lapic_wait,
     lapicw 0x80 0]))"

definition lapicid :: "('z kdev_scheme, uint) kmon" where
  "lapicid = bnd (gets lapic) (\<lambda>base.
     if base = 0 then ret 0 else bnd (lapic_at 0x20) (\<lambda>v. ret (drop_bit 24 v)))"

definition lapiceoi :: "('z kdev_scheme, unit) kmon" where
  "lapiceoi = bnd (gets lapic) (\<lambda>base. whenM (base \<noteq> 0) (lapicw 0xB0 0))"

text \<open>\<open>microdelay\<close> has an empty body, so its calls do not appear below.\<close>

definition lapicstartap :: "uchar \<Rightarrow> uint \<Rightarrow> ('z kdev_scheme, unit) kmon" where
  "lapicstartap apicid addr = stmts [
     outb 0x70 0xF,
     outb 0x71 0x0A,
     upd_page (P2V 0) (\<lambda>b. put16 b 0x467 0),
     upd_page (P2V 0) (\<lambda>b. put16 b 0x469 (ucast (drop_bit 4 addr))),
     lapicw 0x310 (push_bit 24 (ucast apicid)),
     lapicw 0x300 (0x500 OR 0x8000 OR 0x4000),
     lapicw 0x300 (0x500 OR 0x8000),
     forM [0..<2 :: nat] (\<lambda>_. stmts [
       lapicw 0x310 (push_bit 24 (ucast apicid)),
       lapicw 0x300 (0x600 OR drop_bit 12 addr)])]"

section \<open>The clock chip (lapic.c, date.h)\<close>

record rtcdate =
  second :: uint
  minute :: uint
  hour :: uint
  day :: uint
  month :: uint
  year :: uint

definition cmos_read :: "uchar \<Rightarrow> ('z kdev_scheme, uint) kmon" where
  "cmos_read reg = sqn (outb 0x70 reg) (bnd (inb 0x71) (\<lambda>v. ret (ucast v)))"

definition fill_rtcdate :: "('z kdev_scheme, rtcdate) kmon" where
  "fill_rtcdate =
     bnd (cmos_read 0) (\<lambda>se. bnd (cmos_read 2) (\<lambda>mi. bnd (cmos_read 4) (\<lambda>ho.
     bnd (cmos_read 7) (\<lambda>da. bnd (cmos_read 8) (\<lambda>mo. bnd (cmos_read 9) (\<lambda>ye.
       ret \<lparr>second = se, minute = mi, hour = ho, day = da, month = mo, year = ye\<rparr>))))))"

text \<open>One turn of the loop of \<open>cmostime\<close>: \<open>None\<close> asks for another.\<close>

definition cmos_turn :: "('z kdev_scheme, rtcdate option) kmon" where
  "cmos_turn = bnd fill_rtcdate (\<lambda>t1. bnd (cmos_read 0xA) (\<lambda>a.
     if a AND 0x80 \<noteq> 0 then ret None
     else bnd fill_rtcdate (\<lambda>t2. ret (if t1 = t2 then Some t1 else None))))"

partial_function (option) cmos_loop :: "'z kdev_scheme \<Rightarrow> (rtcdate \<times> 'z kdev_scheme) option" where
  "cmos_loop s = (case cmos_turn s of
     Ok r s' \<Rightarrow> (case r of Some t \<Rightarrow> Some (t, s') | None \<Rightarrow> cmos_loop s')
   | _ \<Rightarrow> None)"

definition CONV :: "uint \<Rightarrow> uint" where
  "CONV x = drop_bit 4 x * 10 + (x AND 0xF)"

definition conv_date :: "rtcdate \<Rightarrow> rtcdate" where
  "conv_date t = \<lparr>second = CONV (second t), minute = CONV (minute t), hour = CONV (hour t),
     day = CONV (day t), month = CONV (month t), year = CONV (year t)\<rparr>"

definition cmostime :: "('z kdev_scheme, rtcdate) kmon" where
  "cmostime = bnd (cmos_read 0xB) (\<lambda>sb s. case cmos_loop s of
     None \<Rightarrow> Blocked s
   | Some (t, s') \<Rightarrow>
       let t' = (if sb AND 4 = 0 then conv_date t else t) in Ok (t'\<lparr>year := year t' + 2000\<rparr>) s')"

section \<open>The serial port (uart.c)\<close>

definition COM1 :: ushort where "COM1 = 0x3f8"

text \<open>\<open>uart_spin n s\<close> is the loop that waits at most \<open>n\<close> reads for the transmitter.\<close>

primrec uart_spin :: "nat \<Rightarrow> ('z kdev_scheme, unit) kmon" where
  "uart_spin 0 = ret ()"
| "uart_spin (Suc n) = bnd (inb (COM1 + 5)) (\<lambda>v. if v AND 0x20 \<noteq> 0 then ret () else uart_spin n)"

definition uart_putc :: "int \<Rightarrow> ('z kdev_scheme, unit) kmon" where
  "uart_putc c = bnd (gets uart) (\<lambda>u. whenM u (stmts [uart_spin 128, outb COM1 (word_of_int c)]))"

definition uartinit :: "('z kdev_scheme, unit) kmon" where
  "uartinit = stmts [
     outb (COM1 + 2) 0,
     outb (COM1 + 3) 0x80,
     outb COM1 (of_nat (115200 div 9600)),
     outb (COM1 + 1) 0,
     outb (COM1 + 3) 3,
     outb (COM1 + 4) 0,
     outb (COM1 + 1) 1,
     bnd (inb (COM1 + 5)) (\<lambda>st. whenM (st \<noteq> 0xFF) (stmts [
       modify (\<lambda>s. s\<lparr>uart := True\<rparr>),
       bnd (inb (COM1 + 2)) (\<lambda>_. ret ()),
       bnd (inb COM1) (\<lambda>_. ret ()),
       ioapicenable 4 0,
       forM (map of_char (''xv6...'' @ [CHR 0x0A])) uart_putc]))]"

definition uartgetc :: "('z kdev_scheme, int) kmon" where
  "uartgetc = bnd (gets uart) (\<lambda>u.
     if \<not> u then ret (- 1)
     else bnd (inb (COM1 + 5)) (\<lambda>v.
       if v AND 1 = 0 then ret (- 1) else bnd (inb COM1) (\<lambda>c. ret (uint c))))"

section \<open>Stepping through device code\<close>

lemma after_simps [simp]: "after 0 f = f" "after k f n = f (k + n)" "after j (after k f) = after (k + j) f"
  by (auto simp: after_def fun_eq_iff add.assoc)

lemma dev_steps [run_simps]:
  "sqn (outb p v) n s = n (s\<lparr>dev_out := dev_out s @ [Outb p v]\<rparr>)"
  "sqn (outsl p b) n s = n (s\<lparr>dev_out := dev_out s @ [Outsl p b]\<rparr>)"
  "sqn (mmio_write a x) n s = n (s\<lparr>dev_out := dev_out s @ [Mmio a x]\<rparr>)"
  "bnd (inb p) k s = k (port_in s p 0) (s\<lparr>port_in := (port_in s)(p := after 1 (port_in s p))\<rparr>)"
  "bnd (mmio_read a) h s = h (mmio_in s a 0) (s\<lparr>mmio_in := (mmio_in s)(a := after 1 (mmio_in s a))\<rparr>)"
  by (simp_all add: outb_def outsl_def mmio_write_def dev_emit_def inb_def mmio_read_def skip_port_def
      skip_mmio_def)

lemma poll_Some: "poll ok f n = Some m \<Longrightarrow> n \<le> m \<and> ok (f m) \<and> (\<forall>i. n \<le> i \<and> i < m \<longrightarrow> \<not> ok (f i))"
proof (induction ok f n m rule: poll.raw_induct [rotated, consumes 1])
  case (1 p ok f n m)
  have *: "n \<le> i \<longleftrightarrow> i = n \<or> Suc n \<le> i" for i by auto
  show ?case
  proof (cases "ok (f n)")
    case True
    with 1(2) show ?thesis by auto
  next
    case False
    with 1(2) have "p ok f (Suc n) = Some m" by simp
    from 1(1) [OF this] False show ?thesis unfolding * by auto
  qed
qed

lemma poll_returns:
  assumes "ok (f (n + k))"
  shows "\<exists>m. poll ok f n = Some m"
  using assms
proof (induction k arbitrary: n)
  case 0
  then show ?case by (subst poll.simps) simp
next
  case (Suc k)
  from Suc.IH [of "Suc n"] Suc.prems show ?case by (subst poll.simps) simp
qed

text \<open>A machine whose I/O APIC has two lines, whose clock stands at 12:34:56 on 1 May 2025 and shows it in
  binary-coded decimal, and whose other devices answer with zeros.\<close>

definition demo_clock :: "nat \<Rightarrow> uchar" where
  "demo_clock n = (if n = 0 then 2 else [0x56, 0x34, 0x12, 1, 5, 0x25, 0] ! ((n - 1) mod 7))"

definition demo_kdev :: kdev where
  "demo_kdev = kcons.extend (kino.extend (klog.extend demo_klog
      \<lparr>icache = [], fsb = \<lparr>sb_size = 1000, sb_nblocks = 941, sb_ninodes = 8, sb_nlog = 30, sb_logstart = 2,
         sb_inodestart = 32, sb_bmapstart = 45\<rparr>\<rparr>)
      \<lparr>panicked = False, cons_locking = True, in_buf = (\<lambda>_. 0), in_r = 0, in_w = 0, in_e = 0, crt = (\<lambda>_. 0),
       crt_pos = 0, uart = True, uart_out = [], devsw_read = (\<lambda>_. False), devsw_write = (\<lambda>_. False)\<rparr>)
     \<lparr>port_in = (\<lambda>_ _. 0)(0x71 := demo_clock, 0x1f7 := \<lambda>_. 0x40),
      mmio_in = (\<lambda>_ _. 0)(IOAPIC + 16 := \<lambda>n. if n = 0 then 0x10000 else 0),
      insl_in = (\<lambda>_ _. 0), dev_out = [], lapic = 0xFEE00000, ioapicid = 0, ncpu = 1, apicids = replicate 8 0,
      idequeue = None, qnext = (\<lambda>_. None), havedisk1 = True\<rparr>"

lemma demo_kdev_simps [simp]:
  "port_in demo_kdev = (\<lambda>_ _. 0)(0x71 := demo_clock, 0x1f7 := \<lambda>_. 0x40)"
  "mmio_in demo_kdev = (\<lambda>_ _. 0)(IOAPIC + 16 := \<lambda>n. if n = 0 then 0x10000 else 0)"
  "dev_out demo_kdev = []" "ioapicid demo_kdev = 0" "lapic demo_kdev = 0xFEE00000" "uart demo_kdev = True"
  "uart_out demo_kdev = []" "idequeue demo_kdev = None" "qnext demo_kdev = (\<lambda>_. None)" "havedisk1 demo_kdev"
  by (simp_all add: demo_kdev_def kcons.defs kino.defs klog.defs)

section \<open>The redirection table\<close>

text \<open>
  The I/O APIC's side of the two registers: a write of the first selects a register, a write of the
  second stores into it. \<open>ioapic_table\<close> is what the writes so far have made of the registers.
\<close>

fun ioapic_dev :: "uint \<times> (uint \<Rightarrow> uint) \<Rightarrow> devop list \<Rightarrow> uint \<times> (uint \<Rightarrow> uint)" where
  "ioapic_dev d [] = d"
| "ioapic_dev (sel, t) (Mmio a v # ops) =
     ioapic_dev (if a = IOAPIC then (v, t) else if a = IOAPIC + 16 then (sel, t(sel := v)) else (sel, t)) ops"
| "ioapic_dev d (_ # ops) = ioapic_dev d ops"

definition ioapic_table :: "'z kdev_scheme \<Rightarrow> uint \<Rightarrow> uint" where
  "ioapic_table s = snd (ioapic_dev (0, \<lambda>_. 0) (dev_out s))"

lemma ioapic_dev_append: "ioapic_dev d (xs @ ys) = ioapic_dev (ioapic_dev d xs) ys"
  by (induction d xs rule: ioapic_dev.induct) auto

lemma ioapic_sel_other [simp]: "IOAPIC + 16 \<noteq> IOAPIC"
  by simp

lemma ioapicwrite_run:
  "ioapicwrite reg v s = Ok () s' \<Longrightarrow> ioapic_table s' = (ioapic_table s)(reg := v)"
  by (cases "ioapic_dev (0, \<lambda>_. 0) (dev_out s)")
    (auto simp: ioapicwrite_def run_simps mmio_write_def dev_emit_def ioapic_table_def ioapic_dev_append)

lemma ioapic_mask_Ok: "\<exists>s'. ioapic_mask i s = Ok () s'"
  by (simp add: ioapic_mask_def ioapicwrite_def run_simps mmio_write_def dev_emit_def)

lemma ioapicenable_Ok: "\<exists>s'. ioapicenable irq c s = Ok () s'"
  by (simp add: ioapicenable_def ioapicwrite_def run_simps mmio_write_def dev_emit_def)

lemma forM_Ok:
  assumes "\<And>i s. \<exists>s'. f i s = Ok () s'"
  shows "\<exists>s'. forM xs f s = Ok () s'"
proof (induction xs arbitrary: s)
  case (Cons x xs)
  obtain s1 where "f x s = Ok () s1" using assms by blast
  with Cons [of s1] show ?case by simp
qed simp

lemma ioapicinit_Ok:
  assumes "drop_bit 24 (mmio_in s (IOAPIC + 16) 1) = ucast (ioapicid s)"
  shows "\<exists>s'. ioapicinit s = Ok () s'"
  using assms forM_Ok [OF ioapic_mask_Ok]
  by (simp add: ioapicinit_def ioapicread_def run_simps Let_def del: upt_Suc)

lemma ioapicenable_run:
  assumes "ioapicenable irq c s = Ok () s'"
  shows "ioapic_table s' = (ioapic_table s)(reg_lo irq := irq_vector irq,
    reg_hi irq := push_bit 24 (of_nat c))"
  using assms by (auto simp: ioapicenable_def sqn_Ok_iff dest!: ioapicwrite_run)

lemma redirection_regs:
  assumes "i < 1000" "j < 1000"
  shows "reg_lo i = reg_lo j \<longleftrightarrow> i = j" "reg_hi i \<noteq> reg_lo j" "reg_lo i \<noteq> reg_hi j"
    "reg_hi i = reg_hi j \<longleftrightarrow> i = j"
proof -
  have "unat (of_nat (16 + 2 * k) :: uint) = 16 + 2 * k" "unat (of_nat (17 + 2 * k) :: uint) = 17 + 2 * k"
    if "k < 1000" for k using that by (simp_all only: u32_of_nat) simp_all
  then have *: "unat (reg_lo k) = 16 + 2 * k" "unat (reg_hi k) = 17 + 2 * k"
    if "k < 1000" for k using that by (simp_all add: reg_lo_def reg_hi_def)
  show "reg_lo i = reg_lo j \<longleftrightarrow> i = j" "reg_hi i \<noteq> reg_lo j" "reg_lo i \<noteq> reg_hi j"
    "reg_hi i = reg_hi j \<longleftrightarrow> i = j"
    unfolding u32_eq * [OF assms(1)] * [OF assms(2)] by presburger+
qed

text \<open>The entry of an interrupt line: its low register with the mask and vector, and its destination.\<close>

definition redirection :: "'z kdev_scheme \<Rightarrow> nat \<Rightarrow> uint \<times> uint" where
  "redirection s i = (ioapic_table s (reg_lo i), ioapic_table s (reg_hi i))"

definition masked :: "nat \<Rightarrow> uint \<times> uint" where
  "masked i = (INT_DISABLED OR irq_vector i, 0)"

definition routed :: "nat \<Rightarrow> nat \<Rightarrow> uint \<times> uint" where
  "routed i c = (irq_vector i, push_bit 24 (of_nat c))"

definition maxintr :: "'z kdev_scheme \<Rightarrow> nat" where
  "maxintr s = unat (drop_bit 16 (mmio_in s (IOAPIC + 16) 0) AND 0xFF)"

lemma maxintr_le: "maxintr s \<le> 255"
proof -
  have "drop_bit 16 (mmio_in s (IOAPIC + 16) 0) AND 0xFF \<le> (0xFF :: uint)"
    by (rule word_and_le1)
  then show ?thesis by (simp add: maxintr_def word_le_nat_alt)
qed

lemma ioapicenable_redirection:
  assumes "ioapicenable j c s = Ok () s'" "i < 1000" "j < 1000"
  shows "redirection s' i = (if i = j then routed i c else redirection s i)"
  by (simp add: redirection_def routed_def ioapicenable_run [OF assms(1)] redirection_regs assms(2,3))

lemma mask_loop_redirection:
  assumes "forM [0..<n] ioapic_mask s = Ok () s'" "n \<le> 256" "i < n"
  shows "redirection s' i = masked i"
  using assms
proof (induction n arbitrary: s')
  case (Suc n)
  from Suc.prems(1) obtain s1 where s1: "forM [0..<n] ioapic_mask s = Ok () s1" and b: "ioapic_mask n s1 = Ok () s'"
    by (auto simp: forM_append sqn_Ok_iff)
  from b have t: "ioapic_table s' = (ioapic_table s1)(reg_lo n := INT_DISABLED OR irq_vector n, reg_hi n := 0)"
    by (auto simp: ioapic_mask_def sqn_Ok_iff dest!: ioapicwrite_run)
  show ?case
  proof (cases "i = n")
    case True
    then show ?thesis using Suc.prems(2) by (simp add: redirection_def masked_def t redirection_regs)
  next
    case False
    with Suc.IH [OF s1] Suc.prems(2,3) have "redirection s1 i = masked i" by simp
    with False Suc.prems(2,3) show ?thesis by (simp add: redirection_def t redirection_regs)
  qed
qed simp

lemma ioapicinit_redirection:
  assumes "ioapicinit s = Ok () s'" "i \<le> maxintr s"
  shows "redirection s' i = masked i"
proof -
  obtain s1 where "forM [0..<maxintr s + 1] ioapic_mask s1 = Ok () s'"
    using assms(1)
    by (auto simp: ioapicinit_def ioapicread_def maxintr_def run_simps sqn_Ok_iff
        simp del: upt_Suc split: if_splits)
  then show ?thesis
    by (rule mask_loop_redirection) (use maxintr_le [of s] assms(2) in simp_all)
qed

lemma enables_redirection:
  assumes "stmts (map (\<lambda>(irq, c). ioapicenable irq c) es) s = Ok () s'" "i < 1000" "fst ` set es \<subseteq> {..<1000}"
  shows "redirection s' i = (case map_of (rev es) i of None \<Rightarrow> redirection s i | Some c \<Rightarrow> routed i c)"
  using assms
proof (induction es arbitrary: s)
  case (Cons e es)
  obtain j c where e: "e = (j, c)" by (cases e)
  from Cons.prems(1) obtain s1 where s1: "ioapicenable j c s = Ok () s1"
    and r: "stmts (map (\<lambda>(irq, c). ioapicenable irq c) es) s1 = Ok () s'"
    by (auto simp: e sqn_Ok_iff)
  from Cons.IH [OF r] Cons.prems(2,3) ioapicenable_redirection [OF s1, of i] show ?case
    by (auto simp: e map_add_def split: option.splits)
qed simp

text \<open>
  C18: Once \<open>ioapicinit\<close> and then any calls of \<open>ioapicenable\<close> have run, the redirection
  table of the I/O APIC, as the device makes it from the writes of the two registers, is what the calls
  say: a line that was enabled has its vector, unmasked, and goes to the CPU of the last call for
  it; every other line up to the last is masked and routed nowhere.
\<close>

theorem irq_routing:
  assumes "stmts (ioapicinit # map (\<lambda>(irq, c). ioapicenable irq c) es) s = Ok () s'"
    and "i \<le> maxintr s" "fst ` set es \<subseteq> {..<256}"
  shows "redirection s' i = (case map_of (rev es) i of None \<Rightarrow> masked i | Some c \<Rightarrow> routed i c)"
proof -
  from assms(1) obtain s1 where "ioapicinit s = Ok () s1"
    and "stmts (map (\<lambda>(irq, c). ioapicenable irq c) es) s1 = Ok () s'" by (auto simp: sqn_Ok_iff)
  moreover have "i < 1000" using maxintr_le [of s] assms(2) by simp
  moreover have "fst ` set es \<subseteq> {..<1000}" using assms(3) by auto
  ultimately show ?thesis using assms(2) by (simp add: enables_redirection ioapicinit_redirection split: option.split)
qed

theorem irq_routing_witness:
  "\<exists>s'. stmts (ioapicinit # map (\<lambda>(irq, c). ioapicenable irq c) [(1, 0)]) demo_kdev = Ok () s'
     \<and> redirection s' 0 = masked 0 \<and> redirection s' 1 = routed 1 0"
proof -
  obtain s1 where s1: "ioapicinit demo_kdev = Ok () s1"
    using ioapicinit_Ok [of demo_kdev] by auto
  obtain s' where "ioapicenable 1 0 s1 = Ok () s'" using ioapicenable_Ok by blast
  with s1 have s': "stmts (ioapicinit # map (\<lambda>(irq, c). ioapicenable irq c) [(1, 0)]) demo_kdev = Ok () s'"
    by simp
  have "maxintr demo_kdev = 1" by (simp add: maxintr_def)
  with irq_routing [OF s', of 0] irq_routing [OF s', of 1] s' show ?thesis by auto
qed

section \<open>The clock\<close>

definition sample :: "(nat \<Rightarrow> uchar) \<Rightarrow> nat \<Rightarrow> rtcdate" where
  "sample f k = \<lparr>second = ucast (f k), minute = ucast (f (k + 1)), hour = ucast (f (k + 2)),
     day = ucast (f (k + 3)), month = ucast (f (k + 4)), year = ucast (f (k + 5))\<rparr>"

text \<open>The date \<open>cmostime\<close> makes of the six bytes and of status register B.\<close>

definition clock_date :: "uchar \<Rightarrow> rtcdate \<Rightarrow> rtcdate" where
  "clock_date sb t = (let t' = (if sb AND 4 = 0 then conv_date t else t) in t'\<lparr>year := year t' + 2000\<rparr>)"

definition clock_in :: "'z kdev_scheme \<Rightarrow> nat \<Rightarrow> uchar" where
  "clock_in s = port_in s 0x71"

text \<open>A window of thirteen answers in which the clock was not being updated and showed one date.\<close>

definition quiet :: "(nat \<Rightarrow> uchar) \<Rightarrow> nat \<Rightarrow> bool" where
  "quiet f k \<longleftrightarrow> f (k + 6) AND 0x80 = 0 \<and> sample f (k + 7) = sample f k"

lemma cmos_read_run:
  "bnd (cmos_read r) k s = k (ucast (clock_in s 0))
     (s\<lparr>dev_out := dev_out s @ [Outb 0x70 r], port_in := (port_in s)(0x71 := after 1 (clock_in s))\<rparr>)"
  by (simp add: cmos_read_def run_simps clock_in_def)

lemma clock_in_upd [simp]:
  "clock_in (s\<lparr>dev_out := d\<rparr>) = clock_in s" "clock_in (s\<lparr>port_in := (port_in s)(0x71 := f)\<rparr>) = f"
  "clock_in (s\<lparr>dev_out := d, port_in := g(0x71 := f)\<rparr>) = f"
  by (simp_all add: clock_in_def)

lemma fill_rtcdate_run:
  "\<exists>s'. bnd fill_rtcdate k s = k (sample (clock_in s) 0) s' \<and> clock_in s' = after 6 (clock_in s)"
  by (rule exI [of _ "s\<lparr>dev_out := dev_out s @ map (Outb 0x70) [0, 2, 4, 7, 8, 9],
      port_in := (port_in s)(0x71 := after 6 (clock_in s))\<rparr>"])
    (simp add: fill_rtcdate_def cmos_read_run sample_def numeral_eq_Suc)

lemma uip: "ucast x AND (0x80 :: uint) = 0 \<longleftrightarrow> x AND 0x80 = 0" for x :: uchar
  using and_exp_eq_0_iff_not_bit [of x 7] and_exp_eq_0_iff_not_bit [of "ucast x :: uint" 7]
  by (simp add: bit_ucast_iff)

lemma cmos_turn_run:
  obtains s' where "cmos_turn s = Ok (if quiet (clock_in s) 0 then Some (sample (clock_in s) 0) else None) s'"
    and "clock_in s' \<in> {after 7 (clock_in s), after 13 (clock_in s)}"
proof -
  obtain s1 where 1: "cmos_turn s = bnd (cmos_read 0xA) (\<lambda>a. if a AND 0x80 \<noteq> 0 then ret None
        else bnd fill_rtcdate (\<lambda>t2. ret (if sample (clock_in s) 0 = t2 then Some (sample (clock_in s) 0) else None))) s1"
    and c1: "clock_in s1 = after 6 (clock_in s)"
    using fill_rtcdate_run [of "\<lambda>t1. bnd (cmos_read 0xA) (\<lambda>a. if a AND 0x80 \<noteq> 0 then ret None
        else bnd fill_rtcdate (\<lambda>t2. ret (if t1 = t2 then Some t1 else None)))" s]
    unfolding cmos_turn_def by blast
  define s2 where "s2 = s1\<lparr>dev_out := dev_out s1 @ [Outb 0x70 0xA], port_in := (port_in s1)(0x71 := after 1 (clock_in s1))\<rparr>"
  have c2: "clock_in s2 = after 7 (clock_in s)" by (simp add: s2_def c1)
  have 2: "cmos_turn s = (if ucast (clock_in s 6) AND (0x80 :: uint) \<noteq> 0 then Ok None s2
        else bnd fill_rtcdate (\<lambda>t2. ret (if sample (clock_in s) 0 = t2 then Some (sample (clock_in s) 0) else None)) s2)"
    unfolding 1 cmos_read_run by (simp add: s2_def c1)
  show ?thesis
  proof (cases "clock_in s 6 AND 0x80 = 0")
    case False
    with 2 have "cmos_turn s = Ok None s2" by (simp add: uip)
    with c2 False that show ?thesis by (simp add: quiet_def)
  next
    case True
    obtain s3 where 3: "bnd fill_rtcdate (\<lambda>t2. ret (if sample (clock_in s) 0 = t2 then Some (sample (clock_in s) 0) else None)) s2
        = ret (if sample (clock_in s) 0 = sample (clock_in s2) 0 then Some (sample (clock_in s) 0) else None) s3"
      and c3: "clock_in s3 = after 6 (clock_in s2)"
      using fill_rtcdate_run [of "\<lambda>t2. ret (if sample (clock_in s) 0 = t2 then Some (sample (clock_in s) 0) else None)" s2]
      by blast
    have q: "sample (clock_in s) 0 = sample (clock_in s2) 0 \<longleftrightarrow> quiet (clock_in s) 0"
      using True by (auto simp: c2 sample_def quiet_def)
    from True 2 3 have "cmos_turn s = Ok (if quiet (clock_in s) 0 then Some (sample (clock_in s) 0) else None) s3"
      by (simp add: uip q)
    moreover have "clock_in s3 = after 13 (clock_in s)" by (simp add: c2 c3)
    ultimately show ?thesis using that by blast
  qed
qed

lemma sample_after: "sample (after j f) k = sample f (j + k)"
  by (simp add: sample_def add.assoc)

lemma cmos_loop_quiet:
  "cmos_loop s = Some (t, s') \<Longrightarrow> \<exists>k. quiet (clock_in s) k \<and> t = sample (clock_in s) k"
proof (induction s "(t, s')" rule: cmos_loop.raw_induct [rotated, consumes 1])
  case (1 loop s)
  obtain s1 where r: "cmos_turn s = Ok (if quiet (clock_in s) 0 then Some (sample (clock_in s) 0) else None) s1"
    and c: "clock_in s1 \<in> {after 7 (clock_in s), after 13 (clock_in s)}"
    by (rule cmos_turn_run [of s])
  show ?case
  proof (cases "quiet (clock_in s) 0")
    case False
    with 1(2) r have "loop s1 = Some (t, s')" by simp
    then obtain k where k: "quiet (clock_in s1) k" "t = sample (clock_in s1) k" using 1(1) by blast
    from c obtain j where "clock_in s1 = after j (clock_in s)" by auto
    with k have "quiet (clock_in s) (j + k)" "t = sample (clock_in s) (j + k)"
      by (simp_all add: quiet_def sample_after add.assoc)
    then show ?thesis by blast
  next
    case True
    with 1(2) r have "t = sample (clock_in s) 0" by simp
    with True show ?thesis by blast
  qed
qed

text \<open>A clock that keeps still is read at the first attempt.\<close>

lemma cmos_loop_returns:
  assumes "quiet (clock_in s) 0"
  shows "\<exists>s'. cmos_loop s = Some (sample (clock_in s) 0, s')"
proof -
  obtain s1 where "cmos_turn s = Ok (if quiet (clock_in s) 0 then Some (sample (clock_in s) 0) else None) s1"
    by (rule cmos_turn_run [of s])
  with assms show ?thesis by (subst cmos_loop.simps) simp
qed

text \<open>
  The date that \<open>cmostime\<close> returns is never torn: the six bytes it is made of were
  read twice with the same result, and between the two readings the clock was not being updated.
  Status register B, read first, decides whether they are decoded from binary-coded decimal.
\<close>

theorem cmostime_reads_quiet_clock:
  assumes "cmostime s = Ok r s'"
  shows "\<exists>k. quiet (after 1 (clock_in s)) k \<and> r = clock_date (clock_in s 0) (sample (after 1 (clock_in s)) k)"
proof -
  let ?s1 = "s\<lparr>dev_out := dev_out s @ [Outb 0x70 0xB], port_in := (port_in s)(0x71 := after 1 (clock_in s))\<rparr>"
  from assms obtain t s'' where l: "cmos_loop ?s1 = Some (t, s'')"
    and r: "r = (let t' = (if ucast (clock_in s 0) AND (4 :: uint) = 0 then conv_date t else t) in t'\<lparr>year := year t' + 2000\<rparr>)"
    by (auto simp: cmostime_def cmos_read_run Let_def split: option.splits)
  have "ucast (clock_in s 0) AND (4 :: uint) = 0 \<longleftrightarrow> clock_in s 0 AND 4 = 0"
    using and_exp_eq_0_iff_not_bit [of "clock_in s 0" 2] and_exp_eq_0_iff_not_bit [of "ucast (clock_in s 0) :: uint" 2]
    by (simp add: bit_ucast_iff)
  with cmos_loop_quiet [OF l] r show ?thesis by (auto simp: clock_date_def Let_def)
qed

theorem cmostime_reads_quiet_clock_witness:
  "\<exists>r s'. cmostime demo_kdev = Ok r s' \<and> (\<exists>k. quiet (after 1 (clock_in demo_kdev)) k
     \<and> r = clock_date 2 (sample (after 1 (clock_in demo_kdev)) k))"
proof -
  have c: "clock_in demo_kdev = demo_clock" by (simp add: clock_in_def)
  let ?s1 = "demo_kdev\<lparr>dev_out := [Outb 0x70 0xB], port_in := (port_in demo_kdev)(0x71 := after 1 demo_clock)\<rparr>"
  have "quiet (clock_in ?s1) 0" by (simp add: clock_in_def quiet_def sample_def demo_clock_def)
  then obtain t s' where "cmos_loop ?s1 = Some (t, s')" using cmos_loop_returns by blast
  then obtain r where r: "cmostime demo_kdev = Ok r s'" by (simp add: cmostime_def cmos_read_run c Let_def)
  have "clock_in demo_kdev 0 = 2" by (simp add: c demo_clock_def)
  with cmostime_reads_quiet_clock [OF r] r show ?thesis by auto
qed

text \<open>Decoding gives back the number a clock register shows in binary-coded decimal.\<close>

lemma CONV_bcd: "a < 10 \<Longrightarrow> b < 10 \<Longrightarrow> unat (CONV (of_nat (16 * a + b))) = 10 * a + b"
proof -
  assume ab: "a < 10" "b < 10"
  have "drop_bit 4 (of_nat (16 * a + b) :: uint) = of_nat a"
    using ab by (simp add: word_unat_eq_iff drop_bit_eq_div unat_div u32_arith del: of_nat_add of_nat_mult)
  moreover have "of_nat (16 * a + b) AND 0xF = (of_nat b :: uint)"
    using ab take_bit_eq_mask [of 4 "of_nat (16 * a + b) :: uint"]
    by (simp add: word_unat_eq_iff mask_eq_exp_minus_1 unsigned_take_bit_eq take_bit_eq_mod u32_arith)
  ultimately show ?thesis using ab by (simp add: CONV_def u32_arith)
qed

section \<open>The serial line\<close>

definition com1_sent :: "'z kdev_scheme \<Rightarrow> uchar list" where
  "com1_sent s = concat (map (\<lambda>d. case d of Outb p v \<Rightarrow> if p = COM1 then [v] else [] | _ \<Rightarrow> []) (dev_out s))"

lemma uart_spin_run: "\<exists>f. uart_spin n s = Ok () (s\<lparr>port_in := f\<rparr>)"
proof (induction n arbitrary: s)
  case (Suc n)
  let ?s = "s\<lparr>port_in := (port_in s)(COM1 + 5 := after 1 (port_in s (COM1 + 5)))\<rparr>"
  obtain f where "uart_spin n ?s = Ok () (?s\<lparr>port_in := f\<rparr>)" using Suc by blast
  then show ?case by (auto simp: run_simps)
next
  case 0
  have "s\<lparr>port_in := port_in s\<rparr> = s" by simp
  then show ?case by (metis ret_run uart_spin.simps(1))
qed

lemma uart_putc_run:
  "\<exists>s'. uart_putc c s = Ok () s' \<and> uart s' = uart s
     \<and> com1_sent s' = com1_sent s @ (if uart s then [word_of_int c] else [])"
proof -
  obtain f where "uart_spin 128 s = Ok () (s\<lparr>port_in := f\<rparr>)" using uart_spin_run by blast
  then show ?thesis by (auto simp: uart_putc_def outb_def dev_emit_def com1_sent_def)
qed

text \<open>
  The port-level transmitter does what the console's model of it says: it
  always returns, however long the port is busy, and the bytes written to the data register of COM1
  are those of the console's serial output, in order.
\<close>

theorem uart_refines_console:
  fixes t :: "'y kcons_scheme"
  assumes "com1_sent s = uart_out t" "uart s = uart t"
  shows "\<exists>s' t'. forM cs uart_putc s = Ok () s' \<and> forM cs uartputc t = Ok () t' \<and> com1_sent s' = uart_out t' \<and> uart s' = uart t'"
  using assms
proof (induction cs arbitrary: s t)
  case (Cons c cs)
  obtain s1 where s1: "uart_putc c s = Ok () s1" "uart s1 = uart s"
    "com1_sent s1 = com1_sent s @ (if uart s then [word_of_int c] else [])" using uart_putc_run by blast
  define t1 where "t1 = (if uart t then t\<lparr>uart_out := uart_out t @ [word_of_int c]\<rparr> else t)"
  have "uartputc c t = Ok () t1" by (simp add: uartputc_def t1_def)
  with Cons.IH [of s1 t1] s1 Cons.prems show ?case by (simp add: t1_def)
qed simp

theorem uart_refines_console_witness:
  "\<exists>s' t'. forM [104, 105] uart_putc demo_kdev = Ok () s' \<and> forM [104, 105] uartputc demo_kdev = Ok () t'
     \<and> com1_sent s' = uart_out t'"
proof -
  have "com1_sent demo_kdev = uart_out demo_kdev" by (simp add: com1_sent_def)
  from uart_refines_console [OF this refl, of "[104, 105]"] show ?thesis by blast
qed

section \<open>Waiting for the local APIC\<close>

lemma lapic_wait_returns:
  "(\<exists>s'. lapic_wait s = Ok () s') \<longleftrightarrow> (\<exists>n. delivered (mmio_in s (lapic s + 0x300) n))"
proof
  assume "\<exists>n. delivered (mmio_in s (lapic s + 0x300) n)"
  then obtain n where "delivered (mmio_in s (lapic s + 0x300) (0 + n))" by auto
  from poll_returns [where ok = delivered and n = 0 and k = n and f = "mmio_in s (lapic s + 0x300)", OF this] show "\<exists>s'. lapic_wait s = Ok () s'"
    by (auto simp: lapic_wait_def skip_mmio_def)
next
  assume "\<exists>s'. lapic_wait s = Ok () s'"
  then obtain n where "poll delivered (mmio_in s (lapic s + 0x300)) 0 = Some n"
    by (auto simp: lapic_wait_def split: option.splits)
  from poll_Some [OF this] show "\<exists>n. delivered (mmio_in s (lapic s + 0x300) n)" by blast
qed

end
