(* ===== verification/Ide.thy ===== *)
theory Ide
  imports Device "HOL-Library.Sublist"
begin

text \<open>
  The driver of the IDE disk (src/ide.c).

  \<open>idequeue\<close> and \<open>qnext\<close> link the buffers that wait for the disk, by index; the buffer at the head
  is the one the disk is working on. \<open>iderw\<close> of this file is \<open>ide_rw\<close> here (the memory disk of
  memide.c, which the other theories build on, has the function of the same name), and
  \<open>ide_rw_resume\<close> is what a process does once it runs again after the \<open>sleep\<close> in the loop. The
  invariant follows processes that ask for transfers, are interrupted, killed or woken in any order:
  requests are served in the order of the calls, the disk has always been given the head of the queue,
  and no process sleeps for a buffer that no interrupt will finish.
\<close>

section \<open>The driver\<close>

definition SECTOR_SIZE :: nat where "SECTOR_SIZE = 512"
definition FSSIZE :: uint where "FSSIZE = 1000"

definition ide_ready :: "uchar \<Rightarrow> bool" where
  "ide_ready r \<longleftrightarrow> r AND (0x80 OR 0x40) = 0x40"

definition idewait :: "bool \<Rightarrow> ('z kdev_scheme, int) kmon" where
  "idewait checkerr s = (case poll ide_ready (port_in s 0x1f7) 0 of
     None \<Rightarrow> Blocked s
   | Some n \<Rightarrow> bnd (gets (\<lambda>s. port_in s 0x1f7 n)) (\<lambda>r. sqn (skip_port 0x1f7 (Suc n))
       (ret (if checkerr \<and> r AND (0x20 OR 0x01) \<noteq> 0 then - 1 else 0))) s)"

primrec probe_disk1 :: "nat \<Rightarrow> ('z kdev_scheme, unit) kmon" where
  "probe_disk1 0 = ret ()"
| "probe_disk1 (Suc n) = bnd (inb 0x1f7) (\<lambda>v.
     if v \<noteq> 0 then modify (\<lambda>s. s\<lparr>havedisk1 := True\<rparr>) else probe_disk1 n)"

definition ideinit :: "('z kdev_scheme, unit) kmon" where
  "ideinit = bnd (gets ncpu) (\<lambda>n. stmts [
     ioapicenable 14 (n - 1),
     bnd (idewait False) (\<lambda>_. ret ()),
     outb 0x1f6 (0xe0 OR push_bit 4 1),
     probe_disk1 1000,
     outb 0x1f6 (0xe0 OR push_bit 4 0)])"

definition drive_reg :: "uint \<Rightarrow> uint \<Rightarrow> uchar" where
  "drive_reg dev sector = ucast (0xe0 OR push_bit 4 (dev AND 1) OR (drop_bit 24 sector AND 0x0f))"

definition sector_per_block :: nat where "sector_per_block = BSIZE div SECTOR_SIZE"

text \<open>The writes of \<open>idestart\<close>, once the disk is ready.\<close>

definition ide_issue :: "buf \<Rightarrow> ('z kdev_scheme, unit) kmon" where
  "ide_issue b =
     (let sector = b_blockno b * of_nat sector_per_block;
          read_cmd = (if sector_per_block = 1 then 0x20 else 0xc4);
          write_cmd = (if sector_per_block = 1 then 0x30 else 0xc5)
      in stmts [
        outb 0x3f6 0,
        outb 0x1f2 (of_nat sector_per_block),
        outb 0x1f3 (ucast (sector AND 0xff)),
        outb 0x1f4 (ucast (drop_bit 8 sector AND 0xff)),
        outb 0x1f5 (ucast (drop_bit 16 sector AND 0xff)),
        outb 0x1f6 (drive_reg (b_dev b) sector),
        if b_dirty b then stmts [outb 0x1f7 write_cmd, outsl 0x1f0 (b_data b)]
        else outb 0x1f7 read_cmd])"

definition idestart :: "nat option \<Rightarrow> ('z kdev_scheme, unit) kmon" where
  "idestart p = (case p of
     None \<Rightarrow> panic ''idestart''
   | Some i \<Rightarrow> bnd (the_buf i) (\<lambda>b.
       if b_blockno b \<ge> FSSIZE then panic ''incorrect blockno''
       else if sector_per_block > 7 then panic ''idestart''
       else bnd (idewait False) (\<lambda>_. ide_issue b)))"

text \<open>The part of \<open>ideintr\<close> that reads the data, if it is needed.\<close>

definition ide_transfer :: "nat \<Rightarrow> ('z kdev_scheme, unit) kmon" where
  "ide_transfer i = bnd (the_buf i) (\<lambda>b. whenM (\<not> b_dirty b) (bnd (idewait True) (\<lambda>r.
     whenM (r \<ge> 0) (bnd insl (\<lambda>d. upd_buf i (\<lambda>x. x\<lparr>b_data := copy_block (b_data x) d\<rparr>))))))"

definition ideintr :: "('z kdev_scheme, unit) kmon" where
  "ideintr = sqn (acquire L_ide) (bnd (gets idequeue) (\<lambda>q. case q of
     None \<Rightarrow> release L_ide
   | Some i \<Rightarrow> stmts [
       modify (\<lambda>s. s\<lparr>idequeue := qnext s i\<rparr>),
       ide_transfer i,
       upd_buf i (\<lambda>x. x\<lparr>b_valid := True\<rparr>),
       upd_buf i (\<lambda>x. x\<lparr>b_dirty := False\<rparr>),
       wakeup (C_buf i),
       bnd (gets idequeue) (\<lambda>q'. whenM (q' \<noteq> None) (idestart q')),
       release L_ide]))"

text \<open>The walk of \<open>pp\<close> to the end of the queue: \<open>pp\<close> is the address of \<open>idequeue\<close> or of a \<open>qnext\<close>.\<close>

datatype qplace = Q_head | Q_next nat

definition q_deref :: "nat option \<Rightarrow> (nat \<Rightarrow> nat option) \<Rightarrow> qplace \<Rightarrow> nat option" where
  "q_deref h qn pp = (case pp of Q_head \<Rightarrow> h | Q_next b \<Rightarrow> qn b)"

partial_function (option) q_end :: "nat option \<Rightarrow> (nat \<Rightarrow> nat option) \<Rightarrow> qplace \<Rightarrow> qplace option" where
  "q_end h qn pp = (case q_deref h qn pp of None \<Rightarrow> Some pp | Some b \<Rightarrow> q_end h qn (Q_next b))"

definition q_store :: "qplace \<Rightarrow> nat \<Rightarrow> ('z kdev_scheme, unit) kmon" where
  "q_store pp i = (case pp of
     Q_head \<Rightarrow> modify (\<lambda>s. s\<lparr>idequeue := Some i\<rparr>)
   | Q_next b \<Rightarrow> modify (\<lambda>s. s\<lparr>qnext := (qnext s)(b := Some i)\<rparr>))"

definition ide_append :: "nat \<Rightarrow> ('z kdev_scheme, unit) kmon" where
  "ide_append i = sqn (modify (\<lambda>s. s\<lparr>qnext := (qnext s)(i := None)\<rparr>))
     (bnd (gets (\<lambda>s. q_end (idequeue s) (qnext s) Q_head)) (\<lambda>w. case w of
        None \<Rightarrow> block
      | Some pp \<Rightarrow> q_store pp i))"

definition ide_loop :: "nat \<Rightarrow> ('z kdev_scheme, unit) kmon" where
  "ide_loop i = bnd (the_buf i) (\<lambda>b.
     if b_valid b \<and> \<not> b_dirty b then release L_ide else sleep_wait (C_buf i) L_ide)"

definition ide_rw :: "nat \<Rightarrow> ('z kdev_scheme, unit) kmon" where
  "ide_rw i = bnd (holdingsleep (SL_buf i)) (\<lambda>h. if \<not> h then panic ''iderw: buf not locked''
     else bnd (the_buf i) (\<lambda>b. bnd (gets havedisk1) (\<lambda>d1.
       if b_valid b \<and> \<not> b_dirty b then panic ''iderw: nothing to do''
       else if b_dev b \<noteq> 0 \<and> \<not> d1 then panic ''iderw: ide disk 1 not present''
       else stmts [
         acquire L_ide,
         ide_append i,
         bnd (gets idequeue) (\<lambda>q. whenM (q = Some i) (idestart (Some i))),
         ide_loop i])))"

definition ide_rw_resume :: "nat \<Rightarrow> ('z kdev_scheme, unit) kmon" where
  "ide_rw_resume i = sqn (sleep_resume L_ide) (ide_loop i)"

section \<open>The queue\<close>

primrec qlist :: "(nat \<Rightarrow> nat option) \<Rightarrow> nat option \<Rightarrow> nat list \<Rightarrow> bool" where
  "qlist qn h [] \<longleftrightarrow> h = None"
| "qlist qn h (x # xs) \<longleftrightarrow> h = Some x \<and> qlist qn (qn x) xs"

lemma qlist_other: "y \<notin> set xs \<Longrightarrow> qlist (qn(y := v)) h xs = qlist qn h xs"
  by (induction xs arbitrary: h) auto

lemma q_end_from:
  "qlist qn (q_deref h qn pp) xs \<Longrightarrow> q_end h qn pp = Some (if xs = [] then pp else Q_next (last xs))"
proof (induction xs arbitrary: pp)
  case (Cons x xs)
  from Cons.IH [of "Q_next x"] Cons.prems show ?case
    by (subst q_end.simps) (simp add: q_deref_def)
qed (subst q_end.simps, simp)

lemma q_end_qlist: "qlist qn h xs \<Longrightarrow> q_end h qn Q_head = Some (if xs = [] then Q_head else Q_next (last xs))"
  by (rule q_end_from) (simp add: q_deref_def)

lemma qlist_snoc:
  "qlist qn h xs \<Longrightarrow> distinct xs \<Longrightarrow> i \<notin> set xs \<Longrightarrow> qn i = None \<Longrightarrow> xs \<noteq> [] \<Longrightarrow> qlist (qn(last xs := Some i)) h (xs @ [i])"
proof (induction xs arbitrary: h)
  case (Cons x xs)
  show ?case
  proof (cases xs)
    case Nil
    with Cons.prems show ?thesis by auto
  next
    case (Cons y ys)
    then have "last xs \<noteq> x" using Cons.prems(2) \<open>xs = y # ys\<close> by (metis distinct.simps(2) last_in_set list.distinct(1))
    with Cons Cons.prems Cons.IH [of "qn x"] show ?thesis by simp
  qed
qed simp

text \<open>\<open>ide_append\<close> puts the buffer behind the others; the walk comes to an end.\<close>

lemma ide_append_run:
  assumes "qlist (qnext s) (idequeue s) xs" "distinct xs" "i \<notin> set xs"
  obtains h qn where "ide_append i s = Ok () (s\<lparr>idequeue := h, qnext := qn\<rparr>)" "qlist qn h (xs @ [i])"
    "h = (if xs = [] then Some i else idequeue s)"
proof -
  let ?qn = "(qnext s)(i := None)"
  have q: "qlist ?qn (idequeue s) xs" using assms by (simp add: qlist_other)
  note e = q_end_qlist [OF q]
  show ?thesis
  proof (cases "xs = []")
    case True
    with e assms(1) show ?thesis
      by (intro that [where h = "Some i" and qn = ?qn]) (simp_all add: ide_append_def q_store_def)
  next
    case False
    have "?qn i = None" by simp
    from qlist_snoc [OF q assms(2,3) this False] have "qlist (?qn(last xs := Some i)) (idequeue s) (xs @ [i])" .
    with e False show ?thesis
      by (intro that [where h = "idequeue s" and qn = "?qn(last xs := Some i)"]) (simp_all add: ide_append_def q_store_def)
  qed
qed

section \<open>The disk's answers\<close>

text \<open>The disk is ready again and again: whatever has been read, there is a ready answer to come.\<close>

definition answers :: "(ushort \<Rightarrow> nat \<Rightarrow> uchar) \<Rightarrow> bool" where
  "answers f \<longleftrightarrow> (\<forall>n. \<exists>m \<ge> n. ide_ready (f 0x1f7 m))"

lemma answers_skip: "answers f \<Longrightarrow> answers (f(0x1f7 := after k (f 0x1f7)))"
  unfolding answers_def
proof
  fix n
  assume "\<forall>n. \<exists>m \<ge> n. ide_ready (f 0x1f7 m)"
  then obtain m where "k + n \<le> m" "ide_ready (f 0x1f7 m)" by blast
  then show "\<exists>m \<ge> n. ide_ready ((f(0x1f7 := after k (f 0x1f7))) 0x1f7 m)"
    by (intro exI [of _ "m - k"]) simp
qed

lemma idewait_run:
  assumes "answers (port_in s)"
  obtains r f where "idewait c s = Ok r (s\<lparr>port_in := f\<rparr>)" "answers f"
proof -
  from assms obtain m where "ide_ready (port_in s 0x1f7 (0 + m))" by (auto simp: answers_def)
  from poll_returns [where ok = ide_ready and f = "port_in s 0x1f7" and n = 0 and k = m, OF this]
  obtain n where "poll ide_ready (port_in s 0x1f7) 0 = Some n" by blast
  with answers_skip [OF assms] that show ?thesis by (simp add: idewait_def skip_port_def)
qed

text \<open>The command block of a buffer: registers, the command, and the data of a write.\<close>

definition ide_request :: "buf \<Rightarrow> devop list" where
  "ide_request b = [Outb 0x3f6 0, Outb 0x1f2 1, Outb 0x1f3 (ucast (b_blockno b)),
     Outb 0x1f4 (ucast (drop_bit 8 (b_blockno b))), Outb 0x1f5 (ucast (drop_bit 16 (b_blockno b))),
     Outb 0x1f6 (if odd (b_dev b) then 0xf0 else 0xe0)] @
     (if b_dirty b then [Outb 0x1f7 0x30, Outsl 0x1f0 (b_data b)] else [Outb 0x1f7 0x20])"

lemma low_byte: "ucast (x AND 0xff) = (ucast x :: uchar)" for x :: uint
  by (rule bit_word_eqI) (auto simp: bit_simps less_Suc_eq numeral_eq_Suc)

lemma drive_byte:
  assumes "sector < FSSIZE"
  shows "drive_reg dev sector = (if odd dev then 0xf0 else 0xe0)"
proof -
  have "drop_bit 24 sector = 0"
    using assms by (simp add: drop_bit_eq_div u32_eq unat_div FSSIZE_def word_less_nat_alt)
  moreover have "dev AND 1 = (if odd dev then 1 else 0)"
    by (simp add: and_one_eq odd_iff_mod_2_eq_one even_iff_mod_2_eq_zero)
  ultimately show ?thesis unfolding drive_reg_def by (simp only: if_split) simp
qed

lemma sector_per_block [simp]: "sector_per_block = 1"
  by (simp add: sector_per_block_def BSIZE_def SECTOR_SIZE_def)

lemma ide_issue_run:
  assumes "b_blockno b < FSSIZE"
  shows "ide_issue b s = Ok () (s\<lparr>dev_out := dev_out s @ ide_request b\<rparr>)"
  by (cases "b_dirty b")
    (simp_all add: ide_issue_def Let_def ide_request_def low_byte drive_byte [OF assms] outb_def outsl_def dev_emit_def)

lemma idestart_run:
  assumes "answers (port_in s)" "b_blockno (bufs s i) < FSSIZE"
  obtains f where "idestart (Some i) s = Ok () (s\<lparr>port_in := f, dev_out := dev_out s @ ide_request (bufs s i)\<rparr>)"
    "answers f"
proof -
  obtain r f where w: "idewait False s = Ok r (s\<lparr>port_in := f\<rparr>)" "answers f"
    by (rule idewait_run [OF assms(1)])
  have "idestart (Some i) s = Ok () (s\<lparr>port_in := f, dev_out := dev_out s @ ide_request (bufs s i)\<rparr>)"
  proof -
    have nle: "\<not> FSSIZE \<le> b_blockno (bufs s i)" using assms(2) by (simp only: not_le)
    have "idestart (Some i) s = bnd (idewait False) (\<lambda>_. ide_issue (bufs s i)) s"
      unfolding idestart_def the_buf_def option.case bnd_steps by (simp only: nle if_False sector_per_block) simp
    also have "\<dots> = ide_issue (bufs s i) (s\<lparr>port_in := f\<rparr>)" using w(1) by (rule bnd_Ok)
    also have "\<dots> = Ok () (s\<lparr>port_in := f, dev_out := dev_out s @ ide_request (bufs s i)\<rparr>)"
      by (subst ide_issue_run [OF assms(2)]) simp
    finally show ?thesis .
  qed
  then show ?thesis using w(2) by (rule that)
qed

section \<open>The effect of each operation\<close>

definition synced :: "buf \<Rightarrow> bool" where
  "synced b \<longleftrightarrow> b_valid b \<and> \<not> b_dirty b"

definition asleep_on :: "chan \<Rightarrow> proc \<Rightarrow> proc" where
  "asleep_on c p = p\<lparr>p_chan := Some c, p_state := SLEEPING\<rparr>"

lemma idestart_outcome:
  assumes "answers (port_in s)" "idestart (Some i) s = Ok x s'"
  shows "\<exists>f. s' = s\<lparr>port_in := f, dev_out := dev_out s @ ide_request (bufs s i)\<rparr> \<and> answers f"
proof (cases "b_blockno (bufs s i) < FSSIZE")
  case True
  from idestart_run [OF assms(1) True] assms(2) show ?thesis by (metis outcome.inject(1))
next
  case False
  with assms(2) show ?thesis by (simp add: idestart_def the_buf_def not_less)
qed

lemma idestart_not_Blocked:
  assumes "answers (port_in s)"
  shows "idestart (Some i) s \<noteq> Blocked s'"
proof (cases "b_blockno (bufs s i) < FSSIZE")
  case True
  from idestart_run [OF assms True] show ?thesis by (metis outcome.distinct(3))
next
  case False
  then show ?thesis by (simp add: idestart_def the_buf_def not_less)
qed

lemma sleep_wait_blocks:
  assumes "cur s = Some me" "held s = [lk]" "lk \<noteq> L_ptable" "me < length (ptable s)"
  shows "sleep_wait c lk s = Blocked (s\<lparr>held := [L_ptable], ptable := (ptable s)[me := asleep_on c (ptable s ! me)]\<rparr>)"
  using assms by (simp add: sleep_wait_run sleep_def sched_def ncli_def interruptible_def the_proc_def asleep_on_def run_simps)

lemma ide_loop_run:
  assumes "cur s = Some me" "held s = [L_ide]" "me < length (ptable s)"
  shows "ide_loop i s = (if synced (bufs s i) then Ok () (s\<lparr>held := []\<rparr>)
     else Blocked (s\<lparr>held := [L_ptable], ptable := (ptable s)[me := asleep_on (C_buf i) (ptable s ! me)]\<rparr>))"
  using assms by (simp add: ide_loop_def the_buf_def synced_def sleep_wait_blocks release_def)

lemma ide_resume_run:
  assumes "cur s = Some me" "held s = [L_ptable]" "me < length (ptable s)"
  defines "p \<equiv> (ptable s ! me)\<lparr>p_chan := None\<rparr>"
  shows "ide_rw_resume i s = (if synced (bufs s i) then Ok () (s\<lparr>ptable := (ptable s)[me := p], held := []\<rparr>)
     else Blocked (s\<lparr>held := [L_ptable], ptable := (ptable s)[me := asleep_on (C_buf i) p]\<rparr>))"
proof -
  let ?s = "s\<lparr>ptable := (ptable s)[me := p], held := [L_ide]\<rparr>"
  have "ide_rw_resume i s = ide_loop i ?s"
    using assms(1,2,3) by (simp add: ide_rw_resume_def sleep_resume_def run_simps p_def)
  also have "\<dots> = (if synced (bufs ?s i) then Ok () (?s\<lparr>held := []\<rparr>)
     else Blocked (?s\<lparr>held := [L_ptable], ptable := (ptable ?s)[me := asleep_on (C_buf i) (ptable ?s ! me)]\<rparr>))"
    by (rule ide_loop_run) (use assms(1,3) in simp_all)
  finally show ?thesis using assms(3) by simp
qed

lemma sqn_ret_fun: "sqn m (ret ()) = m" for m :: "('s, unit) kmon"
  by (rule ext) simp

lemma ide_rw_blocks:
  assumes "ide_rw i s = Blocked s'" "cur s = Some me" "held s = []" "me < length (ptable s)"
    and q: "qlist (qnext s) (idequeue s) xs" "distinct xs" "i \<notin> set xs" and a: "answers (port_in s)"
  obtains h qn f where
    "s' = s\<lparr>held := [L_ptable], ptable := (ptable s)[me := asleep_on (C_buf i) (ptable s ! me)], idequeue := h, qnext := qn,
       port_in := f, dev_out := dev_out s @ (if xs = [] then ide_request (bufs s i) else [])\<rparr>"
    "qlist qn h (xs @ [i])" "answers f" "\<not> synced (bufs s i)"
    "sl_locked (slocks s (SL_buf i))" "sl_pid (slocks s (SL_buf i)) = p_pid (ptable s ! me)"
proof -
  let ?s1 = "s\<lparr>held := [L_ide]\<rparr>"
  obtain h qn where ap: "ide_append i ?s1 = Ok () (?s1\<lparr>idequeue := h, qnext := qn\<rparr>)"
    and qi: "qlist qn h (xs @ [i])" and h: "h = (if xs = [] then Some i else idequeue ?s1)"
    by (rule ide_append_run [of ?s1 xs i]) (use q in simp_all)
  define s2 where "s2 = ?s1\<lparr>idequeue := h, qnext := qn\<rparr>"
  from assms(1,2,3) have g: "\<not> synced (bufs s i)" "sl_locked (slocks s (SL_buf i))"
    "sl_pid (slocks s (SL_buf i)) = p_pid (ptable s ! me)"
    and r: "sqn (bnd (gets idequeue) (\<lambda>q. whenM (q = Some i) (idestart (Some i)))) (ide_loop i) s2 = Blocked s'"
    by (auto simp: ide_rw_def holdingsleep_run the_buf_def synced_def run_simps ap s2_def sqn_ret_fun split: if_splits)
  have hi: "h = Some i \<longleftrightarrow> xs = []" using h q by (cases xs) auto
  obtain f where f: "sqn (bnd (gets idequeue) (\<lambda>q. whenM (q = Some i) (idestart (Some i)))) (ide_loop i) s2
      = ide_loop i (s2\<lparr>port_in := f, dev_out := dev_out s @ (if xs = [] then ide_request (bufs s i) else [])\<rparr>)" "answers f"
  proof (cases "xs = []")
    case True
    with hi have hd: "idequeue s2 = Some i" by (simp add: s2_def)
    have a2: "answers (port_in s2)" using a by (simp add: s2_def)
    from r hd idestart_not_Blocked [OF a2] obtain x s3 where i3: "idestart (Some i) s2 = Ok x s3"
      by (cases "idestart (Some i) s2") auto
    obtain f where s3: "s3 = s2\<lparr>port_in := f, dev_out := dev_out s2 @ ide_request (bufs s2 i)\<rparr>" and f: "answers f"
      using idestart_outcome [OF a2 i3] by blast
    show ?thesis by (rule that [OF _ f]) (use i3 s3 hd True in \<open>simp add: s2_def\<close>)
  next
    case False
    with hi a show ?thesis by (intro that [of "port_in s"]) (simp_all add: s2_def)
  qed
  let ?s3 = "s2\<lparr>port_in := f, dev_out := dev_out s @ (if xs = [] then ide_request (bufs s i) else [])\<rparr>"
  have "ide_loop i ?s3 = Blocked (?s3\<lparr>held := [L_ptable], ptable := (ptable ?s3)[me := asleep_on (C_buf i) (ptable ?s3 ! me)]\<rparr>)"
    using assms(2,4) g(1) by (subst ide_loop_run [of _ me]) (simp_all add: s2_def)
  with r f(1) have "s' = s\<lparr>held := [L_ptable], ptable := (ptable s)[me := asleep_on (C_buf i) (ptable s ! me)], idequeue := h,
      qnext := qn, port_in := f, dev_out := dev_out s @ (if xs = [] then ide_request (bufs s i) else [])\<rparr>"
    by (simp add: s2_def)
  from that [OF this qi f(2) g] show ?thesis .
qed

text \<open>A request that passes the checks is queued and its process goes to sleep.\<close>

lemma ide_rw_sleeps:
  assumes "cur s = Some me" "held s = []" "me < length (ptable s)"
    and "sl_locked (slocks s (SL_buf i))" "sl_pid (slocks s (SL_buf i)) = p_pid (ptable s ! me)" "\<not> synced (bufs s i)"
    and "b_dev (bufs s i) = 0 \<or> havedisk1 s" "b_blockno (bufs s i) < FSSIZE"
    and q: "qlist (qnext s) (idequeue s) xs" "distinct xs" "i \<notin> set xs" and a: "answers (port_in s)"
  shows "\<exists>s'. ide_rw i s = Blocked s'"
proof -
  let ?s1 = "s\<lparr>held := [L_ide]\<rparr>"
  obtain h qn where ap: "ide_append i ?s1 = Ok () (?s1\<lparr>idequeue := h, qnext := qn\<rparr>)"
    by (rule ide_append_run [of ?s1 xs i]) (use q in simp_all)
  define s2 where "s2 = ?s1\<lparr>idequeue := h, qnext := qn\<rparr>"
  have e: "ide_rw i s = sqn (bnd (gets idequeue) (\<lambda>q. whenM (q = Some i) (idestart (Some i)))) (ide_loop i) s2"
    using assms(1-7) by (auto simp: ide_rw_def holdingsleep_run the_buf_def synced_def acquire_def ap s2_def sqn_ret_fun)
  have a2: "answers (port_in s2)" and b2: "b_blockno (bufs s2 i) < FSSIZE" using a assms(8) by (simp_all add: s2_def)
  obtain f where st: "idestart (Some i) s2 = Ok () (s2\<lparr>port_in := f, dev_out := dev_out s2 @ ide_request (bufs s2 i)\<rparr>)"
    by (rule idestart_run [OF a2 b2])
  have l: "\<exists>t'. ide_loop i t = Blocked t'"
    if "cur t = Some me" "held t = [L_ide]" "me < length (ptable t)" "bufs t = bufs s" for t :: "'a kdev_scheme"
    using ide_loop_run [OF that(1-3), of i] that(4) assms(6) by simp
  show ?thesis
  proof (cases "h = Some i")
    case True
    with e st have "ide_rw i s = ide_loop i (s2\<lparr>port_in := f, dev_out := dev_out s2 @ ide_request (bufs s2 i)\<rparr>)"
      by (simp add: s2_def)
    moreover have "\<exists>t'. ide_loop i (s2\<lparr>port_in := f, dev_out := dev_out s2 @ ide_request (bufs s2 i)\<rparr>) = Blocked t'"
      by (rule l) (use assms(1,3) in \<open>simp_all add: s2_def\<close>)
    ultimately show ?thesis by simp
  next
    case False
    with e have "ide_rw i s = ide_loop i s2" by (simp add: s2_def)
    moreover have "\<exists>t'. ide_loop i s2 = Blocked t'"
      by (rule l) (use assms(1,3) in \<open>simp_all add: s2_def\<close>)
    ultimately show ?thesis by simp
  qed
qed

definition finished :: "buf \<Rightarrow> bytes \<Rightarrow> buf" where
  "finished b d = b\<lparr>b_data := d, b_valid := True, b_dirty := False\<rparr>"

lemma ide_transfer_run:
  assumes "answers (port_in s)"
  obtains d f g where
    "ide_transfer i s = Ok () (s\<lparr>port_in := f, insl_in := g, bufs := (bufs s)(i := (bufs s i)\<lparr>b_data := d\<rparr>)\<rparr>)"
    "answers f"
proof (cases "b_dirty (bufs s i)")
  case True
  show ?thesis
    by (rule that [where f = "port_in s" and g = "insl_in s" and d = "b_data (bufs s i)"])
      (use True assms in \<open>simp_all add: ide_transfer_def the_buf_def\<close>)
next
  case False
  obtain r f where w: "idewait True s = Ok r (s\<lparr>port_in := f\<rparr>)" "answers f"
    by (rule idewait_run [OF assms])
  show ?thesis
  proof (cases "r \<ge> 0")
    case True
    show ?thesis
      by (rule that [where f = f and g = "after 1 (insl_in s)" and d = "insl_in s 0"])
        (use True False w in \<open>simp_all add: ide_transfer_def the_buf_def upd_buf_def insl_def copy_block_def\<close>)
  next
    case neg: False
    show ?thesis
      by (rule that [where f = f and g = "insl_in s" and d = "b_data (bufs s i)"])
        (use neg False w in \<open>simp_all add: ide_transfer_def the_buf_def\<close>)
  qed
qed

lemma ideintr_head:
  assumes q: "idequeue s = Some i" and "held s = []" and a: "answers (port_in s)"
  obtains d t where "ideintr s = sqn (whenM (qnext s i \<noteq> None) (idestart (qnext s i))) (release L_ide) t"
    "held t = [L_ide]" "idequeue t = qnext s i" "qnext t = qnext s" "answers (port_in t)" "slocks t = slocks s"
    "bufs t = (bufs s)(i := finished (bufs s i) d)" "dev_out t = dev_out s"
    "ptable t = map (wake_proc (Some (C_buf i))) (ptable s)"
proof -
  let ?s1 = "s\<lparr>held := [L_ide], idequeue := qnext s i\<rparr>"
  obtain d f g where
    t: "ide_transfer i ?s1 = Ok () (?s1\<lparr>port_in := f, insl_in := g, bufs := (bufs ?s1)(i := (bufs ?s1 i)\<lparr>b_data := d\<rparr>)\<rparr>)"
    and f: "answers f"
    by (rule ide_transfer_run [of ?s1 i]) (use a in simp_all)
  define t1 where "t1 = ?s1\<lparr>port_in := f, insl_in := g, bufs := (bufs ?s1)(i := (bufs ?s1 i)\<lparr>b_data := d\<rparr>)\<rparr>"
  define t2 where "t2 = t1\<lparr>bufs := (bufs s)(i := finished (bufs s i) d), ptable := map (wake_proc (Some (C_buf i))) (ptable s)\<rparr>"
  have fin: "sqn (upd_buf i (\<lambda>x. x\<lparr>b_valid := True\<rparr>)) (sqn (upd_buf i (\<lambda>x. x\<lparr>b_dirty := False\<rparr>)) (sqn (wakeup (C_buf i)) m)) t1
      = m t2" for m
    by (simp add: upd_buf_def wakeup_run t1_def t2_def finished_def)
  have tr: "ide_transfer i ?s1 = Ok () t1" unfolding t t1_def ..
  have "ideintr s = sqn (upd_buf i (\<lambda>x. x\<lparr>b_valid := True\<rparr>)) (sqn (upd_buf i (\<lambda>x. x\<lparr>b_dirty := False\<rparr>))
      (sqn (wakeup (C_buf i)) (sqn (bnd (gets idequeue) (\<lambda>q'. whenM (q' \<noteq> None) (idestart q'))) (release L_ide)))) t1"
    using q tr assms(2) by (simp add: ideintr_def acquire_def sqn_ret_fun)
  also have "\<dots> = sqn (whenM (qnext s i \<noteq> None) (idestart (qnext s i))) (release L_ide) t2"
    unfolding fin by (simp add: t2_def t1_def)
  finally have "ideintr s = sqn (whenM (qnext s i \<noteq> None) (idestart (qnext s i))) (release L_ide) t2" .
  then show ?thesis
    by (rule that [where t = t2 and d = d]) (simp_all add: t2_def t1_def f)
qed

lemma ideintr_Ok:
  assumes "ideintr s = Ok () s'" "idequeue s = Some i" "held s = []" "answers (port_in s)"
  obtains d where "idequeue s' = qnext s i" "qnext s' = qnext s" "answers (port_in s')" "slocks s' = slocks s" "held s' = []"
    "bufs s' = (bufs s)(i := finished (bufs s i) d)" "ptable s' = map (wake_proc (Some (C_buf i))) (ptable s)"
    "dev_out s' = dev_out s @ (case qnext s i of None \<Rightarrow> [] | Some j \<Rightarrow> ide_request (bufs s' j))"
proof -
  obtain d t where e: "ideintr s = sqn (whenM (qnext s i \<noteq> None) (idestart (qnext s i))) (release L_ide) t"
    and t: "held t = [L_ide]" "idequeue t = qnext s i" "qnext t = qnext s" "answers (port_in t)" "slocks t = slocks s"
      "bufs t = (bufs s)(i := finished (bufs s i) d)" "dev_out t = dev_out s"
      "ptable t = map (wake_proc (Some (C_buf i))) (ptable s)"
    by (rule ideintr_head [OF assms(2-4)])
  show ?thesis
  proof (cases "qnext s i")
    case None
    with e assms(1) t(1) have "s' = t\<lparr>held := []\<rparr>" by (simp add: release_def)
    then show ?thesis using t None by (intro that) simp_all
  next
    case (Some j)
    with e assms(1) have "sqn (idestart (Some j)) (release L_ide) t = Ok () s'" by simp
    then obtain x u where u: "idestart (Some j) t = Ok x u" and r: "release L_ide u = Ok () s'"
      unfolding sqn_Ok_iff by blast
    obtain f where "u = t\<lparr>port_in := f, dev_out := dev_out t @ ide_request (bufs t j)\<rparr>" and f: "answers f"
      using idestart_outcome [OF t(4) u] by blast
    with r t(1) have "s' = t\<lparr>port_in := f, dev_out := dev_out t @ ide_request (bufs t j), held := []\<rparr>"
      by (simp add: release_def)
    then show ?thesis using t Some f by (intro that) simp_all
  qed
qed

lemma ideintr_returns:
  assumes "idequeue s = Some i" "held s = []" "answers (port_in s)"
    and "\<And>j. qnext s i = Some j \<Longrightarrow> j \<noteq> i \<and> b_blockno (bufs s j) < FSSIZE"
  shows "\<exists>s'. ideintr s = Ok () s'"
proof -
  obtain d t where e: "ideintr s = sqn (whenM (qnext s i \<noteq> None) (idestart (qnext s i))) (release L_ide) t"
    and t: "held t = [L_ide]" "answers (port_in t)" "bufs t = (bufs s)(i := finished (bufs s i) d)"
    by (rule ideintr_head [OF assms(1-3)])
  show ?thesis
  proof (cases "qnext s i")
    case None
    with e t(1) show ?thesis by (simp add: release_def)
  next
    case (Some j)
    with assms(4) t(3) have "b_blockno (bufs t j) < FSSIZE" by simp
    then obtain f where "idestart (Some j) t = Ok () (t\<lparr>port_in := f, dev_out := dev_out t @ ide_request (bufs t j)\<rparr>)"
      by (rule idestart_run [OF t(2)])
    with e t(1) Some show ?thesis by (simp add: release_def)
  qed
qed

section \<open>Processes that share the disk\<close>

text \<open>The writes that reach the disk's registers.\<close>

fun ide_op :: "devop \<Rightarrow> bool" where
  "ide_op (Outb port v) \<longleftrightarrow> port \<in> {0x1f2, 0x1f3, 0x1f4, 0x1f5, 0x1f6, 0x1f7, 0x3f6}"
| "ide_op (Outsl port b) \<longleftrightarrow> port = 0x1f0"
| "ide_op (Mmio a v) \<longleftrightarrow> False"

definition ide_trace :: "'z kdev_scheme \<Rightarrow> devop list" where
  "ide_trace s = filter ide_op (dev_out s)"

lemma ide_request_ops [simp]: "filter ide_op (ide_request b) = ide_request b"
  by (simp add: ide_request_def)

definition pids_distinct :: "proc list \<Rightarrow> bool" where
  "pids_distinct ps \<longleftrightarrow> (\<forall>p < length ps. \<forall>q < length ps.
     p_state (ps ! p) \<noteq> UNUSED \<longrightarrow> p_state (ps ! q) \<noteq> UNUSED \<longrightarrow> p_pid (ps ! p) = p_pid (ps ! q) \<longrightarrow> p = q)"

text \<open>Process \<open>p\<close> is inside \<open>ide_rw i\<close>: it exists and holds the lock of buffer \<open>i\<close>.\<close>

definition inside :: "'z kdev_scheme \<Rightarrow> nat \<Rightarrow> nat \<Rightarrow> bool" where
  "inside s p i \<longleftrightarrow> p < length (ptable s) \<and> p_state (ptable s ! p) \<noteq> UNUSED
     \<and> sl_locked (slocks s (SL_buf i)) \<and> sl_pid (slocks s (SL_buf i)) = p_pid (ptable s ! p)"

text \<open>
  What the rest of the kernel may do between two steps of the driver: it leaves the queue, the disk's
  registers, and the buffers and locks of the processes inside \<open>ide_rw\<close> alone, and puts no process
  to sleep on a buffer. It may kill, wake or schedule any process.
\<close>

definition ide_rely :: "(nat \<times> nat) list \<Rightarrow> 'z kdev_scheme \<Rightarrow> 'z kdev_scheme \<Rightarrow> bool" where
  "ide_rely W s t \<longleftrightarrow> idequeue t = idequeue s \<and> qnext t = qnext s \<and> ide_trace t = ide_trace s
     \<and> answers (port_in t) \<and> length (ptable t) = length (ptable s) \<and> pids_distinct (ptable t)
     \<and> (\<forall>(p, i) \<in> set W. p_pid (ptable t ! p) = p_pid (ptable s ! p) \<and> p_state (ptable t ! p) \<noteq> UNUSED
          \<and> slocks t (SL_buf i) = slocks s (SL_buf i) \<and> bufs t i = bufs s i)
     \<and> (\<forall>p < length (ptable t). \<forall>i. sleeps_on (C_buf i) (ptable t ! p) \<longrightarrow> sleeps_on (C_buf i) (ptable s ! p))"

text \<open>
  The runs of the system: the state, the buffers for which transfers were asked in the order of
  the calls, those the interrupts have finished in the order of the interrupts, and the processes
  inside \<open>ide_rw\<close> with their buffers.
\<close>

inductive ide_run :: "'z kdev_scheme \<Rightarrow> nat list \<Rightarrow> nat list \<Rightarrow> (nat \<times> nat) list \<Rightarrow> bool" where
  boot: "idequeue s = None \<Longrightarrow> answers (port_in s) \<Longrightarrow> pids_distinct (ptable s)
    \<Longrightarrow> (\<And>p i. p < length (ptable s) \<Longrightarrow> \<not> sleeps_on (C_buf i) (ptable s ! p)) \<Longrightarrow> ide_run s [] [] []"
| request: "ide_run s rs ds W \<Longrightarrow> me < length (ptable s) \<Longrightarrow> p_state (ptable s ! me) = RUNNING
    \<Longrightarrow> me \<notin> fst ` set W \<Longrightarrow> ide_rw i (s\<lparr>cur := Some me, held := []\<rparr>) = Blocked s'
    \<Longrightarrow> ide_run s' (rs @ [i]) ds ((me, i) # W)"
| intr: "ide_run s rs ds W \<Longrightarrow> idequeue s = Some i \<Longrightarrow> ideintr (s\<lparr>held := []\<rparr>) = Ok () s'
    \<Longrightarrow> ide_run s' rs (ds @ [i]) W"
| resume: "ide_run s rs ds W \<Longrightarrow> (me, i) \<in> set W \<Longrightarrow> p_state (ptable s ! me) = RUNNING
    \<Longrightarrow> ide_rw_resume i (s\<lparr>cur := Some me, held := [L_ptable]\<rparr>) = Ok () s'
    \<Longrightarrow> ide_run s' rs ds (removeAll (me, i) W)"
| again: "ide_run s rs ds W \<Longrightarrow> (me, i) \<in> set W \<Longrightarrow> p_state (ptable s ! me) = RUNNING
    \<Longrightarrow> ide_rw_resume i (s\<lparr>cur := Some me, held := [L_ptable]\<rparr>) = Blocked s'
    \<Longrightarrow> ide_run s' rs ds W"
| other: "ide_run s rs ds W \<Longrightarrow> ide_rely W s t \<Longrightarrow> ide_run t rs ds W"

definition ide_inv :: "'z kdev_scheme \<Rightarrow> nat list \<Rightarrow> (nat \<times> nat) list \<Rightarrow> bool" where
  "ide_inv s xs W \<longleftrightarrow> qlist (qnext s) (idequeue s) xs \<and> distinct xs \<and> answers (port_in s)
     \<and> (\<forall>i \<in> set xs. \<not> synced (bufs s i) \<and> (\<exists>p. (p, i) \<in> set W))
     \<and> (\<forall>p i. (p, i) \<in> set W \<longrightarrow> inside s p i \<and> (i \<in> set xs \<or> synced (bufs s i)))
     \<and> pids_distinct (ptable s)
     \<and> (\<forall>p < length (ptable s). \<forall>i. sleeps_on (C_buf i) (ptable s ! p) \<longrightarrow> (p, i) \<in> set W \<and> i \<in> set xs)
     \<and> (xs \<noteq> [] \<longrightarrow> suffix (ide_request (bufs s (hd xs))) (ide_trace s))"

lemma ide_invD:
  assumes "ide_inv s xs W"
  shows "qlist (qnext s) (idequeue s) xs" "distinct xs" "answers (port_in s)" "pids_distinct (ptable s)"
    "i \<in> set xs \<Longrightarrow> \<not> synced (bufs s i)" "i \<in> set xs \<Longrightarrow> \<exists>p. (p, i) \<in> set W"
    "(p, i) \<in> set W \<Longrightarrow> inside s p i" "(p, i) \<in> set W \<Longrightarrow> i \<in> set xs \<or> synced (bufs s i)"
    "p < length (ptable s) \<Longrightarrow> sleeps_on (C_buf i) (ptable s ! p) \<Longrightarrow> (p, i) \<in> set W \<and> i \<in> set xs"
    "xs \<noteq> [] \<Longrightarrow> suffix (ide_request (bufs s (hd xs))) (ide_trace s)"
  using assms unfolding ide_inv_def by auto

text \<open>The lock of a buffer keeps a second process out of \<open>ide_rw\<close> for it.\<close>

lemma inside_unique:
  assumes "inside s p i" "inside s q i" "pids_distinct (ptable s)"
  shows "p = q"
  using assms unfolding inside_def pids_distinct_def by metis

lemma inside_cong:
  assumes "inside s p i" "length (ptable t) = length (ptable s)" "slocks t = slocks s"
    and "p_pid (ptable t ! p) = p_pid (ptable s ! p)" "p_state (ptable t ! p) \<noteq> UNUSED"
  shows "inside t p i"
  using assms unfolding inside_def by simp

lemma sleeps_on_asleep [simp]:
  "sleeps_on c (asleep_on d p) \<longleftrightarrow> c = d" "p_pid (asleep_on d p) = p_pid p" "p_state (asleep_on d p) = SLEEPING"
  by (auto simp: sleeps_on_def asleep_on_def)

lemma pids_distinct_upd:
  assumes "pids_distinct ps" "me < length ps" "p_state (ps ! me) \<noteq> UNUSED" "p_pid q = p_pid (ps ! me)"
  shows "pids_distinct (ps[me := q])"
  using assms unfolding pids_distinct_def by (simp add: nth_list_update) metis

lemma pids_distinct_wake: "pids_distinct ps \<Longrightarrow> pids_distinct (map (wake_proc c) ps)"
  unfolding pids_distinct_def by (auto simp: wake_proc_def split: if_splits)

lemma buf_sleeper_wake: "sleeps_on c (wake_proc (Some d) p) \<longleftrightarrow> sleeps_on c p \<and> c \<noteq> d"
  by (auto simp: sleeps_on_def wake_proc_def)

section \<open>The invariant\<close>

lemma ide_inv_request:
  assumes inv: "ide_inv s xs W" and me: "me < length (ptable s)" "p_state (ptable s ! me) = RUNNING"
    and new: "me \<notin> fst ` set W" and b: "ide_rw i (s\<lparr>cur := Some me, held := []\<rparr>) = Blocked s'"
  shows "ide_inv s' (xs @ [i]) ((me, i) # W)"
proof -
  note I = ide_invD [OF inv]
  let ?s = "s\<lparr>cur := Some me, held := []\<rparr>"
  have fr: "i \<notin> set xs" if "inside s me i"
  proof
    assume "i \<in> set xs"
    then obtain q where q: "(q, i) \<in> set W" using I(6) by blast
    from inside_unique [OF that I(7) [OF q] I(4)] q new show False by force
  qed
  have "inside s me i"
  proof -
    have "ide_rw i ?s = Panic ''iderw: buf not locked''" if "\<not> (sl_locked (slocks s (SL_buf i)) \<and> sl_pid (slocks s (SL_buf i)) = p_pid (ptable s ! me))"
      using that by (simp add: ide_rw_def holdingsleep_run [of _ _ me])
    with b me show ?thesis by (auto simp: inside_def)
  qed
  then have nin: "i \<notin> set xs" by (rule fr)
  have c: "cur ?s = Some me" "held ?s = []" "me < length (ptable ?s)" "qlist (qnext ?s) (idequeue ?s) xs" "answers (port_in ?s)"
    using me I(1,3) by simp_all
  obtain h qn f where s': "s' = ?s\<lparr>held := [L_ptable], ptable := (ptable ?s)[me := asleep_on (C_buf i) (ptable ?s ! me)],
      idequeue := h, qnext := qn, port_in := f, dev_out := dev_out ?s @ (if xs = [] then ide_request (bufs ?s i) else [])\<rparr>"
    and q: "qlist qn h (xs @ [i])" and f: "answers f" and ns: "\<not> synced (bufs ?s i)"
    by (rule ide_rw_blocks [OF b c(1-4) I(2) nin c(5)])
  have pt: "ptable s' = (ptable s)[me := asleep_on (C_buf i) (ptable s ! me)]" and bf: "bufs s' = bufs s"
    and sl: "slocks s' = slocks s" by (simp_all add: s')
  have ins: "inside s' p j" if "inside s p j" for p j
    using that by (rule inside_cong) (use that me in \<open>auto simp: pt sl nth_list_update inside_def\<close>)
  have sleepers: "(p, j) \<in> set ((me, i) # W) \<and> j \<in> set (xs @ [i])"
    if "p < length (ptable s')" "sleeps_on (C_buf j) (ptable s' ! p)" for p j
    using that I(9) [of p j] me by (cases "p = me") (auto simp: pt)
  have tr: "suffix (ide_request (bufs s' (hd (xs @ [i])))) (ide_trace s')"
  proof (cases "xs = []")
    case True
    then show ?thesis by (simp add: s' ide_trace_def suffix_def)
  next
    case False
    with I(10) show ?thesis by (simp add: s' ide_trace_def)
  qed
  have old: "j \<in> set (xs @ [i]) \<or> synced (bufs s' j)" if "(p, j) \<in> set ((me, i) # W)" for p j
    using that I(8) [of p j] by (auto simp: bf)
  have "pids_distinct (ptable s')" unfolding pt by (rule pids_distinct_upd) (use I(4) me in simp_all)
  moreover have "qlist (qnext s') (idequeue s') (xs @ [i])" using q by (simp add: s')
  moreover have "answers (port_in s')" using f by (simp add: s')
  moreover have "distinct (xs @ [i])" using I(2) nin by simp
  moreover have "\<forall>j \<in> set (xs @ [i]). \<not> synced (bufs s' j) \<and> (\<exists>p. (p, j) \<in> set ((me, i) # W))"
    using I(5,6) ns by (auto simp: bf)
  moreover have "inside s' p j" if "(p, j) \<in> set ((me, i) # W)" for p j
    using that ins I(7) \<open>inside s me i\<close> by auto
  ultimately show ?thesis unfolding ide_inv_def using sleepers tr old by blast
qed

text \<open>Steps that only change one entry of the process table.\<close>

lemma ide_inv_upd:
  assumes inv: "ide_inv s xs W" and me: "me < length (ptable s)" "p_state (ptable s ! me) = RUNNING"
    and W: "\<And>p i. (p, i) \<in> set W' \<Longrightarrow> (p, i) \<in> set W" "\<And>p i. (p, i) \<in> set W \<Longrightarrow> i \<in> set xs \<Longrightarrow> (p, i) \<in> set W'"
    and q: "p_pid q = p_pid (ptable s ! me)" "p_state q \<noteq> UNUSED"
    and sl: "\<And>i. sleeps_on (C_buf i) q \<Longrightarrow> (me, i) \<in> set W' \<and> i \<in> set xs"
    and s': "ptable s' = (ptable s)[me := q]" "qnext s' = qnext s" "idequeue s' = idequeue s" "port_in s' = port_in s"
      "bufs s' = bufs s" "slocks s' = slocks s" "dev_out s' = dev_out s"
  shows "ide_inv s' xs W'"
proof -
  note I = ide_invD [OF inv]
  have "inside s' p j" if "(p, j) \<in> set W'" for p j
    using I(7) [OF W(1) [OF that]] by (rule inside_cong)
      (use I(7) [OF W(1) [OF that]] q me in \<open>auto simp: s' nth_list_update inside_def\<close>)
  moreover have "(p, j) \<in> set W' \<and> j \<in> set xs" if "p < length (ptable s')" "sleeps_on (C_buf j) (ptable s' ! p)" for p j
    using that I(9) [of p j] W(2) sl by (cases "p = me") (auto simp: s')
  moreover have "pids_distinct (ptable s')" unfolding s' by (rule pids_distinct_upd) (use I(4) me q in simp_all)
  moreover have "ide_trace s' = ide_trace s" by (simp add: ide_trace_def s')
  moreover have "\<not> synced (bufs s j) \<and> (\<exists>p. (p, j) \<in> set W')" if "j \<in> set xs" for j
    using I(5,6) W(2) that by blast
  ultimately show ?thesis unfolding ide_inv_def using I(1,2,3,8,10) W(1) by (simp add: s') blast
qed

lemma ide_inv_resume:
  assumes inv: "ide_inv s xs W" and me: "(me, i) \<in> set W" "p_state (ptable s ! me) = RUNNING"
    and r: "ide_rw_resume i (s\<lparr>cur := Some me, held := [L_ptable]\<rparr>) = Ok () s'"
  shows "ide_inv s' xs (removeAll (me, i) W)"
proof -
  note I = ide_invD [OF inv]
  let ?s = "s\<lparr>cur := Some me, held := [L_ptable]\<rparr>"
  have l: "me < length (ptable s)" using I(7) [OF me(1)] by (simp add: inside_def)
  have e: "ide_rw_resume i ?s = (if synced (bufs ?s i)
     then Ok () (?s\<lparr>ptable := (ptable ?s)[me := (ptable ?s ! me)\<lparr>p_chan := None\<rparr>], held := []\<rparr>)
     else Blocked (?s\<lparr>held := [L_ptable], ptable := (ptable ?s)[me := asleep_on (C_buf i) ((ptable ?s ! me)\<lparr>p_chan := None\<rparr>)]\<rparr>))"
    by (rule ide_resume_run) (use l in simp_all)
  from r e have sy: "synced (bufs s i)" and s': "s' = ?s\<lparr>ptable := (ptable s)[me := (ptable s ! me)\<lparr>p_chan := None\<rparr>], held := []\<rparr>"
    by (auto split: if_splits)
  show ?thesis
    by (rule ide_inv_upd [OF inv l me(2)]) (use sy I(5) me(2) in \<open>auto simp: s' sleeps_on_def\<close>)
qed

lemma ide_inv_again:
  assumes inv: "ide_inv s xs W" and me: "(me, i) \<in> set W" "p_state (ptable s ! me) = RUNNING"
    and r: "ide_rw_resume i (s\<lparr>cur := Some me, held := [L_ptable]\<rparr>) = Blocked s'"
  shows "ide_inv s' xs W"
proof -
  note I = ide_invD [OF inv]
  let ?s = "s\<lparr>cur := Some me, held := [L_ptable]\<rparr>"
  have l: "me < length (ptable s)" using I(7) [OF me(1)] by (simp add: inside_def)
  have e: "ide_rw_resume i ?s = (if synced (bufs ?s i)
     then Ok () (?s\<lparr>ptable := (ptable ?s)[me := (ptable ?s ! me)\<lparr>p_chan := None\<rparr>], held := []\<rparr>)
     else Blocked (?s\<lparr>held := [L_ptable], ptable := (ptable ?s)[me := asleep_on (C_buf i) ((ptable ?s ! me)\<lparr>p_chan := None\<rparr>)]\<rparr>))"
    by (rule ide_resume_run) (use l in simp_all)
  from r e have sy: "\<not> synced (bufs s i)"
    and s': "s' = ?s\<lparr>held := [L_ptable], ptable := (ptable s)[me := asleep_on (C_buf i) ((ptable s ! me)\<lparr>p_chan := None\<rparr>)]\<rparr>"
    by (auto split: if_splits)
  show ?thesis
    by (rule ide_inv_upd [OF inv l me(2)]) (use sy I(8) [OF me(1)] me(1) in \<open>auto simp: s'\<close>)
qed

lemma ide_inv_rely:
  assumes inv: "ide_inv s xs W" and r: "ide_rely W s t"
  shows "ide_inv t xs W"
proof -
  note I = ide_invD [OF inv]
  from r have R: "idequeue t = idequeue s" "qnext t = qnext s" "ide_trace t = ide_trace s" "answers (port_in t)"
    "length (ptable t) = length (ptable s)" "pids_distinct (ptable t)" unfolding ide_rely_def by blast+
  from r have P: "p_pid (ptable t ! p) = p_pid (ptable s ! p)" "p_state (ptable t ! p) \<noteq> UNUSED"
    "slocks t (SL_buf i) = slocks s (SL_buf i)" "bufs t i = bufs s i" if "(p, i) \<in> set W" for p i
    using that unfolding ide_rely_def by auto
  from r have S: "sleeps_on (C_buf i) (ptable s ! p)" if "p < length (ptable t)" "sleeps_on (C_buf i) (ptable t ! p)" for p i
    using that unfolding ide_rely_def by blast
  have bf: "bufs t i = bufs s i" if "i \<in> set xs" for i using I(6) [OF that] P(4) by blast
  have "inside t p i \<and> (i \<in> set xs \<or> synced (bufs t i))" if "(p, i) \<in> set W" for p i
    using I(7,8) [OF that] P [OF that] by (simp add: inside_def R)
  moreover have "(p, i) \<in> set W \<and> i \<in> set xs" if "p < length (ptable t)" "sleeps_on (C_buf i) (ptable t ! p)" for p i
    using I(9) S [OF that] that by (simp add: R)
  moreover have "\<not> synced (bufs t i) \<and> (\<exists>p. (p, i) \<in> set W)" if "i \<in> set xs" for i
    using I(5,6) [OF that] bf [OF that] by simp
  moreover have "suffix (ide_request (bufs t (hd xs))) (ide_trace t)" if "xs \<noteq> []"
    using I(10) [OF that] bf [OF hd_in_set [OF that]] by (simp add: R)
  moreover have "qlist (qnext t) (idequeue t) xs" using I(1) by (simp add: R)
  ultimately show ?thesis unfolding ide_inv_def using I(2) R(4,6) by blast
qed

lemma ide_inv_intr:
  assumes inv: "ide_inv s xs W" and i: "idequeue s = Some i" and r: "ideintr (s\<lparr>held := []\<rparr>) = Ok () s'"
  shows "\<exists>ys. xs = i # ys \<and> ide_inv s' ys W"
proof -
  note I = ide_invD [OF inv]
  from I(1) i obtain ys where xs: "xs = i # ys" and ys: "qlist (qnext s) (qnext s i) ys" by (cases xs) auto
  obtain d where t: "idequeue s' = qnext s i" "qnext s' = qnext s" "answers (port_in s')" "slocks s' = slocks s"
    and bf: "bufs s' = (bufs s)(i := finished (bufs s i) d)" and pt: "ptable s' = map (wake_proc (Some (C_buf i))) (ptable s)"
    and tr: "dev_out s' = dev_out s @ (case qnext s i of None \<Rightarrow> [] | Some j \<Rightarrow> ide_request (bufs s' j))"
    by (rule ideintr_Ok [OF r]) (use i I(3) in simp_all)
  have ni: "i \<notin> set ys" "distinct ys" using I(2) xs by auto
  have sy: "synced (bufs s' i)" by (simp add: bf finished_def synced_def)
  have "inside s' p j \<and> (j \<in> set ys \<or> synced (bufs s' j))" if "(p, j) \<in> set W" for p j
  proof
    show "inside s' p j" using I(7) [OF that]
      by (rule inside_cong) (use I(7) [OF that] in \<open>auto simp: t pt inside_def wake_proc_def\<close>)
    show "j \<in> set ys \<or> synced (bufs s' j)" using I(8) [OF that] sy by (cases "j = i") (auto simp: xs bf)
  qed
  moreover have "(p, j) \<in> set W \<and> j \<in> set ys" if "p < length (ptable s')" "sleeps_on (C_buf j) (ptable s' ! p)" for p j
    using that I(9) [of p j] by (auto simp: pt buf_sleeper_wake xs)
  moreover have "\<not> synced (bufs s' j) \<and> (\<exists>p. (p, j) \<in> set W)" if "j \<in> set ys" for j
    using I(5,6) [of j] that ni by (auto simp: bf xs)
  moreover have "suffix (ide_request (bufs s' (hd ys))) (ide_trace s')" if "ys \<noteq> []"
    using that ys tr by (cases ys) (auto simp: ide_trace_def suffix_def)
  moreover have "pids_distinct (ptable s')" unfolding pt by (rule pids_distinct_wake [OF I(4)])
  moreover have "qlist (qnext s') (idequeue s') ys" using ys by (simp add: t)
  ultimately show ?thesis using xs t(3) ni(2) unfolding ide_inv_def by blast
qed

lemma ide_run_inv: "ide_run s rs ds W \<Longrightarrow> \<exists>xs. rs = ds @ xs \<and> ide_inv s xs W"
proof (induction rule: ide_run.induct)
  case (boot s)
  then have "ide_inv s [] []" by (simp add: ide_inv_def)
  then show ?case by simp
next
  case (request s rs ds W me i s')
  then show ?case using ide_inv_request by fastforce
next
  case (intr s rs ds W i s')
  then show ?case using ide_inv_intr by fastforce
next
  case (resume s rs ds W me i s')
  then show ?case using ide_inv_resume by blast
next
  case (again s rs ds W me i s')
  then show ?case using ide_inv_again by blast
next
  case (other s rs ds W t)
  then show ?case using ide_inv_rely by blast
qed

text \<open>
  C14: However processes ask for transfers, disk interrupts arrive, and processes are
  woken, killed and scheduled: the requests finish in the order of the calls of \<open>iderw\<close>, those not finished
  are the queue, the last command the disk was given is for the head of the queue, a process that
  sleeps in \<open>iderw\<close> waits for a buffer of the queue (no wakeup is lost), and a buffer that has left the
  queue is valid and clean for the process that asked for it. The lock of the buffer is what keeps it from being queued twice.
\<close>

theorem ide_serves_in_order:
  assumes "ide_run s rs ds W"
  shows "\<exists>xs. rs = ds @ xs \<and> qlist (qnext s) (idequeue s) xs \<and> distinct xs
    \<and> (xs \<noteq> [] \<longrightarrow> suffix (ide_request (bufs s (hd xs))) (ide_trace s))
    \<and> (\<forall>p < length (ptable s). \<forall>i. sleeps_on (C_buf i) (ptable s ! p) \<longrightarrow> i \<in> set xs)
    \<and> (\<forall>p i. (p, i) \<in> set W \<longrightarrow> i \<in> set xs \<or> synced (bufs s i))"
proof -
  obtain xs where xs: "rs = ds @ xs" and inv: "ide_inv s xs W" using ide_run_inv [OF assms] by blast
  note I = ide_invD [OF inv]
  show ?thesis using xs I(1,2,10) I(8) I(9) by blast
qed

text \<open>A process that asks the demonstration machine for block 0.\<close>

definition demo_ide :: kdev where
  "demo_ide = demo_kdev\<lparr>cur := Some 0, held := [], ptable := [zero_proc\<lparr>p_state := RUNNING, p_pid := 3\<rparr>],
     slocks := (\<lambda>_. \<lparr>sl_locked = True, sl_pid = 3\<rparr>),
     bufs := (\<lambda>_. \<lparr>b_valid = False, b_dirty = False, b_dev = 0, b_blockno = 0, b_refcnt = 1, b_prev = 0, b_next = 0, b_data = (\<lambda>_. 0)\<rparr>)\<rparr>"

lemma demo_ide_answers: "answers (port_in demo_ide)"
  by (auto simp: answers_def ide_ready_def demo_ide_def)

lemma demo_ide_boot: "ide_run demo_ide [] [] []"
  by (rule ide_run.boot [OF _ demo_ide_answers])
    (auto simp: demo_ide_def pids_distinct_def sleeps_on_def less_Suc_eq)

lemma demo_ide_request:
  obtains s' :: kdev where "ide_run s' ([] @ [0]) [] [(0, 0)]" "b_blockno (bufs s' 0) = 0"
proof -
  let ?s = "demo_ide\<lparr>cur := Some 0, held := []\<rparr>"
  have s: "?s = demo_ide" by (simp add: demo_ide_def)
  have "\<exists>s'. ide_rw 0 demo_ide = Blocked s'"
    by (rule ide_rw_sleeps [where me = 0 and xs = "[]", OF _ _ _ _ _ _ _ _ _ _ _ demo_ide_answers])
      (simp_all add: demo_ide_def synced_def FSSIZE_def)
  then obtain s' where b: "ide_rw 0 demo_ide = Blocked s'" by blast
  have "ide_run s' ([] @ [0]) [] [(0, 0)]"
    by (rule ide_run.request [OF demo_ide_boot]) (use b in \<open>simp_all add: s, simp_all add: demo_ide_def\<close>)
  moreover have "b_blockno (bufs s' 0) = 0"
    by (rule ide_rw_blocks [OF b, where me = 0 and xs = "[]", OF _ _ _ _ _ _ demo_ide_answers])
      (simp_all add: demo_ide_def)
  ultimately show ?thesis by (rule that)
qed

theorem ide_serves_in_order_witness:
  "\<exists>s :: kdev. ide_run s [0] [] [(0, 0)] \<and> qlist (qnext s) (idequeue s) [0] \<and> suffix (ide_request (bufs s 0)) (ide_trace s)"
proof -
  obtain s' :: kdev where r: "ide_run s' ([] @ [0]) [] [(0, 0)]" using demo_ide_request by blast
  from ide_serves_in_order [OF r] r show ?thesis by auto
qed

text \<open>As many interrupts as there are requests in the queue finish all of them.\<close>

lemma ide_drain:
  assumes "ide_inv s xs W" "held s = []" "\<forall>i \<in> set xs. b_blockno (bufs s i) < FSSIZE"
  shows "\<exists>s'. stmts (replicate (length xs) ideintr) s = Ok () s' \<and> ide_inv s' [] W"
  using assms
proof (induction xs arbitrary: s)
  case (Cons i ys)
  note I = ide_invD [OF Cons.prems(1)]
  have h: "s\<lparr>held := []\<rparr> = s" using Cons.prems(2) by simp
  have i: "idequeue s = Some i" and ys: "qlist (qnext s) (qnext s i) ys" using I(1) by simp_all
  have "j \<noteq> i \<and> b_blockno (bufs s j) < FSSIZE" if "qnext s i = Some j" for j
    using that ys I(2) Cons.prems(3) by (cases ys) auto
  from ideintr_returns [OF i Cons.prems(2) I(3) this] obtain s1 where s1: "ideintr s = Ok () s1" by blast
  obtain d where bf: "bufs s1 = (bufs s)(i := finished (bufs s i) d)" and h1: "held s1 = []"
    by (rule ideintr_Ok [OF s1 i Cons.prems(2) I(3)])
  have "ide_inv s1 ys W" using ide_inv_intr [OF Cons.prems(1) i] s1 by (simp add: h)
  moreover have "\<forall>j \<in> set ys. b_blockno (bufs s1 j) < FSSIZE" using Cons.prems(3) by (simp add: bf finished_def)
  ultimately show ?case using Cons.IH [OF _ h1] s1 by simp
qed simp

text \<open>
  C15: Every request finishes: when the disk becomes ready again and again and the queued block numbers are on
  the disk, as many interrupts as there are unfinished requests empty the queue without a panic and leave
  every buffer asked for valid and clean and no process asleep for one.
\<close>

theorem ide_requests_finish:
  assumes "ide_run s (ds @ xs) ds W" "held s = []" "\<forall>i \<in> set xs. b_blockno (bufs s i) < FSSIZE"
  shows "\<exists>s'. stmts (replicate (length xs) ideintr) s = Ok () s' \<and> idequeue s' = None
    \<and> (\<forall>p i. (p, i) \<in> set W \<longrightarrow> synced (bufs s' i)) \<and> (\<forall>i. no_sleeper (C_buf i) s')"
proof -
  have inv: "ide_inv s xs W" using ide_run_inv [OF assms(1)] by auto
  obtain s' where s': "stmts (replicate (length xs) ideintr) s = Ok () s'" and i': "ide_inv s' [] W"
    using ide_drain [OF inv assms(2,3)] by blast
  note I = ide_invD [OF i']
  have "no_sleeper (C_buf i) s'" for i using I(9) by (auto simp: no_sleeper_def in_set_conv_nth)
  with s' I(1,8) show ?thesis by auto
qed

theorem ide_requests_finish_witness:
  "\<exists>s s' :: kdev. ide_run s [0] [] [(0, 0)] \<and> stmts [ideintr] (s\<lparr>held := []\<rparr>) = Ok () s' \<and> idequeue s' = None
     \<and> synced (bufs s' 0) \<and> no_sleeper (C_buf 0) s'"
proof -
  obtain s :: kdev where r: "ide_run s ([] @ [0]) [] [(0, 0)]" and b: "b_blockno (bufs s 0) = 0" by (rule demo_ide_request)
  have "ide_rely [(0, 0)] s (s\<lparr>held := []\<rparr>)"
    using ide_run_inv [OF r] by (auto simp: ide_rely_def ide_inv_def inside_def ide_trace_def)
  with r have "ide_run (s\<lparr>held := []\<rparr>) ([] @ [0]) [] [(0, 0)]" by (rule ide_run.other)
  from ide_requests_finish [OF this] r b show ?thesis by (auto simp: FSSIZE_def)
qed

text \<open>
  A read that fails is not noticed: when the disk answers with the error bit, \<open>ideintr\<close> skips the transfer but
  still marks the buffer valid, so that its old contents pass for the block's.
\<close>

lemma ide_error_marks_valid:
  assumes "idequeue s = Some i" "qnext s i = None" "held s = []" "\<not> b_dirty (bufs s i)"
    and "port_in s 0x1f7 0 = 0x41"
  shows "\<exists>s'. ideintr s = Ok () s' \<and> synced (bufs s' i) \<and> b_data (bufs s' i) = b_data (bufs s i)"
proof -
  have "poll ide_ready (port_in s 0x1f7) 0 = Some 0"
    by (subst poll.simps) (simp add: assms(5) ide_ready_def)
  with assms show ?thesis
    by (simp add: ideintr_def ide_transfer_def the_buf_def idewait_def skip_port_def upd_buf_def acquire_def release_def
        wakeup_run synced_def)
qed

end
