(* ===== verification/Mp.thy ===== *)
theory Mp
  imports Device
begin

text \<open>
  Detecting the processors (src/mp.c, src/mp.h): the search for the MP floating pointer structure in
  the BIOS areas, the check of the configuration table and the walk over its entries.

  A structure of mp.h is the address of its first byte; its fields are read at their offsets. \<open>m\<close> is
  the memory as the kernel sees it, a byte for each virtual address. The walk of \<open>mpinit\<close> is a partial
  function: an entry of an unknown type does not move the pointer, so the walk never ends there.
\<close>

section \<open>Finding the tables\<close>

type_synonym kmemory = "uint \<Rightarrow> uchar"

definition NCPU :: nat where "NCPU = 8"

definition bytes_at :: "kmemory \<Rightarrow> uint \<Rightarrow> nat \<Rightarrow> uchar list" where
  "bytes_at m a n = map (\<lambda>i. m (a + of_nat i)) [0..<n]"

definition mp_sum :: "kmemory \<Rightarrow> uint \<Rightarrow> nat \<Rightarrow> uchar" where
  "mp_sum m addr len = word_of_int (foldl (\<lambda>s b. s + uint b) 0 (bytes_at m addr len))"

definition u16_at :: "kmemory \<Rightarrow> uint \<Rightarrow> ushort" where
  "u16_at m a = get16 (\<lambda>i. m (a + of_nat i)) 0"

definition u32_at :: "kmemory \<Rightarrow> uint \<Rightarrow> uint" where
  "u32_at m a = get32 (\<lambda>i. m (a + of_nat i)) 0"

definition mpsearch1 :: "kmemory \<Rightarrow> uint \<Rightarrow> nat \<Rightarrow> uint option" where
  "mpsearch1 m a len = find (\<lambda>p. bytes_at m p 4 = map of_char ''_MP_'' \<and> mp_sum m p 16 = 0)
     (map (\<lambda>i. P2V a + 16 * of_nat i) [0..<(len + 15) div 16])"

definition mpsearch :: "kmemory \<Rightarrow> uint option" where
  "mpsearch m =
     (let bda = P2V 0x400;
          p = push_bit 4 (push_bit 8 (ucast (m (bda + 0x0F))) OR ucast (m (bda + 0x0E)));
          q = (push_bit 8 (ucast (m (bda + 0x14))) OR ucast (m (bda + 0x13))) * 1024
      in case (if p \<noteq> 0 then mpsearch1 m p 1024 else mpsearch1 m (q - 1024) 1024) of
        Some mp \<Rightarrow> Some mp
      | None \<Rightarrow> mpsearch1 m 0xF0000 0x10000)"

text \<open>The configuration table and the floating pointer structure, the result and \<open>*pmp\<close>.\<close>

definition mpconfig :: "kmemory \<Rightarrow> (uint \<times> uint) option" where
  "mpconfig m = (case mpsearch m of
     None \<Rightarrow> None
   | Some mp \<Rightarrow>
       if u32_at m (mp + 4) = 0 then None
       else let conf = P2V (u32_at m (mp + 4)) in
         if bytes_at m conf 4 \<noteq> map of_char ''PCMP'' then None
         else if m (conf + 6) \<noteq> 1 \<and> m (conf + 6) \<noteq> 4 then None
         else if mp_sum m conf (unat (u16_at m (conf + 4))) \<noteq> 0 then None
         else Some (conf, mp))"

section \<open>Reading the entries\<close>

definition add_cpu :: "uchar \<Rightarrow> 'z kdev_scheme \<Rightarrow> 'z kdev_scheme" where
  "add_cpu a s = (if ncpu s < NCPU then s\<lparr>apicids := (apicids s)[ncpu s := a], ncpu := ncpu s + 1\<rparr> else s)"

partial_function (option) mp_loop ::
  "kmemory \<Rightarrow> uint \<Rightarrow> uint \<Rightarrow> bool \<Rightarrow> 'z kdev_scheme \<Rightarrow> (bool \<times> 'z kdev_scheme) option" where
  "mp_loop m e p ismp s =
     (if p < e then
        (if m p = 0 then mp_loop m e (p + 20) ismp (add_cpu (m (p + 1)) s)
         else if m p = 2 then mp_loop m e (p + 8) ismp (s\<lparr>ioapicid := m (p + 1)\<rparr>)
         else if m p = 1 \<or> m p = 3 \<or> m p = 4 then mp_loop m e (p + 8) ismp s
         else mp_loop m e p False s)
      else Some (ismp, s))"

definition unsuitable_msg :: string where
  "unsuitable_msg = ''Didn'' @ [CHR 0x27] @ ''t find a suitable machine''"

definition mpinit :: "('z kdev_scheme, unit) kmon" where
  "mpinit s =
     (let m = kbyte s in
      case mpconfig m of
        None \<Rightarrow> Panic ''Expect to run on an SMP''
      | Some (conf, mp) \<Rightarrow>
          (case mp_loop m (conf + ucast (u16_at m (conf + 4))) (conf + 44) True (s\<lparr>lapic := u32_at m (conf + 36)\<rparr>) of
             None \<Rightarrow> Blocked s
           | Some (ismp, s') \<Rightarrow>
               if \<not> ismp then Panic unsuitable_msg
               else whenM (m (mp + 12) \<noteq> 0) (stmts [
                 outb 0x22 0x70,
                 bnd (inb 0x23) (\<lambda>v. outb 0x23 (v OR 1))]) s'))"

section \<open>Tables as lists of entries\<close>

datatype mpentry = MP_proc uchar | MP_ioapic uchar | MP_bus | MP_iointr | MP_lintr

fun entry_type :: "mpentry \<Rightarrow> uchar" where
  "entry_type (MP_proc a) = 0" | "entry_type (MP_ioapic a) = 2" | "entry_type MP_bus = 1"
| "entry_type MP_iointr = 3" | "entry_type MP_lintr = 4"

fun entry_size :: "mpentry \<Rightarrow> uint" where
  "entry_size (MP_proc a) = 20" | "entry_size _ = 8"

fun entry_at :: "kmemory \<Rightarrow> uint \<Rightarrow> mpentry \<Rightarrow> bool" where
  "entry_at m p (MP_proc a) \<longleftrightarrow> m p = 0 \<and> m (p + 1) = a"
| "entry_at m p (MP_ioapic a) \<longleftrightarrow> m p = 2 \<and> m (p + 1) = a"
| "entry_at m p x \<longleftrightarrow> m p = entry_type x"

text \<open>\<open>es\<close> are the entries from \<open>p\<close> on, up to \<open>q\<close>; every one begins before \<open>e\<close>.\<close>

fun laid :: "kmemory \<Rightarrow> uint \<Rightarrow> mpentry list \<Rightarrow> uint \<Rightarrow> uint \<Rightarrow> bool" where
  "laid m p [] q e \<longleftrightarrow> q = p"
| "laid m p (x # es) q e \<longleftrightarrow> p < e \<and> entry_at m p x \<and> laid m (p + entry_size x) es q e"

fun use_entry :: "mpentry \<Rightarrow> 'z kdev_scheme \<Rightarrow> 'z kdev_scheme" where
  "use_entry (MP_proc a) s = add_cpu a s"
| "use_entry (MP_ioapic a) s = s\<lparr>ioapicid := a\<rparr>"
| "use_entry _ s = s"

fun procs_of :: "mpentry list \<Rightarrow> uchar list" where
  "procs_of [] = []"
| "procs_of (MP_proc a # es) = a # procs_of es"
| "procs_of (_ # es) = procs_of es"

lemma mp_loop_laid: "laid m p es q e \<Longrightarrow> mp_loop m e p b s = mp_loop m e q b (fold use_entry es s)"
proof (induction es arbitrary: p s)
  case (Cons x es)
  from Cons.prems have "mp_loop m e p b s = mp_loop m e (p + entry_size x) b (use_entry x s)"
    by (subst mp_loop.simps) (cases x; simp)
  with Cons.IH [of "p + entry_size x" "use_entry x s"] Cons.prems show ?case by simp
qed simp

lemma fold_use_entry:
  assumes "length (apicids s) = NCPU" "ncpu s \<le> NCPU" "t = fold use_entry es s"
  shows "ncpu t = min NCPU (ncpu s + length (procs_of es)) \<and> length (apicids t) = NCPU
    \<and> take (ncpu t) (apicids t) = take NCPU (take (ncpu s) (apicids s) @ procs_of es)"
  using assms(1,2) unfolding assms(3)
proof (induction es arbitrary: s)
  case (Cons x es)
  show ?case
  proof (cases x)
    case (MP_proc a)
    show ?thesis
    proof (cases "ncpu s < NCPU")
      case True
      let ?s = "s\<lparr>apicids := (apicids s)[ncpu s := a], ncpu := ncpu s + 1\<rparr>"
      have "take (ncpu ?s) (apicids ?s) = take (ncpu s) (apicids s) @ [a]"
        using True Cons.prems by (simp add: take_Suc_conv_app_nth)
      with Cons.IH [of ?s] True Cons.prems show ?thesis by (auto simp: MP_proc add_cpu_def take_Cons')
    next
      case False
      with Cons.prems have "ncpu s = NCPU" by simp
      with Cons.IH [of s] Cons.prems False show ?thesis by (auto simp: MP_proc add_cpu_def)
    qed
  next
    case (MP_ioapic a)
    with Cons.IH [of "s\<lparr>ioapicid := a\<rparr>"] Cons.prems show ?thesis by auto
  qed (use Cons.IH [of s] Cons.prems in auto)
qed simp

section \<open>What mpinit does with a table\<close>

text \<open>
  C16: On a machine whose configuration table is well formed, \<open>mpinit\<close> returns, and the kernel
  knows the first \<open>NCPU\<close> processors of the table, by their APIC ids in the order of the entries, however many
  there are, and the address of the local APIC.
\<close>

theorem mpinit_finds_cpus:
  assumes "mpconfig (kbyte s) = Some (conf, mp)"
    and "laid (kbyte s) (conf + 44) es e e" "e = conf + ucast (u16_at (kbyte s) (conf + 4))"
    and "ncpu s = 0" "length (apicids s) = NCPU"
  shows "\<exists>s'. mpinit s = Ok () s' \<and> ncpu s' = min NCPU (length (procs_of es))
    \<and> take (ncpu s') (apicids s') = take NCPU (procs_of es) \<and> lapic s' = u32_at (kbyte s) (conf + 36)"
proof -
  let ?s = "s\<lparr>lapic := u32_at (kbyte s) (conf + 36)\<rparr>"
  define t where "t = fold use_entry es ?s"
  have "mp_loop (kbyte s) e (conf + 44) True ?s = mp_loop (kbyte s) e e True t"
    unfolding t_def by (rule mp_loop_laid [OF assms(2)])
  also have "\<dots> = Some (True, t)" by (subst mp_loop.simps) simp
  finally have l: "mp_loop (kbyte s) (conf + ucast (u16_at (kbyte s) (conf + 4))) (conf + 44) True ?s = Some (True, t)"
    by (simp add: assms(3))
  have lap: "lapic (fold use_entry es u) = lapic u" for u :: "'a kdev_scheme"
  proof (induction es arbitrary: u)
    case (Cons x es)
    then show ?case by (cases x) (simp_all add: add_cpu_def)
  qed simp
  have "ncpu t = min NCPU (length (procs_of es)) \<and> take (ncpu t) (apicids t) = take NCPU (procs_of es)
      \<and> lapic t = u32_at (kbyte s) (conf + 36)"
    using fold_use_entry [of ?s t es] assms(4,5) by (auto simp: t_def lap)
  moreover have "\<exists>f d. mpinit s = Ok () (t\<lparr>port_in := f, dev_out := d\<rparr>)"
  proof (cases "kbyte s (mp + 12) = 0")
    case True
    then have "mpinit s = Ok () (t\<lparr>port_in := port_in t, dev_out := dev_out t\<rparr>)"
      using l assms(1) by (simp add: mpinit_def)
    then show ?thesis by blast
  next
    case False
    then show ?thesis using l assms(1) by (simp add: mpinit_def run_simps outb_def dev_emit_def) blast
  qed
  ultimately show ?thesis by auto
qed

text \<open>The walk leaves its loop only past the end of the table, and only over entries of known types.\<close>

definition known :: "uchar \<Rightarrow> bool" where
  "known t \<longleftrightarrow> t \<in> {0, 1, 2, 3, 4}"

lemma mp_loop_Some:
  "mp_loop m e p b s = Some (b', s') \<Longrightarrow> b' = b \<and> (p < e \<longrightarrow> known (m p))"
proof (induction m e p b s "(b', s')" rule: mp_loop.raw_induct [rotated, consumes 1])
  case (1 loop m e p b s)
  show ?case
  proof (cases "p < e \<and> \<not> known (m p)")
    case True
    with 1(2) have "loop m e p False s = Some (b', s')" by (simp add: known_def)
    from 1(1) [OF this] True show ?thesis by simp
  next
    case False
    with 1(2) 1(1) show ?thesis by (auto simp: known_def split: if_splits)
  qed
qed

text \<open>
  C17: The check for an unsuitable machine never fires: a table with an entry of an unknown type, reached after
  any entries of known types, keeps \<open>mpinit\<close> in its loop for ever, since the \<open>break\<close> of the default case leaves
  the \<open>switch\<close> and not the loop. The panic that follows the loop is unreachable on every machine.
\<close>

theorem mpinit_never_rejects_table:
  "mpinit s \<noteq> Panic unsuitable_msg \<and>
   (mpconfig (kbyte s) = Some (conf, mp) \<longrightarrow> laid (kbyte s) (conf + 44) es q e
      \<longrightarrow> e = conf + ucast (u16_at (kbyte s) (conf + 4)) \<longrightarrow> q < e \<longrightarrow> \<not> known (kbyte s q) \<longrightarrow> mpinit s = Blocked s)"
proof (intro conjI impI)
  let ?loop = "\<lambda>conf. mp_loop (kbyte s) (conf + ucast (u16_at (kbyte s) (conf + 4))) (conf + 44) True
    (s\<lparr>lapic := u32_at (kbyte s) (conf + 36)\<rparr>)"
  show "mpinit s \<noteq> Panic unsuitable_msg"
  proof (cases "mpconfig (kbyte s)")
    case None
    then show ?thesis by (simp add: mpinit_def unsuitable_msg_def)
  next
    case (Some c)
    obtain conf mp where c: "c = (conf, mp)" by (cases c)
    show ?thesis
    proof (cases "?loop conf")
      case None
      with Some c show ?thesis by (simp add: mpinit_def)
    next
      case l: (Some r)
      obtain b' s' where r: "r = (b', s')" by (cases r)
      from mp_loop_Some [OF l [unfolded r]] l r Some c show ?thesis
        by (simp add: mpinit_def run_simps outb_def dev_emit_def)
    qed
  qed
  assume a: "mpconfig (kbyte s) = Some (conf, mp)" "laid (kbyte s) (conf + 44) es q e"
    "e = conf + ucast (u16_at (kbyte s) (conf + 4))" "q < e" "\<not> known (kbyte s q)"
  have "?loop conf = None"
    using mp_loop_laid [OF a(2), of True "s\<lparr>lapic := u32_at (kbyte s) (conf + 36)\<rparr>"] mp_loop_Some a(3-5)
    by (metis not_None_eq surj_pair)
  then show "mpinit s = Blocked s" using a(1) by (simp add: mpinit_def)
qed

section \<open>Two machines\<close>

text \<open>A table at 0x10100 with one entry, of type \<open>ty\<close> and APIC id \<open>a\<close>; \<open>ck\<close> is its checksum.\<close>

definition demo_table :: "uchar \<Rightarrow> uchar \<Rightarrow> uchar \<Rightarrow> bytes" where
  "demo_table ty a ck = (\<lambda>_. 0)(0 := 0x5F, 1 := 0x4D, 2 := 0x50, 3 := 0x5F, 5 := 1, 6 := 1, 8 := 1, 9 := 4, 10 := 158,
     0x100 := 80, 0x101 := 67, 0x102 := 77, 0x103 := 80, 0x104 := 64, 0x106 := 4, 0x107 := ck,
     0x126 := 0xE0, 0x127 := 0xFE, 0x12C := ty, 0x12D := a)"

definition demo_mp :: "uchar \<Rightarrow> uchar \<Rightarrow> uchar \<Rightarrow> kdev" where
  "demo_mp ty a ck = demo_kdev\<lparr>ncpu := 0, mem := (\<lambda>_ _. 0)(0x80000000 := (\<lambda>_. 0)(0x40F := 0x10), 0x80010000 := demo_table ty a ck)\<rparr>"

definition demo_bytes :: "uchar \<Rightarrow> uchar \<Rightarrow> uchar \<Rightarrow> kmemory" where
  "demo_bytes ty a ck x = (if x AND - 4096 = 0x80000000 then if unat x mod 4096 = 0x40F then 0x10 else 0
     else if x AND - 4096 = 0x80010000 then demo_table ty a ck (unat x mod 4096) else 0)"

lemma kbyte_demo_mp: "kbyte (demo_mp ty a ck) = demo_bytes ty a ck"
  by (auto simp: fun_eq_iff kbyte_def demo_mp_def demo_bytes_def PGROUNDDOWN_def PGSIZE_def)

lemma mpsearch1_first:
  assumes "bytes_at m (P2V a) 4 = map of_char ''_MP_''" "mp_sum m (P2V a) 16 = 0" "len > 0"
  shows "mpsearch1 m a len = Some (P2V a)"
proof -
  have "[0..<(len + 15) div 16] = 0 # [1..<(len + 15) div 16]"
    using assms(3) by (simp add: upt_conv_Cons div_greater_zero_iff)
  then show ?thesis using assms(1,2) by (simp add: mpsearch1_def)
qed

lemma demo_bytes_at: "bytes_at m p 16 = map (\<lambda>i. m (p + i)) [0, 1, 2, 3, 4, 5, 6, 7, 8, 9, 10, 11, 12, 13, 14, 15]"
  "bytes_at m p 4 = map (\<lambda>i. m (p + i)) [0, 1, 2, 3]"
  by (simp_all add: bytes_at_def upt_rec)

lemma demo_search: "mpsearch (demo_bytes ty a ck) = Some 0x80010000"
proof -
  have "mpsearch1 (demo_bytes ty a ck) 0x10000 1024 = Some (P2V 0x10000)"
    by (rule mpsearch1_first)
      (simp_all add: mp_sum_def demo_bytes_at P2V_def KERNBASE_def demo_bytes_def demo_table_def)
  then show ?thesis
    by (simp add: mpsearch_def P2V_def KERNBASE_def demo_bytes_def)
qed

lemma demo_length: "u16_at (demo_bytes ty a ck) 0x80010104 = 64"
  by (simp add: u16_at_def get16_def demo_bytes_def demo_table_def)

lemma demo_sum: "mp_sum (demo_bytes 0 5 169) 0x80010100 64 = 0" "mp_sum (demo_bytes 9 0 165) 0x80010100 64 = 0"
  by (simp_all add: mp_sum_def bytes_at_def upt_rec demo_bytes_def demo_table_def)

lemma demo_config:
  assumes "mp_sum (demo_bytes ty a ck) 0x80010100 64 = 0"
  shows "mpconfig (demo_bytes ty a ck) = Some (0x80010100, 0x80010000)"
proof -
  have "u32_at (demo_bytes ty a ck) 0x80010004 = 0x10100"
    by (simp add: u32_at_def get32_def demo_bytes_def demo_table_def)
  moreover have "bytes_at (demo_bytes ty a ck) 0x80010100 4 = map of_char ''PCMP''"
    by (simp add: demo_bytes_at demo_bytes_def demo_table_def)
  moreover have "demo_bytes ty a ck 0x80010106 = 4" by (simp add: demo_bytes_def demo_table_def)
  ultimately show ?thesis
    using assms by (simp add: mpconfig_def demo_search P2V_def KERNBASE_def demo_length)
qed

lemma demo_entry: "demo_bytes ty a ck 0x8001012C = ty" "demo_bytes ty a ck 0x8001012D = a"
  by (simp_all add: demo_bytes_def demo_table_def)

theorem mpinit_finds_cpus_witness:
  "\<exists>s'. mpinit (demo_mp 0 5 169) = Ok () s' \<and> ncpu s' = 1 \<and> take 1 (apicids s') = [5]"
proof -
  let ?s = "demo_mp 0 5 169"
  have c: "mpconfig (kbyte ?s) = Some (0x80010100, 0x80010000)"
    unfolding kbyte_demo_mp by (rule demo_config [OF demo_sum(1)])
  have l: "laid (kbyte ?s) (0x80010100 + 44) [MP_proc 5] 0x80010140 0x80010140"
    by (simp add: kbyte_demo_mp demo_entry)
  have e: "(0x80010140 :: uint) = 0x80010100 + ucast (u16_at (kbyte ?s) (0x80010100 + 4))"
    by (simp add: kbyte_demo_mp demo_length)
  have "ncpu ?s = 0" "length (apicids ?s) = NCPU"
    by (simp_all add: demo_mp_def demo_kdev_def kcons.defs kino.defs klog.defs NCPU_def)
  from mpinit_finds_cpus [OF c l e this] show ?thesis by (auto simp: NCPU_def)
qed

theorem mpinit_never_rejects_table_witness:
  "mpinit (demo_mp 9 0 165) = Blocked (demo_mp 9 0 165)"
proof -
  let ?s = "demo_mp 9 0 165"
  have c: "mpconfig (kbyte ?s) = Some (0x80010100, 0x80010000)"
    unfolding kbyte_demo_mp by (rule demo_config [OF demo_sum(2)])
  have l: "laid (kbyte ?s) (0x80010100 + 44) [] 0x8001012C 0x80010140" by simp
  have e: "(0x80010140 :: uint) = 0x80010100 + ucast (u16_at (kbyte ?s) (0x80010100 + 4))"
    by (simp add: kbyte_demo_mp demo_length)
  have "\<not> known (kbyte ?s 0x8001012C)" by (simp add: kbyte_demo_mp demo_entry known_def)
  with mpinit_never_rejects_table [of ?s "0x80010100" "0x80010000" "[]" "0x8001012C" "0x80010140"] c l e show ?thesis by simp
qed

end
