(* ===== verification/Mkfs.thy ===== *)
theory Mkfs
  imports Fs
begin

text \<open>
  The builder of file system images (src/mkfs.c), a program of the build host.

  The image is a file of \<open>nsect\<close> sectors; \<open>img\<close> gives their contents. A sector is read and written at the
  offset \<open>sec * BSIZE\<close>, a 32-bit product. The outcome \<open>Panic\<close> is the end of the program with an error (\<open>perror\<close> and
  \<open>exit(1)\<close>, or a failed \<open>assert\<close>); reading past the end of the image file is such an error. The files to store are
  given by their names and what the successive calls of \<open>read\<close> return, \<open>None\<close> when the file cannot be opened.
  The host stores integers with the low byte first.
\<close>

section \<open>The image file\<close>

record mkfs =
  img :: "uint \<Rightarrow> bytes"
  nsect :: nat
  msb :: superblock
  freeinode :: uint
  freeblock :: uint

definition NINODES :: nat where "NINODES = 200"
definition MKFS_FSSIZE :: nat where "MKFS_FSSIZE = 1000"
definition nbitmap :: nat where "nbitmap = MKFS_FSSIZE div (BSIZE * 8) + 1"
definition ninodeblocks :: nat where "ninodeblocks = NINODES div IPB + 1"
definition nlog :: nat where "nlog = nat LOGSIZE"
definition nmeta :: nat where "nmeta = 2 + nlog + ninodeblocks + nbitmap"

definition xshort :: "ushort \<Rightarrow> ushort" where
  "xshort x = get16 ((\<lambda>_. 0)(0 := ucast x, 1 := ucast (drop_bit 8 x))) 0"

definition xint :: "uint \<Rightarrow> uint" where
  "xint x = get32 ((\<lambda>_. 0)(0 := ucast x, 1 := ucast (drop_bit 8 x), 2 := ucast (drop_bit 16 x), 3 := ucast (drop_bit 24 x))) 0"

definition sector_at :: "uint \<Rightarrow> uint" where
  "sector_at sec = (sec * of_nat BSIZE) div of_nat BSIZE"

definition wsect :: "uint \<Rightarrow> bytes \<Rightarrow> (mkfs, unit) kmon" where
  "wsect sec buf = modify (\<lambda>s. s\<lparr>img := (img s)(sector_at sec := buf), nsect := max (nsect s) (unat (sector_at sec) + 1)\<rparr>)"

definition rsect :: "uint \<Rightarrow> (mkfs, bytes) kmon" where
  "rsect sec s = (if unat (sector_at sec) < nsect s then Ok (img s (sector_at sec)) s else Panic ''read'')"

section \<open>Inodes\<close>

definition winode :: "uint \<Rightarrow> dinode \<Rightarrow> (mkfs, unit) kmon" where
  "winode inum ip = bnd (gets (\<lambda>s. IBLOCK inum (msb s))) (\<lambda>bn. bnd (rsect bn) (\<lambda>buf.
     wsect bn (put_dinode buf (dinode_off inum) ip)))"

definition rinode :: "uint \<Rightarrow> (mkfs, dinode) kmon" where
  "rinode inum = bnd (gets (\<lambda>s. IBLOCK inum (msb s))) (\<lambda>bn. bnd (rsect bn) (\<lambda>buf.
     ret (get_dinode buf (dinode_off inum))))"

definition mkfs_ialloc :: "ushort \<Rightarrow> (mkfs, uint) kmon" where
  "mkfs_ialloc ty = bnd (gets freeinode) (\<lambda>inum. sqn (modify (\<lambda>s. s\<lparr>freeinode := freeinode s + 1\<rparr>))
     (sqn (winode inum \<lparr>d_type = xshort ty, d_major = 0, d_minor = 0, d_nlink = xshort 1, d_size = xint 0,
        d_addrs = replicate (NDIRECT + 1) 0\<rparr>)
     (ret inum)))"

section \<open>Blocks\<close>

definition mkfs_bitmap :: "nat \<Rightarrow> bytes" where
  "mkfs_bitmap used = fold (\<lambda>i b. b(i div 8 := b (i div 8) OR push_bit (i mod 8) 1)) [0..<used] (\<lambda>_. 0)"

definition mkfs_balloc :: "int \<Rightarrow> (mkfs, unit) kmon" where
  "mkfs_balloc used =
     (if used \<ge> int (BSIZE * 8) then panic ''assert''
      else bnd (gets (\<lambda>s. sb_bmapstart (msb s))) (\<lambda>b. wsect b (mkfs_bitmap (nat used))))"

definition fresh_block :: "(mkfs, uint) kmon" where
  "fresh_block = bnd (gets freeblock) (\<lambda>b. sqn (modify (\<lambda>s. s\<lparr>freeblock := freeblock s + 1\<rparr>)) (ret b))"

text \<open>The block of the file with number \<open>fbn\<close>, allocated if need be: the inode, changed, and \<open>x\<close>.\<close>

definition set_addr :: "dinode \<Rightarrow> nat \<Rightarrow> uint \<Rightarrow> dinode" where
  "set_addr din k v = din\<lparr>d_addrs := (d_addrs din)[k := v]\<rparr>"

definition indirect_entry :: "dinode \<Rightarrow> nat \<Rightarrow> (mkfs, dinode \<times> uint) kmon" where
  "indirect_entry din k =
     bnd (rsect (xint (d_addrs din ! NDIRECT))) (\<lambda>indirect.
     bnd (if get32 indirect (4 * k) = 0 then
            bnd fresh_block (\<lambda>b. let indirect' = put32 indirect (4 * k) (xint b) in
              sqn (wsect (xint (d_addrs din ! NDIRECT)) indirect') (ret indirect'))
          else ret indirect) (\<lambda>indirect.
       ret (din, xint (get32 indirect (4 * k)))))"

definition iappend_block :: "dinode \<Rightarrow> nat \<Rightarrow> (mkfs, dinode \<times> uint) kmon" where
  "iappend_block din fbn =
     (if fbn < NDIRECT then
        bnd (if xint (d_addrs din ! fbn) = 0 then bnd fresh_block (\<lambda>b. ret (set_addr din fbn (xint b))) else ret din) (\<lambda>din.
          ret (din, xint (d_addrs din ! fbn)))
      else
        bnd (if xint (d_addrs din ! NDIRECT) = 0 then bnd fresh_block (\<lambda>b. ret (set_addr din NDIRECT (xint b))) else ret din) (\<lambda>din.
          indirect_entry din (fbn - NDIRECT)))"

definition poke_bytes :: "bytes \<Rightarrow> nat \<Rightarrow> uchar list \<Rightarrow> bytes" where
  "poke_bytes b k xs = (\<lambda>i. if k \<le> i \<and> i < k + length xs then xs ! (i - k) else b i)"

lemma room_in_block: "unat off < (unat (off div of_nat BSIZE :: uint) + 1) * BSIZE"
proof -
  have "unat (off div of_nat BSIZE :: uint) = unat off div BSIZE"
    by (simp add: unat_div BSIZE_def)
  then show ?thesis by (simp add: BSIZE_def)
qed

text \<open>The loop of \<open>iappend\<close>; \<open>p\<close> are the bytes that are left.\<close>

function iappend_loop :: "dinode \<Rightarrow> uint \<Rightarrow> uchar list \<Rightarrow> (mkfs, dinode \<times> uint) kmon" where
  "iappend_loop din off p =
     (if p = [] then ret (din, off)
      else
        let fbn = unat (off div of_nat BSIZE) in
        if fbn \<ge> MAXFILE then panic ''assert''
        else
          let n1 = min (length p) ((fbn + 1) * BSIZE - unat off) in
          bnd (iappend_block din fbn) (\<lambda>(din, x).
          bnd (rsect x) (\<lambda>buf.
          sqn (wsect x (poke_bytes buf (unat off - fbn * BSIZE) (take n1 p)))
            (iappend_loop din (off + of_nat n1) (drop n1 p)))))"
  by pat_completeness auto

termination iappend_loop
proof (relation "measure (\<lambda>(din, off, p). length p)")
  fix p :: "uchar list" and off :: uint and fbn n1
  assume "p \<noteq> []" "fbn = unat (off div of_nat BSIZE)" "n1 = min (length p) ((fbn + 1) * BSIZE - unat off)"
  then have "0 < n1" "p \<noteq> []" using room_in_block [of off] by simp_all
  then show "((d, off + of_nat n1, drop n1 p), (d', off, p)) \<in> measure (\<lambda>(din, off, p). length p)" for d d'
    by simp
qed simp

declare iappend_loop.simps [simp del]

definition iappend :: "uint \<Rightarrow> uchar list \<Rightarrow> (mkfs, unit) kmon" where
  "iappend inum p = bnd (rinode inum) (\<lambda>din. bnd (iappend_loop din (xint (d_size din)) p) (\<lambda>(din, off).
     winode inum (din\<lparr>d_size := xint off\<rparr>)))"

section \<open>main\<close>

definition dirent_bytes :: "ushort \<Rightarrow> uchar list \<Rightarrow> uchar list" where
  "dirent_bytes inum name = [ucast (xshort inum), ucast (drop_bit 8 (xshort inum))] @ take 14 (name @ replicate 14 0)"

definition sb_layout :: superblock where
  "sb_layout = \<lparr>sb_size = xint (of_nat MKFS_FSSIZE), sb_nblocks = xint (of_nat (MKFS_FSSIZE - nmeta)), sb_ninodes = xint (of_nat NINODES),
     sb_nlog = xint (of_nat nlog), sb_logstart = xint 2, sb_inodestart = xint (of_nat (2 + nlog)),
     sb_bmapstart = xint (of_nat (2 + nlog + ninodeblocks))\<rparr>"

definition sb_bytes :: "superblock \<Rightarrow> bytes" where
  "sb_bytes sb = put32 (put32 (put32 (put32 (put32 (put32 (put32 (\<lambda>_. 0) 0 (sb_size sb)) 4 (sb_nblocks sb)) 8 (sb_ninodes sb))
     12 (sb_nlog sb)) 16 (sb_logstart sb)) 20 (sb_inodestart sb)) 24 (sb_bmapstart sb)"

definition skip_underscore :: "uchar list \<Rightarrow> uchar list" where
  "skip_underscore name = (case name of [] \<Rightarrow> [] | c # cs \<Rightarrow> if c = of_char (CHR ''_'') then cs else name)"

definition mkfs_file :: "uint \<Rightarrow> uchar list \<times> uchar list list option \<Rightarrow> (mkfs, unit) kmon" where
  "mkfs_file rootino f =
     (if of_char (CHR ''/'') \<in> set (fst f) then panic ''assert''
      else case snd f of
        None \<Rightarrow> panic ''open''
      | Some chunks \<Rightarrow> bnd (mkfs_ialloc T_FILE) (\<lambda>inum. stmts [
          iappend rootino (dirent_bytes (ucast inum) (skip_underscore (fst f))),
          forM (takeWhile (\<lambda>c. c \<noteq> []) chunks) (iappend inum)]))"

definition mkfs_main :: "(uchar list \<times> uchar list list option) list \<Rightarrow> (mkfs, unit) kmon" where
  "mkfs_main files = sqn (stmts [
       modify (\<lambda>s. s\<lparr>img := (\<lambda>_ _. 0), nsect := 0, msb := sb_layout, freeinode := 1, freeblock := of_nat nmeta\<rparr>),
       forM [0..<MKFS_FSSIZE] (\<lambda>i. wsect (of_nat i) (\<lambda>_. 0)),
       wsect 1 (sb_bytes sb_layout)])
     (bnd (mkfs_ialloc T_DIR) (\<lambda>rootino. if rootino \<noteq> ROOTINO then panic ''assert'' else stmts [
       iappend rootino (dirent_bytes (ucast rootino) (map of_char ''.'')),
       iappend rootino (dirent_bytes (ucast rootino) (map of_char ''..'')),
       forM files (mkfs_file rootino),
       bnd (rinode rootino) (\<lambda>din.
         winode rootino (din\<lparr>d_size := xint ((xint (d_size din) div of_nat BSIZE + 1) * of_nat BSIZE)\<rparr>)),
       bnd (gets freeblock) (\<lambda>b. mkfs_balloc (sint b))]))"

end
