(* ===== verification/Image.thy ===== *)
theory Image
  imports Mkfs Content
begin

text \<open>
  What the operations of mkfs (src/mkfs.c) do to the image: \<open>iappend\<close> appends to one file and keeps all others,
  \<open>ialloc\<close> makes an empty file, and no two files share a block.

  The references and the contents of a file are those of the kernel's theories (\<open>fref\<close>, \<open>fbyte\<close>), read off the
  image. \<open>AD\<close> gives the addresses in the inode of every file of \<open>N\<close>; while \<open>iappend\<close> runs they are
  ahead of the inode on the image.
\<close>

section \<open>Byte order and sectors\<close>

lemma xint_id [simp]: "xint x = x"
proof -
  have "xint x = get32 (put32 (\<lambda>_. 0) 0 x) 0" by (simp add: xint_def put32_def numeral_2_eq_2 numeral_3_eq_3)
  then show ?thesis by simp
qed

lemma xshort_id [simp]: "xshort x = x"
proof -
  have "xshort x = get16 (put16 (\<lambda>_. 0) 0 x) 0" by (simp add: xshort_def put16_def)
  then show ?thesis by simp
qed

lemma layout_numbers: "nbitmap = 1" "ninodeblocks = 26" "nlog = 30" "nmeta = 59" "MKFS_FSSIZE = 1000"
  by (simp_all add: nbitmap_def ninodeblocks_def nlog_def LOGSIZE_def nmeta_def MKFS_FSSIZE_def BSIZE_def NINODES_def IPB_def DINODE_SIZE_def)

lemma sector_at_small: "unat b \<le> 1000 \<Longrightarrow> sector_at b = b"
  by (simp add: sector_at_def BSIZE_def u32_eq unat_div u32_mult)

lemma rsect_room:
  assumes "rsect x s = Ok buf t" "nsect s = 1000" "unat x \<le> 1000"
  shows "unat x < 1000" "buf = img s x" "t = s"
  using assms sector_at_small by (auto simp: rsect_def split: if_splits)

section \<open>Files on the image\<close>

definition refs_of :: "mkfs \<Rightarrow> (uint \<Rightarrow> uint list) \<Rightarrow> uint \<Rightarrow> nat \<Rightarrow> uint" where
  "refs_of s AD i = fref (img s) (AD i)"

definition bytes_of_file :: "mkfs \<Rightarrow> (uint \<Rightarrow> uint list) \<Rightarrow> uint \<Rightarrow> nat \<Rightarrow> uchar" where
  "bytes_of_file s AD i = fbyte (img s) (refs_of s AD i)"

definition taken :: "mkfs \<Rightarrow> uint set" where
  "taken s = {b. 59 \<le> unat b \<and> unat b < unat (freeblock s)}"

definition image_ok :: "mkfs \<Rightarrow> (uint \<Rightarrow> uint list) \<Rightarrow> uint set \<Rightarrow> bool" where
  "image_ok s AD N \<longleftrightarrow> nsect s = 1000 \<and> 59 \<le> unat (freeblock s) \<and> unat (freeblock s) \<le> 1000
     \<and> (\<forall>b. unat (freeblock s) \<le> unat b \<longrightarrow> unat b < 1000 \<longrightarrow> img s b = (\<lambda>_. 0))
     \<and> (\<forall>i \<in> N. length (AD i) = NDIRECT + 1 \<and> refs_ok (refs_of s AD i) (taken s))
     \<and> (\<forall>i \<in> N. \<forall>j \<in> N. \<forall>k l. refs_of s AD i k = refs_of s AD j l \<longrightarrow> refs_of s AD i k \<noteq> 0 \<longrightarrow> i = j)"

lemma image_okD:
  assumes "image_ok s AD N"
  shows "nsect s = 1000" "59 \<le> unat (freeblock s)" "unat (freeblock s) \<le> 1000"
    "unat (freeblock s) \<le> unat b \<Longrightarrow> unat b < 1000 \<Longrightarrow> img s b = (\<lambda>_. 0)"
    "i \<in> N \<Longrightarrow> length (AD i) = NDIRECT + 1" "i \<in> N \<Longrightarrow> refs_ok (refs_of s AD i) (taken s)"
    "i \<in> N \<Longrightarrow> j \<in> N \<Longrightarrow> refs_of s AD i k = refs_of s AD j l \<Longrightarrow> refs_of s AD i k \<noteq> 0 \<Longrightarrow> i = j"
  using assms unfolding image_ok_def by blast+

lemma taken_range: "image_ok s AD N \<Longrightarrow> i \<in> N \<Longrightarrow> refs_of s AD i k \<noteq> 0 \<Longrightarrow> refs_of s AD i k \<in> taken s"
  using image_okD(6) unfolding refs_ok_def by blast

text \<open>What appending keeps: the other files and the blocks before the data.\<close>

definition same_files :: "uint set \<Rightarrow> mkfs \<Rightarrow> (uint \<Rightarrow> uint list) \<Rightarrow> mkfs \<Rightarrow> (uint \<Rightarrow> uint list) \<Rightarrow> bool" where
  "same_files N s AD s' AD' \<longleftrightarrow> (\<forall>j \<in> N. bytes_of_file s' AD' j = bytes_of_file s AD j)"

definition same_meta :: "mkfs \<Rightarrow> mkfs \<Rightarrow> bool" where
  "same_meta s s' \<longleftrightarrow> (\<forall>b. unat b < 59 \<longrightarrow> img s' b = img s b) \<and> msb s' = msb s \<and> freeinode s' = freeinode s"

lemma same_refl [simp]: "same_files N s AD s AD" "same_meta s s"
  by (simp_all add: same_files_def same_meta_def)

lemma same_trans:
  "same_files N s AD t BD \<Longrightarrow> same_files N t BD u CD \<Longrightarrow> same_files N s AD u CD"
  "same_meta s t \<Longrightarrow> same_meta t u \<Longrightarrow> same_meta s u"
  by (simp_all add: same_files_def same_meta_def)

text \<open>A fresh block for reference \<open>k\<close> of file \<open>i\<close>, which had none.\<close>

lemma attach_block:
  assumes ok: "image_ok s AD N" and i: "i \<in> N" and k: "refs_of s AD i k = 0" and room: "unat (freeblock s) < 1000"
    and s': "freeblock s' = freeblock s + 1" "nsect s' = nsect s"
    and ref: "refs_of s' AD' i = (refs_of s AD i)(k := freeblock s)" "length (AD' i) = NDIRECT + 1"
    and others: "\<And>j. j \<in> N \<Longrightarrow> j \<noteq> i \<Longrightarrow> refs_of s' AD' j = refs_of s AD j \<and> length (AD' j) = NDIRECT + 1"
    and blocks: "\<And>b. b \<noteq> refs_of s AD i MAXFILE \<Longrightarrow> img s' b = img s b"
      "\<And>b. unat b < 59 \<Longrightarrow> img s' b = img s b" "\<And>b. unat (freeblock s) \<le> unat b \<Longrightarrow> img s' b = img s b"
  shows "image_ok s' AD' N" "same_files N s AD s' AD'"
proof -
  note I = image_okD [OF ok]
  have fb: "unat (freeblock s') = unat (freeblock s) + 1" using room by (simp add: s'(1) u32_add)
  have nt: "freeblock s \<notin> taken s" and tk: "taken s' = insert (freeblock s) (taken s)"
    using I(2) by (auto simp: taken_def fb u32_eq)
  have new: "refs_of s AD j l \<noteq> freeblock s" if "j \<in> N" for j l
    using taken_range [OF ok that, of l] nt I(2) by (cases "refs_of s AD j l = 0") auto
  have z: "img s (freeblock s) = (\<lambda>_. 0)" using I(4) room by simp
  have ro: "refs_ok (refs_of s' AD' j) (taken s')" if "j \<in> N" for j
  proof (cases "j = i")
    case True
    then show ?thesis unfolding tk using ref(1) refs_ok_add [OF I(6) [OF i] nt] by simp
  next
    case False
    then show ?thesis using others [OF that False] I(6) [OF that] by (auto simp: refs_ok_def tk)
  qed
  have inj: "a = b" if ab: "a \<in> N" "b \<in> N" and e: "refs_of s' AD' a l = refs_of s' AD' b m" "refs_of s' AD' a l \<noteq> 0" for a b l m
  proof (rule ccontr)
    assume "a \<noteq> b"
    with e ab ref(1) others new I(7) [OF ab, of l m] show False
      by (cases "a = i"; cases "b = i") (auto split: if_splits)
  qed
  have len: "length (AD' j) = NDIRECT + 1" if "j \<in> N" for j
    using ref(2) others [OF that] by (cases "j = i") simp_all
  have zero: "img s' b = (\<lambda>_. 0)" if "unat (freeblock s') \<le> unat b" "unat b < 1000" for b
    using I(4) [of b] blocks(3) [of b] that by (simp add: fb)
  show "image_ok s' AD' N"
    unfolding image_ok_def using I(1,2) room fb ro inj len zero by (simp add: s'(2))
  show "same_files N s AD s' AD'"
    unfolding same_files_def
  proof
    fix j
    assume j: "j \<in> N"
    have keep: "img s' (refs_of s AD j l) = img s (refs_of s AD j l)" if "l < MAXFILE" "refs_of s AD j l \<noteq> 0" for l
    proof (rule blocks(1))
      show "refs_of s AD j l \<noteq> refs_of s AD i MAXFILE"
        using I(7) [OF j i, of l MAXFILE] I(6) [OF i] that unfolding refs_ok_def by (metis less_irrefl)
    qed
    show "bytes_of_file s' AD' j = bytes_of_file s AD j"
    proof (cases "j = i")
      case True
      have zz: "img s' (freeblock s) x = 0" for x using blocks(3) [of "freeblock s"] z by simp
      show ?thesis unfolding bytes_of_file_def True ref(1)
        by (rule fbyte_add) (use k zz keep True in auto)
    next
      case False
      then show ?thesis unfolding bytes_of_file_def using others [OF j False] keep
        by (auto simp: fbyte_def fun_eq_iff less_mult_imp_div_less)
    qed
  qed
qed

lemma refs_of_simps [simp]:
  "refs_of (s\<lparr>freeblock := b\<rparr>) AD = refs_of s AD" "refs_of (s\<lparr>freeinode := b\<rparr>) AD = refs_of s AD"
  by (simp_all add: refs_of_def fun_eq_iff)

lemma refs_of_other: "j \<noteq> i \<Longrightarrow> refs_of s (AD(i := ad)) j = refs_of s AD j"
  by (simp add: refs_of_def)

text \<open>The fresh block goes into the inode, or into the indirect block.\<close>

lemma attach_addr:
  assumes ok: "image_ok s AD N" and i: "i \<in> N" and a: "a \<le> NDIRECT" "AD i ! a = 0" and room: "unat (freeblock s) < 1000"
    and s': "s' = s\<lparr>freeblock := freeblock s + 1\<rparr>" "AD' = AD(i := (AD i)[a := freeblock s])"
  shows "image_ok s' AD' N" "same_files N s AD s' AD'" "refs_of s' AD' i = (refs_of s AD i)(aref a := freeblock s)"
    "\<And>j. j \<in> N \<Longrightarrow> j \<noteq> i \<Longrightarrow> refs_of s' AD' j = refs_of s AD j"
proof -
  note I = image_okD [OF ok]
  have z: "img s (freeblock s) x = 0" for x using I(4) [of "freeblock s"] room by simp
  show r: "refs_of s' AD' i = (refs_of s AD i)(aref a := freeblock s)"
    unfolding s' by (simp add: refs_of_def fref_attach [where D = "img s" and b = "freeblock s", OF I(5) [OF i] a z])
  have k: "refs_of s AD i (aref a) = 0" using a by (simp add: refs_of_def fref_aref)
  have others: "refs_of s' AD' j = refs_of s AD j \<and> length (AD' j) = NDIRECT + 1" if "j \<in> N" "j \<noteq> i" for j
    using that I(5) by (simp add: s' refs_of_def)
  have c: "freeblock s' = freeblock s + 1" "nsect s' = nsect s" "length (AD' i) = NDIRECT + 1"
    "img s' b = img s b" for b using I(5) [OF i] by (simp_all add: s')
  show "image_ok s' AD' N" "same_files N s AD s' AD'"
    using attach_block [OF ok i k room c(1,2) r c(3) others c(4) c(4) c(4)] by blast+
  show "\<And>j. j \<in> N \<Longrightarrow> j \<noteq> i \<Longrightarrow> refs_of s' AD' j = refs_of s AD j" using others by blast
qed

lemma attach_entry:
  assumes ok: "image_ok s AD N" and i: "i \<in> N" and ind: "AD i ! NDIRECT \<noteq> 0" and k: "k < NINDIRECT"
    and e: "get32 (img s (AD i ! NDIRECT)) (4 * k) = 0" and room: "unat (freeblock s) < 1000"
    and s': "s' = s\<lparr>freeblock := freeblock s + 1, img := (img s)(AD i ! NDIRECT := put32 (img s (AD i ! NDIRECT)) (4 * k) (freeblock s))\<rparr>"
  shows "image_ok s' AD N" "same_files N s AD s' AD" "refs_of s' AD i = (refs_of s AD i)(NDIRECT + k := freeblock s)"
    "same_meta s s'" "\<And>j. j \<in> N \<Longrightarrow> j \<noteq> i \<Longrightarrow> refs_of s' AD j = refs_of s AD j"
proof -
  note I = image_okD [OF ok]
  let ?x = "AD i ! NDIRECT"
  have x: "refs_of s AD i MAXFILE = ?x" using NDIRECT_MAXFILE(1) by (simp add: refs_of_def fref_def)
  then have tk: "?x \<in> taken s" using taken_range [OF ok i, of MAXFILE] ind by simp
  show r: "refs_of s' AD i = (refs_of s AD i)(NDIRECT + k := freeblock s)"
    unfolding s' by (simp add: refs_of_def fref_indirect [OF refl ind k])
  have z: "refs_of s AD i (NDIRECT + k) = 0"
    using ind k e by (simp add: refs_of_def fref_def MAXFILE_def)
  have others: "refs_of s' AD j = refs_of s AD j \<and> length (AD j) = NDIRECT + 1" if "j \<in> N" "j \<noteq> i" for j
  proof
    have "AD j ! NDIRECT \<noteq> ?x"
      using I(7) [OF i that(1), of MAXFILE MAXFILE] ind that(2) NDIRECT_MAXFILE(1) by (auto simp: refs_of_def fref_def)
    then show "refs_of s' AD j = refs_of s AD j" unfolding refs_of_def by (intro fref_disk) (simp add: s')
    show "length (AD j) = NDIRECT + 1" by (rule I(5) [OF that(1)])
  qed
  have c: "freeblock s' = freeblock s + 1" "nsect s' = nsect s" by (simp_all add: s')
  have b: "img s' b = img s b" if "b \<noteq> refs_of s AD i MAXFILE" for b using that by (simp add: s' x)
  have b1: "img s' b = img s b" if "unat b < 59" for b using that tk by (auto simp: s' taken_def)
  have b2: "img s' b = img s b" if "unat (freeblock s) \<le> unat b" for b using that tk by (auto simp: s' taken_def)
  show "image_ok s' AD N" "same_files N s AD s' AD"
    using attach_block [OF ok i z room c r I(5) [OF i] others b b1 b2] by blast+
  show "same_meta s s'" using b1 by (simp add: same_meta_def s')
  show "\<And>j. j \<in> N \<Longrightarrow> j \<noteq> i \<Longrightarrow> refs_of s' AD j = refs_of s AD j" using others by blast
qed

section \<open>Appending a block\<close>

lemma fresh_block_run: "fresh_block s = Ok (freeblock s) (s\<lparr>freeblock := freeblock s + 1\<rparr>)"
  by (simp add: fresh_block_def)

definition appended :: "mkfs \<Rightarrow> (uint \<Rightarrow> uint list) \<Rightarrow> uint \<Rightarrow> dinode \<Rightarrow> mkfs \<Rightarrow> dinode \<Rightarrow> uint set \<Rightarrow> bool" where
  "appended s AD i din s' din' N \<longleftrightarrow> image_ok s' (AD(i := d_addrs din')) N
     \<and> same_files N s AD s' (AD(i := d_addrs din')) \<and> same_meta s s' \<and> din' = din\<lparr>d_addrs := d_addrs din'\<rparr>
     \<and> (\<forall>j \<in> N. j \<noteq> i \<longrightarrow> refs_of s' (AD(i := d_addrs din')) j = refs_of s AD j)"

lemma appendedD:
  assumes "appended s AD i din s' din' N"
  shows "image_ok s' (AD(i := d_addrs din')) N" "same_files N s AD s' (AD(i := d_addrs din'))" "same_meta s s'"
    "din' = din\<lparr>d_addrs := d_addrs din'\<rparr>"
    "j \<in> N \<Longrightarrow> j \<noteq> i \<Longrightarrow> refs_of s' (AD(i := d_addrs din')) j = refs_of s AD j"
  using assms by (simp_all add: appended_def)

lemma appended_refl: "image_ok s AD N \<Longrightarrow> AD i = d_addrs din \<Longrightarrow> appended s AD i din s din N"
  by (simp add: appended_def fun_upd_idem)

lemma appended_fresh:
  assumes ok: "image_ok s AD N" and i: "i \<in> N" "AD i = d_addrs din" and a: "a \<le> NDIRECT" "d_addrs din ! a = 0"
    and room: "unat (freeblock s) < 1000"
  shows "appended s AD i din (s\<lparr>freeblock := freeblock s + 1\<rparr>) (set_addr din a (freeblock s)) N"
    "refs_of (s\<lparr>freeblock := freeblock s + 1\<rparr>) (AD(i := d_addrs (set_addr din a (freeblock s)))) i
       = (refs_of s AD i)(aref a := freeblock s)"
proof -
  have "AD i ! a = 0" using i(2) a(2) by simp
  note A = attach_addr [OF ok i(1) a(1) this room refl refl]
  show "appended s AD i din (s\<lparr>freeblock := freeblock s + 1\<rparr>) (set_addr din a (freeblock s)) N"
    using A(1,2,4) i(2) by (simp add: appended_def set_addr_def same_meta_def refs_of_other)
  show "refs_of (s\<lparr>freeblock := freeblock s + 1\<rparr>) (AD(i := d_addrs (set_addr din a (freeblock s)))) i
       = (refs_of s AD i)(aref a := freeblock s)"
    using A(3) i(2) by (simp add: set_addr_def)
qed

lemma taken_sector:
  assumes "image_ok s AD N" "i \<in> N" "refs_of s AD i k \<noteq> 0"
  shows "unat (refs_of s AD i k) < 1000" "sector_at (refs_of s AD i k) = refs_of s AD i k" "59 \<le> unat (refs_of s AD i k)"
proof -
  have t: "refs_of s AD i k \<in> taken s" using taken_range [OF assms] .
  then show "unat (refs_of s AD i k) < 1000" "59 \<le> unat (refs_of s AD i k)"
    using image_okD(3) [OF assms(1)] by (auto simp: taken_def)
  then show "sector_at (refs_of s AD i k) = refs_of s AD i k" by (simp add: sector_at_small)
qed

lemma direct_block:
  assumes ok: "image_ok s AD N" and i: "i \<in> N" "AD i = d_addrs din" and k: "k < NDIRECT"
    and r: "iappend_block din k s = Ok (din', x) s'" and x: "rsect x s' = Ok buf s2"
  shows "appended s AD i din s' din' N" "refs_of s' (AD(i := d_addrs din')) i k = x" "x \<noteq> 0"
proof -
  have len: "length (d_addrs din) = NDIRECT + 1" using image_okD(5) [OF ok i(1)] i(2) by simp
  show "appended s AD i din s' din' N" "refs_of s' (AD(i := d_addrs din')) i k = x" "x \<noteq> 0"
  proof (atomize (full), cases "d_addrs din ! k = 0")
    case True
    with r k len have e: "din' = set_addr din k (freeblock s)" "s' = s\<lparr>freeblock := freeblock s + 1\<rparr>" "x = freeblock s"
      by (auto simp: iappend_block_def fresh_block_run set_addr_def)
    have "unat (freeblock s) < 1000" using rsect_room [OF x] image_okD(1,3) [OF ok] by (simp add: e)
    note A = appended_fresh [OF ok i _ True this] 
    show "appended s AD i din s' din' N \<and> refs_of s' (AD(i := d_addrs din')) i k = x \<and> x \<noteq> 0"
      using A k image_okD(2) [OF ok] by (auto simp: e aref_def)
  next
    case False
    with r k have e: "din' = din" "s' = s" "x = d_addrs din ! k"
      by (auto simp: iappend_block_def)
    show "appended s AD i din s' din' N \<and> refs_of s' (AD(i := d_addrs din')) i k = x \<and> x \<noteq> 0"
      using appended_refl [OF ok i(2)] k False by (simp add: e refs_of_def fref_def)
  qed
qed

lemma entry_block:
  assumes ok: "image_ok s AD N" and i: "i \<in> N" "AD i = d_addrs din" and ind: "d_addrs din ! NDIRECT \<noteq> 0" and k: "k < NINDIRECT"
    and r: "indirect_entry din k s = Ok (din', x) s'" and x: "rsect x s' = Ok buf s2"
  shows "appended s AD i din s' din' N" "refs_of s' (AD(i := d_addrs din')) i (NDIRECT + k) = x" "x \<noteq> 0"
proof -
  let ?i = "d_addrs din ! NDIRECT"
  have m: "refs_of s AD i MAXFILE = ?i" using NDIRECT_MAXFILE(1) i(2) by (simp add: refs_of_def fref_def)
  have sec: "unat ?i < 1000" "sector_at ?i = ?i" using taken_sector [OF ok i(1), of MAXFILE] ind m by simp_all
  note ns = image_okD(1) [OF ok]
  have upd: "AD(i := d_addrs din) = AD" using i(2) by (simp add: fun_upd_idem)
  show "appended s AD i din s' din' N" "refs_of s' (AD(i := d_addrs din')) i (NDIRECT + k) = x" "x \<noteq> 0"
  proof (atomize (full), cases "get32 (img s ?i) (4 * k) = 0")
    case True
    have mx: "max (nsect s) (Suc (unat ?i)) = nsect s" and lt: "unat ?i < nsect s" using sec(1) ns by simp_all
    with True r sec(2) have e: "din' = din" "x = freeblock s"
      "s' = s\<lparr>freeblock := freeblock s + 1, img := (img s)(?i := put32 (img s ?i) (4 * k) (freeblock s))\<rparr>"
      by (auto simp: indirect_entry_def rsect_def fresh_block_run wsect_def Let_def)
    have "unat (freeblock s) < 1000" using rsect_room [OF x] image_okD(1,3) [OF ok] by (simp add: e)
    from attach_entry [OF ok i(1) _ k _ this, of s'] ind True e(3) i(2)
    have A: "image_ok s' AD N" "same_files N s AD s' AD" "refs_of s' AD i = (refs_of s AD i)(NDIRECT + k := freeblock s)" "same_meta s s'"
      "\<And>j. j \<in> N \<Longrightarrow> j \<noteq> i \<Longrightarrow> refs_of s' AD j = refs_of s AD j"
      by simp_all
    show "appended s AD i din s' din' N \<and> refs_of s' (AD(i := d_addrs din')) i (NDIRECT + k) = x \<and> x \<noteq> 0"
      using A image_okD(2) [OF ok] by (auto simp: appended_def e(1,2) upd)
  next
    case False
    with r sec ns have e: "din' = din" "s' = s" "x = get32 (img s ?i) (4 * k)"
      by (auto simp: indirect_entry_def rsect_def)
    show "appended s AD i din s' din' N \<and> refs_of s' (AD(i := d_addrs din')) i (NDIRECT + k) = x \<and> x \<noteq> 0"
      using appended_refl [OF ok i(2)] False ind k i(2) by (simp add: e upd refs_of_def fref_def MAXFILE_def)
  qed
qed

lemma appended_trans:
  assumes "appended s AD i din t din1 N" "appended t (AD(i := d_addrs din1)) i din1 u din2 N"
  shows "appended s AD i din u din2 N"
proof -
  note A = appendedD [OF assms(1)] and B = appendedD [OF assms(2)]
  have "din2 = din\<lparr>d_addrs := d_addrs din2\<rparr>" using A(4) B(4) by (metis dinode.update_convs(6) dinode.surjective)
  moreover have "refs_of u (AD(i := d_addrs din2)) j = refs_of s AD j" if "j \<in> N" "j \<noteq> i" for j
    using A(5) [OF that] B(5) [OF that] unfolding fun_upd_upd by simp
  ultimately show ?thesis using A B same_trans unfolding appended_def fun_upd_upd by blast
qed

lemma append_block:
  assumes ok: "image_ok s AD N" and i: "i \<in> N" "AD i = d_addrs din" and k: "k < MAXFILE"
    and r: "iappend_block din k s = Ok (din', x) s'" and x: "rsect x s' = Ok buf s2"
  shows "appended s AD i din s' din' N \<and> refs_of s' (AD(i := d_addrs din')) i k = x \<and> x \<noteq> 0"
proof (cases "k < NDIRECT")
  case True
  from direct_block [OF ok i True r x] show ?thesis by blast
next
  case False
  then have kk: "k - NDIRECT < NINDIRECT" "NDIRECT + (k - NDIRECT) = k" using k by (simp_all add: MAXFILE_def)
  have len: "length (d_addrs din) = NDIRECT + 1" using image_okD(5) [OF ok i(1)] i(2) by simp
  show ?thesis
  proof (cases "d_addrs din ! NDIRECT = 0")
    case True
    let ?d = "set_addr din NDIRECT (freeblock s)" and ?s = "s\<lparr>freeblock := freeblock s + 1\<rparr>"
    from r True False have e: "indirect_entry ?d (k - NDIRECT) ?s = Ok (din', x) s'"
      by (simp add: iappend_block_def fresh_block_run)
    have fb: "d_addrs ?d ! NDIRECT = freeblock s" using len by (simp add: set_addr_def)
    have "unat (sector_at (freeblock s)) < 1000"
      using e image_okD(1) [OF ok] by (auto simp: indirect_entry_def rsect_def fb bnd_def split: if_splits)
    then have room: "unat (freeblock s) < 1000" using sector_at_small image_okD(3) [OF ok] by simp
    note A = appended_fresh [OF ok i le_refl True room]
    note B = appendedD [OF A(1)]
    have "freeblock s \<noteq> 0" using image_okD(2) [OF ok] by auto
    with fb have nz: "d_addrs ?d ! NDIRECT \<noteq> 0" by simp
    from entry_block [OF B(1) i(1) _ nz kk(1) e x] kk(2)
    have C: "appended ?s (AD(i := d_addrs ?d)) i ?d s' din' N" "refs_of s' (AD(i := d_addrs din')) i k = x" "x \<noteq> 0"
      by simp_all
    with appended_trans [OF A(1)] show ?thesis by blast
  next
    case nz: False
    with r False have "indirect_entry din (k - NDIRECT) s = Ok (din', x) s'" by (simp add: iappend_block_def)
    from entry_block [OF ok i nz kk(1) this x] kk(2) show ?thesis by simp
  qed
qed

section \<open>Appending bytes\<close>

lemma write_block:
  assumes ok: "image_ok s AD N" and i: "i \<in> N" and k: "k < MAXFILE" and x: "refs_of s AD i k = x" "x \<noteq> 0"
    and s': "s' = s\<lparr>img := (img s)(x := d)\<rparr>"
  shows "image_ok s' AD N" "same_meta s s'" "\<And>j. j \<in> N \<Longrightarrow> refs_of s' AD j = refs_of s AD j"
    "\<And>j. j \<in> N \<Longrightarrow> j \<noteq> i \<Longrightarrow> bytes_of_file s' AD j = bytes_of_file s AD j"
    "bytes_of_file s' AD i y = (if y < MAXFILE * BSIZE \<and> y div BSIZE = k then d (y mod BSIZE) else bytes_of_file s AD i y)"
proof -
  note I = image_okD [OF ok]
  note t = taken_range [OF ok i, of k, unfolded x(1), OF x(2)]
  have other: "refs_of s AD j l \<noteq> x" if "j \<in> N" "j \<noteq> i \<or> l \<noteq> k" for j l
    using I(7) [OF that(1) i, of l k] I(6) [OF i] that(2) x unfolding refs_ok_def by metis
  show R: "refs_of s' AD j = refs_of s AD j" if "j \<in> N" for j
  proof (cases "AD j ! NDIRECT = 0")
    case True
    then show ?thesis by (simp add: refs_of_def fref_def fun_eq_iff)
  next
    case False
    have "AD j ! NDIRECT \<noteq> x" using other [OF that, of MAXFILE] k NDIRECT_MAXFILE(1) by (simp add: refs_of_def fref_def)
    then show ?thesis unfolding refs_of_def by (intro fref_disk) (simp add: s')
  qed
  have tk: "taken s' = taken s" by (simp add: taken_def s')
  have "img s' b = (\<lambda>_. 0)" if "unat (freeblock s) \<le> unat b" "unat b < 1000" for b
    using I(4) [OF that] that t by (auto simp: s' taken_def)
  then show "image_ok s' AD N"
    using I(1-3) I(5-7) R unfolding image_ok_def by (simp add: tk) (simp add: s')
  show "same_meta s s'" using t by (auto simp: same_meta_def s' taken_def)
  show "bytes_of_file s' AD j = bytes_of_file s AD j" if "j \<in> N" "j \<noteq> i" for j
    using R [OF that(1)] other [OF that(1)] that(2) by (auto simp: bytes_of_file_def fbyte_def s' fun_eq_iff)
  show "bytes_of_file s' AD i y = (if y < MAXFILE * BSIZE \<and> y div BSIZE = k then d (y mod BSIZE) else bytes_of_file s AD i y)"
    using R [OF i] other [OF i] x by (auto simp: bytes_of_file_def fbyte_def s')
qed

lemma next_chunk:
  assumes "p \<noteq> []"
  shows "min (length p) ((unat off div BSIZE + 1) * BSIZE - unat off) = chunk (length p) (unat off)"
    "unat off - unat off div BSIZE * BSIZE = unat off mod BSIZE" "0 < chunk (length p) (unat off)"
    "unat off + chunk (length p) (unat off) \<le> (unat off div BSIZE + 1) * BSIZE"
proof -
  have B: "0 < BSIZE" "unat off mod BSIZE < BSIZE" by (simp_all add: BSIZE_def)
  have e: "unat off = unat off div BSIZE * BSIZE + unat off mod BSIZE" by simp
  have r: "(unat off div BSIZE + 1) * BSIZE - unat off = BSIZE - unat off mod BSIZE"
    using e B(2) unfolding add_mult_distrib by linarith
  then show "min (length p) ((unat off div BSIZE + 1) * BSIZE - unat off) = chunk (length p) (unat off)"
    by (simp add: chunk_def)
  show "unat off - unat off div BSIZE * BSIZE = unat off mod BSIZE" by (rule minus_div_mult_eq_mod)
  show "0 < chunk (length p) (unat off)" using B assms by (simp add: chunk_def)
  show "unat off + chunk (length p) (unat off) \<le> (unat off div BSIZE + 1) * BSIZE"
    using e B(2) unfolding chunk_def add_mult_distrib by linarith
qed

definition file_appended :: "uint set \<Rightarrow> uint \<Rightarrow> nat \<Rightarrow> uchar list \<Rightarrow> mkfs \<Rightarrow> (uint \<Rightarrow> uint list) \<Rightarrow> mkfs \<Rightarrow> (uint \<Rightarrow> uint list) \<Rightarrow> bool" where
  "file_appended N i off p s AD s' AD' \<longleftrightarrow> image_ok s' AD' N \<and> same_meta s s'
     \<and> (\<forall>j \<in> N. j \<noteq> i \<longrightarrow> bytes_of_file s' AD' j = bytes_of_file s AD j \<and> refs_of s' AD' j = refs_of s AD j \<and> AD' j = AD j)
     \<and> (\<forall>y. bytes_of_file s' AD' i y = (if off \<le> y \<and> y < off + length p then p ! (y - off) else bytes_of_file s AD i y))"

lemma iappend_step:
  assumes ok: "image_ok s AD N" and i: "i \<in> N" "AD i = d_addrs din" and k: "unat off div BSIZE < MAXFILE"
    and r: "iappend_block din (unat off div BSIZE) s = Ok (din', x) s1" and b: "rsect x s1 = Ok buf s2"
    and m: "m = chunk n (unat off)" "length q = m"
    and w: "wsect x (poke_bytes buf (unat off mod BSIZE) q) s2 = Ok () s'"
  shows "file_appended N i (unat off) q s AD s' (AD(i := d_addrs din'))" "din' = din\<lparr>d_addrs := d_addrs din'\<rparr>"
    "refs_of s' (AD(i := d_addrs din')) i = refs_of s1 (AD(i := d_addrs din')) i" "freeblock s' = freeblock s1"
proof -
  let ?k = "unat off div BSIZE" and ?AD = "AD(i := d_addrs din')"
  have A: "appended s AD i din s1 din' N" and x: "refs_of s1 ?AD i ?k = x" "x \<noteq> 0"
    using append_block [OF ok i k r b] by blast+
  note D = appendedD [OF A]
  show "din' = din\<lparr>d_addrs := d_addrs din'\<rparr>" by (rule D(4))
  have sec: "unat x < 1000" "sector_at x = x" using taken_sector [OF D(1) i(1), of ?k] x by simp_all
  note ns = image_okD(1) [OF D(1)]
  have buf: "buf = img s1 x" "s2 = s1" using rsect_room [OF b ns] sec(1) by simp_all
  have mx: "max (nsect s1) (Suc (unat x)) = nsect s1" using sec(1) ns by simp
  have s': "s' = s1\<lparr>img := (img s1)(x := poke_bytes (img s1 x) (unat off mod BSIZE) q)\<rparr>"
    using w by (simp add: wsect_def buf sec(2) mx)
  note W = write_block [OF D(1) i(1) k x s']
  show "refs_of s' ?AD i = refs_of s1 ?AD i" "freeblock s' = freeblock s1" using W(3) [OF i(1)] by (simp_all add: s')
  have old: "bytes_of_file s1 ?AD j = bytes_of_file s AD j" if "j \<in> N" for j
    using D(2) that by (simp add: same_files_def)
  have mo: "m \<le> BSIZE - unat off mod BSIZE" using m by (simp add: chunk_def)
  have new: "bytes_of_file s' ?AD i y = (if unat off \<le> y \<and> y < unat off + length q then q ! (y - unat off) else bytes_of_file s AD i y)" for y
  proof (cases "unat off \<le> y \<and> y < unat off + m")
    case True
    note c = in_chunk [of "unat off" y n] 
    define t where "t = y - unat off"
    have "y div BSIZE = ?k" "y mod BSIZE = unat off mod BSIZE + t" using c True m unfolding t_def by simp_all
    moreover have "y < MAXFILE * BSIZE" using k \<open>y div BSIZE = ?k\<close> div_less_iff_less_mult [of BSIZE y MAXFILE] by (simp add: BSIZE_def)
    moreover have "t < length q" using True m(2) unfolding t_def by linarith
    ultimately have "bytes_of_file s' ?AD i y = q ! t" using W(5) [of y] by (simp add: poke_bytes_def)
    then show ?thesis using True m(2) by (simp add: t_def)
  next
    case False
    have "poke_bytes (img s1 x) (unat off mod BSIZE) q (y mod BSIZE) = img s1 x (y mod BSIZE)" if "y div BSIZE = ?k"
      using False out_of_chunk [OF that, of m] m(2) by (auto simp: poke_bytes_def)
    moreover have "bytes_of_file s1 ?AD i y = img s1 x (y mod BSIZE)" if "y div BSIZE = ?k" "y < MAXFILE * BSIZE"
      using that x by (simp add: bytes_of_file_def fbyte_def)
    ultimately show ?thesis using False m(2) W(5) [of y] old [OF i(1)] by auto
  qed
  show "file_appended N i (unat off) q s AD s' ?AD"
    unfolding file_appended_def using W(1-4) D(3,5) same_trans(2) old new by auto
qed

lemma unat_div_BSIZE: "unat (off div of_nat BSIZE :: uint) = unat off div BSIZE"
  by (simp add: unat_div BSIZE_def)

lemma file_appended_trans:
  assumes "file_appended N i off p s AD t BD" "file_appended N i (off + length p) q t BD u CD"
  shows "file_appended N i off (p @ q) s AD u CD"
proof -
  have "bytes_of_file u CD i y = (if off \<le> y \<and> y < off + length (p @ q) then (p @ q) ! (y - off) else bytes_of_file s AD i y)" for y
    using assms unfolding file_appended_def by (auto simp: nth_append)
  then show ?thesis using assms same_trans(2) unfolding file_appended_def by auto
qed

lemma file_appended_Nil: "image_ok s AD N \<Longrightarrow> file_appended N i off [] s AD s AD"
  by (auto simp: file_appended_def)

lemma iappend_loop_next:
  fixes off :: uint
  assumes "p \<noteq> []"
  defines "k \<equiv> unat off div BSIZE" and "m \<equiv> chunk (length p) (unat off)"
  shows "iappend_loop din off p = (if MAXFILE \<le> k then panic ''assert'' else bnd (iappend_block din k) (\<lambda>(din, x). bnd (rsect x) (\<lambda>buf.
    sqn (wsect x (poke_bytes buf (unat off mod BSIZE) (take m p))) (iappend_loop din (off + of_nat m) (drop m p)))))"
  unfolding k_def m_def using assms(1)
  by (subst iappend_loop.simps) (simp only: if_False Let_def unat_div_BSIZE next_chunk [OF assms(1)])

lemma iappend_loop_spec:
  assumes "iappend_loop din off p s = Ok (din', off') s'" "image_ok s AD N" "i \<in> N" "AD i = d_addrs din"
    "unat off \<le> MAXFILE * BSIZE"
  shows "file_appended N i (unat off) p s AD s' (AD(i := d_addrs din')) \<and> unat off' = unat off + length p
    \<and> unat off' \<le> MAXFILE * BSIZE \<and> din' = din\<lparr>d_addrs := d_addrs din'\<rparr>"
  using assms
proof (induction din off p arbitrary: s AD rule: iappend_loop.induct)
  case (1 din off p)
  show ?case
  proof (cases "p = []")
    case True
    with 1(2) have "din' = din" "off' = off" "s' = s" by (subst (asm) iappend_loop.simps, simp)+
    with 1(3,5,6) True show ?thesis by (simp add: fun_upd_idem file_appended_Nil)
  next
    case False
    let ?k = "unat off div BSIZE" and ?m = "chunk (length p) (unat off)"
    note C = next_chunk [OF False, of off]
    have r: "\<not> MAXFILE \<le> ?k \<and> bnd (iappend_block din ?k) (\<lambda>(din, x). bnd (rsect x) (\<lambda>buf.
          sqn (wsect x (poke_bytes buf (unat off mod BSIZE) (take ?m p))) (iappend_loop din (off + of_nat ?m) (drop ?m p)))) s
        = Ok (din', off') s'"
      using 1(2) unfolding iappend_loop_next [OF False] by (simp split: if_splits)
    then have k: "?k < MAXFILE" by simp
    from r obtain din1 x s1 buf s2 s3 where b: "iappend_block din ?k s = Ok (din1, x) s1" "rsect x s1 = Ok buf s2"
      "wsect x (poke_bytes buf (unat off mod BSIZE) (take ?m p)) s2 = Ok () s3"
      and l: "iappend_loop din1 (off + of_nat ?m) (drop ?m p) s3 = Ok (din', off') s'"
      by (auto simp: bnd_Ok_iff sqn_Ok_iff)
    have len: "length (take ?m p) = ?m" by (simp add: chunk_def)
    have A: "file_appended N i (unat off) (take ?m p) s AD s3 (AD(i := d_addrs din1))" "din1 = din\<lparr>d_addrs := d_addrs din1\<rparr>"
      by (rule iappend_step [OF 1(3,4,5) k b(1,2) refl len b(3)])+
    have ok3: "image_ok s3 (AD(i := d_addrs din1)) N" using A(1) by (simp add: file_appended_def)
    have le: "unat off + ?m \<le> MAXFILE * BSIZE" using C(4) k mult_le_mono1 [of "?k + 1" MAXFILE BSIZE] by linarith
    then have off: "unat (off + of_nat ?m) = unat off + ?m"
      by (simp add: u32_add u32_of_nat MAXFILE_def NDIRECT_def NINDIRECT_def BSIZE_def)
    have "file_appended N i (unat (off + of_nat ?m)) (drop ?m p) s3 (AD(i := d_addrs din1)) s' ((AD(i := d_addrs din1))(i := d_addrs din'))
      \<and> unat off' = unat (off + of_nat ?m) + length (drop ?m p) \<and> unat off' \<le> MAXFILE * BSIZE \<and> din' = din1\<lparr>d_addrs := d_addrs din'\<rparr>"
      by (rule 1(1) [OF False unat_div_BSIZE [symmetric] _ C(1) [symmetric] l ok3 1(4)]) (use k off le in simp_all)
    note L = this
    have "file_appended N i (unat off + length (take ?m p)) (drop ?m p) s3 (AD(i := d_addrs din1)) s' (AD(i := d_addrs din'))"
      using L unfolding len off fun_upd_upd by blast
    from file_appended_trans [OF A(1) this]
    have "file_appended N i (unat off) (take ?m p @ drop ?m p) s AD s' (AD(i := d_addrs din'))" .
    moreover have "din' = din\<lparr>d_addrs := d_addrs din'\<rparr>" using A(2) L by (metis dinode.update_convs(6) dinode.surjective)
    moreover have "unat off' = unat off + length p" using L off by (simp add: chunk_def)
    ultimately show ?thesis using L unfolding append_take_drop_id by blast
  qed
qed

section \<open>The inode table of the image\<close>

definition inode_at :: "mkfs \<Rightarrow> uint \<Rightarrow> dinode" where
  "inode_at s i = get_dinode (img s (IBLOCK i (msb s))) (dinode_off i)"

definition disk_addrs :: "mkfs \<Rightarrow> uint \<Rightarrow> uint list" where
  "disk_addrs s i = d_addrs (inode_at s i)"

lemma layout [simp]:
  "sb_inodestart sb_layout = 32" "sb_bmapstart sb_layout = 58" "sb_size sb_layout = 1000" "sb_ninodes sb_layout = 200"
  by (simp_all add: sb_layout_def layout_numbers NINODES_def)

lemma IBLOCK_layout: "unat i < 208 \<Longrightarrow> unat (IBLOCK i sb_layout) = unat i div 8 + 32"
  by (simp add: IBLOCK_def IPB_def BSIZE_def DINODE_SIZE_def u32_add unat_div)

lemma IBLOCK_meta:
  assumes "unat i < 208"
  shows "unat (IBLOCK i sb_layout) < 58" "32 \<le> unat (IBLOCK i sb_layout)" "sector_at (IBLOCK i sb_layout) = IBLOCK i sb_layout"
proof -
  show *: "unat (IBLOCK i sb_layout) < 58" "32 \<le> unat (IBLOCK i sb_layout)"
    using assms by (simp_all add: IBLOCK_layout)
  then show "sector_at (IBLOCK i sb_layout) = IBLOCK i sb_layout" by (simp add: sector_at_small)
qed

text \<open>The state of a builder that has made the files \<open>N\<close>, and the bytes of a file up to its size.\<close>

definition fs_ok :: "mkfs \<Rightarrow> uint set \<Rightarrow> bool" where
  "fs_ok s N \<longleftrightarrow> msb s = sb_layout \<and> (\<forall>i \<in> N. unat i < 208) \<and> image_ok s (disk_addrs s) N
     \<and> (\<forall>i \<in> N. unat (d_size (inode_at s i)) \<le> MAXFILE * BSIZE)"

definition file_size :: "mkfs \<Rightarrow> uint \<Rightarrow> nat" where
  "file_size s i = unat (d_size (inode_at s i))"

definition file_list :: "mkfs \<Rightarrow> uint \<Rightarrow> uchar list" where
  "file_list s i = map (bytes_of_file s (disk_addrs s) i) [0..<file_size s i]"

lemma fs_okD:
  assumes "fs_ok s N"
  shows "msb s = sb_layout" "i \<in> N \<Longrightarrow> unat i < 208" "image_ok s (disk_addrs s) N"
    "i \<in> N \<Longrightarrow> unat (d_size (inode_at s i)) \<le> MAXFILE * BSIZE" "nsect s = 1000"
  using assms by (auto simp: fs_ok_def image_ok_def)

lemma meta_write:
  assumes ok: "image_ok s AD N" and s': "s' = s\<lparr>img := (img s)(b := d)\<rparr>" "unat b < 59"
  shows "image_ok s' AD N" "\<And>j. j \<in> N \<Longrightarrow> bytes_of_file s' AD j = bytes_of_file s AD j"
    "\<And>j. j \<in> N \<Longrightarrow> refs_of s' AD j = refs_of s AD j"
proof -
  note I = image_okD [OF ok]
  have ne: "refs_of s AD j l \<noteq> b" if "j \<in> N" "refs_of s AD j l \<noteq> 0" for j l
    using taken_sector(3) [OF ok that] s'(2) by auto
  show R: "refs_of s' AD j = refs_of s AD j" if "j \<in> N" for j
  proof (cases "AD j ! NDIRECT = 0")
    case True
    then show ?thesis by (simp add: refs_of_def fref_def fun_eq_iff)
  next
    case False
    have "AD j ! NDIRECT \<noteq> b" using ne [OF that, of MAXFILE] False NDIRECT_MAXFILE(1) by (simp add: refs_of_def fref_def)
    then show ?thesis unfolding refs_of_def by (intro fref_disk) (simp add: s')
  qed
  have tk: "taken s' = taken s" by (simp add: taken_def s')
  have "img s' c = (\<lambda>_. 0)" if "unat (freeblock s) \<le> unat c" "unat c < 1000" for c
    using I(2) I(4) [OF that] that s'(2) by (auto simp: s'(1))
  then show "image_ok s' AD N"
    using I(1-3) I(5-7) R unfolding image_ok_def by (simp add: tk) (simp add: s')
  show "bytes_of_file s' AD j = bytes_of_file s AD j" if "j \<in> N" for j
    using that R [of j] ne [of j] by (auto simp: bytes_of_file_def fbyte_def s' fun_eq_iff)
qed

lemma image_ok_cong:
  assumes "image_ok s AD N" "\<And>i. i \<in> N \<Longrightarrow> AD' i = AD i"
  shows "image_ok s AD' N"
proof -
  have "refs_of s AD' i = refs_of s AD i" if "i \<in> N" for i using assms(2) [OF that] by (simp add: refs_of_def)
  then show ?thesis using assms unfolding image_ok_def by simp
qed

lemma refs_of_cong: "AD' i = AD i \<Longrightarrow> refs_of s AD' i = refs_of s AD i"
  by (simp add: refs_of_def)

lemma bytes_of_file_cong: "AD' i = AD i \<Longrightarrow> bytes_of_file s AD' i = bytes_of_file s AD i"
  by (simp add: bytes_of_file_def refs_of_def)

lemma rinode_run:
  assumes "msb s = sb_layout" "unat i < 208" "nsect s = 1000"
  shows "rinode i s = Ok (inode_at s i) s"
  using assms IBLOCK_meta [OF assms(2)] by (simp add: rinode_def rsect_def inode_at_def)

lemma winode_run:
  assumes "msb s = sb_layout" "unat i < 208" "nsect s = 1000"
  defines "b \<equiv> IBLOCK i sb_layout"
  shows "winode i d s = Ok () (s\<lparr>img := (img s)(b := put_dinode (img s b) (dinode_off i) d)\<rparr>)"
proof -
  have "max (nsect s) (Suc (unat b)) = nsect s" using IBLOCK_meta(1) [OF assms(2)] assms(3) by (simp add: b_def)
  then show ?thesis using assms(1-3) IBLOCK_meta [OF assms(2)] by (simp add: winode_def rsect_def wsect_def b_def)
qed

lemma inode_at_write:
  assumes "msb s = sb_layout" "unat i < 208" "unat j < 208" "length (d_addrs d) = NDIRECT + 1"
  defines "b \<equiv> IBLOCK i sb_layout"
  shows "inode_at (s\<lparr>img := (img s)(b := put_dinode (img s b) (dinode_off i) d)\<rparr>) j = (if j = i then d else inode_at s j)"
proof (cases "j = i")
  case True
  then show ?thesis using assms(1,4) by (simp add: inode_at_def b_def get_put_dinode)
next
  case False
  show ?thesis
  proof (cases "IBLOCK j sb_layout = b")
    case True
    have "unat j div 8 = unat i div 8" using True assms(2,3) IBLOCK_layout unfolding b_def by (metis add_right_imp_eq)
    moreover have "unat j \<noteq> unat i" using False by (simp add: u32_eq)
    ultimately have "unat j mod 8 \<noteq> unat i mod 8" by (metis div_mult_mod_eq)
    then have "dinode_off i + DINODE_SIZE \<le> dinode_off j \<or> dinode_off j + DINODE_SIZE \<le> dinode_off i"
      by (simp add: dinode_off_def IPB_def BSIZE_def DINODE_SIZE_def) linarith
    with True False assms(1) show ?thesis by (simp add: inode_at_def get_put_dinode_other)
  next
    case other: False
    with False assms(1) show ?thesis by (simp add: inode_at_def)
  qed
qed

section \<open>iappend\<close>

text \<open>Writing back the inode of a file whose addresses have run ahead of it.\<close>

lemma write_inode:
  assumes ok: "image_ok s AD N" and lay: "msb s = sb_layout" "\<And>j. j \<in> N \<Longrightarrow> unat j < 208" and i: "unat i < 208"
    and AD: "\<And>j. j \<in> N \<Longrightarrow> j \<noteq> i \<Longrightarrow> AD j = disk_addrs s j" "i \<in> N \<Longrightarrow> AD i = d_addrs d" "length (d_addrs d) = NDIRECT + 1"
    and size: "unat (d_size d) \<le> MAXFILE * BSIZE" "\<And>j. j \<in> N \<Longrightarrow> j \<noteq> i \<Longrightarrow> file_size s j \<le> MAXFILE * BSIZE"
    and w: "winode i d s = Ok () s'"
  shows "fs_ok s' N" "inode_at s' i = d" "\<And>j. unat j < 208 \<Longrightarrow> j \<noteq> i \<Longrightarrow> inode_at s' j = inode_at s j"
    "\<And>j. j \<in> N \<Longrightarrow> bytes_of_file s' (disk_addrs s') j = bytes_of_file s AD j"
    "\<And>j. j \<in> N \<Longrightarrow> refs_of s' (disk_addrs s') j = refs_of s AD j"
    "freeblock s' = freeblock s" "freeinode s' = freeinode s" "\<And>b. unat b < 32 \<Longrightarrow> img s' b = img s b"
proof -
  let ?b = "IBLOCK i sb_layout"
  have s': "s' = s\<lparr>img := (img s)(?b := put_dinode (img s ?b) (dinode_off i) d)\<rparr>"
    using w winode_run [OF lay(1) i image_okD(1) [OF ok]] by simp
  have b: "unat ?b < 59" "32 \<le> unat ?b" using IBLOCK_meta(1,2) [OF i] by simp_all
  note M = meta_write [OF ok s' b(1)]
  have at: "inode_at s' j = (if j = i then d else inode_at s j)" if "unat j < 208" for j
    unfolding s' by (rule inode_at_write [OF lay(1) i that AD(3)])
  show "inode_at s' i = d" using at [OF i] by simp
  show "inode_at s' j = inode_at s j" if "unat j < 208" "j \<noteq> i" for j using at [OF that(1)] that(2) by simp
  have da: "disk_addrs s' j = AD j" if "j \<in> N" for j
    using at [OF lay(2) [OF that]] AD(1,2) that by (auto simp: disk_addrs_def)
  have "image_ok s' (disk_addrs s') N" using M(1) by (rule image_ok_cong) (rule da)
  moreover have "unat (d_size (inode_at s' j)) \<le> MAXFILE * BSIZE" if "j \<in> N" for j
    using at [OF lay(2) [OF that]] size that by (auto simp: file_size_def)
  ultimately show "fs_ok s' N" using lay by (simp add: fs_ok_def) (simp add: s')
  show "bytes_of_file s' (disk_addrs s') j = bytes_of_file s AD j" if "j \<in> N" for j
    using bytes_of_file_cong [of "disk_addrs s'" j AD s', OF da [OF that]] M(2) [OF that] by simp
  show "refs_of s' (disk_addrs s') j = refs_of s AD j" if "j \<in> N" for j
    using refs_of_cong [of "disk_addrs s'" j AD s', OF da [OF that]] M(3) [OF that] by simp
  show "freeblock s' = freeblock s" "freeinode s' = freeinode s" by (simp_all add: s')
  show "img s' c = img s c" if "unat c < 32" for c using that b(2) by (auto simp: s')
qed

text \<open>What \<open>iappend\<close> and \<open>ialloc\<close> keep of the rest of the image.\<close>

definition kept :: "uint set \<Rightarrow> mkfs \<Rightarrow> mkfs \<Rightarrow> bool" where
  "kept N s s' \<longleftrightarrow> (\<forall>j \<in> N. inode_at s' j = inode_at s j \<and> bytes_of_file s' (disk_addrs s') j = bytes_of_file s (disk_addrs s) j
       \<and> refs_of s' (disk_addrs s') j = refs_of s (disk_addrs s) j)
     \<and> (\<forall>b. unat b < 32 \<longrightarrow> img s' b = img s b)"

text \<open>The bytes of a file after its end are zero, and it has exactly the blocks that its size calls for.\<close>

definition zero_tail :: "mkfs \<Rightarrow> uint \<Rightarrow> bool" where
  "zero_tail s i \<longleftrightarrow> (\<forall>y \<ge> file_size s i. bytes_of_file s (disk_addrs s) i y = 0)"

definition packed :: "(nat \<Rightarrow> uint) \<Rightarrow> nat \<Rightarrow> bool" where
  "packed R n \<longleftrightarrow> (\<forall>k. R k \<noteq> 0 \<longleftrightarrow> (if k = MAXFILE then NDIRECT * BSIZE < n else k < MAXFILE \<and> k * BSIZE < n))"

definition dense :: "mkfs \<Rightarrow> uint \<Rightarrow> bool" where
  "dense s i \<longleftrightarrow> packed (refs_of s (disk_addrs s) i) (file_size s i)"

lemma keptD:
  assumes "kept N s s'" "j \<in> N"
  shows "inode_at s' j = inode_at s j" "file_list s' j = file_list s j" "file_size s' j = file_size s j"
    "zero_tail s' j = zero_tail s j" "dense s' j = dense s j"
  using assms by (simp_all add: kept_def file_list_def file_size_def zero_tail_def dense_def)

lemma kept_low: "kept N s s' \<Longrightarrow> unat b < 32 \<Longrightarrow> img s' b = img s b"
  by (simp add: kept_def)

lemma kept_trans: "kept N s t \<Longrightarrow> kept N t u \<Longrightarrow> kept N s u"
  by (simp add: kept_def)

lemma kept_mono: "kept N s t \<Longrightarrow> M \<subseteq> N \<Longrightarrow> kept M s t"
  by (auto simp: kept_def)

lemma iappend_spec:
  assumes fs: "fs_ok s N" and i: "i \<in> N" and r: "iappend i p s = Ok () s'"
  shows "fs_ok s' N" "file_list s' i = file_list s i @ p" "kept (N - {i}) s s'" "freeinode s' = freeinode s"
    "d_type (inode_at s' i) = d_type (inode_at s i)" "zero_tail s i \<Longrightarrow> zero_tail s' i"
proof -
  note F = fs_okD [OF fs]
  let ?d = "inode_at s i" and ?AD = "disk_addrs s"
  obtain din off s1 where l: "iappend_loop ?d (d_size ?d) p s = Ok (din, off) s1"
    and w: "winode i (din\<lparr>d_size := off\<rparr>) s1 = Ok () s'"
    using r rinode_run [OF F(1) F(2) [OF i] F(5)] by (auto simp: iappend_def bnd_Ok_iff)
  have "file_appended N i (unat (d_size ?d)) p s ?AD s1 (?AD(i := d_addrs din)) \<and> unat off = unat (d_size ?d) + length p
      \<and> unat off \<le> MAXFILE * BSIZE \<and> din = ?d\<lparr>d_addrs := d_addrs din\<rparr>"
    by (rule iappend_loop_spec [OF l F(3) i]) (use F(4) [OF i] in \<open>simp_all add: disk_addrs_def\<close>)
  then have A: "file_appended N i (unat (d_size ?d)) p s ?AD s1 (?AD(i := d_addrs din))"
    and off: "unat off = unat (d_size ?d) + length p" "unat off \<le> MAXFILE * BSIZE"
    and din: "din = ?d\<lparr>d_addrs := d_addrs din\<rparr>" by blast+
  let ?BD = "?AD(i := d_addrs din)" and ?e = "din\<lparr>d_size := off\<rparr>"
  have ok1: "image_ok s1 ?BD N" and meta: "same_meta s s1" using A by (simp_all add: file_appended_def)
  have msb1: "msb s1 = sb_layout" and fi1: "freeinode s1 = freeinode s" using meta F(1) by (simp_all add: same_meta_def)
  have in1: "inode_at s1 j = inode_at s j" if "unat j < 208" for j
    using IBLOCK_meta(1) [OF that] meta F(1) by (simp add: inode_at_def same_meta_def)
  have len: "length (d_addrs ?e) = NDIRECT + 1" using image_okD(5) [OF ok1 i] by simp
  have W: "fs_ok s' N" "inode_at s' i = ?e" "\<And>j. unat j < 208 \<Longrightarrow> j \<noteq> i \<Longrightarrow> inode_at s' j = inode_at s1 j"
    "\<And>j. j \<in> N \<Longrightarrow> bytes_of_file s' (disk_addrs s') j = bytes_of_file s1 ?BD j" "freeinode s' = freeinode s1"
    "\<And>j. j \<in> N \<Longrightarrow> refs_of s' (disk_addrs s') j = refs_of s1 ?BD j"
    "\<And>b. unat b < 32 \<Longrightarrow> img s' b = img s1 b"
    by (rule write_inode [OF ok1 msb1 F(2) F(2) [OF i] _ _ len _ _ w];
        use F(2,4) in1 off(2) in \<open>simp add: disk_addrs_def file_size_def\<close>)+
  show "fs_ok s' N" "freeinode s' = freeinode s" using W(1,5) fi1 by simp_all
  show "d_type (inode_at s' i) = d_type (inode_at s i)"
    using arg_cong [OF din, of d_type] by (simp add: W(2))
  have sz: "file_size s' i = file_size s i + length p" using off(1) by (simp add: file_size_def W(2))
  have new: "bytes_of_file s' (disk_addrs s') i y
      = (if file_size s i \<le> y \<and> y < file_size s i + length p then p ! (y - file_size s i) else bytes_of_file s ?AD i y)" for y
    using W(4) [OF i] A by (simp add: file_appended_def file_size_def)
  then show "file_list s' i = file_list s i @ p"
    by (intro nth_equalityI) (auto simp: file_list_def sz nth_append)
  show "zero_tail s i \<Longrightarrow> zero_tail s' i" using new by (simp add: zero_tail_def sz)
  have "inode_at s' j = inode_at s j \<and> bytes_of_file s' (disk_addrs s') j = bytes_of_file s ?AD j
      \<and> refs_of s' (disk_addrs s') j = refs_of s ?AD j" if "j \<in> N" "j \<noteq> i" for j
    using W(4,6) [OF that(1)] A that W(3) [OF F(2) [OF that(1)] that(2)] in1 [OF F(2) [OF that(1)]]
    by (simp add: file_appended_def)
  moreover have "img s' b = img s b" if "unat b < 32" for b
    using W(7) [OF that] meta that by (simp add: same_meta_def)
  ultimately show "kept (N - {i}) s s'" by (simp add: kept_def)
qed

section \<open>Making files\<close>

text \<open>The numbers of the first inodes.\<close>

definition made :: "nat \<Rightarrow> uint set" where
  "made n = {i. 1 \<le> unat i \<and> unat i < n}"

lemma fref_none: "fref D (replicate (Suc NDIRECT) 0) k = 0"
  by (simp add: fref_def nth_append del: replicate_Suc)

lemma ialloc_spec:
  assumes fs: "fs_ok s (made n)" and n: "unat (freeinode s) = n" "1 \<le> n" "n < 208"
    and r: "mkfs_ialloc ty s = Ok i s'"
  shows "i = freeinode s" "fs_ok s' (made (n + 1))" "unat (freeinode s') = n + 1" "file_list s' i = []"
    "d_type (inode_at s' i) = ty" "kept (made n) s s'" "zero_tail s' i" "dense s' i" "file_size s' i = 0" "freeblock s' = freeblock s"
proof -
  note F = fs_okD [OF fs]
  define z :: "uint list" where "z = replicate (NDIRECT + 1) 0"
  have z: "length z = NDIRECT + 1" "fref D z k = 0" for D k
    using fref_none by (simp_all add: z_def del: replicate_Suc)
  let ?i = "freeinode s" and ?s = "s\<lparr>freeinode := freeinode s + 1\<rparr>"
  let ?d = "\<lparr>d_type = ty, d_major = 0, d_minor = 0, d_nlink = 1, d_size = 0, d_addrs = z\<rparr>"
  define AD where "AD = (disk_addrs s)(?i := z)"
  from r have i: "i = ?i" and w: "winode ?i ?d ?s = Ok () s'"
    by (auto simp: mkfs_ialloc_def sqn_Ok_iff z_def simp del: replicate_Suc)
  show "i = freeinode s" by (rule i)
  have M: "made (n + 1) = insert ?i (made n)" "?i \<notin> made n"
    using n(1,2) by (auto simp: made_def u32_eq less_Suc_eq)
  have i208: "unat ?i < 208" using n by simp
  have lt: "unat j < 208" if "j \<in> made (n + 1)" for j using that n(3) by (simp add: made_def)
  have refs: "refs_of s AD j = (if j = ?i then (\<lambda>_. 0) else refs_of s (disk_addrs s) j)" for j
    by (auto simp: refs_of_def z(2) fun_eq_iff AD_def)
  note I = image_okD [OF F(3)]
  have ok: "image_ok ?s AD (made (n + 1))"
    unfolding image_ok_def M(1)
  proof (intro conjI ballI allI impI)
    fix j
    assume j: "j \<in> insert ?i (made n)"
    show "length (AD j) = NDIRECT + 1" using j I(5) z(1) by (cases "j = ?i") (auto simp: AD_def)
    show "refs_ok (refs_of ?s AD j) (taken ?s)"
      using j I(6) [of j] by (cases "j = ?i") (simp_all add: refs refs_ok_def taken_def)
    fix l k m
    assume l: "l \<in> insert ?i (made n)" and e: "refs_of ?s AD j k = refs_of ?s AD l m" "refs_of ?s AD j k \<noteq> 0"
    then show "j = l" using j I(7) [of j l k m] by (auto simp: refs split: if_splits)
  qed (use I(1-4) in simp_all)
  have in1: "inode_at ?s j = inode_at s j" for j by (simp add: inode_at_def)
  have W: "fs_ok s' (made (n + 1))" "inode_at s' ?i = ?d" "\<And>j. unat j < 208 \<Longrightarrow> j \<noteq> ?i \<Longrightarrow> inode_at s' j = inode_at ?s j"
    "\<And>j. j \<in> made (n + 1) \<Longrightarrow> bytes_of_file s' (disk_addrs s') j = bytes_of_file ?s AD j" "freeinode s' = freeinode ?s"
    "\<And>b. unat b < 32 \<Longrightarrow> img s' b = img ?s b" "\<And>j. j \<in> made (n + 1) \<Longrightarrow> refs_of s' (disk_addrs s') j = refs_of ?s AD j"
    "freeblock s' = freeblock ?s"
    by (rule write_inode [OF ok _ lt i208 _ _ _ _ _ w];
        use F(1,4) M in1 z(1) in \<open>auto simp: AD_def disk_addrs_def file_size_def\<close>)+
  show "fs_ok s' (made (n + 1))" by (rule W(1))
  show "unat (freeinode s') = n + 1" using W(5) n by (simp add: u32_add)
  show "file_list s' i = []" "d_type (inode_at s' i) = ty" by (simp_all add: i W(2) file_list_def file_size_def)
  show sz: "file_size s' i = 0" by (simp add: i W(2) file_size_def)
  show "freeblock s' = freeblock s" using W(8) by simp
  have mi: "?i \<in> made (n + 1)" using M(1) by simp
  have R: "refs_of s' (disk_addrs s') i = (\<lambda>_. 0)" using W(7) [OF mi] refs by (simp add: i)
  show "dense s' i" by (auto simp: dense_def packed_def sz R)
  show "zero_tail s' i" by (simp add: zero_tail_def bytes_of_file_def R fbyte_def)
  have "inode_at s' j = inode_at s j \<and> bytes_of_file s' (disk_addrs s') j = bytes_of_file s (disk_addrs s) j
      \<and> refs_of s' (disk_addrs s') j = refs_of s (disk_addrs s) j" if "j \<in> made n" for j
  proof -
    have j: "j \<in> made (n + 1)" "j \<noteq> ?i" using that M by auto
    have "bytes_of_file ?s AD j = bytes_of_file s (disk_addrs s) j"
      using j(2) by (simp add: bytes_of_file_def refs)
    then show ?thesis using W(4,7) [OF j(1)] W(3) [OF lt [OF j(1)] j(2)] in1 refs j(2) by simp
  qed
  then show "kept (made n) s s'" using W(6) by (simp add: kept_def)
qed

end
