(* ===== verification/Mkfsmain.thy ===== *)
theory Mkfsmain
  imports Image
begin

text \<open>
  The whole run of mkfs (\<open>main\<close> of src/mkfs.c). When the files fit, by an exact count of blocks, it ends without an error;
  and when it does, the image is a file system with these files.
\<close>

section \<open>The blocks of a file\<close>

definition file_blocks :: "nat \<Rightarrow> nat" where
  "file_blocks n = (n + BSIZE - 1) div BSIZE + (if NDIRECT * BSIZE < n then 1 else 0)"

lemmas sizes = NDIRECT_def NINDIRECT_def MAXFILE_def BSIZE_def

lemma file_blocks_0 [simp]: "file_blocks 0 = 0"
  by (simp add: file_blocks_def sizes)

lemma file_blocks_mono: "m \<le> n \<Longrightarrow> file_blocks m \<le> file_blocks n"
  unfolding file_blocks_def by (intro add_mono div_le_mono) (auto simp: sizes)

lemma in_block: "0 < x \<Longrightarrow> x \<le> BSIZE \<Longrightarrow> k * BSIZE < q * BSIZE + x \<longleftrightarrow> k \<le> q"
  by (simp add: BSIZE_def) linarith

lemma file_blocks_at: "0 < x \<Longrightarrow> x \<le> BSIZE \<Longrightarrow> file_blocks (q * BSIZE + x) = q + 1 + (if NDIRECT \<le> q then 1 else 0)"
proof -
  assume x: "0 < x" "x \<le> BSIZE"
  have "(q * BSIZE + x + BSIZE - 1) div BSIZE = (x - 1 + (q + 1) * BSIZE) div BSIZE"
    using x(1) by (intro arg_cong [where f = "\<lambda>n. n div BSIZE"]) (simp add: add_mult_distrib)
  also have "\<dots> = (q + 1) + (x - 1) div BSIZE" by (rule div_mult_self1) (simp add: BSIZE_def)
  also have "(x - 1) div BSIZE = 0" using x by simp
  finally show ?thesis by (simp add: file_blocks_def in_block [OF x])
qed

lemma file_blocks_full: "file_blocks (q * BSIZE) = q + (if NDIRECT < q then 1 else 0)"
  using file_blocks_at [of BSIZE "q - 1"] by (cases q) (auto simp: BSIZE_def NDIRECT_def add.commute)

lemma split_block: "n = n div BSIZE * BSIZE + n mod BSIZE"
  by simp

lemma file_blocks_steps:
  assumes "0 < m" "m \<le> BSIZE - n mod BSIZE"
  shows "n mod BSIZE \<noteq> 0 \<Longrightarrow> file_blocks (n + m) = file_blocks n"
    "n mod BSIZE = 0 \<Longrightarrow> n div BSIZE \<noteq> NDIRECT \<Longrightarrow> file_blocks (n + m) = file_blocks n + 1"
    "n mod BSIZE = 0 \<Longrightarrow> n div BSIZE = NDIRECT \<Longrightarrow> file_blocks (n + m) = file_blocks n + 2"
proof -
  have r: "n mod BSIZE < BSIZE" by (simp add: BSIZE_def)
  have s: "n + m = n div BSIZE * BSIZE + (n mod BSIZE + m)" using split_block [of n] by linarith
  have f: "file_blocks (n + m) = n div BSIZE + 1 + (if NDIRECT \<le> n div BSIZE then 1 else 0)"
    unfolding s by (rule file_blocks_at) (use assms r in linarith)+
  show "n mod BSIZE \<noteq> 0 \<Longrightarrow> file_blocks (n + m) = file_blocks n"
    using f file_blocks_at [of "n mod BSIZE" "n div BSIZE"] r by simp
  assume "n mod BSIZE = 0"
  then have g: "file_blocks n = n div BSIZE + (if NDIRECT < n div BSIZE then 1 else 0)"
    using file_blocks_full [of "n div BSIZE"] split_block [of n] by simp
  show "n div BSIZE \<noteq> NDIRECT \<Longrightarrow> file_blocks (n + m) = file_blocks n + 1"
    "n div BSIZE = NDIRECT \<Longrightarrow> file_blocks (n + m) = file_blocks n + 2"
    using f g by simp_all
qed

lemma packedD:
  assumes "packed R n"
  shows "R MAXFILE \<noteq> 0 \<longleftrightarrow> NDIRECT * BSIZE < n" "k < MAXFILE \<Longrightarrow> R k \<noteq> 0 \<longleftrightarrow> k * BSIZE < n"
  using assms by (auto simp: packed_def)

lemma next_block:
  assumes "0 < m" "m \<le> BSIZE - n mod BSIZE"
  shows "k * BSIZE < n + m \<longleftrightarrow> k * BSIZE < n \<or> n mod BSIZE = 0 \<and> k = n div BSIZE"
proof -
  have r: "n mod BSIZE < BSIZE" by (simp add: BSIZE_def)
  have s: "n + m = n div BSIZE * BSIZE + (n mod BSIZE + m)" using split_block [of n] by linarith
  have "k * BSIZE < n + m \<longleftrightarrow> k \<le> n div BSIZE" unfolding s by (rule in_block) (use assms r in linarith)+
  moreover have "k * BSIZE < n \<longleftrightarrow> (if n mod BSIZE = 0 then k < n div BSIZE else k \<le> n div BSIZE)"
    using in_block [of "n mod BSIZE" k "n div BSIZE"] r split_block [of n] by (auto simp: BSIZE_def)
  ultimately show ?thesis by auto
qed

lemma packed_same:
  assumes "packed R n" "0 < m" "m \<le> BSIZE - n mod BSIZE" "n mod BSIZE \<noteq> 0"
  shows "packed R (n + m)"
  using assms(1,4) next_block [OF assms(2,3)] by (simp add: packed_def)

lemma packed_next:
  assumes "packed R n" "0 < m" "m \<le> BSIZE - n mod BSIZE" "n mod BSIZE = 0" "n div BSIZE < MAXFILE" "b \<noteq> 0"
  shows "n div BSIZE \<noteq> NDIRECT \<Longrightarrow> packed (R(n div BSIZE := b)) (n + m)"
    "n div BSIZE = NDIRECT \<Longrightarrow> c \<noteq> 0 \<Longrightarrow> packed (R(MAXFILE := c, NDIRECT := b)) (n + m)"
  using assms(1,4,5,6) next_block [OF assms(2,3)] NDIRECT_MAXFILE(1) unfolding packed_def by auto

section \<open>A block more\<close>

lemma block_there:
  assumes ok: "image_ok s AD N" and i: "i \<in> N" "AD i = d_addrs din" and k: "k < MAXFILE" "refs_of s AD i k \<noteq> 0"
  shows "iappend_block din k s = Ok (din, refs_of s AD i k) s"
proof (cases "k < NDIRECT")
  case True
  then show ?thesis using i(2) k(2) by (simp add: iappend_block_def refs_of_def fref_def)
next
  case False
  let ?x = "d_addrs din ! NDIRECT"
  have x: "?x \<noteq> 0" and e: "refs_of s AD i k = get32 (img s ?x) (4 * (k - NDIRECT))"
    using False k i(2) by (auto simp: refs_of_def fref_def split: if_splits)
  have "refs_of s AD i MAXFILE = ?x" using NDIRECT_MAXFILE(1) i(2) by (simp add: refs_of_def fref_def)
  then have "unat ?x < 1000" "sector_at ?x = ?x" using taken_sector [OF ok i(1), of MAXFILE] x by simp_all
  then show ?thesis using False x e k(2) image_okD(1) [OF ok] by (simp add: iappend_block_def indirect_entry_def rsect_def)
qed

lemma entry_fresh:
  assumes ok: "image_ok s AD N" and i: "i \<in> N" "AD i = d_addrs din" and k: "k < NINDIRECT"
    and x: "d_addrs din ! NDIRECT \<noteq> 0" and z: "refs_of s AD i (NDIRECT + k) = 0" and room: "unat (freeblock s) < 1000"
  obtains s' where "indirect_entry din k s = Ok (din, freeblock s) s'" "freeblock s' = freeblock s + 1"
    "refs_of s' AD i = (refs_of s AD i)(NDIRECT + k := freeblock s)" "nsect s' = 1000"
proof -
  let ?x = "d_addrs din ! NDIRECT"
  let ?s = "s\<lparr>freeblock := freeblock s + 1, img := (img s)(?x := put32 (img s ?x) (4 * k) (freeblock s))\<rparr>"
  have "refs_of s AD i MAXFILE = ?x" using NDIRECT_MAXFILE(1) i(2) by (simp add: refs_of_def fref_def)
  then have sec: "unat ?x < 1000" "sector_at ?x = ?x" using taken_sector [OF ok i(1), of MAXFILE] x by simp_all
  note ns = image_okD(1) [OF ok]
  have z': "get32 (img s ?x) (4 * k) = 0" using z x k i(2) by (simp add: refs_of_def fref_def MAXFILE_def)
  have "max (nsect s) (Suc (unat ?x)) = nsect s" using sec(1) ns by simp
  then have "indirect_entry din k s = Ok (din, freeblock s) ?s"
    using z' sec ns by (simp add: indirect_entry_def rsect_def fresh_block_run wsect_def Let_def)
  moreover have "refs_of ?s AD i = (refs_of s AD i)(NDIRECT + k := freeblock s)"
    by (rule attach_entry(3) [OF ok i(1) _ k _ room]) (use x z' i(2) in simp_all)
  ultimately show ?thesis by (intro that [of ?s]) (simp_all add: ns)
qed

text \<open>The next \<open>m\<close> bytes of a file of \<open>n\<close> bytes lie in one block. It is there, or there is room for it.\<close>

definition room_for :: "mkfs \<Rightarrow> nat \<Rightarrow> nat \<Rightarrow> bool" where
  "room_for s n m \<longleftrightarrow> unat (freeblock s) + file_blocks (n + m) \<le> 1000 + file_blocks n"

definition grown :: "mkfs \<Rightarrow> mkfs \<Rightarrow> nat \<Rightarrow> nat \<Rightarrow> bool" where
  "grown s s' n m \<longleftrightarrow> unat (freeblock s') + file_blocks n = unat (freeblock s) + file_blocks (n + m)"

definition one_more :: "mkfs \<Rightarrow> (uint \<Rightarrow> uint list) \<Rightarrow> uint \<Rightarrow> dinode \<Rightarrow> nat \<Rightarrow> nat \<Rightarrow> bool" where
  "one_more s AD i din n m \<longleftrightarrow> (\<exists>din' x s'. iappend_block din (n div BSIZE) s = Ok (din', x) s' \<and> unat x < 1000 \<and> nsect s' = 1000
     \<and> grown s s' n m \<and> packed (refs_of s' (AD(i := d_addrs din')) i) (n + m))"

lemma one_moreI:
  assumes "iappend_block din (n div BSIZE) s = Ok (din', x) s'" "grown s s' n m"
    "packed (refs_of s' (AD(i := d_addrs din')) i) (n + m)" "unat x < 1000" "nsect s' = 1000"
  shows "one_more s AD i din n m"
  using assms unfolding one_more_def by blast

lemma direct_progress:
  assumes ok: "image_ok s AD N" and i: "i \<in> N" "AD i = d_addrs din" and R: "packed (refs_of s AD i) n" and n: "n div BSIZE < NDIRECT"
    and m: "0 < m" "m \<le> BSIZE - n mod BSIZE" "n mod BSIZE = 0" and room: "room_for s n m"
  shows "one_more s AD i din n m"
proof -
  let ?k = "n div BSIZE" and ?s = "s\<lparr>freeblock := freeblock s + 1\<rparr>"
  let ?d = "set_addr din ?k (freeblock s)"
  note I = image_okD [OF ok]
  have f: "file_blocks (n + m) = file_blocks n + 1" using file_blocks_steps(2) [OF m(1,2,3)] n by simp
  then have fb: "unat (freeblock s) < 1000" using room by (simp add: room_for_def)
  have nz: "freeblock s \<noteq> 0" using I(2) by auto
  have k: "?k < MAXFILE" using n NDIRECT_MAXFILE(1) by simp
  have "refs_of s AD i ?k = 0" using packedD(2) [OF R k] m(3) split_block [of n] by auto
  then have z: "d_addrs din ! ?k = 0" using n i(2) by (simp add: refs_of_def fref_def)
  have "length (d_addrs din) = NDIRECT + 1" using I(5) [OF i(1)] i(2) by simp
  with z n have "iappend_block din ?k s = Ok (?d, freeblock s) ?s"
    by (simp add: iappend_block_def fresh_block_run set_addr_def)
  moreover have "grown s ?s n m" using fb by (simp add: grown_def f u32_add)
  moreover have "packed (refs_of ?s (AD(i := d_addrs ?d)) i) (n + m)"
    using appended_fresh(2) [OF ok i _ z fb] n packed_next(1) [OF R m k nz] by (simp add: aref_def)
  ultimately show ?thesis by (rule one_moreI) (use fb I(1) in simp_all)
qed

lemma indirect_progress:
  assumes ok: "image_ok s AD N" and i: "i \<in> N" "AD i = d_addrs din" and R: "packed (refs_of s AD i) n"
    and n: "NDIRECT < n div BSIZE" "n div BSIZE < MAXFILE"
    and m: "0 < m" "m \<le> BSIZE - n mod BSIZE" "n mod BSIZE = 0" and room: "room_for s n m"
  shows "one_more s AD i din n m"
proof -
  let ?k = "n div BSIZE"
  note I = image_okD [OF ok]
  have f: "file_blocks (n + m) = file_blocks n + 1" using file_blocks_steps(2) [OF m(1,2,3)] n by simp
  then have fb: "unat (freeblock s) < 1000" using room by (simp add: room_for_def)
  have nz: "freeblock s \<noteq> 0" using I(2) by auto
  have kk: "?k - NDIRECT < NINDIRECT" "NDIRECT + (?k - NDIRECT) = ?k" using n by (simp_all add: MAXFILE_def)
  have z: "refs_of s AD i ?k = 0" using packedD(2) [OF R n(2)] m(3) split_block [of n] by auto
  have "NDIRECT * BSIZE < n" using n(1) split_block [of n] by (simp add: BSIZE_def)
  then have x: "d_addrs din ! NDIRECT \<noteq> 0"
    using packedD(1) [OF R] NDIRECT_MAXFILE(1) i(2) by (simp add: refs_of_def fref_def)
  obtain s' where s': "indirect_entry din (?k - NDIRECT) s = Ok (din, freeblock s) s'" "freeblock s' = freeblock s + 1"
      "refs_of s' AD i = (refs_of s AD i)(?k := freeblock s)" "nsect s' = 1000"
    by (rule entry_fresh [OF ok i kk(1) x _ fb, unfolded kk(2), OF z])
  have "iappend_block din ?k s = Ok (din, freeblock s) s'" using s'(1) n(1) x by (simp add: iappend_block_def)
  moreover have "grown s s' n m" using fb by (simp add: grown_def f u32_add s'(2))
  moreover have "packed (refs_of s' (AD(i := d_addrs din)) i) (n + m)"
    using s'(3) i(2) packed_next(1) [OF R m n(2) nz] n(1) by (simp add: fun_upd_idem)
  ultimately show ?thesis using fb s'(4) by (rule one_moreI)
qed

lemma first_indirect_progress:
  assumes ok: "image_ok s AD N" and i: "i \<in> N" "AD i = d_addrs din" and R: "packed (refs_of s AD i) n" and n: "n div BSIZE = NDIRECT"
    and m: "0 < m" "m \<le> BSIZE - n mod BSIZE" "n mod BSIZE = 0" and room: "room_for s n m"
  shows "one_more s AD i din n m"
proof -
  let ?s = "s\<lparr>freeblock := freeblock s + 1\<rparr>" and ?d = "set_addr din NDIRECT (freeblock s)"
  note I = image_okD [OF ok]
  have f: "file_blocks (n + m) = file_blocks n + 2" using file_blocks_steps(3) [OF m(1,2,3)] n by simp
  then have fb: "unat (freeblock s) < 999" using room by (simp add: room_for_def)
  then have fb2: "unat (freeblock s) < 1000" "unat (freeblock ?s) < 1000" "unat (freeblock s + 1) = unat (freeblock s) + 1"
    "unat (freeblock s + 1 + 1) = unat (freeblock s) + 2" by (simp_all add: u32_add)
  have nn: "n = NDIRECT * BSIZE" using n m(3) split_block [of n] by simp
  have nm: "n div BSIZE < MAXFILE" using n NDIRECT_MAXFILE(1) by simp
  have "refs_of s AD i MAXFILE = 0" using packedD(1) [OF R] nn by simp
  then have z: "d_addrs din ! NDIRECT = 0" using NDIRECT_MAXFILE(1) i(2) by (simp add: refs_of_def fref_def)
  note A = appended_fresh [OF ok i le_refl z fb2(1)]
  have len: "length (d_addrs din) = NDIRECT + 1" using I(5) [OF i(1)] i(2) by simp
  have nz: "freeblock s \<noteq> 0" "freeblock ?s \<noteq> 0" using I(2) fb2(3) by auto
  have x: "d_addrs ?d ! NDIRECT \<noteq> 0" using len nz by (simp add: set_addr_def)
  have rz: "refs_of s AD i NDIRECT = 0" using packedD(2) [OF R NDIRECT_MAXFILE(1)] nn by simp
  have z2: "refs_of ?s (AD(i := d_addrs ?d)) i (NDIRECT + 0) = 0" using A(2) rz NDIRECT_MAXFILE(1) by (simp add: aref_def)
  obtain s' where s': "indirect_entry ?d 0 ?s = Ok (?d, freeblock ?s) s'" "freeblock s' = freeblock ?s + 1"
      "refs_of s' (AD(i := d_addrs ?d)) i = (refs_of ?s (AD(i := d_addrs ?d)) i)(NDIRECT + 0 := freeblock ?s)" "nsect s' = 1000"
    by (rule entry_fresh [OF appendedD(1) [OF A(1)] i(1) _ _ x z2 fb2(2)]) (simp_all add: NINDIRECT_def BSIZE_def)
  have "iappend_block din (n div BSIZE) s = Ok (?d, freeblock ?s) s'" using s'(1) z n by (simp add: iappend_block_def fresh_block_run)
  moreover have "grown s s' n m" using fb2(4) by (simp add: grown_def f s'(2))
  moreover have "packed (refs_of s' (AD(i := d_addrs ?d)) i) (n + m)"
    unfolding s'(3) A(2) using packed_next(2) [OF R m nm nz(2) n nz(1)] by (simp add: aref_def)
  ultimately show ?thesis using fb2(2) s'(4) by (rule one_moreI)
qed

lemma block_progress:
  assumes ok: "image_ok s AD N" and i: "i \<in> N" "AD i = d_addrs din" and R: "packed (refs_of s AD i) n" and n: "n div BSIZE < MAXFILE"
    and m: "0 < m" "m \<le> BSIZE - n mod BSIZE" and room: "room_for s n m"
  shows "one_more s AD i din n m"
proof (cases "n mod BSIZE = 0")
  case True
  consider "n div BSIZE < NDIRECT" | "n div BSIZE = NDIRECT" | "NDIRECT < n div BSIZE" by linarith
  then show ?thesis
    using direct_progress [OF ok i R _ m True room] first_indirect_progress [OF ok i R _ m True room]
      indirect_progress [OF ok i R _ n m True room] by cases
next
  case False
  let ?k = "n div BSIZE"
  have "?k * BSIZE < n" using False split_block [of n] by linarith
  then have r: "refs_of s AD i ?k \<noteq> 0" using packedD(2) [OF R n] by simp
  note b = block_there [OF ok i n r]
  have "grown s s n m" using file_blocks_steps(1) [OF m False] by (simp add: grown_def)
  moreover have "packed (refs_of s (AD(i := d_addrs din)) i) (n + m)"
    using packed_same [OF R m False] i(2) by (simp add: fun_upd_idem)
  ultimately show ?thesis using taken_sector(1) [OF ok i(1) r] image_okD(1) [OF ok] by (rule one_moreI [OF b])
qed

section \<open>iappend ends without an error when there is room\<close>

lemma room_parts:
  assumes "room_for s n (m + l)"
  shows "room_for s n m" "grown s s' n m \<Longrightarrow> room_for s' (n + m) l"
  using assms file_blocks_mono [of "n + m" "n + (m + l)"] by (simp_all add: room_for_def grown_def add.assoc)

lemma grown_trans: "grown s t n m \<Longrightarrow> grown t u (n + m) l \<Longrightarrow> grown s u n (m + l)"
  by (simp add: grown_def add.assoc)

lemma grown_refl [simp]: "grown s s n 0"
  by (simp add: grown_def)

lemma iappend_loop_progress:
  assumes "image_ok s AD N" "i \<in> N" "AD i = d_addrs din" "packed (refs_of s AD i) (unat off)"
    "unat off + length p \<le> MAXFILE * BSIZE" "room_for s (unat off) (length p)"
  shows "\<exists>din' off' s'. iappend_loop din off p s = Ok (din', off') s' \<and> grown s s' (unat off) (length p)
    \<and> packed (refs_of s' (AD(i := d_addrs din')) i) (unat off + length p)"
  using assms
proof (induction din off p arbitrary: s AD rule: iappend_loop.induct)
  case (1 din off p)
  note ok = 1(2) and i = 1(3,4) and R = 1(5) and sz = 1(6) and room = 1(7)
  show ?case
  proof (cases "p = []")
    case True
    then show ?thesis using R i(2) by (subst iappend_loop.simps) (simp add: fun_upd_idem)
  next
    case False
    let ?k = "unat off div BSIZE" and ?m = "chunk (length p) (unat off)"
    note C = next_chunk [OF False, of off]
    have m: "?m \<le> length p" "?m \<le> BSIZE - unat off mod BSIZE" by (simp_all add: chunk_def)
    have k: "?k < MAXFILE" using sz C(3) m(1) by (intro less_mult_imp_div_less) linarith
    have split: "length p = ?m + (length p - ?m)" using m(1) by simp
    have r1: "room_for s (unat off) ?m" using room room_parts(1) [of s "unat off" ?m "length p - ?m"] split by simp
    obtain din1 x s1 where b: "iappend_block din ?k s = Ok (din1, x) s1" and x: "unat x < 1000" "nsect s1 = 1000"
      and g: "grown s s1 (unat off) ?m" and P: "packed (refs_of s1 (AD(i := d_addrs din1)) i) (unat off + ?m)"
      using block_progress [OF ok i R k C(3) m(2) r1] unfolding one_more_def by blast
    let ?AD = "AD(i := d_addrs din1)"
    have rs: "rsect x s1 = Ok (img s1 x) s1" using x sector_at_small [of x] by (simp add: rsect_def)
    obtain s3 where w: "wsect x (poke_bytes (img s1 x) (unat off mod BSIZE) (take ?m p)) s1 = Ok () s3" by (simp add: wsect_def)
    have len: "length (take ?m p) = ?m" using m(1) by simp
    have S: "file_appended N i (unat off) (take ?m p) s AD s3 ?AD" "refs_of s3 ?AD i = refs_of s1 ?AD i" "freeblock s3 = freeblock s1"
      by (rule iappend_step [OF ok i k b rs refl len w])+
    have ok3: "image_ok s3 ?AD N" using S(1) by (simp add: file_appended_def)
    have off: "unat (off + of_nat ?m) = unat off + ?m"
      using sz m(1) by (simp add: u32_add u32_of_nat sizes)
    have P3: "packed (refs_of s3 ?AD i) (unat (off + of_nat ?m))" using P unfolding S(2) off .
    have g3: "grown s s3 (unat off) ?m" using g S(3) by (simp add: grown_def)
    have "\<exists>din' off' s'. iappend_loop din1 (off + of_nat ?m) (drop ?m p) s3 = Ok (din', off') s'
        \<and> grown s3 s' (unat (off + of_nat ?m)) (length (drop ?m p))
        \<and> packed (refs_of s' (?AD(i := d_addrs din')) i) (unat (off + of_nat ?m) + length (drop ?m p))"
      by (rule 1(1) [OF False unat_div_BSIZE [symmetric] _ C(1) [symmetric] ok3 i(1) _ P3])
        (use k off sz m(1) room_parts(2) [of s "unat off" ?m "length p - ?m" s3] room split g3 in simp_all)
    then obtain din' off' s' where l: "iappend_loop din1 (off + of_nat ?m) (drop ?m p) s3 = Ok (din', off') s'"
      and gl: "grown s3 s' (unat off + ?m) (length p - ?m)" and Pl: "packed (refs_of s' (AD(i := d_addrs din')) i) (unat off + length p)"
      using m(1) unfolding off by auto
    have "iappend_loop din off p s = Ok (din', off') s'" unfolding iappend_loop_next [OF False] using k b rs w l by simp
    moreover have "grown s s' (unat off) (length p)" using grown_trans [OF g3 gl] split by simp
    ultimately show ?thesis using Pl by blast
  qed
qed

lemma iappend_progress:
  assumes fs: "fs_ok s N" and i: "i \<in> N" "dense s i" and sz: "file_size s i + length p \<le> MAXFILE * BSIZE"
    and room: "room_for s (file_size s i) (length p)"
  obtains s' where "iappend i p s = Ok () s'" "grown s s' (file_size s i) (length p)" "dense s' i"
proof -
  note F = fs_okD [OF fs]
  let ?d = "inode_at s i" and ?AD = "disk_addrs s"
  have R: "packed (refs_of s ?AD i) (unat (d_size ?d))" and n: "file_size s i = unat (d_size ?d)"
    using i(2) by (simp_all add: dense_def file_size_def)
  obtain din off s1 where l: "iappend_loop ?d (d_size ?d) p s = Ok (din, off) s1" and g: "grown s s1 (unat (d_size ?d)) (length p)"
    and P: "packed (refs_of s1 (?AD(i := d_addrs din)) i) (unat (d_size ?d) + length p)"
    using iappend_loop_progress [OF F(3) i(1) disk_addrs_def R, of p] sz room unfolding n by blast
  have "file_appended N i (unat (d_size ?d)) p s ?AD s1 (?AD(i := d_addrs din)) \<and> unat off = unat (d_size ?d) + length p
      \<and> unat off \<le> MAXFILE * BSIZE \<and> din = ?d\<lparr>d_addrs := d_addrs din\<rparr>"
    by (rule iappend_loop_spec [OF l F(3) i(1)]) (use F(4) [OF i(1)] in \<open>simp_all add: disk_addrs_def\<close>)
  then have A: "file_appended N i (unat (d_size ?d)) p s ?AD s1 (?AD(i := d_addrs din))"
    and off: "unat off = unat (d_size ?d) + length p" "unat off \<le> MAXFILE * BSIZE" by blast+
  let ?BD = "?AD(i := d_addrs din)" and ?e = "din\<lparr>d_size := off\<rparr>"
  have ok1: "image_ok s1 ?BD N" and meta: "same_meta s s1" using A by (simp_all add: file_appended_def)
  have msb1: "msb s1 = sb_layout" using meta F(1) by (simp add: same_meta_def)
  have in1: "inode_at s1 j = inode_at s j" if "unat j < 208" for j
    using IBLOCK_meta(1) [OF that] meta F(1) by (simp add: inode_at_def same_meta_def)
  have len: "length (d_addrs ?e) = NDIRECT + 1" using image_okD(5) [OF ok1 i(1)] by simp
  obtain s' where w: "winode i ?e s1 = Ok () s'" using winode_run [OF msb1 F(2) [OF i(1)] image_okD(1) [OF ok1]] by simp
  have W: "inode_at s' i = ?e" "\<And>j. j \<in> N \<Longrightarrow> refs_of s' (disk_addrs s') j = refs_of s1 ?BD j" "freeblock s' = freeblock s1"
    by (rule write_inode [OF ok1 msb1 F(2) F(2) [OF i(1)] _ _ len _ _ w];
        use F(2,4) in1 off(2) in \<open>simp add: disk_addrs_def file_size_def\<close>)+
  have "iappend i p s = Ok () s'"
    using l w rinode_run [OF F(1) F(2) [OF i(1)] F(5)] by (simp add: iappend_def)
  moreover have "grown s s' (file_size s i) (length p)" using g W(3) by (simp add: grown_def n)
  moreover have "dense s' i" using P W(2) [OF i(1)] off(1) by (simp add: dense_def file_size_def W(1))
  ultimately show ?thesis by (rule that)
qed

section \<open>Appending in pieces\<close>

definition appended_to :: "uint set \<Rightarrow> uint \<Rightarrow> uchar list \<Rightarrow> mkfs \<Rightarrow> mkfs \<Rightarrow> bool" where
  "appended_to N i p s s' \<longleftrightarrow> fs_ok s' N \<and> file_list s' i = file_list s i @ p \<and> kept (N - {i}) s s' \<and> freeinode s' = freeinode s
     \<and> d_type (inode_at s' i) = d_type (inode_at s i) \<and> (zero_tail s i \<longrightarrow> zero_tail s' i)"

lemma appended_toD:
  assumes "appended_to N i p s s'"
  shows "fs_ok s' N" "file_list s' i = file_list s i @ p" "kept (N - {i}) s s'" "freeinode s' = freeinode s"
    "d_type (inode_at s' i) = d_type (inode_at s i)" "zero_tail s i \<Longrightarrow> zero_tail s' i"
  using assms by (simp_all add: appended_to_def)

lemma iappend_to: "fs_ok s N \<Longrightarrow> i \<in> N \<Longrightarrow> iappend i p s = Ok () s' \<Longrightarrow> appended_to N i p s s'"
  using iappend_spec [of s N i p s'] by (simp add: appended_to_def)

lemma length_file_list: "length (file_list s i) = file_size s i"
  by (simp add: file_list_def)

lemma appended_to_size: "appended_to N i p s s' \<Longrightarrow> file_size s' i = file_size s i + length p"
  using appended_toD(2) [of N i p s s'] length_file_list by (metis length_append)

lemma appends_to: "fs_ok s N \<Longrightarrow> i \<in> N \<Longrightarrow> forM cs (iappend i) s = Ok () s' \<Longrightarrow> appended_to N i (concat cs) s s'"
proof (induction cs arbitrary: s)
  case Nil
  then show ?case by (simp add: appended_to_def kept_def)
next
  case (Cons c cs)
  then obtain t where t: "iappend i c s = Ok () t" "forM cs (iappend i) t = Ok () s'" by (auto simp: sqn_Ok_iff)
  note A = iappend_to [OF Cons.prems(1,2) t(1)]
  note B = Cons.IH [OF appended_toD(1) [OF A] Cons.prems(2) t(2)]
  show ?case using appended_toD [OF A] appended_toD [OF B] kept_trans by (simp add: appended_to_def)
qed

lemma appends_progress:
  "fs_ok s N \<Longrightarrow> i \<in> N \<Longrightarrow> dense s i \<Longrightarrow> file_size s i + length (concat cs) \<le> MAXFILE * BSIZE \<Longrightarrow> room_for s (file_size s i) (length (concat cs))
    \<Longrightarrow> \<exists>s'. forM cs (iappend i) s = Ok () s' \<and> grown s s' (file_size s i) (length (concat cs))"
proof (induction cs arbitrary: s)
  case (Cons c cs)
  note room = Cons.prems(5) [unfolded concat.simps length_append]
  obtain t where t: "iappend i c s = Ok () t" "grown s t (file_size s i) (length c)" "dense t i"
    by (rule iappend_progress [OF Cons.prems(1-3) _ room_parts(1) [OF room]]) (use Cons.prems(4) in simp_all)
  note A = iappend_to [OF Cons.prems(1,2) t(1)]
  note n = appended_to_size [OF A]
  have "\<exists>s'. forM cs (iappend i) t = Ok () s' \<and> grown t s' (file_size t i) (length (concat cs))"
    by (rule Cons.IH [OF appended_toD(1) [OF A] Cons.prems(2) t(3)]) (use Cons.prems(4) room_parts(2) [OF room t(2)] n in simp_all)
  then show ?case using t(1) grown_trans [OF t(2)] n by auto
qed simp

section \<open>The files of the command line\<close>

type_synonym host_file = "uchar list \<times> uchar list list option"

text \<open>What the calls of \<open>read\<close> bring of a file, and the directory entries for files with the inodes from \<open>n\<close> on.\<close>

definition file_data :: "host_file \<Rightarrow> uchar list" where
  "file_data f = concat (takeWhile (\<lambda>c. c \<noteq> []) (the (snd f)))"

definition can_store :: "host_file \<Rightarrow> bool" where
  "can_store f \<longleftrightarrow> of_char (CHR ''/'') \<notin> set (fst f) \<and> snd f \<noteq> None"

primrec dirents :: "nat \<Rightarrow> host_file list \<Rightarrow> uchar list" where
  "dirents n [] = []"
| "dirents n (f # fs) = dirent_bytes (of_nat n) (skip_underscore (fst f)) @ dirents (Suc n) fs"

lemma length_dirent_bytes [simp]: "length (dirent_bytes i nm) = 16"
  by (simp add: dirent_bytes_def)

lemma length_dirents [simp]: "length (dirents n fs) = 16 * length fs"
  by (induction fs arbitrary: n) simp_all

definition files_made :: "nat \<Rightarrow> host_file list \<Rightarrow> mkfs \<Rightarrow> mkfs \<Rightarrow> bool" where
  "files_made n fs s s' \<longleftrightarrow> fs_ok s' (made (n + length fs)) \<and> unat (freeinode s') = n + length fs
     \<and> file_list s' ROOTINO = file_list s ROOTINO @ dirents n fs \<and> d_type (inode_at s' ROOTINO) = d_type (inode_at s ROOTINO)
     \<and> (zero_tail s ROOTINO \<longrightarrow> zero_tail s' ROOTINO) \<and> kept (made n - {ROOTINO}) s s'
     \<and> (\<forall>k < length fs. can_store (fs ! k) \<and> file_list s' (of_nat (n + k)) = file_data (fs ! k)
          \<and> d_type (inode_at s' (of_nat (n + k))) = T_FILE)"

lemma made_root: "2 \<le> n \<Longrightarrow> ROOTINO \<in> made n"
  by (simp add: made_def ROOTINO_def)

lemma made_new:
  assumes "2 \<le> n" "n < 208"
  shows "(of_nat n :: uint) \<in> made (n + 1)" "(of_nat n :: uint) \<noteq> ROOTINO"
proof -
  have "unat (of_nat n :: uint) = n" using assms(2) by (simp add: u32_of_nat)
  then show "(of_nat n :: uint) \<in> made (n + 1)" "(of_nat n :: uint) \<noteq> ROOTINO"
    using assms(1) by (auto simp: made_def ROOTINO_def)
qed

lemma mkfs_file_Ok:
  assumes "mkfs_file r f s = Ok () s'"
  obtains i t u where "can_store f" "mkfs_ialloc T_FILE s = Ok i t" "iappend r (dirent_bytes (ucast i) (skip_underscore (fst f))) t = Ok () u"
    "forM (takeWhile (\<lambda>c. c \<noteq> []) (the (snd f))) (iappend i) u = Ok () s'"
  using assms unfolding mkfs_file_def can_store_def
  by (auto simp: bnd_Ok_iff sqn_Ok_iff split: if_splits option.splits)

lemma mkfs_file_makes:
  assumes fs: "fs_ok s (made n)" and n: "unat (freeinode s) = n" "2 \<le> n" "n < 208" and r: "mkfs_file ROOTINO f s = Ok () s'"
  shows "files_made n [f] s s'"
proof -
  obtain i t u where st: "can_store f" and i: "mkfs_ialloc T_FILE s = Ok i t"
    and d: "iappend ROOTINO (dirent_bytes (ucast i) (skip_underscore (fst f))) t = Ok () u"
    and a: "forM (takeWhile (\<lambda>c. c \<noteq> []) (the (snd f))) (iappend i) u = Ok () s'" by (rule mkfs_file_Ok [OF r])
  have "1 \<le> n" using n(2) by simp
  note I = ialloc_spec [OF fs n(1) this n(3) i]
  have ii: "i = of_nat n" using I(1) n(1) by (auto simp: n(1) [symmetric])
  note m = made_new [OF n(2,3), folded ii] made_root [OF n(2)]
  have m1: "ROOTINO \<in> made (n + 1)" using made_root [of "n + 1"] n(2) by simp
  note D = iappend_to [OF I(2) m1 d]
  note DD = appended_toD [OF D]
  note AA = appended_toD [OF appends_to [OF DD(1) m(1) a]]
  have root: "ROOTINO \<in> made (n + 1) - {i}" and new: "i \<in> made (n + 1) - {ROOTINO}" using m m1 by auto
  note kI = keptD [OF I(6) m(3)] and kD = keptD [OF DD(3) new] and kA = keptD [OF AA(3) root]
  have "kept (made n - {ROOTINO}) s s'"
  proof (rule kept_trans [OF _ kept_trans])
    show "kept (made n - {ROOTINO}) s t" by (rule kept_mono [OF I(6)]) auto
    have sub: "made n \<subseteq> made (n + 1)" "i \<notin> made n" using I(1) n(1) by (auto simp: made_def)
    show "kept (made n - {ROOTINO}) t u" by (rule kept_mono [OF DD(3)]) (use sub in auto)
    show "kept (made n - {ROOTINO}) u s'" by (rule kept_mono [OF AA(3)]) (use sub in auto)
  qed
  moreover have "(ucast (of_nat n :: uint) :: ushort) = of_nat n"
    using n(3) by (simp add: unsigned_of_nat take_bit_nat_eq_self)
  ultimately show ?thesis
    using st AA DD I kI kD kA by (simp add: files_made_def file_data_def ii)
qed

lemma files_made_Cons:
  assumes n: "2 \<le> n" "n < 208" and f: "files_made n [f] s t" and fs: "files_made (n + 1) fs t s'"
  shows "files_made n (f # fs) s s'"
proof -
  have new: "of_nat n \<in> made (n + 1) - {ROOTINO}" using made_new [OF n] by auto
  have k: "kept (made (n + 1) - {ROOTINO}) t s'" using fs by (simp add: files_made_def)
  have "kept (made n - {ROOTINO}) t s'" by (rule kept_mono [OF k]) (auto simp: made_def)
  with f have K: "kept (made n - {ROOTINO}) s s'" using kept_trans by (auto simp: files_made_def)
  note kn = keptD(1,2) [OF k new]
  have "can_store ((f # fs) ! j) \<and> file_list s' (of_nat (n + j)) = file_data ((f # fs) ! j)
      \<and> d_type (inode_at s' (of_nat (n + j))) = T_FILE" if "j < length (f # fs)" for j
  proof (cases j)
    case 0
    then show ?thesis using f kn by (simp add: files_made_def)
  next
    case (Suc l)
    then have l: "l < length fs" using that by simp
    have e: "n + j = n + 1 + l" using Suc by simp
    show ?thesis unfolding e using fs l Suc unfolding files_made_def by simp
  qed
  with K f fs show ?thesis by (simp add: files_made_def)
qed

lemma mkfs_files_make:
  "fs_ok s (made n) \<Longrightarrow> unat (freeinode s) = n \<Longrightarrow> 2 \<le> n \<Longrightarrow> n + length fs \<le> 208 \<Longrightarrow> forM fs (mkfs_file ROOTINO) s = Ok () s'
    \<Longrightarrow> files_made n fs s s'"
proof (induction fs arbitrary: s n)
  case Nil
  then show ?case by (simp add: files_made_def kept_def)
next
  case (Cons f fs)
  from Cons.prems(5) obtain t where t: "mkfs_file ROOTINO f s = Ok () t" "forM fs (mkfs_file ROOTINO) t = Ok () s'"
    by (auto simp: sqn_Ok_iff)
  have lt: "n < 208" using Cons.prems(4) by simp
  note F = mkfs_file_makes [OF Cons.prems(1-3) lt t(1)]
  then have "fs_ok t (made (n + 1))" "unat (freeinode t) = n + 1" by (simp_all add: files_made_def)
  then have "files_made (n + 1) fs t s'" by (rule Cons.IH) (use Cons.prems(3,4) t(2) in simp_all)
  with F show ?case by (rule files_made_Cons [OF Cons.prems(3) lt])
qed

section \<open>All files are stored when they fit\<close>

definition data_blocks :: "host_file list \<Rightarrow> nat" where
  "data_blocks fs = (\<Sum>f \<leftarrow> fs. file_blocks (length (file_data f)))"

definition can_hold :: "host_file \<Rightarrow> bool" where
  "can_hold f \<longleftrightarrow> can_store f \<and> length (file_data f) \<le> MAXFILE * BSIZE"

lemma ialloc_progress:
  assumes "fs_ok s N" "unat (freeinode s) < 208"
  obtains i t where "mkfs_ialloc ty s = Ok i t"
proof -
  note F = fs_okD [OF assms(1)]
  have "\<exists>t. winode (freeinode s) d (s\<lparr>freeinode := freeinode s + 1\<rparr>) = Ok () t" for d
    using winode_run [of "s\<lparr>freeinode := freeinode s + 1\<rparr>" "freeinode s"] F(1,5) assms(2) by simp
  then have "\<exists>i t. mkfs_ialloc ty s = Ok i t" by (simp add: mkfs_ialloc_def sqn_Ok_iff)
  then show ?thesis using that by blast
qed

lemma mkfs_file_progress:
  assumes fs: "fs_ok s (made n)" and n: "unat (freeinode s) = n" "2 \<le> n" "n < 208" and f: "can_hold f" and d: "dense s ROOTINO"
    and r: "file_size s ROOTINO = r" "r + 16 \<le> MAXFILE * BSIZE"
    and room: "unat (freeblock s) + file_blocks (r + 16) + file_blocks (length (file_data f)) \<le> 1000 + file_blocks r"
  obtains s' where "mkfs_file ROOTINO f s = Ok () s'" "dense s' ROOTINO"
    "unat (freeblock s') + file_blocks r = unat (freeblock s) + file_blocks (r + 16) + file_blocks (length (file_data f))"
proof -
  let ?cs = "takeWhile (\<lambda>c. c \<noteq> []) (the (snd f))"
  obtain i t where i: "mkfs_ialloc T_FILE s = Ok i t" using ialloc_progress [OF fs] n by metis
  have "1 \<le> n" using n(2) by simp
  note I = ialloc_spec [OF fs n(1) this n(3) i]
  have ii: "i = of_nat n" using I(1) n(1) by (auto simp: n(1) [symmetric])
  note m = made_new [OF n(2,3), folded ii] made_root [OF n(2)]
  have m1: "ROOTINO \<in> made (n + 1)" using made_root [of "n + 1"] n(2) by simp
  note kI = keptD [OF I(6) m(3)]
  let ?e = "dirent_bytes (ucast i) (skip_underscore (fst f))"
  have "room_for t (file_size t ROOTINO) (length ?e)" using room r kI(3) I(10) by (simp add: room_for_def)
  moreover have "file_size t ROOTINO + length ?e \<le> MAXFILE * BSIZE" using r kI(3) by simp
  moreover have "dense t ROOTINO" using kI(5) d by simp
  ultimately obtain u where u: "iappend ROOTINO ?e t = Ok () u" "grown t u (file_size t ROOTINO) (length ?e)" "dense u ROOTINO"
    using iappend_progress [OF I(2) m1] by metis
  note DD = appended_toD [OF iappend_to [OF I(2) m1 u(1)]]
  have root: "ROOTINO \<in> made (n + 1) - {i}" and new: "i \<in> made (n + 1) - {ROOTINO}" using m m1 by auto
  note kD = keptD [OF DD(3) new]
  have g: "unat (freeblock u) + file_blocks r = unat (freeblock s) + file_blocks (r + 16)"
    using u(2) r kI(3) I(10) by (simp add: grown_def)
  have z: "file_size u i = 0" "dense u i" using kD I(8,9) by simp_all
  have "\<exists>s'. forM ?cs (iappend i) u = Ok () s' \<and> grown u s' (file_size u i) (length (concat ?cs))"
    by (rule appends_progress [OF DD(1) m(1) z(2)]) (use f g room z(1) in \<open>simp_all add: can_hold_def file_data_def room_for_def\<close>)
  then obtain s' where s': "forM ?cs (iappend i) u = Ok () s'" "grown u s' 0 (length (file_data f))"
    by (auto simp: z(1) file_data_def)
  note kA = keptD [OF appended_toD(3) [OF appends_to [OF DD(1) m(1) s'(1)]] root]
  have "mkfs_file ROOTINO f s = Ok () s'"
    using f i u(1) s'(1) by (auto simp: mkfs_file_def can_hold_def can_store_def)
  moreover have "dense s' ROOTINO" using kA(5) u(3) by simp
  moreover have "unat (freeblock s') + file_blocks r = unat (freeblock s) + file_blocks (r + 16) + file_blocks (length (file_data f))"
    using s'(2) g by (simp add: grown_def)
  ultimately show ?thesis by (rule that)
qed

lemma mkfs_files_progress:
  "fs_ok s (made n) \<Longrightarrow> unat (freeinode s) = n \<Longrightarrow> 2 \<le> n \<Longrightarrow> n + length fs \<le> 208 \<Longrightarrow> \<forall>f \<in> set fs. can_hold f \<Longrightarrow> dense s ROOTINO
    \<Longrightarrow> file_size s ROOTINO + 16 * length fs \<le> MAXFILE * BSIZE
    \<Longrightarrow> unat (freeblock s) + file_blocks (file_size s ROOTINO + 16 * length fs) + data_blocks fs \<le> 1000 + file_blocks (file_size s ROOTINO)
    \<Longrightarrow> \<exists>s'. forM fs (mkfs_file ROOTINO) s = Ok () s'
      \<and> unat (freeblock s') + file_blocks (file_size s ROOTINO) = unat (freeblock s) + file_blocks (file_size s ROOTINO + 16 * length fs) + data_blocks fs"
proof (induction fs arbitrary: s n)
  case Nil
  then show ?case by (simp add: data_blocks_def)
next
  case (Cons f fs)
  let ?r = "file_size s ROOTINO"
  have lt: "n < 208" and r: "?r + 16 \<le> MAXFILE * BSIZE" using Cons.prems(4,7) by simp_all
  have mono: "file_blocks (?r + 16) \<le> file_blocks (?r + 16 * length (f # fs))" by (rule file_blocks_mono) simp
  have room: "unat (freeblock s) + file_blocks (?r + 16) + file_blocks (length (file_data f)) \<le> 1000 + file_blocks ?r"
    using Cons.prems(8) mono unfolding data_blocks_def by simp
  have fh: "can_hold f" using Cons.prems(5) by simp
  obtain t where t: "mkfs_file ROOTINO f s = Ok () t" "dense t ROOTINO"
    "unat (freeblock t) + file_blocks ?r = unat (freeblock s) + file_blocks (?r + 16) + file_blocks (length (file_data f))"
    by (rule mkfs_file_progress [OF Cons.prems(1-3) lt fh Cons.prems(6) refl r room])
  note F = mkfs_file_makes [OF Cons.prems(1-3) lt t(1)]
  have T: "fs_ok t (made (n + 1))" "unat (freeinode t) = n + 1" and rt: "file_size t ROOTINO = ?r + 16"
    using F length_file_list [of t ROOTINO] length_file_list [of s ROOTINO] by (simp_all add: files_made_def)
  have "\<exists>s'. forM fs (mkfs_file ROOTINO) t = Ok () s'
      \<and> unat (freeblock s') + file_blocks (file_size t ROOTINO) = unat (freeblock t) + file_blocks (file_size t ROOTINO + 16 * length fs) + data_blocks fs"
    by (rule Cons.IH [OF T]) (use Cons.prems(3,4,5,7,8) t rt in \<open>auto simp: data_blocks_def algebra_simps\<close>)
  then show ?case using t(1,3) rt by (auto simp: data_blocks_def algebra_simps)
qed

section \<open>The start and the end of main\<close>

definition image0 :: mkfs where
  "image0 = \<lparr>img = (\<lambda>_ _. 0)(1 := sb_bytes sb_layout), nsect = 1000, msb = sb_layout, freeinode = 1, freeblock = 59\<rparr>"

lemma zero_sectors:
  "m \<le> 1000 \<Longrightarrow> img s = (\<lambda>_ _. 0) \<Longrightarrow> forM [0..<m] (\<lambda>i. wsect (of_nat i) (\<lambda>_. 0)) s = Ok () (s\<lparr>nsect := max (nsect s) m\<rparr>)"
proof (induction m)
  case (Suc m)
  have u: "unat (of_nat m :: uint) = m" using Suc.prems(1) by (simp add: u32_of_nat)
  have "sector_at (of_nat m) = (of_nat m :: uint)" by (rule sector_at_small) (use Suc.prems(1) u in simp)
  moreover have "(img s)(x := \<lambda>_. 0) = img s" for x using Suc.prems(2) by (simp add: fun_eq_iff)
  ultimately show ?case using Suc u by (simp add: forM_append wsect_def max.assoc)
qed simp

lemma main_start:
  "stmts [modify (\<lambda>s. s\<lparr>img := (\<lambda>_ _. 0), nsect := 0, msb := sb_layout, freeinode := 1, freeblock := of_nat nmeta\<rparr>),
     forM [0..<MKFS_FSSIZE] (\<lambda>i. wsect (of_nat i) (\<lambda>_. 0)), wsect 1 (sb_bytes sb_layout)] s = Ok () image0"
  by (simp add: layout_numbers zero_sectors) (simp add: wsect_def sector_at_small image0_def)

lemma image0_ok: "fs_ok image0 (made 1)" "unat (freeinode image0) = 1" "unat (freeblock image0) = 59"
  by (auto simp: image0_def fs_ok_def image_ok_def made_def)

lemma sb_decode: "decode_sb (sb_bytes sb) = sb"
  by (simp add: decode_sb_def sb_bytes_def get32_put32_other)

lemma bitmap_bits: "block_free (fold set_used xs d) c \<longleftrightarrow> block_free d c \<and> c \<notin> set xs"
  by (induction xs arbitrary: d) (auto simp: block_free_set_used)

lemma mkfs_bitmap_set_used: "mkfs_bitmap n = fold set_used [0..<n] (\<lambda>_. 0)"
proof -
  have "(\<lambda>i b. b(i div 8 := b (i div 8) OR push_bit (i mod 8) 1)) = set_used"
    by (simp add: fun_eq_iff set_used_def bit_mask_def)
  then show ?thesis by (simp only: mkfs_bitmap_def)
qed

lemma balloc_marks:
  assumes fs: "fs_ok s N"
  obtains s' where "mkfs_balloc (sint (freeblock s)) s = Ok () s'" "fs_ok s' N" "kept N s s'" "freeblock s' = freeblock s"
    "\<And>b. unat b < 1000 \<Longrightarrow> bit_used (img s') sb_layout b \<longleftrightarrow> unat b < unat (freeblock s)"
proof -
  note F = fs_okD [OF fs] and I = image_okD [OF fs_okD(3) [OF fs]]
  let ?u = "unat (freeblock s)"
  define t where "t = s\<lparr>img := (img s)(58 := mkfs_bitmap ?u)\<rparr>"
  have t: "img t = (img s)(58 := mkfs_bitmap ?u)" "msb t = msb s" "freeblock t = freeblock s" by (simp_all add: t_def)
  have si: "sint (freeblock s) = int ?u" using I(3) by (intro sint_unat) simp
  have few: "\<not> int (BSIZE * 8) \<le> int ?u" using I(3) unfolding of_nat_le_iff by (simp add: BSIZE_def)
  have "max (nsect s) 59 = nsect s" using I(1) by simp
  then have r: "mkfs_balloc (sint (freeblock s)) s = Ok () t"
    unfolding si mkfs_balloc_def if_not_P [OF few] nat_int using F(1) by (simp add: wsect_def sector_at_small t_def)
  have "unat (58 :: uint) < 59" by simp
  note M = meta_write [OF F(3) t_def this]
  have at: "inode_at t j = inode_at s j" if "unat j < 208" for j
  proof -
    have "IBLOCK j sb_layout \<noteq> 58" using IBLOCK_meta(1) [OF that] by auto
    then show ?thesis using F(1) by (simp add: inode_at_def t)
  qed
  have da: "disk_addrs t j = disk_addrs s j" if "j \<in> N" for j using at [OF F(2) [OF that]] by (simp add: disk_addrs_def)
  have "image_ok t (disk_addrs t) N" using M(1) by (rule image_ok_cong) (rule da)
  then have fs': "fs_ok t N" using F(1,2,4) at by (simp add: fs_ok_def t)
  have "inode_at t j = inode_at s j \<and> bytes_of_file t (disk_addrs t) j = bytes_of_file s (disk_addrs s) j
      \<and> refs_of t (disk_addrs t) j = refs_of s (disk_addrs s) j" if "j \<in> N" for j
    using at [OF F(2) [OF that]] bytes_of_file_cong [of "disk_addrs t" j "disk_addrs s" t, OF da [OF that]]
      refs_of_cong [of "disk_addrs t" j "disk_addrs s" t, OF da [OF that]] M(2,3) [OF that] by simp
  moreover have "img t b = img s b" if "unat b < 32" for b using that by (auto simp: t)
  ultimately have k: "kept N s t" by (simp add: kept_def)
  have "bit_used (img t) sb_layout b \<longleftrightarrow> unat b < ?u" if "unat b < 1000" for b
  proof -
    have "BBLOCK b sb_layout = 58" using that by (simp add: BBLOCK_def BPB_def BSIZE_def u32_eq u32_add unat_div)
    moreover have "block_free (\<lambda>_. 0) c" for c by (simp add: block_free_def)
    ultimately show ?thesis using that by (simp add: bit_used_def t(1) mkfs_bitmap_set_used bitmap_bits BPB_def BSIZE_def)
  qed
  with r fs' k show ?thesis by (intro that [of t]) (simp_all add: t(3))
qed

lemma fix_size:
  assumes fs: "fs_ok s N" and i: "i \<in> N" "zero_tail s i" and v: "file_size s i \<le> unat v" "unat v \<le> MAXFILE * BSIZE"
  obtains s' where "winode i ((inode_at s i)\<lparr>d_size := v\<rparr>) s = Ok () s'" "fs_ok s' N" "kept (N - {i}) s s'" "freeblock s' = freeblock s"
    "d_type (inode_at s' i) = d_type (inode_at s i)" "file_list s' i = file_list s i @ replicate (unat v - file_size s i) 0"
proof -
  note F = fs_okD [OF fs]
  let ?d = "(inode_at s i)\<lparr>d_size := v\<rparr>"
  obtain s' where w: "winode i ?d s = Ok () s'" using winode_run [OF F(1) F(2) [OF i(1)] F(5)] by simp
  have len: "length (d_addrs ?d) = NDIRECT + 1" using image_okD(5) [OF F(3) i(1)] by (simp add: disk_addrs_def)
  have W: "fs_ok s' N" "inode_at s' i = ?d" "\<And>j. unat j < 208 \<Longrightarrow> j \<noteq> i \<Longrightarrow> inode_at s' j = inode_at s j"
    "\<And>j. j \<in> N \<Longrightarrow> bytes_of_file s' (disk_addrs s') j = bytes_of_file s (disk_addrs s) j"
    "\<And>j. j \<in> N \<Longrightarrow> refs_of s' (disk_addrs s') j = refs_of s (disk_addrs s) j"
    "freeblock s' = freeblock s" "\<And>b. unat b < 32 \<Longrightarrow> img s' b = img s b"
    by (rule write_inode [OF F(3,1) F(2) F(2) [OF i(1)] _ _ len _ _ w];
        use F(4) v(2) in \<open>simp add: disk_addrs_def file_size_def\<close>)+
  have k: "kept (N - {i}) s s'" using W(3-5,7) F(2) by (simp add: kept_def)
  have sz: "file_size s' i = unat v" by (simp add: file_size_def W(2))
  have l: "file_list s' i = file_list s i @ replicate (unat v - file_size s i) 0"
    using v(1) i(2) by (intro nth_equalityI) (auto simp: file_list_def sz W(4) [OF i(1)] nth_append zero_tail_def)
  show ?thesis by (rule that [OF w W(1) k W(6) _ l]) (simp add: W(2))
qed

section \<open>The root directory\<close>

definition root_entries :: "host_file list \<Rightarrow> uchar list" where
  "root_entries fs = dirent_bytes 1 (map of_char ''.'') @ dirent_bytes 1 (map of_char ''..'') @ dirents 2 fs"

lemma small_files: "file_blocks 16 = 1" "file_blocks 32 = 1" "MAXFILE * BSIZE = 71680"
  by (simp_all add: file_blocks_def sizes)

lemma append_entry:
  assumes fs: "fs_ok s N" "ROOTINO \<in> N" "dense s ROOTINO" and p: "length p = 16"
    and sz: "file_size s ROOTINO + 16 \<le> MAXFILE * BSIZE" "room_for s (file_size s ROOTINO) 16"
  obtains t where "iappend ROOTINO p s = Ok () t" "appended_to N ROOTINO p s t" "dense t ROOTINO" "grown s t (file_size s ROOTINO) 16"
  using iappend_progress [OF fs, of p] iappend_to [OF fs(1,2)] sz unfolding p by metis

text \<open>The statements of \<open>main\<close> after the loop over the files.\<close>

definition end_of_main :: "(mkfs, unit) kmon" where
  "end_of_main = stmts [bnd (rinode ROOTINO) (\<lambda>din. winode ROOTINO (din\<lparr>d_size := (d_size din div of_nat BSIZE + 1) * of_nat BSIZE\<rparr>)),
       bnd (gets freeblock) (\<lambda>b. mkfs_balloc (sint b))]"

lemma root_made:
  obtains t where "\<And>files s. mkfs_main files s = sqn (forM files (mkfs_file ROOTINO)) end_of_main t"
    "fs_ok t (made 2)" "unat (freeinode t) = 2" "file_list t ROOTINO = root_entries []" "d_type (inode_at t ROOTINO) = T_DIR"
    "zero_tail t ROOTINO" "dense t ROOTINO" "unat (freeblock t) = 60" "img t 1 = sb_bytes sb_layout"
proof -
  have lt: "unat (freeinode image0) < 208" by (simp add: image0_ok(2))
  obtain i t0 where i: "mkfs_ialloc T_DIR image0 = Ok i t0" by (rule ialloc_progress [OF image0_ok(1) lt])
  note I = ialloc_spec [OF image0_ok(1,2) _ _ i, simplified]
  have ii: "i = ROOTINO" using I(1) by (simp add: image0_def ROOTINO_def)
  have m: "ROOTINO \<in> made 2" by (rule made_root) simp
  have f0: "fs_ok t0 (made 2)" "unat (freeblock t0) = 59" using I(2,10) image0_ok(3) by (simp_all add: numeral_2_eq_2)
  have z0: "file_size t0 ROOTINO = 0" "dense t0 ROOTINO" "zero_tail t0 ROOTINO" "file_list t0 ROOTINO = []" "d_type (inode_at t0 ROOTINO) = T_DIR"
    using I ii by simp_all
  let ?p = "dirent_bytes 1 (map of_char ''.'')" and ?q = "dirent_bytes 1 (map of_char ''..'')"
  obtain t1 where t1: "iappend ROOTINO ?p t0 = Ok () t1" "appended_to (made 2) ROOTINO ?p t0 t1" "dense t1 ROOTINO" "grown t0 t1 (file_size t0 ROOTINO) 16"
    by (rule append_entry [OF f0(1) m z0(2), of ?p]) (use z0(1) f0(2) in \<open>simp_all add: room_for_def small_files\<close>)
  note A = appended_toD [OF t1(2)]
  have s1: "file_size t1 ROOTINO = 16" "unat (freeblock t1) = 60"
    using appended_to_size [OF t1(2)] t1(4) z0(1) f0(2) by (simp_all add: grown_def small_files)
  obtain t2 where t2: "iappend ROOTINO ?q t1 = Ok () t2" "appended_to (made 2) ROOTINO ?q t1 t2" "dense t2 ROOTINO" "grown t1 t2 (file_size t1 ROOTINO) 16"
    by (rule append_entry [OF A(1) m t1(3), of ?q]) (use s1 in \<open>simp_all add: room_for_def small_files\<close>)
  note B = appended_toD [OF t2(2)]
  have low: "img t2 1 = sb_bytes sb_layout"
    using kept_low [OF I(6), of 1] kept_low [OF A(3), of 1] kept_low [OF B(3), of 1] by (simp add: image0_def)
  have u: "ucast ROOTINO = (1 :: ushort)" by (simp add: ROOTINO_def)
  have "mkfs_main files s = sqn (forM files (mkfs_file ROOTINO)) end_of_main t2" for files s
    unfolding mkfs_main_def sqn_Ok [OF main_start] using i ii t1(1) t2(1) by (simp add: u end_of_main_def)
  then show ?thesis
  proof (rule that)
    show "fs_ok t2 (made 2)" "d_type (inode_at t2 ROOTINO) = T_DIR" "zero_tail t2 ROOTINO" "dense t2 ROOTINO" "img t2 1 = sb_bytes sb_layout"
      using A B z0 t2(3) low by simp_all
    show "unat (freeinode t2) = 2" using I(3) A(4) B(4) by simp
    show "file_list t2 ROOTINO = root_entries []" using A(2) B(2) z0(4) by (simp add: root_entries_def)
    show "unat (freeblock t2) = 60" using t2(4) s1 by (simp add: grown_def small_files)
  qed
qed

lemma root_size:
  assumes "unat d = 32 + 16 * n" "n \<le> 206"
  shows "unat ((d div of_nat BSIZE + 1) * of_nat BSIZE :: uint) = (unat d div BSIZE + 1) * BSIZE"
proof -
  have "unat d div 512 < 8" using assms by simp
  then have q: "unat (d div 512 + 1) = unat d div 512 + 1" "unat d div 512 + 1 \<le> 8" by (simp_all add: u32_add unat_div)
  define q where "q = d div 512 + 1"
  have "unat q \<le> 8" using q by (simp only: q_def)
  then have "unat (q * 512) = unat q * 512" by (simp add: u32_mult)
  then show ?thesis using q(1) by (simp only: q_def BSIZE_def of_nat_numeral)
qed

text \<open>After the root directory and the files: the size of the directory is rounded up and the bitmap written.\<close>

lemma main_end:
  assumes fs: "fs_ok s N" and r: "ROOTINO \<in> N" "zero_tail s ROOTINO" "file_size s ROOTINO = 32 + 16 * n" "n \<le> 206"
  obtains s' z where "end_of_main s = Ok () s'" "fs_ok s' N" "kept (N - {ROOTINO}) s s'" "freeblock s' = freeblock s"
    "d_type (inode_at s' ROOTINO) = d_type (inode_at s ROOTINO)" "file_list s' ROOTINO = file_list s ROOTINO @ replicate z 0"
    "z \<le> BSIZE" "BSIZE dvd file_size s' ROOTINO"
    "\<And>b. unat b < 1000 \<Longrightarrow> bit_used (img s') sb_layout b \<longleftrightarrow> unat b < unat (freeblock s')"
proof -
  note F = fs_okD [OF fs]
  let ?d = "inode_at s ROOTINO"
  define v :: uint where "v = (d_size ?d div of_nat BSIZE + 1) * of_nat BSIZE"
  have v: "unat v = (file_size s ROOTINO div BSIZE + 1) * BSIZE"
    using root_size [of "d_size ?d" n] r(3,4) by (simp add: v_def file_size_def)
  have bd: "file_size s ROOTINO \<le> unat v" "unat v \<le> file_size s ROOTINO + BSIZE" unfolding v BSIZE_def by simp_all
  have mx: "unat v \<le> MAXFILE * BSIZE" using bd(2) r(3,4) unfolding small_files by (simp add: BSIZE_def)
  obtain t where t: "winode ROOTINO (?d\<lparr>d_size := v\<rparr>) s = Ok () t" "fs_ok t N" "kept (N - {ROOTINO}) s t" "freeblock t = freeblock s"
    "d_type (inode_at t ROOTINO) = d_type ?d" "file_list t ROOTINO = file_list s ROOTINO @ replicate (unat v - file_size s ROOTINO) 0"
    by (rule fix_size [OF fs r(1,2) bd(1) mx])
  obtain s' where s': "mkfs_balloc (sint (freeblock t)) t = Ok () s'" "fs_ok s' N" "kept N t s'" "freeblock s' = freeblock t"
    "\<And>b. unat b < 1000 \<Longrightarrow> bit_used (img s') sb_layout b \<longleftrightarrow> unat b < unat (freeblock t)"
    by (rule balloc_marks [OF t(2)]) blast
  note k = keptD [OF s'(3) r(1)]
  have "file_size s' ROOTINO = unat v" using t(6) bd(1) length_file_list [of t ROOTINO] length_file_list [of s ROOTINO] k(3) by simp
  then have dv: "BSIZE dvd file_size s' ROOTINO" by (simp add: v)
  have z: "unat v - file_size s ROOTINO \<le> BSIZE" using bd(2) by linarith
  have kk: "kept (N - {ROOTINO}) s s'" by (rule kept_trans [OF t(3)]) (rule kept_mono [OF s'(3)], auto)
  have run: "end_of_main s = Ok () s'"
    using t(1) s'(1) rinode_run [OF F(1) F(2) [OF r(1)] F(5)] by (simp add: v_def end_of_main_def)
  show ?thesis
    by (rule that [OF run s'(2) kk _ _ _ z dv]) (use s'(4,5) t(4-6) k in simp_all)
qed

text \<open>C8: When every file can be opened, is named without a slash and has at most \<open>MAXFILE\<close> blocks, and the root directory and the
  files need no more than the 941 blocks after the metadata, \<open>main\<close> of src/mkfs.c ends without an error. The image has 1000
  sectors, the superblock is what the kernel's \<open>readsb\<close> decodes, and the bitmap marks exactly the blocks before
  \<open>freeblock\<close>, which is the number of blocks that are needed. Read through the kernel's block map, inode \<open>2 + k\<close> is a file
  with the bytes of file \<open>k\<close> up to the first empty read, the root directory lists \<open>.\<close>, \<open>..\<close> and the files and is padded with zeros to whole blocks, and
  no block belongs to two files (\<open>fs_ok\<close>).\<close>

theorem mkfs_builds_file_system:
  assumes "\<forall>f \<in> set files. can_hold f" and "length files \<le> 206"
    and "file_blocks (32 + 16 * length files) + data_blocks files \<le> 941"
  shows "\<exists>s' z. mkfs_main files s = Ok () s' \<and> nsect s' = MKFS_FSSIZE \<and> decode_sb (img s' 1) = sb_layout
    \<and> fs_ok s' (made (2 + length files))
    \<and> unat (freeblock s') = nmeta + file_blocks (32 + 16 * length files) + data_blocks files
    \<and> (\<forall>b. unat b < MKFS_FSSIZE \<longrightarrow> (bit_used (img s') sb_layout b \<longleftrightarrow> unat b < unat (freeblock s')))
    \<and> d_type (inode_at s' ROOTINO) = T_DIR \<and> file_list s' ROOTINO = root_entries files @ replicate z 0
    \<and> z \<le> BSIZE \<and> BSIZE dvd file_size s' ROOTINO
    \<and> (\<forall>k < length files. d_type (inode_at s' (of_nat (2 + k))) = T_FILE \<and> file_list s' (of_nat (2 + k)) = file_data (files ! k))"
proof -
  let ?n = "length files"
  obtain t where main: "\<And>s. mkfs_main files s = sqn (forM files (mkfs_file ROOTINO)) end_of_main t"
    and t: "fs_ok t (made 2)" "unat (freeinode t) = 2" "file_list t ROOTINO = root_entries []" "d_type (inode_at t ROOTINO) = T_DIR"
      "zero_tail t ROOTINO" "dense t ROOTINO" "unat (freeblock t) = 60" "img t 1 = sb_bytes sb_layout" by (rule root_made) blast
  have sz: "file_size t ROOTINO = 32" using length_file_list [of t ROOTINO] t(3) by (simp add: root_entries_def)
  have "\<exists>u. forM files (mkfs_file ROOTINO) t = Ok () u
      \<and> unat (freeblock u) + file_blocks (file_size t ROOTINO) = unat (freeblock t) + file_blocks (file_size t ROOTINO + 16 * ?n) + data_blocks files"
    by (rule mkfs_files_progress [OF t(1,2)]) (use assms t sz in \<open>simp_all add: small_files\<close>)
  then obtain u where u: "forM files (mkfs_file ROOTINO) t = Ok () u"
    and fb: "unat (freeblock u) = 59 + file_blocks (32 + 16 * ?n) + data_blocks files" using t(7) by (auto simp: sz small_files)
  have M: "files_made 2 files t u" by (rule mkfs_files_make [OF t(1,2) _ _ u]) (use assms(2) in simp_all)
  have U: "fs_ok u (made (2 + ?n))" "file_list u ROOTINO = root_entries files" "d_type (inode_at u ROOTINO) = T_DIR" "zero_tail u ROOTINO"
    using M t(3-5) by (simp_all add: files_made_def root_entries_def)
  have usz: "file_size u ROOTINO = 32 + 16 * ?n" using length_file_list [of u ROOTINO] U(2) by (simp add: root_entries_def)
  have r: "ROOTINO \<in> made (2 + ?n)" by (rule made_root) simp
  obtain s' z where e: "end_of_main u = Ok () s'" and S: "fs_ok s' (made (2 + ?n))" "kept (made (2 + ?n) - {ROOTINO}) u s'"
    "freeblock s' = freeblock u" "d_type (inode_at s' ROOTINO) = d_type (inode_at u ROOTINO)"
    "file_list s' ROOTINO = file_list u ROOTINO @ replicate z 0" "z \<le> BSIZE" "BSIZE dvd file_size s' ROOTINO"
    "\<And>b. unat b < 1000 \<Longrightarrow> bit_used (img s') sb_layout b \<longleftrightarrow> unat b < unat (freeblock s')"
    by (rule main_end [OF U(1) r U(4) usz assms(2)]) blast
  have "kept (made 2 - {ROOTINO}) t u" using M by (simp add: files_made_def)
  then have sb: "decode_sb (img s' 1) = sb_layout"
    using kept_low [of _ t u 1] kept_low [OF S(2), of 1] t(8) sb_decode by simp
  have files: "d_type (inode_at s' (of_nat (2 + k))) = T_FILE \<and> file_list s' (of_nat (2 + k)) = file_data (files ! k)" if "k < ?n" for k
  proof -
    have "(of_nat (2 + k) :: uint) \<in> made (2 + ?n) - {ROOTINO}"
      using made_new [of "2 + k"] that assms(2) by (auto simp: made_def)
    note kk = keptD(1,2) [OF S(2) this]
    show ?thesis using M that kk by (simp add: files_made_def)
  qed
  have "mkfs_main files s = Ok () s'" unfolding main using u e by simp
  then show ?thesis
    using S U(2,3) sb files fb fs_okD(5) [OF S(1)] unfolding layout_numbers by (intro exI [of _ s'] exI [of _ z]) simp
qed

text \<open>A program and a file of two reads.\<close>

definition demo_files :: "host_file list" where
  "demo_files = [(map of_char ''_cat'', Some [[127, 69], [76, 70, 1], [], [9]]), (map of_char ''README'', Some [replicate 512 88, [10]])]"

theorem mkfs_builds_file_system_witness:
  "\<exists>s'. mkfs_main demo_files image0 = Ok () s' \<and> unat (freeblock s') = 63 \<and> file_list s' 2 = [127, 69, 76, 70, 1]
     \<and> bit_used (img s') sb_layout 62 \<and> \<not> bit_used (img s') sb_layout 63"
proof -
  have d: "file_data (demo_files ! 0) = [127, 69, 76, 70, 1]" "length demo_files = 2"
    "length (file_data (demo_files ! 1)) = 513" by (simp_all add: demo_files_def file_data_def)
  have h: "\<forall>f \<in> set demo_files. can_hold f"
    by (simp add: demo_files_def can_hold_def can_store_def file_data_def sizes)
  have b: "file_blocks (32 + 16 * length demo_files) = 1" "data_blocks demo_files = 3"
    by (simp_all add: demo_files_def data_blocks_def file_data_def file_blocks_def sizes)
  obtain s' z where s': "mkfs_main demo_files image0 = Ok () s'" "unat (freeblock s') = nmeta + 1 + 3"
    and bit: "\<forall>b. unat b < MKFS_FSSIZE \<longrightarrow> (bit_used (img s') sb_layout b \<longleftrightarrow> unat b < unat (freeblock s'))"
    and f: "\<forall>k < 2. file_list s' (of_nat (2 + k)) = file_data (demo_files ! k)"
    using mkfs_builds_file_system [OF h, of image0] unfolding b unfolding d(2) by auto
  have "file_list s' 2 = [127, 69, 76, 70, 1]" using spec [OF f, of 0] d(1) by simp
  then show ?thesis using s' spec [OF bit, of 62] spec [OF bit, of 63] by (simp add: layout_numbers)
qed

end
