(* ===== verification/Spec2Isabelle.thy ===== *)
theory Spec2Isabelle
  imports Lottery Spinlock Locks Lifecycle Content Logspace Grep Shellprint Tools Mallocrun Ide Mp Mkfsmain
begin

text \<open>
  A verification development of xv6 for the x86 with a lottery scheduler: the kernel, its devices and
  the user programs, in C under src/.

  \<^bold>\<open>The program.\<close> The kernel runs processes (proc.c) in address spaces (vm.c) made of pages (kalloc.c).
  The scheduler draws a ticket in a lottery among the runnable processes; \<open>settickets\<close> and
  \<open>getpinfo\<close> are the system calls of the lab. Traps (trap.c, syscall.c, sysproc.c, sysfile.c) enter the kernel.
  Files (file.c), pipes (pipe.c) and the console (console.c, kbd.c, uart.c) are reached through descriptors.
  The file system (fs.c) stores inodes, directories and blocks through a log (log.c) over a buffer cache
  (bio.c), which uses a disk, in memory (memide.c) or on an IDE controller (ide.c). Spin locks and sleep locks
  (spinlock.c, sleeplock.c) protect shared data on several CPUs, which mp.c finds and lapic.c and ioapic.c
  interrupt. User programs use a small library (ulib.c, printf.c, umalloc.c).

  \<^bold>\<open>How code becomes definitions.\<close> A kernel function is a function from the state to an \<open>outcome\<close>
  (Kprelude): it returns (\<open>Ok\<close>), calls \<open>panic()\<close> (\<open>Panic\<close>), or gives up the CPU in the middle (\<open>Blocked\<close>);
  \<open>bnd\<close>, \<open>sqn\<close>, \<open>stmts\<close>, \<open>whenM\<close> and \<open>forM\<close> sequence statements. What follows a call of \<open>sleep\<close> is the operation with the
  suffix \<open>_resume\<close>. The state is a record that each layer extends: kbase (Ptable), kmem (Kalloc), kpipe (Pipe), ksleep
  (Sleeplock), kbio (Bio), klog (Log), kino (Inode), kcons (Console), kfile (File), kproc (Proc), and kdev (Device) on top of
  kcons for the devices; an operation is polymorphic in what is above its layer. Words have the width of the C
  type; \<open>i32\<close> writes out the wrap-around of a C \<open>int\<close> where it matters. Pointers into tables are
  indices, pages are byte stores. \<open>held\<close> is the list of spin locks of the running CPU; \<open>spinlock_refines_held\<close> derives
  this view from the lock words of all CPUs. A user program is a function of the replies of its system calls that
  records the calls (User).

  \<^bold>\<open>Theories and sources.\<close>

  \<^item> Kprelude: outcomes, invariants (\<open>keeps\<close>), 32-bit arithmetic, fields of byte stores (types.h).
  \<^item> Cstring: string.c and the strings of ulib.c, with the word-sized path of \<open>memset\<close> and the overlap of \<open>memmove\<close>.
  \<^item> Ptable, Lottery: the process table, \<open>random\<close>, the lottery, \<open>sched\<close>, \<open>sleep\<close>, \<open>wakeup\<close>, \<open>kill\<close>,
    \<open>settickets\<close>, \<open>fillpstat\<close> (proc.c, proc.h, pstat.h). Tickets select a process in proportion to their
    number, a round never idles while somebody holds a ticket, and the \<open>int\<close> total can wrap.
  \<^item> Spinlock: the steps of \<open>acquire\<close> and \<open>release\<close> on lock words, interleaved between CPUs: mutual exclusion
    with interrupts off, and the refinement to \<open>held\<close> (spinlock.c).
  \<^item> Kalloc: \<open>kinit1\<close>, \<open>kinit2\<close>, \<open>kalloc\<close>, \<open>kfree\<close>, with the free list threaded through the pages, and the
    locale \<open>page_allocator\<close>, interpreted on them (kalloc.c, memlayout.h).
  \<^item> Pipe: pipe.c; the ring refines a bounded queue (locale \<open>bounded_queue\<close>), and which wakeups are never lost.
  \<^item> Sleeplock: sleeplock.c; at most one owner in every run.
  \<^item> Bio, Bcache: bio.c, buf.h, memide.c; the cache is transparent, keeps one copy of a block and an LRU list.
  \<^item> Log, Commit, Logspace: log.c; a crash after any disk write of \<open>commit\<close> leaves the old or the new blocks, and
    the space \<open>begin_op\<close> reserves is one block more than the log has.
  \<^item> Inode, Fs, Blocks, Content: fs.c, fs.h, stat.h; the bitmap, the block map, reading and writing of files, and the round trip of an
    inode through the disk, for one process inside a transaction.
  \<^item> Kbd, Console: kbd.c, kbd.h, console.c, \<open>procdump\<close>, \<open>getcallerpcs\<close>.
  \<^item> File, Sysfile, Exec: file.c, file.h, sysfile.c, exec.c, elf.h, fcntl.h.
  \<^item> Vm, Proc, Uaccess, Trap: vm.c, mmu.h, the life of a process in proc.c, syscall.c, sysproc.c, trap.c. \<open>argptr\<close> and \<open>fetchstr\<close> accept only
    memory of the process.
  \<^item> Tables, Locks, Lifecycle: invariants of whole traps. Every path of every system call keeps the sizes and the types of the
    tables and releases the locks it takes; \<open>exit\<close> and \<open>wait\<close> do not miss each other.
  \<^item> Device: the ports and registers (x86.h), picirq.c, ioapic.c, lapic.c with the clock chip (date.h), uart.c. What devices
    answer is a stream for each port; theorems hold for all streams. The redirection table routes the enabled lines;
    \<open>cmostime\<close> never returns a torn date; the port-level transmitter refines the console's model of it.
  \<^item> Ide: ide.c; the queue is served in order and no wakeup is lost, whatever the processes and interrupts do, and
    every request finishes when the disk answers.
  \<^item> Mp: mp.c, mp.h; the processors of a well-formed table are found, and a bad entry is never reported.
  \<^item> User, Grep, Shell, Shellspec, Shellprint, Tools: ulib.c, printf.c, user.h, grep.c, sh.c, cat.c, echo.c, kill.c,
    ln.c, ls.c, mkdir.c, rm.c, wc.c, zombie.c, init.c, ps.c, forktest.c, stressfs.c, schedtest.c, tickettest.c. The shell's parser ends on
    every line and reads back every written command; grep prints exactly the lines of the language of its pattern.
  \<^item> Mkfs, Image, Mkfsmain: mkfs.c; when the files fit, by an exact count of blocks, it ends without an error, and the image has the superblock,
    the bitmap, the root directory and the files, read through the kernel's block map, with no block in two files.
  \<^item> Umalloc, Heap, Mallocrun: umalloc.c; the blocks in use are inside the memory that \<open>sbrk\<close> gave, large enough and disjoint in every run
    (locale \<open>block_allocator\<close>, interpreted on \<open>malloc\<close> and \<open>free\<close>).

  \<^bold>\<open>Bounds and fuel.\<close> \<open>scan_next\<close> and \<open>scan_prev\<close> follow the links of the buffer cache for \<open>NBUF + 1\<close> steps, which
  \<open>scan_next_list\<close> shows to reach the end. \<open>kill_line\<close> takes at most \<open>input.e - input.w\<close> steps. The parser of the shell has fuel
  \<open>4 * length + 4\<close>, proved to be enough for every line. \<open>while_sys\<close> runs a loop of a user program once for each reply left; each
  turn is shown to use one. The loop of mkfs over the bytes to append terminates because each turn stores at least one. Loops that may not end are partial functions with the result None: strings without a
  terminator, the ring of \<open>malloc\<close>, the polling of a device (\<open>poll\<close>, \<open>cmos_loop\<close>), the queue of the disk (\<open>q_end\<close>) and the table
  of processors (\<open>mp_loop\<close>); where the code is claimed to return, the theorems state it.

  \<^bold>\<open>Not modelled.\<close> The boot loader and the assembly (bootasm.S, bootmain.c, entry.S, entryother.S, swtch.S, trapasm.S, usys.S,
  initcode.S, vectors.pl): they run before the kernel or switch stacks, and the model cuts operations there. main.c and
  the descriptor tables of \<open>seginit\<close>, \<open>tvinit\<close> and \<open>idtinit\<close> set up processor structures that no modelled operation reads.
  usertests.c is a test driver outside the kernel. Of modelled files: the usage message of mkfs; the trace that \<open>panic\<close> prints; the memory that \<open>malloc\<close>
  gives the shell for its commands; the interrupt acknowledgement in \<open>trap\<close>.
\<close>

end
